(* ===== verification/Xv6_Prelude.thy ===== *)
theory Xv6_Prelude
  imports Main "HOL-Library.Word"
begin

text \<open>
  Shared vocabulary of the development: the machine integers of
  \<^verbatim>\<open>kernel/types.h\<close>, the result type of kernel code, raw byte storage with
  little-endian loads and stores, and generic lemmas on them.

  A C function that may panic, sleep or step outside an object returns an
  \<open>outcome\<close>.  \<open>Ok\<close> carries the value (and the new state), \<open>Panic m\<close> is a
  call of \<^verbatim>\<open>panic(m)\<close>, after which the machine stops, \<open>Blocked\<close> means that the
  calling kernel thread is asleep and makes no further step in this model,
  \<open>Fault\<close> is an access outside the object the C code owns: C leaves the
  behaviour undefined from there on, and \<open>Diverge\<close> is a loop that never ends.
\<close>

unbundle bit_operations_syntax

section \<open>Machine integers\<close>

type_synonym u8 = "8 word"
type_synonym u16 = "16 word"
type_synonym u32 = "32 word"
type_synonym u64 = "64 word"

lemma unat8_less: "unat (x :: u8) < 256"
  using unsigned_less [of x, where ?'a = nat] by simp

lemma unat16_less: "unat (x :: u16) < 2 ^ 16"
  using unsigned_less [of x, where ?'a = nat] by simp

lemma unat32_less: "unat (x :: u32) < 2 ^ 32"
  using unsigned_less [of x, where ?'a = nat] by simp

lemma unat64_less: "unat (x :: u64) < 2 ^ 64"
  using unsigned_less [of x, where ?'a = nat] by simp

lemma unat64_minus_1 [simp]: "unat (- 1 :: u64) = 2 ^ 64 - 1"
  by (simp add: unsigned_minus_1_eq_mask mask_eq_exp_minus_1)

lemma eq_add_of_nat_iff:
  "i < 2 ^ 64 \<Longrightarrow> (a = dst + of_nat i) = (unat (a - dst) = i)" for a dst :: u64
proof -
  assume i: "i < 2 ^ 64"
  have "(a = dst + of_nat i) = (a - dst = of_nat i)"
    by (simp add: diff_eq_eq add.commute)
  also have "\<dots> = (unat (a - dst) = i)"
    using i by (simp add: word_unat_eq_iff unat_of_nat)
  finally show ?thesis .
qed

lemma unat_diff_if:
  "unat (a - b) = (if b \<le> a then unat a - unat b else unat a + 2 ^ 64 - unat b)"
  for a b :: u64
  using unat64_less [of a] unat64_less [of b]
  by (simp add: unat_sub_if_size word_size word_le_nat_alt)

lemma unat_ucast_32_64 [simp]: "unat (ucast (n :: u32) :: u64) = unat n"
proof -
  have "unat n < 2 ^ 64" using unat32_less [of n] by simp
  then show ?thesis by (simp add: unsigned_ucast_eq take_bit_nat_eq_self)
qed

lemma of_nat32_eq_iff:
  "i < 2 ^ 32 \<Longrightarrow> j < 2 ^ 32 \<Longrightarrow> (of_nat i :: u32) = of_nat j \<longleftrightarrow> i = j"
  by (simp add: word_unat_eq_iff unat_of_nat)

lemma of_nat64_eq_iff:
  "i < 2 ^ 64 \<Longrightarrow> j < 2 ^ 64 \<Longrightarrow> (of_nat i :: u64) = of_nat j \<longleftrightarrow> i = j"
  by (simp add: word_unat_eq_iff unat_of_nat)

named_theorems run_simps
  \<open>equations that evaluate the kernel's operations symbolically\<close>

section \<open>Outcomes\<close>

datatype 'a outcome = Ok 'a | Panic string | Blocked | Fault | Diverge

fun obind :: "'a outcome \<Rightarrow> ('a \<Rightarrow> 'b outcome) \<Rightarrow> 'b outcome" where
  "obind (Ok x) f = f x"
| "obind (Panic m) f = Panic m"
| "obind Blocked f = Blocked"
| "obind Fault f = Fault"
| "obind Diverge f = Diverge"

lemma obind_cong [fundef_cong]:
  "m = m' \<Longrightarrow> (\<And>x. m' = Ok x \<Longrightarrow> f x = g x) \<Longrightarrow> obind m f = obind m' g"
  by (cases m') auto

lemma obind_Ok_iff: "obind m f = Ok y \<longleftrightarrow> (\<exists>x. m = Ok x \<and> f x = Ok y)"
  by (cases m) auto

lemma obind_OkE [elim!]:
  assumes "obind m f = Ok y"
  obtains x where "m = Ok x" and "f x = Ok y"
  using assms by (auto simp: obind_Ok_iff)

lemma obind_assoc: "obind (obind m f) g = obind m (\<lambda>x. obind (f x) g)"
  by (cases m) auto

lemma obind_Ok_right [simp]: "obind m Ok = m"
  by (cases m) auto

lemma obind_Fault_iff:
  "obind m f = Fault \<longleftrightarrow> m = Fault \<or> (\<exists>x. m = Ok x \<and> f x = Fault)"
  by (cases m) auto

lemma obind_Panic_iff:
  "obind m f = Panic msg \<longleftrightarrow> m = Panic msg \<or> (\<exists>x. m = Ok x \<and> f x = Panic msg)"
  by (cases m) auto

text \<open>Total correctness: the call returns, and its result satisfies \<open>Q\<close>.\<close>

definition returns :: "'a outcome \<Rightarrow> ('a \<Rightarrow> bool) \<Rightarrow> bool" where
  "returns m Q \<longleftrightarrow> (case m of Ok x \<Rightarrow> Q x | _ \<Rightarrow> False)"

lemma returns_iff: "returns m Q \<longleftrightarrow> (\<exists>x. m = Ok x \<and> Q x)"
  by (cases m) (auto simp: returns_def)

lemma returns_Ok [simp]: "returns (Ok x) Q = Q x"
  by (simp add: returns_def)

lemma returns_bind: "returns m (\<lambda>x. returns (f x) Q) \<Longrightarrow> returns (obind m f) Q"
  by (cases m) (auto simp: returns_def)

lemma returns_mono: "returns m P \<Longrightarrow> (\<And>x. P x \<Longrightarrow> Q x) \<Longrightarrow> returns m Q"
  by (auto simp: returns_iff)

section \<open>Raw bytes\<close>

text \<open>
  The storage of one C object (a block buffer, a struct, a string) is a function
  from byte offsets to bytes; the RISC-V machine is little-endian.
\<close>

type_synonym bytes = "nat \<Rightarrow> u8"

definition get16 :: "bytes \<Rightarrow> nat \<Rightarrow> u16" where
  "get16 d k = ucast (d k) OR push_bit 8 (ucast (d (k + 1)))"

definition put16 :: "bytes \<Rightarrow> nat \<Rightarrow> u16 \<Rightarrow> bytes" where
  "put16 d k v = d(k := ucast v, k + 1 := ucast (drop_bit 8 v))"

definition get32 :: "bytes \<Rightarrow> nat \<Rightarrow> u32" where
  "get32 d k = ucast (d k) OR push_bit 8 (ucast (d (k + 1)))
     OR push_bit 16 (ucast (d (k + 2))) OR push_bit 24 (ucast (d (k + 3)))"

definition put32 :: "bytes \<Rightarrow> nat \<Rightarrow> u32 \<Rightarrow> bytes" where
  "put32 d k v = d(k := ucast v, k + 1 := ucast (drop_bit 8 v),
     k + 2 := ucast (drop_bit 16 v), k + 3 := ucast (drop_bit 24 v))"

definition get64 :: "bytes \<Rightarrow> nat \<Rightarrow> u64" where
  "get64 d k = ucast (get32 d k) OR push_bit 32 (ucast (get32 d (k + 4)))"

definition put64 :: "bytes \<Rightarrow> nat \<Rightarrow> u64 \<Rightarrow> bytes" where
  "put64 d k v = put32 (put32 d k (ucast v)) (k + 4) (ucast (drop_bit 32 v))"

lemma get16_put16 [simp]: "get16 (put16 d k v) k = v"
  by (rule bit_word_eqI) (auto simp: get16_def put16_def bit_simps)

lemma get16_put16_other [simp]:
  "k + 2 \<le> j \<or> j + 2 \<le> k \<Longrightarrow> get16 (put16 d j v) k = get16 d k"
  by (auto simp: get16_def put16_def)

lemma get32_put32 [simp]: "get32 (put32 d k v) k = v"
proof (rule bit_word_eqI)
  fix n assume "n < LENGTH(32)"
  then show "bit (get32 (put32 d k v) k) n = bit v n"
    by (cases "n < 24"; cases "n < 16") (auto simp: get32_def put32_def bit_simps)
qed

lemma get32_put32_other [simp]:
  "k + 4 \<le> j \<or> j + 4 \<le> k \<Longrightarrow> get32 (put32 d j v) k = get32 d k"
  by (auto simp: get32_def put32_def)

lemma get32_put16_other [simp]:
  "k + 4 \<le> j \<or> j + 2 \<le> k \<Longrightarrow> get32 (put16 d j v) k = get32 d k"
  by (auto simp: get32_def put16_def)

lemma get16_put32_other [simp]:
  "k + 2 \<le> j \<or> j + 4 \<le> k \<Longrightarrow> get16 (put32 d j v) k = get16 d k"
  by (auto simp: get16_def put32_def)

lemma get32_cong: "(\<And>i. i < 4 \<Longrightarrow> d (k + i) = e (j + i)) \<Longrightarrow> get32 d k = get32 e j"
proof -
  assume eq: "\<And>i. i < 4 \<Longrightarrow> d (k + i) = e (j + i)"
  show ?thesis using eq [of 0] eq [of 1] eq [of 2] eq [of 3] by (simp add: get32_def)
qed

lemma get64_cong: "(\<And>i. i < 8 \<Longrightarrow> d (k + i) = e (j + i)) \<Longrightarrow> get64 d k = get64 e j"
proof -
  assume eq: "\<And>i. i < 8 \<Longrightarrow> d (k + i) = e (j + i)"
  have "get32 d k = get32 e j" by (rule get32_cong) (simp add: eq)
  moreover have "get32 d (k + 4) = get32 e (j + 4)"
  proof (rule get32_cong)
    fix i :: nat assume "i < 4"
    then show "d (k + 4 + i) = e (j + 4 + i)" using eq [of "4 + i"] by (simp add: add.assoc)
  qed
  ultimately show ?thesis by (simp add: get64_def)
qed

lemma get64_put64 [simp]: "get64 (put64 d k v) k = v"
proof -
  have "get64 (put64 d k v) k =
    ucast (ucast v :: u32) OR push_bit 32 (ucast (ucast (drop_bit 32 v) :: u32))"
    by (simp add: get64_def put64_def)
  also have "\<dots> = v"
    by (rule bit_word_eqI) (auto simp: bit_simps)
  finally show ?thesis .
qed

section \<open>Physical memory\<close>

text \<open>The flat physical memory of the machine, with 64-bit loads and stores.\<close>

type_synonym mem = "u64 \<Rightarrow> u8"

definition view :: "mem \<Rightarrow> u64 \<Rightarrow> bytes" where
  "view m a = (\<lambda>i. m (a + of_nat i))"

definition load64 :: "mem \<Rightarrow> u64 \<Rightarrow> u64" where
  "load64 m a = get64 (view m a) 0"

definition store64 :: "mem \<Rightarrow> u64 \<Rightarrow> u64 \<Rightarrow> mem" where
  "store64 m a v =
     (\<lambda>x. if unat (x - a) < 8 then put64 (\<lambda>_. 0) 0 v (unat (x - a)) else m x)"

lemma load64_cong:
  "(\<And>i. i < 8 \<Longrightarrow> m (a + of_nat i) = m' (a + of_nat i)) \<Longrightarrow> load64 m a = load64 m' a"
  unfolding load64_def view_def by (rule get64_cong) simp

lemma load64_store64 [simp]: "load64 (store64 m a v) a = v"
proof -
  have "load64 (store64 m a v) a = get64 (put64 (\<lambda>_. 0) 0 v) 0"
    unfolding load64_def view_def store64_def by (rule get64_cong) (simp add: unat_of_nat)
  then show ?thesis by simp
qed

end
