(* ===== verification/Xv6_String.thy ===== *)
theory Xv6_String
  imports Xv6_Prelude
begin

text \<open>
  \<^verbatim>\<open>kernel/string.c\<close>.  \<open>memset\<close> and \<open>memmove\<close> work on the flat physical memory
  \<open>mem\<close>, because their source and destination may overlap.  The string routines
  take each pointer argument as the bytes found from that pointer on, and the ones
  that store return the destination object afterwards.
\<close>

section \<open>memset and memmove\<close>

function memset_loop :: "mem \<Rightarrow> u64 \<Rightarrow> u8 \<Rightarrow> nat \<Rightarrow> nat \<Rightarrow> mem" where
  "memset_loop m dst c i n =
     (if i < n then memset_loop (m(dst + of_nat i := c)) dst c (Suc i) n else m)"
  by pat_completeness auto
termination
  by (relation "measure (\<lambda>(m, dst, c, i, n). n - i)") auto

declare memset_loop.simps [simp del]

definition memset :: "mem \<Rightarrow> u64 \<Rightarrow> u32 \<Rightarrow> u32 \<Rightarrow> mem" where
  "memset m dst c n = memset_loop m dst (ucast c) 0 (unat n)"

fun copy_fwd :: "mem \<Rightarrow> u64 \<Rightarrow> u64 \<Rightarrow> nat \<Rightarrow> mem" where
  "copy_fwd m d s 0 = m"
| "copy_fwd m d s (Suc n) = copy_fwd (m(d := m s)) (d + 1) (s + 1) n"

fun copy_bwd :: "mem \<Rightarrow> u64 \<Rightarrow> u64 \<Rightarrow> nat \<Rightarrow> mem" where
  "copy_bwd m d s 0 = m"
| "copy_bwd m d s (Suc n) = copy_bwd (m(d - 1 := m (s - 1))) (d - 1) (s - 1) n"

definition memmove :: "mem \<Rightarrow> u64 \<Rightarrow> u64 \<Rightarrow> u32 \<Rightarrow> mem" where
  "memmove m dst src n =
     (if n = 0 then m
      else if src < dst \<and> src + ucast n > dst
      then copy_bwd m (dst + ucast n) (src + ucast n) (unat n)
      else copy_fwd m dst src (unat n))"

definition memcpy :: "mem \<Rightarrow> u64 \<Rightarrow> u64 \<Rightarrow> u32 \<Rightarrow> mem" where
  "memcpy m dst src n = memmove m dst src n"

section \<open>Comparing and copying strings\<close>

fun memcmp_loop :: "bytes \<Rightarrow> bytes \<Rightarrow> nat \<Rightarrow> nat \<Rightarrow> int" where
  "memcmp_loop s1 s2 i 0 = 0"
| "memcmp_loop s1 s2 i (Suc n) =
     (if s1 i \<noteq> s2 i then uint (s1 i) - uint (s2 i) else memcmp_loop s1 s2 (Suc i) n)"

definition memcmp :: "bytes \<Rightarrow> bytes \<Rightarrow> u32 \<Rightarrow> int" where
  "memcmp v1 v2 n = memcmp_loop v1 v2 0 (unat n)"

fun strncmp_loop :: "bytes \<Rightarrow> bytes \<Rightarrow> nat \<Rightarrow> nat \<Rightarrow> int" where
  "strncmp_loop p q i 0 = 0"
| "strncmp_loop p q i (Suc n) =
     (if p i \<noteq> 0 \<and> p i = q i then strncmp_loop p q (Suc i) n
      else uint (p i) - uint (q i))"

definition strncmp :: "bytes \<Rightarrow> bytes \<Rightarrow> nat \<Rightarrow> int" where
  "strncmp p q n = strncmp_loop p q 0 n"

fun zero_fill :: "bytes \<Rightarrow> nat \<Rightarrow> nat \<Rightarrow> bytes" where
  "zero_fill s i 0 = s"
| "zero_fill s i (Suc n) = zero_fill (s(i := 0)) (Suc i) n"

fun strncpy_loop :: "bytes \<Rightarrow> bytes \<Rightarrow> nat \<Rightarrow> nat \<Rightarrow> bytes" where
  "strncpy_loop s t i 0 = s"
| "strncpy_loop s t i (Suc n) =
     (if t i \<noteq> 0 then strncpy_loop (s(i := t i)) t (Suc i) n
      else zero_fill (s(i := t i)) (Suc i) n)"

definition strncpy :: "bytes \<Rightarrow> bytes \<Rightarrow> int \<Rightarrow> bytes" where
  "strncpy s t n = strncpy_loop s t 0 (nat n)"

fun safestrcpy_loop :: "bytes \<Rightarrow> bytes \<Rightarrow> nat \<Rightarrow> nat \<Rightarrow> bytes" where
  "safestrcpy_loop s t i 0 = s(i := 0)"
| "safestrcpy_loop s t i (Suc n) =
     (if t i \<noteq> 0 then safestrcpy_loop (s(i := t i)) t (Suc i) n
      else s(i := 0, Suc i := 0))"

definition safestrcpy :: "bytes \<Rightarrow> bytes \<Rightarrow> int \<Rightarrow> bytes" where
  "safestrcpy s t n = (if n \<le> 0 then s else safestrcpy_loop s t 0 (nat n - 1))"

partial_function (option) strlen_from :: "bytes \<Rightarrow> nat \<Rightarrow> nat option" where
  "strlen_from s n = (if s n \<noteq> 0 then strlen_from s (Suc n) else Some n)"

definition strlen :: "bytes \<Rightarrow> nat option" where
  "strlen s = strlen_from s 0"

section \<open>memset and memmove set exactly the bytes they name\<close>

lemma memset_loop_eq:
  "n \<le> 2 ^ 64 \<Longrightarrow> memset_loop m dst c i n =
     (\<lambda>a. if i \<le> unat (a - dst) \<and> unat (a - dst) < n then c else m a)"
proof (induction m dst c i n rule: memset_loop.induct)
  case (1 m dst c i n)
  show ?case
  proof (cases "i < n")
    case True
    then have upd: "(a = dst + of_nat i) = (unat (a - dst) = i)" for a
      using 1(2) by (intro eq_add_of_nat_iff) simp
    show ?thesis
    proof
      fix a
      have "memset_loop m dst c i n a = memset_loop (m(dst + of_nat i := c)) dst c (Suc i) n a"
        using True by (simp add: memset_loop.simps [of m dst c i n])
      also have "\<dots> = (if i \<le> unat (a - dst) \<and> unat (a - dst) < n then c else m a)"
        using True upd [of a] unfolding 1(1) [OF True 1(2)] by auto
      finally show "memset_loop m dst c i n a =
        (if i \<le> unat (a - dst) \<and> unat (a - dst) < n then c else m a)" .
    qed
  next
    case False
    then show ?thesis by (auto simp: memset_loop.simps [of m dst c i n] fun_eq_iff)
  qed
qed

lemma memset_apply:
  "memset m dst c n a = (if unat (a - dst) < unat n then ucast c else m a)"
proof -
  have "unat n \<le> 2 ^ 64" using unat32_less [of n] by simp
  then show ?thesis by (simp add: memset_def memset_loop_eq)
qed

lemma copy_fwd_apply:
  "n < 2 ^ 64 \<Longrightarrow> unat (d - s) = 0 \<or> n \<le> unat (d - s) \<Longrightarrow>
     copy_fwd m d s n a = (if unat (a - d) < n then m (s + (a - d)) else m a)"
proof (induction n arbitrary: m d s)
  case 0
  then show ?case by simp
next
  case (Suc n)
  define x where "x = a - d"
  have a: "a = d + x" by (simp add: x_def)
  have IH: "copy_fwd (m(d := m s)) (d + 1) (s + 1) n a =
    (if unat (a - (d + 1)) < n then (m(d := m s)) (s + 1 + (a - (d + 1))) else (m(d := m s)) a)"
    using Suc.prems by (intro Suc.IH) auto
  have xm: "a - (d + 1) = x - 1" "s + 1 + (a - (d + 1)) = s + x" by (simp_all add: a)
  show ?case
  proof (cases "x = 0")
    case True
    with Suc.prems IH xm a show ?thesis by simp
  next
    case False
    then have ux: "unat (x - 1) = unat x - 1" "0 < unat x"
      by (simp_all add: unat_minus_one unat_gt_0)
    have "s + x \<noteq> d" if "unat x < Suc n"
    proof
      assume "s + x = d"
      then have "d - s = x" by auto
      with Suc.prems(2) ux that show False by auto
    qed
    then show ?thesis
      using IH False ux by (auto simp: xm a)
  qed
qed

lemma copy_bwd_apply:
  "n < 2 ^ 64 - 1 \<Longrightarrow> unat (s - d) = 0 \<or> n \<le> unat (s - d) \<Longrightarrow>
     copy_bwd m d s n a =
       (if 0 < unat (d - a) \<and> unat (d - a) \<le> n then m (s - (d - a)) else m a)"
proof (induction n arbitrary: m d s)
  case 0
  then show ?case by auto
next
  case (Suc n)
  define y where "y = d - a"
  have a: "a = d - y" by (simp add: y_def)
  have IH: "copy_bwd (m(d - 1 := m (s - 1))) (d - 1) (s - 1) n a =
    (if 0 < unat (d - 1 - a) \<and> unat (d - 1 - a) \<le> n
     then (m(d - 1 := m (s - 1))) (s - 1 - (d - 1 - a)) else (m(d - 1 := m (s - 1))) a)"
    using Suc.prems by (intro Suc.IH) auto
  have ym: "d - 1 - a = y - 1" "s - 1 - (d - 1 - a) = s - y" by (simp_all add: a)
  show ?case
  proof (cases "y = 0")
    case True
    with Suc.prems IH ym a show ?thesis by simp
  next
    case False
    then have uy: "unat (y - 1) = unat y - 1" "0 < unat y"
      by (simp_all add: unat_minus_one unat_gt_0)
    have "s - y \<noteq> d - 1" if "1 < unat y" "unat y \<le> Suc n"
    proof
      assume "s - y = d - 1"
      then have "s - d = y - 1" by (simp add: algebra_simps)
      with Suc.prems(2) uy that show False by auto
    qed
    moreover have "(d - y = d - 1) = (unat y = 1)"
    proof -
      have "(d - y = d - 1) = (y = 1)" by (auto dest: diff_left_imp_eq)
      then show ?thesis by (simp add: word_unat_eq_iff)
    qed
    ultimately show ?thesis
      using IH False uy by (auto simp: ym a)
  qed
qed

text \<open>
  The central fact about \<open>memmove\<close>: whatever the overlap, afterwards the
  destination holds what the source held before, and every other byte is unchanged.
  The only condition is that the source does not run over the end of the address
  space.
\<close>

lemma memmove_apply:
  assumes src: "unat src + unat n < 2 ^ 64"
  shows "memmove m dst src n a =
    (if unat (a - dst) < unat n then m (src + (a - dst)) else m a)"
proof (cases "n = 0")
  case True
  then show ?thesis by (simp add: memmove_def)
next
  case n0: False
  have un: "unat (ucast n :: u64) = unat n" "unat n < 2 ^ 32"
    using unat32_less [of n] by simp_all
  have sn: "unat (src + ucast n) = unat src + unat n"
    using src un by (simp add: unat_plus_if')
  have lt: "unat src < 2 ^ 64" "unat dst < 2 ^ 64"
    by (rule unat64_less)+
  show ?thesis
  proof (cases "src < dst \<and> src + ucast n > dst")
    case True
    then have sd: "unat src < unat dst" "unat dst < unat src + unat n"
      using sn by (simp_all add: word_less_nat_alt)
    have "copy_bwd m (dst + ucast n) (src + ucast n) (unat n) a =
      (if 0 < unat (dst + ucast n - a) \<and> unat (dst + ucast n - a) \<le> unat n
       then m (src + ucast n - (dst + ucast n - a)) else m a)"
    proof (rule copy_bwd_apply)
      show "unat n < 2 ^ 64 - 1" using un by simp
      show "unat (src + ucast n - (dst + ucast n)) = 0 \<or>
            unat n \<le> unat (src + ucast n - (dst + ucast n))"
        using sd un lt by (simp add: unat_diff_if word_le_nat_alt)
    qed
    moreover have "(0 < unat (dst + ucast n - a) \<and> unat (dst + ucast n - a) \<le> unat n)
        = (unat (a - dst) < unat n)"
    proof -
      define x where "x = a - dst"
      have eq: "dst + ucast n - a = ucast n - x" by (simp add: x_def)
      have "unat x < 2 ^ 64" by (rule unat64_less)
      then show ?thesis
        using un unfolding eq x_def [symmetric] by (auto simp: unat_diff_if word_le_nat_alt)
    qed
    moreover have "src + ucast n - (dst + ucast n - a) = src + (a - dst)" by simp
    ultimately show ?thesis
      using True n0 by (simp add: memmove_def)
  next
    case False
    have "unat (dst - src) = 0 \<or> unat n \<le> unat (dst - src)"
      using False sn src lt
      by (auto simp: unat_diff_if word_less_nat_alt word_le_nat_alt)
    then have "copy_fwd m dst src (unat n) a =
        (if unat (a - dst) < unat n then m (src + (a - dst)) else m a)"
      using un by (intro copy_fwd_apply) auto
    then show ?thesis using False n0 by (auto simp: memmove_def)
  qed
qed

section \<open>Bounded strings\<close>

text \<open>The C string of at most \<open>n\<close> characters that starts at a pointer.\<close>

definition cstrn :: "nat \<Rightarrow> bytes \<Rightarrow> u8 list" where
  "cstrn n p = takeWhile (\<lambda>c. c \<noteq> 0) (map p [0..<n])"

lemma takeWhile_upt_Suc:
  "takeWhile P (map p [i..<i + Suc n]) =
     (if P (p i) then p i # takeWhile P (map p [Suc i..<Suc i + n]) else [])"
  by (simp add: upt_conv_Cons del: upt_Suc)

lemma strncmp_loop_eq_0:
  "strncmp_loop p q i n = 0 \<longleftrightarrow>
     takeWhile (\<lambda>c. c \<noteq> 0) (map p [i..<i + n]) = takeWhile (\<lambda>c. c \<noteq> 0) (map q [i..<i + n])"
proof (induction n arbitrary: i)
  case 0
  then show ?case by simp
next
  case (Suc n)
  have "uint (p i) - uint (q i) = 0 \<longleftrightarrow> p i = q i" by (simp add: word_uint_eq_iff)
  then show ?case
    unfolding takeWhile_upt_Suc using Suc.IH [of "Suc i"] by auto
qed

lemma strncmp_eq_0_iff: "strncmp p q n = 0 \<longleftrightarrow> cstrn n p = cstrn n q"
  using strncmp_loop_eq_0 [of p q 0 n] by (simp add: strncmp_def cstrn_def)

lemma zero_fill_apply:
  "zero_fill s i n j = (if i \<le> j \<and> j < i + n then 0 else s j)"
  by (induction n arbitrary: s i) auto

lemma strncpy_loop_other: "j < i \<or> i + n \<le> j \<Longrightarrow> strncpy_loop s t i n j = s j"
  by (induction n arbitrary: s i) (auto simp: zero_fill_apply)

lemma strncpy_loop_apply:
  "i \<le> j \<Longrightarrow> j < i + n \<Longrightarrow>
     strncpy_loop s t i n j = (if \<forall>k. i \<le> k \<and> k < j \<longrightarrow> t k \<noteq> 0 then t j else 0)"
proof (induction n arbitrary: s i)
  case 0
  then show ?case by simp
next
  case (Suc n)
  show ?case
  proof (cases "j = i")
    case True
    then show ?thesis by (auto simp: strncpy_loop_other zero_fill_apply)
  next
    case False
    with Suc.prems have j: "Suc i \<le> j" "j < Suc i + n" by auto
    show ?thesis
    proof (cases "t i = 0")
      case True
      then show ?thesis using j by (auto simp: zero_fill_apply)
    next
      case False
      have "(\<forall>k. i \<le> k \<and> k < j \<longrightarrow> t k \<noteq> 0) \<longleftrightarrow> (\<forall>k. Suc i \<le> k \<and> k < j \<longrightarrow> t k \<noteq> 0)"
        using False by (auto simp: Suc_le_eq) (metis le_neq_implies_less)
      then show ?thesis using Suc.IH [OF j] False by simp
    qed
  qed
qed

lemma strncpy_apply:
  "strncpy s t (int n) j =
     (if j < n then (if \<forall>k<j. t k \<noteq> 0 then t j else 0) else s j)"
  by (simp add: strncpy_def strncpy_loop_apply strncpy_loop_other)

lemma takeWhile_agree:
  assumes "\<And>j. i \<le> j \<Longrightarrow> j < i + n \<Longrightarrow> \<forall>k. i \<le> k \<and> k < j \<longrightarrow> t k \<noteq> 0 \<Longrightarrow> p j = t j"
  shows "takeWhile (\<lambda>c. c \<noteq> (0::u8)) (map p [i..<i + n]) =
    takeWhile (\<lambda>c. c \<noteq> 0) (map t [i..<i + n])"
  using assms
proof (induction n arbitrary: i)
  case 0
  then show ?case by simp
next
  case (Suc n)
  have pi: "p i = t i" by (rule Suc.prems) auto
  show ?case
  proof (cases "t i = 0")
    case True
    then show ?thesis by (simp only: takeWhile_upt_Suc pi) simp
  next
    case False
    have "takeWhile (\<lambda>c. c \<noteq> 0) (map p [Suc i..<Suc i + n]) =
        takeWhile (\<lambda>c. c \<noteq> 0) (map t [Suc i..<Suc i + n])"
    proof (rule Suc.IH)
      fix j assume j: "Suc i \<le> j" "j < Suc i + n" "\<forall>k. Suc i \<le> k \<and> k < j \<longrightarrow> t k \<noteq> 0"
      have "\<forall>k. i \<le> k \<and> k < j \<longrightarrow> t k \<noteq> 0"
        using j(3) False by (auto simp: Suc_le_eq) (metis le_neq_implies_less)
      then show "p j = t j" using j Suc.prems [of j] by simp
    qed
    then show ?thesis by (simp only: takeWhile_upt_Suc pi)
  qed
qed

lemma cstrn_agree:
  "(\<And>j. j < n \<Longrightarrow> \<forall>k<j. t k \<noteq> 0 \<Longrightarrow> p j = t j) \<Longrightarrow> cstrn n p = cstrn n t"
  using takeWhile_agree [of 0 n t p] by (simp add: cstrn_def)

lemma cstrn_strncpy: "cstrn n (strncpy s t (int n)) = cstrn n t"
  by (rule cstrn_agree) (simp add: strncpy_apply)

lemma cstrn_eq_self: "\<forall>k<n. p k \<noteq> 0 \<Longrightarrow> cstrn n p = map p [0..<n]"
  by (auto simp: cstrn_def)

lemma cstrn_cut:
  assumes "k < n" "p k = 0"
  shows "cstrn n p = cstrn k p"
proof -
  have "[0..<n] = [0..<k] @ [k..<n]"
    using assms upt_add_eq_append [of 0 k "n - k"] by simp
  also have "[k..<n] = k # [Suc k..<n]" using assms(1) by (rule upt_conv_Cons)
  finally show ?thesis
    using assms(2) by (auto simp: cstrn_def takeWhile_append
        intro!: sym [OF iffD2 [OF takeWhile_eq_all_conv]])
qed

lemma safestrcpy_loop_other: "j < i \<or> i + n < j \<Longrightarrow> safestrcpy_loop s t i n j = s j"
  by (induction n arbitrary: s i) auto

lemma safestrcpy_loop_copied:
  "i \<le> j \<Longrightarrow> j \<le> i + n \<Longrightarrow> \<forall>k. i \<le> k \<and> k < j \<longrightarrow> t k \<noteq> 0 \<Longrightarrow>
     safestrcpy_loop s t i n j = (if j < i + n then t j else 0)"
proof (induction n arbitrary: s i)
  case 0
  then show ?case by auto
next
  case (Suc n)
  show ?case
  proof (cases "j = i")
    case True
    then show ?thesis by (simp add: safestrcpy_loop_other)
  next
    case False
    with Suc.prems have t: "t i \<noteq> 0" and j: "Suc i \<le> j" "j \<le> Suc i + n"
      "\<forall>k. Suc i \<le> k \<and> k < j \<longrightarrow> t k \<noteq> 0" by auto
    show ?thesis using t Suc.IH [OF j] by simp
  qed
qed

lemma safestrcpy_bound: "int j \<ge> n \<Longrightarrow> safestrcpy s t n j = s j"
  by (auto simp: safestrcpy_def safestrcpy_loop_other)

lemma cstrn_safestrcpy:
  assumes "0 < n"
  shows "cstrn n (safestrcpy s t (int n)) = cstrn (n - 1) t"
proof -
  let ?p = "safestrcpy s t (int n)"
  have p: "?p = safestrcpy_loop s t 0 (n - 1)"
    using assms by (simp add: safestrcpy_def)
  have eq: "?p j = t j" if "j < n - 1" "\<forall>k<j. t k \<noteq> 0" for j
    using that by (simp add: p safestrcpy_loop_copied)
  have agree: "cstrn (n - 1) ?p = cstrn (n - 1) t"
    by (rule cstrn_agree) (rule eq)
  show ?thesis
  proof (cases "\<forall>k<n - 1. t k \<noteq> 0")
    case True
    then have "?p (n - 1) = 0"
      by (simp add: p safestrcpy_loop_copied)
    then have "cstrn n ?p = cstrn (n - 1) ?p"
      using assms by (intro cstrn_cut) auto
    with agree show ?thesis by simp
  next
    case False
    then obtain k where k: "k < n - 1" "t k = 0" "\<forall>i<k. t i \<noteq> 0"
      using exists_least_iff [of "\<lambda>k. k < n - 1 \<and> t k = 0"] by (metis less_trans)
    have "?p k = 0" using eq [of k] k by simp
    then have "cstrn n ?p = cstrn k ?p" "cstrn (n - 1) ?p = cstrn k ?p"
      using k assms by (auto intro!: cstrn_cut)
    with agree show ?thesis by simp
  qed
qed

lemma strlen_from_eq:
  "s n = 0 \<Longrightarrow> i \<le> n \<Longrightarrow> \<forall>k. i \<le> k \<and> k < n \<longrightarrow> s k \<noteq> 0 \<Longrightarrow> strlen_from s i = Some n"
proof (induction "n - i" arbitrary: i)
  case 0
  then show ?case by (simp add: strlen_from.simps)
next
  case (Suc d)
  then have "s i \<noteq> 0" "strlen_from s (Suc i) = Some n" by auto
  then show ?case by (simp add: strlen_from.simps [of s i])
qed

lemma strlen_eq: "s n = 0 \<Longrightarrow> \<forall>k<n. s k \<noteq> 0 \<Longrightarrow> strlen s = Some n"
  by (simp add: strlen_def strlen_from_eq)

section \<open>Properties\<close>

text \<open>\<open>memmove\<close> copies correctly for every overlap of source and destination:
  afterwards the \<open>n\<close> bytes at \<open>dst\<close> are the \<open>n\<close> bytes that were at \<open>src\<close>, and
  no other byte of memory has changed.  The source range must not run past the end of
  the address space.\<close>

theorem memmove_correct:
  assumes "unat src + unat n < 2 ^ 64"
  shows "memmove m dst src n =
    (\<lambda>a. if unat (a - dst) < unat n then m (src + (a - dst)) else m a)"
  using assms by (simp add: memmove_apply fun_eq_iff)

theorem memmove_correct_witness:
  "memmove (\<lambda>a. ucast a) 101 100 3 103 = (102 :: u8) \<and>
   memmove (\<lambda>a. ucast a) 101 100 3 104 = (104 :: u8)"
  using memmove_correct [of 100 3 "\<lambda>a. ucast a" 101] by simp


end
