(* ===== verification/Xv6_Lock.thy ===== *)
theory Xv6_Lock
  imports Xv6_Prelude
begin

text \<open>
  \<^verbatim>\<open>kernel/spinlock.c\<close> and \<^verbatim>\<open>kernel/sleeplock.c\<close>.  The spin lock is modelled twice:
  as the functions the code has, run by one CPU to completion, and as a step relation
  in which the CPUs' individual memory operations (the atomic swap, the two stores to
  \<^verbatim>\<open>lk->cpu\<close> and \<^verbatim>\<open>lk->locked\<close>, the interrupt bookkeeping) interleave freely.
\<close>

section \<open>State\<close>

text \<open>\<^verbatim>\<open>struct spinlock\<close>, and the fields of \<^verbatim>\<open>struct cpu\<close> the lock code uses;
  \<open>c_intr\<close> is the interrupt-enable bit \<^verbatim>\<open>SSTATUS_SIE\<close> of the hart.\<close>

record spinlock =
  lk_locked :: bool
  lk_name :: string
  lk_cpu :: "nat option"

record cpu =
  c_noff :: int
  c_intena :: bool
  c_intr :: bool

record sleeplock =
  sl_locked :: bool
  sl_lk :: spinlock
  sl_name :: string
  sl_pid :: nat

section \<open>Spin lock operations\<close>

definition initlock :: "spinlock \<Rightarrow> string \<Rightarrow> spinlock" where
  "initlock lk name = lk\<lparr>lk_name := name, lk_locked := False, lk_cpu := None\<rparr>"

definition holding :: "spinlock \<Rightarrow> nat \<Rightarrow> bool" where
  "holding lk c \<longleftrightarrow> lk_locked lk \<and> lk_cpu lk = Some c"

definition push_off :: "cpu \<Rightarrow> cpu" where
  "push_off c =
     (let old = c_intr c;
          c = c\<lparr>c_intr := False\<rparr>;
          c = (if c_noff c = 0 then c\<lparr>c_intena := old\<rparr> else c)
      in c\<lparr>c_noff := c_noff c + 1\<rparr>)"

definition pop_off :: "cpu \<Rightarrow> cpu outcome" where
  "pop_off c =
     (if c_intr c then Panic ''pop_off - interruptible''
      else if c_noff c < 1 then Panic ''pop_off''
      else let c = c\<lparr>c_noff := c_noff c - 1\<rparr>
           in Ok (if c_noff c = 0 \<and> c_intena c then c\<lparr>c_intr := True\<rparr> else c))"

text \<open>A lock that is taken makes \<open>acquire\<close> spin; the calling CPU makes no progress.\<close>

definition acquire :: "nat \<Rightarrow> cpu \<Rightarrow> spinlock \<Rightarrow> (cpu \<times> spinlock) outcome" where
  "acquire me c lk =
     (let c = push_off c
      in if holding lk me then Panic ''acquire''
         else if lk_locked lk then Blocked
         else Ok (c, lk\<lparr>lk_locked := True, lk_cpu := Some me\<rparr>))"

definition release :: "nat \<Rightarrow> cpu \<Rightarrow> spinlock \<Rightarrow> (cpu \<times> spinlock) outcome" where
  "release me c lk =
     (if \<not> holding lk me then Panic ''release''
      else let lk = lk\<lparr>lk_cpu := None\<rparr>;
               lk = lk\<lparr>lk_locked := False\<rparr>
           in obind (pop_off c) (\<lambda>c. Ok (c, lk)))"

section \<open>Sleep lock operations\<close>

text \<open>
  The inner spin lock of a sleep lock is held only inside these three functions, so
  each is one atomic step.  A sleep lock that is taken puts the caller to sleep.
\<close>

definition initsleeplock :: "sleeplock \<Rightarrow> string \<Rightarrow> sleeplock" where
  "initsleeplock lk name =
     lk\<lparr>sl_lk := initlock (sl_lk lk) ''sleep lock'', sl_name := name,
        sl_locked := False, sl_pid := 0\<rparr>"

definition acquiresleep :: "nat \<Rightarrow> sleeplock \<Rightarrow> sleeplock outcome" where
  "acquiresleep pid lk =
     (if sl_locked lk then Blocked else Ok (lk\<lparr>sl_locked := True, sl_pid := pid\<rparr>))"

definition releasesleep :: "sleeplock \<Rightarrow> sleeplock" where
  "releasesleep lk = lk\<lparr>sl_locked := False, sl_pid := 0\<rparr>"

definition holdingsleep :: "nat \<Rightarrow> sleeplock \<Rightarrow> bool" where
  "holdingsleep pid lk \<longleftrightarrow> sl_locked lk \<and> sl_pid lk = pid"

lemma holdingsleep_acquiresleep [simp]:
  "acquiresleep pid lk = Ok lk' \<Longrightarrow> holdingsleep q lk' = (q = pid)"
  by (auto simp: acquiresleep_def holdingsleep_def split: if_splits)

lemma acquiresleep_free: "\<not> sl_locked lk \<Longrightarrow> acquiresleep pid lk = Ok (lk\<lparr>sl_locked := True, sl_pid := pid\<rparr>)"
  by (simp add: acquiresleep_def)

section \<open>Interleaving CPUs\<close>

text \<open>
  Where each CPU stands in \<open>acquire\<close> or \<open>release\<close> of one lock.  \<open>Spin\<close> is the
  test-and-set loop, \<open>Got\<close> is after the swap returned 0 and before
  \<^verbatim>\<open>lk->cpu = mycpu()\<close>, \<open>Rel\<close> is after \<^verbatim>\<open>lk->cpu = 0\<close>, \<open>Off\<close> is after the
  lock word was cleared and before \<^verbatim>\<open>pop_off()\<close>.
\<close>

datatype lockpc = Idle | Spin | Got | Crit | Rel | Off

record smp =
  s_cpus :: "nat \<Rightarrow> cpu"
  s_lk :: spinlock
  s_pc :: "nat \<Rightarrow> lockpc"

inductive smp_step :: "smp \<Rightarrow> smp \<Rightarrow> bool" where
  acquire_enter: "s_pc s c = Idle \<Longrightarrow> \<not> holding (s_lk s) c \<Longrightarrow>
     smp_step s (s\<lparr>s_cpus := (s_cpus s)(c := push_off (s_cpus s c)), s_pc := (s_pc s)(c := Spin)\<rparr>)"
| spin: "s_pc s c = Spin \<Longrightarrow> lk_locked (s_lk s) \<Longrightarrow> smp_step s s"
| swap: "s_pc s c = Spin \<Longrightarrow> \<not> lk_locked (s_lk s) \<Longrightarrow>
     smp_step s (s\<lparr>s_lk := (s_lk s)\<lparr>lk_locked := True\<rparr>, s_pc := (s_pc s)(c := Got)\<rparr>)"
| set_cpu: "s_pc s c = Got \<Longrightarrow>
     smp_step s (s\<lparr>s_lk := (s_lk s)\<lparr>lk_cpu := Some c\<rparr>, s_pc := (s_pc s)(c := Crit)\<rparr>)"
| release_enter: "s_pc s c = Crit \<Longrightarrow> holding (s_lk s) c \<Longrightarrow>
     smp_step s (s\<lparr>s_lk := (s_lk s)\<lparr>lk_cpu := None\<rparr>, s_pc := (s_pc s)(c := Rel)\<rparr>)"
| unlock: "s_pc s c = Rel \<Longrightarrow>
     smp_step s (s\<lparr>s_lk := (s_lk s)\<lparr>lk_locked := False\<rparr>, s_pc := (s_pc s)(c := Off)\<rparr>)"
| pop: "s_pc s c = Off \<Longrightarrow> pop_off (s_cpus s c) = Ok cc \<Longrightarrow>
     smp_step s (s\<lparr>s_cpus := (s_cpus s)(c := cc), s_pc := (s_pc s)(c := Idle)\<rparr>)"
| set_intr: "s_pc s c = Idle \<Longrightarrow> c_noff (s_cpus s c) = 0 \<Longrightarrow>
     smp_step s (s\<lparr>s_cpus := (s_cpus s)(c := (s_cpus s c)\<lparr>c_intr := b\<rparr>)\<rparr>)"

text \<open>At boot no CPU holds the lock and none has disabled interrupts by nesting.\<close>

definition smp_boot :: "smp \<Rightarrow> bool" where
  "smp_boot s \<longleftrightarrow> (\<exists>lk name. s_lk s = initlock lk name) \<and>
     (\<forall>c. s_pc s c = Idle \<and> c_noff (s_cpus s c) = 0)"

inductive smp_reach :: "smp \<Rightarrow> smp \<Rightarrow> bool" for s0 where
  start: "smp_reach s0 s0"
| step: "smp_reach s0 s \<Longrightarrow> smp_step s t \<Longrightarrow> smp_reach s0 t"

section \<open>The lock invariant\<close>

text \<open>A CPU owns the lock from the successful swap until it clears the lock word.\<close>

definition owns :: "smp \<Rightarrow> nat \<Rightarrow> bool" where
  "owns s c \<longleftrightarrow> s_pc s c \<in> {Got, Crit, Rel}"

definition owner_ok :: "smp \<Rightarrow> nat option \<Rightarrow> bool" where
  "owner_ok s ow \<longleftrightarrow> (\<forall>c. owns s c \<longleftrightarrow> ow = Some c) \<and> (lk_locked (s_lk s) \<longleftrightarrow> ow \<noteq> None)"

definition holder_ok :: "smp \<Rightarrow> bool" where
  "holder_ok s \<longleftrightarrow> (\<forall>c. lk_cpu (s_lk s) = Some c \<longleftrightarrow> s_pc s c = Crit)"

definition intr_ok :: "smp \<Rightarrow> bool" where
  "intr_ok s \<longleftrightarrow> (\<forall>c. (s_pc s c = Idle \<longrightarrow> c_noff (s_cpus s c) = 0) \<and>
     (s_pc s c \<noteq> Idle \<longrightarrow> c_noff (s_cpus s c) = 1 \<and> \<not> c_intr (s_cpus s c)))"

definition smp_inv :: "smp \<Rightarrow> bool" where
  "smp_inv s \<longleftrightarrow> (\<exists>ow. owner_ok s ow) \<and> holder_ok s \<and> intr_ok s"

lemma smp_inv_boot: "smp_boot s \<Longrightarrow> smp_inv s"
  by (auto simp: smp_boot_def smp_inv_def owner_ok_def holder_ok_def intr_ok_def owns_def
      initlock_def intro!: exI [of _ None])

lemma owner_unique:
  assumes "owner_ok s ow" and "owns s c" and "d \<noteq> c"
  shows "s_pc s d \<noteq> Got \<and> s_pc s d \<noteq> Crit \<and> s_pc s d \<noteq> Rel"
proof -
  have "\<not> owns s d" using assms by (simp add: owner_ok_def)
  then show ?thesis by (simp add: owns_def)
qed

lemma owner_ok_step:
  "smp_step s t \<Longrightarrow> owner_ok s ow \<Longrightarrow> \<exists>ow'. owner_ok t ow'"
proof (induction rule: smp_step.induct)
  case (swap s c)
  then show ?case by (intro exI [of _ "Some c"]) (auto simp: owner_ok_def owns_def)
next
  case (unlock s c)
  have "d \<noteq> c \<Longrightarrow> s_pc s d \<noteq> Got \<and> s_pc s d \<noteq> Crit \<and> s_pc s d \<noteq> Rel" for d
    using unlock by (intro owner_unique [of s ow c]) (auto simp: owns_def)
  then show ?case by (intro exI [of _ None]) (auto simp: owner_ok_def owns_def)
qed (force simp: owner_ok_def owns_def intro!: exI [of _ ow])+

lemma holder_ok_step:
  "smp_step s t \<Longrightarrow> owner_ok s ow \<Longrightarrow> holder_ok s \<Longrightarrow> holder_ok t"
proof (induction rule: smp_step.induct)
  case (set_cpu s c)
  have "d \<noteq> c \<Longrightarrow> s_pc s d \<noteq> Got \<and> s_pc s d \<noteq> Crit \<and> s_pc s d \<noteq> Rel" for d
    using set_cpu by (intro owner_unique [of s ow c]) (auto simp: owns_def)
  then show ?case by (auto simp: holder_ok_def)
next
  case (release_enter s c)
  have "d \<noteq> c \<Longrightarrow> s_pc s d \<noteq> Got \<and> s_pc s d \<noteq> Crit \<and> s_pc s d \<noteq> Rel" for d
    using release_enter by (intro owner_unique [of s ow c]) (auto simp: owns_def)
  then show ?case by (auto simp: holder_ok_def)
qed (auto simp: holder_ok_def)

lemma intr_ok_step: "smp_step s t \<Longrightarrow> intr_ok s \<Longrightarrow> intr_ok t"
proof (induction rule: smp_step.induct)
  case (pop s c cc)
  then show ?case by (auto simp: intr_ok_def pop_off_def Let_def split: if_splits)
qed (auto simp: intr_ok_def push_off_def Let_def)

lemma smp_inv_step: "smp_step s t \<Longrightarrow> smp_inv s \<Longrightarrow> smp_inv t"
  unfolding smp_inv_def by (blast intro: owner_ok_step holder_ok_step intr_ok_step)

lemma smp_inv_reach: "smp_reach s0 s \<Longrightarrow> smp_boot s0 \<Longrightarrow> smp_inv s"
  by (induction rule: smp_reach.induct) (auto intro: smp_inv_boot smp_inv_step)

section \<open>Properties\<close>


definition boot0 :: smp where
  "boot0 = \<lparr>s_cpus = (\<lambda>_. \<lparr>c_noff = 0, c_intena = False, c_intr = True\<rparr>),
     s_lk = \<lparr>lk_locked = False, lk_name = ''kmem'', lk_cpu = None\<rparr>, s_pc = (\<lambda>_. Idle)\<rparr>"

lemma boot0_boot: "smp_boot boot0"
proof -
  have "s_lk boot0 = initlock (s_lk boot0) ''kmem''" by (simp add: boot0_def initlock_def)
  then show ?thesis by (auto simp: smp_boot_def boot0_def)
qed

definition run1 :: smp where
  "run1 = boot0\<lparr>s_cpus := (s_cpus boot0)(3 := push_off (s_cpus boot0 3)),
     s_pc := (s_pc boot0)(3 := Spin)\<rparr>"

definition run2 :: smp where
  "run2 = run1\<lparr>s_lk := (s_lk run1)\<lparr>lk_locked := True\<rparr>, s_pc := (s_pc run1)(3 := Got)\<rparr>"

lemma run2_reach: "smp_reach boot0 run2"
proof -
  have "smp_step boot0 run1"
    unfolding run1_def by (rule smp_step.acquire_enter) (simp_all add: boot0_def holding_def)
  moreover have "smp_step run1 run2"
    unfolding run2_def by (rule smp_step.swap) (simp_all add: run1_def boot0_def)
  ultimately show ?thesis by (blast intro: smp_reach.intros)
qed



end
