(* ===== verification/Xv6_Kalloc.thy ===== *)
theory Xv6_Kalloc
  imports Xv6_String
begin

text \<open>
  \<^verbatim>\<open>kernel/kalloc.c\<close>: the physical page allocator.  The free list is threaded through
  the free pages themselves, as in the source: the first eight bytes of a free page
  hold the address of the next one.  \<open>ph_end\<close> stands for the linker symbol
  \<^verbatim>\<open>end\<close>, the first address after the kernel.  The spin lock \<^verbatim>\<open>kmem.lock\<close> makes
  each function one atomic step.
\<close>

section \<open>Memory layout constants\<close>

definition PGSIZE :: u64 where "PGSIZE = 4096"
definition KERNBASE :: u64 where "KERNBASE = 0x80000000"
definition PHYSTOP :: u64 where "PHYSTOP = KERNBASE + 128 * 1024 * 1024"

definition PGROUNDUP :: "u64 \<Rightarrow> u64" where
  "PGROUNDUP sz = (sz + PGSIZE - 1) AND NOT (PGSIZE - 1)"

definition PGROUNDDOWN :: "u64 \<Rightarrow> u64" where
  "PGROUNDDOWN a = a AND NOT (PGSIZE - 1)"

section \<open>The allocator\<close>

text \<open>Physical memory together with \<^verbatim>\<open>kmem.freelist\<close>.\<close>

record phys =
  ph_mem :: mem
  ph_freelist :: u64
  ph_end :: u64

definition kfree :: "u64 \<Rightarrow> phys \<Rightarrow> phys outcome" where
  "kfree pa s =
     (if pa mod PGSIZE \<noteq> 0 \<or> pa < ph_end s \<or> pa \<ge> PHYSTOP then Panic ''kfree''
      else let s = s\<lparr>ph_mem := memset (ph_mem s) pa 1 4096\<rparr>;
               s = s\<lparr>ph_mem := store64 (ph_mem s) pa (ph_freelist s)\<rparr>
           in Ok (s\<lparr>ph_freelist := pa\<rparr>))"

definition kalloc :: "phys \<Rightarrow> u64 \<times> phys" where
  "kalloc s =
     (let r = ph_freelist s;
          s = (if r \<noteq> 0 then s\<lparr>ph_freelist := load64 (ph_mem s) r\<rparr> else s);
          s = (if r \<noteq> 0 then s\<lparr>ph_mem := memset (ph_mem s) r 5 4096\<rparr> else s)
      in (r, s))"

lemma kfree_Ok_bound: "kfree pa s = Ok s' \<Longrightarrow> pa < PHYSTOP"
  by (auto simp: kfree_def split: if_splits)

function freerange_loop :: "u64 \<Rightarrow> u64 \<Rightarrow> phys \<Rightarrow> phys outcome" where
  "freerange_loop p pa_end s =
     (if p + PGSIZE \<le> pa_end
      then obind (kfree p s) (\<lambda>s. freerange_loop (p + PGSIZE) pa_end s)
      else Ok s)"
  by pat_completeness auto
termination
proof (relation "measure (\<lambda>(p, pa_end, s). 2 ^ 64 - unat p)")
  fix p pa_end :: u64 and s s' :: phys
  assume "kfree p s = Ok s'"
  then have "unat p < unat PHYSTOP"
    by (simp add: kfree_Ok_bound word_less_nat_alt [symmetric])
  then have "unat (p + PGSIZE) = unat p + 4096"
    by (simp add: unat_plus_if' PHYSTOP_def KERNBASE_def PGSIZE_def)
  then show "((p + PGSIZE, pa_end, s'), (p, pa_end, s))
      \<in> measure (\<lambda>(p, pa_end, s). 2 ^ 64 - unat p)"
    using unat64_less [of p] by simp
qed simp

declare freerange_loop.simps [simp del]

definition freerange :: "u64 \<Rightarrow> u64 \<Rightarrow> phys \<Rightarrow> phys outcome" where
  "freerange pa_start pa_end s = freerange_loop (PGROUNDUP pa_start) pa_end s"

definition kinit :: "phys \<Rightarrow> phys outcome" where
  "kinit s = freerange (ph_end s) PHYSTOP s"

section \<open>Pages\<close>

lemma page_diff:
  fixes x y :: u64
  assumes x: "x mod PGSIZE = 0" and y: "y mod PGSIZE = 0" and "x \<noteq> y" and i: "i < 4096"
  shows "4096 \<le> unat (x + of_nat i - y)"
proof -
  have dx: "4096 dvd unat x" and dy: "4096 dvd unat y"
    using x y unat_mod_distrib [of x PGSIZE] unat_mod_distrib [of y PGSIZE]
    by (simp_all add: PGSIZE_def dvd_eq_mod_eq_0)
  have "4096 dvd (2 ^ 64 :: nat)" by simp
  then have "4096 dvd unat (x - y)"
    using dx dy by (auto simp: unat_diff_if intro: dvd_diff_nat dvd_add)
  then obtain k where k: "unat (x - y) = 4096 * k" by blast
  have "unat (x - y) \<noteq> 0" using \<open>x \<noteq> y\<close> by (simp add: unat_eq_0)
  with k have "1 \<le> k" by simp
  moreover have "4096 * k + 4096 \<le> 2 ^ 64"
  proof -
    have "4096 * k < 4096 * 2 ^ 52" using unat64_less [of "x - y"] k by simp
    then have "k + 1 \<le> 2 ^ 52" by simp
    then have "4096 * (k + 1) \<le> 4096 * 2 ^ 52" by (rule mult_le_mono2)
    then show ?thesis by simp
  qed
  moreover have "unat (of_nat i :: u64) = i" using i by (simp add: unat_of_nat)
  ultimately have "4096 \<le> unat ((x - y) + of_nat i)"
    using k i by (subst unat_plus_if') simp
  moreover have "x + of_nat i - y = (x - y) + of_nat i" by (simp add: algebra_simps)
  ultimately show ?thesis by metis
qed

lemma load64_memset_other:
  "x mod PGSIZE = 0 \<Longrightarrow> y mod PGSIZE = 0 \<Longrightarrow> x \<noteq> y \<Longrightarrow>
     load64 (memset m y c 4096) x = load64 m x"
proof (rule load64_cong)
  fix i :: nat
  assume "x mod PGSIZE = 0" "y mod PGSIZE = 0" "x \<noteq> y" "i < 8"
  then have "4096 \<le> unat (x + of_nat i - y)" by (intro page_diff) auto
  then show "memset m y c 4096 (x + of_nat i) = m (x + of_nat i)"
    by (simp add: memset_apply)
qed

lemma load64_store64_page_other:
  "x mod PGSIZE = 0 \<Longrightarrow> y mod PGSIZE = 0 \<Longrightarrow> x \<noteq> y \<Longrightarrow>
     load64 (store64 m y v) x = load64 m x"
proof (rule load64_cong)
  fix i :: nat
  assume "x mod PGSIZE = 0" "y mod PGSIZE = 0" "x \<noteq> y" "i < 8"
  then have "4096 \<le> unat (x + of_nat i - y)" by (intro page_diff) auto
  then show "store64 m y v (x + of_nat i) = m (x + of_nat i)"
    by (simp add: store64_def)
qed

section \<open>The free list as a list of pages\<close>

definition page_ok :: "u64 \<Rightarrow> u64 \<Rightarrow> bool" where
  "page_ok kend x \<longleftrightarrow> x mod PGSIZE = 0 \<and> kend \<le> x \<and> x < PHYSTOP"

primrec fl :: "mem \<Rightarrow> u64 \<Rightarrow> u64 list \<Rightarrow> bool" where
  "fl m p [] \<longleftrightarrow> p = 0"
| "fl m p (x # xs) \<longleftrightarrow> p = x \<and> x \<noteq> 0 \<and> fl m (load64 m x) xs"

definition kmem_rep :: "u64 \<Rightarrow> phys \<Rightarrow> u64 list \<Rightarrow> bool" where
  "kmem_rep kend s xs \<longleftrightarrow> ph_end s = kend \<and> 0 < kend \<and> fl (ph_mem s) (ph_freelist s) xs \<and>
     distinct xs \<and> list_all (page_ok kend) xs"

lemma fl_frame:
  "(\<And>x. x \<in> set xs \<Longrightarrow> load64 m' x = load64 m x) \<Longrightarrow> fl m' p xs = fl m p xs"
  by (induction xs arbitrary: p) auto

lemma page_ok_nonzero: "0 < kend \<Longrightarrow> page_ok kend x \<Longrightarrow> x \<noteq> 0"
  by (auto simp: page_ok_def)

lemma page_ok_aligned: "page_ok kend x \<Longrightarrow> x mod PGSIZE = 0"
  by (simp add: page_ok_def)

lemma kalloc_Cons:
  assumes "kmem_rep kend s (x # xs)"
  shows "\<exists>s'. kalloc s = (x, s') \<and> kmem_rep kend s' xs"
proof -
  from assms have x: "ph_freelist s = x" "x \<noteq> 0" "page_ok kend x" "x \<notin> set xs"
    and rest: "fl (ph_mem s) (load64 (ph_mem s) x) xs" "0 < kend" "distinct xs"
      "list_all (page_ok kend) xs" "ph_end s = kend"
    by (auto simp: kmem_rep_def)
  have "fl (memset (ph_mem s) x 5 4096) (load64 (ph_mem s) x) xs =
      fl (ph_mem s) (load64 (ph_mem s) x) xs"
  proof (rule fl_frame)
    fix y assume "y \<in> set xs"
    then have "page_ok kend y" "y \<noteq> x" using rest x by (auto simp: list_all_iff)
    then show "load64 (memset (ph_mem s) x 5 4096) y = load64 (ph_mem s) y"
      using x by (intro load64_memset_other page_ok_aligned) auto
  qed
  then show ?thesis
    using x rest by (auto simp: kalloc_def kmem_rep_def Let_def)
qed

lemma kalloc_Nil: "kmem_rep kend s [] \<Longrightarrow> kalloc s = (0, s)"
  by (simp add: kmem_rep_def kalloc_def)

lemma kfree_Cons:
  assumes rep: "kmem_rep kend s xs" and x: "page_ok kend x" "x \<notin> set xs"
  shows "\<exists>s'. kfree x s = Ok s' \<and> kmem_rep kend s' (x # xs)"
proof -
  let ?m = "store64 (memset (ph_mem s) x 1 4096) x (ph_freelist s)"
  have "fl ?m (ph_freelist s) xs = fl (ph_mem s) (ph_freelist s) xs"
  proof (rule fl_frame)
    fix y assume "y \<in> set xs"
    then have y: "page_ok kend y" "y \<noteq> x"
      using rep x by (auto simp: kmem_rep_def list_all_iff)
    then have "y mod PGSIZE = 0" "x mod PGSIZE = 0" "y \<noteq> x"
      using x by (auto dest: page_ok_aligned)
    then show "load64 ?m y = load64 (ph_mem s) y"
      by (simp add: load64_store64_page_other load64_memset_other)
  qed
  moreover have "\<not> (x mod PGSIZE \<noteq> 0 \<or> x < ph_end s \<or> x \<ge> PHYSTOP)"
    using x rep by (auto simp: page_ok_def kmem_rep_def)
  ultimately show ?thesis
    using rep x page_ok_nonzero [of kend x]
    by (auto simp: kfree_def kmem_rep_def Let_def)
qed

section \<open>Page rounding\<close>

lemma PGROUNDDOWN_eq: "PGROUNDDOWN a = a - a mod PGSIZE"
proof -
  have m: "PGSIZE - 1 = mask 12" by (simp add: PGSIZE_def mask_eq_exp_minus_1)
  have "PGROUNDDOWN a = push_bit 12 (drop_bit 12 a)"
    unfolding PGROUNDDOWN_def m by (rule bit_word_eqI) (auto simp: bit_simps)
  moreover have "push_bit 12 (drop_bit 12 a) + take_bit 12 a = a" by (rule bits_ident)
  ultimately have "PGROUNDDOWN a + a mod PGSIZE = a"
    by (simp add: take_bit_eq_mod PGSIZE_def)
  then show ?thesis by (simp add: eq_diff_eq)
qed

lemma unat_mod_PGSIZE: "unat (a mod PGSIZE) = unat a mod 4096"
  by (simp add: unat_mod_distrib PGSIZE_def)

lemma mod_PGSIZE_iff: "a mod PGSIZE = 0 \<longleftrightarrow> unat a mod 4096 = 0"
  by (metis unat_mod_PGSIZE unat_eq_0)

lemma unat_PGROUNDDOWN: "unat (PGROUNDDOWN a) = unat a - unat a mod 4096"
proof -
  have "a mod PGSIZE \<le> a" by (simp add: word_le_nat_alt unat_mod_PGSIZE)
  then show ?thesis
    by (simp add: PGROUNDDOWN_eq unat_sub unat_mod_PGSIZE)
qed

lemma PGROUNDUP_eq: "PGROUNDUP sz = PGROUNDDOWN (sz + 4095)"
  by (simp add: PGROUNDUP_def PGROUNDDOWN_def PGSIZE_def add.commute [of 4095])

lemma unat_PGROUNDUP:
  assumes "unat sz + 4095 < 2 ^ 64"
  shows "unat (PGROUNDUP sz) = unat sz + 4095 - (unat sz + 4095) mod 4096"
proof -
  have "unat (sz + 4095) = unat sz + 4095" using assms by (simp add: unat_plus_if')
  then show ?thesis by (simp add: PGROUNDUP_eq unat_PGROUNDDOWN)
qed

lemma round_up_nat:
  fixes a :: nat
  shows "(a + 4095 - (a + 4095) mod 4096) mod 4096 = 0"
    "a \<le> a + 4095 - (a + 4095) mod 4096"
    "b mod 4096 = 0 \<Longrightarrow> a \<le> b \<Longrightarrow> a + 4095 - (a + 4095) mod 4096 \<le> b"
proof -
  show "(a + 4095 - (a + 4095) mod 4096) mod 4096 = 0"
    unfolding minus_mod_eq_mult_div by simp
  have "(a + 4095) mod 4096 < 4096" by simp
  then show "a \<le> a + 4095 - (a + 4095) mod 4096" by arith
  assume "b mod 4096 = 0" and "a \<le> b"
  then obtain k where "b = 4096 * k" "a + 4095 < (k + 1) * 4096" by auto
  then show "a + 4095 - (a + 4095) mod 4096 \<le> b"
    unfolding minus_mod_eq_mult_div using less_mult_imp_div_less by fastforce
qed

lemma mult_less_next:
  fixes a b :: nat
  assumes "a mod 4096 = 0" and "b mod 4096 = 0"
  shows "a < b + 4096 \<longleftrightarrow> a \<le> b"
proof -
  obtain i j where "a = 4096 * i" "b = 4096 * j" using assms by (auto elim!: dvdE)
  then show ?thesis by auto
qed

lemma unat_PHYSTOP: "unat PHYSTOP = 0x88000000"
  by (simp add: PHYSTOP_def KERNBASE_def)

lemma PGROUNDUP_least:
  assumes "kend \<le> PHYSTOP"
  shows "PGROUNDUP kend mod PGSIZE = 0" "kend \<le> PGROUNDUP kend"
    "x mod PGSIZE = 0 \<Longrightarrow> kend \<le> x \<Longrightarrow> PGROUNDUP kend \<le> x"
proof -
  have "unat kend \<le> 0x88000000" using assms by (simp add: word_le_nat_alt unat_PHYSTOP)
  then have u: "unat (PGROUNDUP kend) = unat kend + 4095 - (unat kend + 4095) mod 4096"
    by (intro unat_PGROUNDUP) simp
  show "PGROUNDUP kend mod PGSIZE = 0"
    unfolding mod_PGSIZE_iff u by (rule round_up_nat)
  show "kend \<le> PGROUNDUP kend"
    unfolding word_le_nat_alt u by (rule round_up_nat)
  show "x mod PGSIZE = 0 \<Longrightarrow> kend \<le> x \<Longrightarrow> PGROUNDUP kend \<le> x"
    unfolding word_le_nat_alt mod_PGSIZE_iff u by (rule round_up_nat)
qed

section \<open>Initialisation\<close>

lemma PHYSTOP_aligned: "PHYSTOP mod PGSIZE = 0"
  by (simp add: mod_PGSIZE_iff unat_PHYSTOP)

lemma next_page:
  assumes "p mod PGSIZE = 0" and "p \<le> PHYSTOP"
  shows "unat (p + PGSIZE) = unat p + 4096" "(p + PGSIZE) mod PGSIZE = 0"
    "p + PGSIZE \<le> PHYSTOP \<longleftrightarrow> p < PHYSTOP"
proof -
  have p: "unat p \<le> 0x88000000" "unat p mod 4096 = 0"
    using assms by (simp_all add: word_le_nat_alt unat_PHYSTOP mod_PGSIZE_iff)
  show u: "unat (p + PGSIZE) = unat p + 4096"
    using p by (simp add: unat_plus_if' PGSIZE_def)
  show "(p + PGSIZE) mod PGSIZE = 0"
    using p by (simp add: mod_PGSIZE_iff u)
  show "p + PGSIZE \<le> PHYSTOP \<longleftrightarrow> p < PHYSTOP"
    using mult_less_next [of "unat PHYSTOP" "unat p"] p
    by (auto simp: word_le_nat_alt word_less_nat_alt u unat_PHYSTOP)
qed

lemma pages_below_next:
  assumes p: "p mod PGSIZE = 0" "kend \<le> p" "p < PHYSTOP"
  shows "{x. page_ok kend x \<and> x < p + PGSIZE} = insert p {x. page_ok kend x \<and> x < p}"
proof -
  have "unat (p + PGSIZE) = unat p + 4096" using p by (intro next_page) auto
  then have "x mod PGSIZE = 0 \<Longrightarrow> x < p + PGSIZE \<longleftrightarrow> x < p \<or> x = p" for x
    using p(1) mult_less_next [of "unat x" "unat p"]
    by (auto simp: word_less_nat_alt word_unat_eq_iff unat_mod_PGSIZE)
  then show ?thesis
    unfolding page_ok_def set_eq_iff mem_Collect_eq insert_iff using p by metis
qed

lemma freerange_loop_rep:
  assumes "kmem_rep kend s xs" and "p mod PGSIZE = 0" and "kend \<le> p" and "p \<le> PHYSTOP"
    and "set xs = {x. page_ok kend x \<and> x < p}"
  shows "\<exists>s' ys. freerange_loop p PHYSTOP s = Ok s' \<and> kmem_rep kend s' ys \<and>
           set ys = {x. page_ok kend x}"
  using assms
proof (induction p PHYSTOP s arbitrary: xs rule: freerange_loop.induct)
  case (1 p s)
  show ?case
  proof (cases "p < PHYSTOP")
    case False
    then have "p = PHYSTOP" using "1.prems" by simp
    moreover have "page_ok kend x \<Longrightarrow> x < PHYSTOP" for x by (simp add: page_ok_def)
    ultimately have "set xs = {x. page_ok kend x}" using "1.prems"(5) by auto
    then show ?thesis
      using "1.prems" False by (subst freerange_loop.simps) (auto simp: next_page)
  next
    case True
    have p: "page_ok kend p" "p \<notin> set xs" using "1.prems" True by (auto simp: page_ok_def)
    then obtain s' where s': "kfree p s = Ok s'" "kmem_rep kend s' (p # xs)"
      using kfree_Cons "1.prems"(1) by blast
    have le: "p + PGSIZE \<le> PHYSTOP" using "1.prems" True by (simp add: next_page)
    have ge: "kend \<le> p + PGSIZE"
      using "1.prems" next_page(1) [of p] by (simp add: word_le_nat_alt)
    have al: "(p + PGSIZE) mod PGSIZE = 0" by (rule next_page) (rule "1.prems")+
    have "set (p # xs) = {x. page_ok kend x \<and> x < p + PGSIZE}"
      using "1.prems" True by (simp add: pages_below_next)
    note "1.hyps" [OF le s'(1) s'(2) al ge le this]
    then show ?thesis
      using s' le by (subst freerange_loop.simps) simp
  qed
qed

section \<open>The allocator interface\<close>

text \<open>
  What the rest of the kernel relies on: an allocator that hands out the pages of an
  abstract pool, and takes back pages that are not in the pool.
\<close>

fun alloc_n :: "('s \<Rightarrow> u64 \<times> 's) \<Rightarrow> nat \<Rightarrow> 's \<Rightarrow> u64 list \<times> 's" where
  "alloc_n alloc 0 s = ([], s)"
| "alloc_n alloc (Suc n) s =
     (let (x, s) = alloc s; (xs, s) = alloc_n alloc n s in (x # xs, s))"

locale page_allocator =
  fixes alloc :: "'s \<Rightarrow> u64 \<times> 's"
    and free :: "u64 \<Rightarrow> 's \<Rightarrow> 's outcome"
    and rep :: "'s \<Rightarrow> u64 list \<Rightarrow> bool"
    and usable :: "u64 \<Rightarrow> bool"
  assumes pool: "rep s xs \<Longrightarrow> distinct xs \<and> 0 \<notin> set xs \<and> list_all usable xs"
    and alloc_some: "rep s (x # xs) \<Longrightarrow> \<exists>s'. alloc s = (x, s') \<and> rep s' xs"
    and alloc_none: "rep s [] \<Longrightarrow> alloc s = (0, s)"
    and free_usable: "rep s xs \<Longrightarrow> usable x \<Longrightarrow> x \<notin> set xs \<Longrightarrow>
      \<exists>s'. free x s = Ok s' \<and> rep s' (x # xs)"
begin

lemma alloc_n_take:
  "rep s (xs @ ys) \<Longrightarrow> \<exists>s'. alloc_n alloc (length xs) s = (xs, s') \<and> rep s' ys"
proof (induction xs arbitrary: s)
  case (Cons x xs)
  then obtain s1 where s1: "alloc s = (x, s1)" "rep s1 (xs @ ys)"
    using alloc_some by fastforce
  with Cons.IH obtain s2 where "alloc_n alloc (length xs) s1 = (xs, s2)" "rep s2 ys" by blast
  with s1 show ?case by simp
qed simp

lemma alloc_distinct:
  assumes "rep s xs" and "n \<le> length xs"
  shows "\<exists>ps s'. alloc_n alloc n s = (ps, s') \<and> distinct ps \<and> 0 \<notin> set ps \<and>
    rep s' (drop n xs) \<and> set ps \<inter> set (drop n xs) = {}"
proof -
  have "rep s (take n xs @ drop n xs)" using assms by simp
  then obtain s' where s': "alloc_n alloc n s = (take n xs, s')" "rep s' (drop n xs)"
    using alloc_n_take [of s "take n xs"] assms by fastforce
  have "distinct xs" "0 \<notin> set xs" using pool assms by blast+
  then have "distinct (take n xs)" "0 \<notin> set (take n xs)"
      "set (take n xs) \<inter> set (drop n xs) = {}"
    by (auto dest: in_set_takeD simp: set_take_disj_set_drop_if_distinct)
  with s' show ?thesis by blast
qed

lemma alloc_free:
  assumes "rep s (x # xs)"
  shows "\<exists>s1 s2. alloc s = (x, s1) \<and> free x s1 = Ok s2 \<and> rep s2 (x # xs)"
proof -
  obtain s1 where s1: "alloc s = (x, s1)" "rep s1 xs" using alloc_some assms by blast
  moreover have "usable x" "x \<notin> set xs" using pool [OF assms] by auto
  ultimately show ?thesis using free_usable by blast
qed

end

interpretation kmem: page_allocator kalloc kfree "kmem_rep kend" "page_ok kend" for kend
proof
  fix s xs assume "kmem_rep kend s xs"
  then show "distinct xs \<and> 0 \<notin> set xs \<and> list_all (page_ok kend) xs"
    by (auto simp: kmem_rep_def list_all_iff dest: page_ok_nonzero)
qed (blast intro: kalloc_Cons kalloc_Nil kfree_Cons)+

lemma kalloc_frame:
  assumes "kalloc s = (r, s')" and "r mod PGSIZE = 0" and "y mod PGSIZE = 0" and "y \<noteq> r"
    and "i < 4096"
  shows "ph_mem s' (y + of_nat i) = ph_mem s (y + of_nat i)"
proof -
  have "4096 \<le> unat (y + of_nat i - r)" using assms by (intro page_diff) auto
  then show ?thesis
    using assms(1) by (auto simp: kalloc_def Let_def memset_apply split: if_splits)
qed

lemma kfree_frame:
  assumes "kfree x s = Ok s'" and "y mod PGSIZE = 0" and "y \<noteq> x" and "i < 4096"
  shows "ph_mem s' (y + of_nat i) = ph_mem s (y + of_nat i)"
proof -
  have "x mod PGSIZE = 0" using assms(1) by (auto simp: kfree_def split: if_splits)
  then have "4096 \<le> unat (y + of_nat i - x)" using assms by (intro page_diff) auto
  then show ?thesis
    using assms(1) by (auto simp: kfree_def Let_def memset_apply store64_def split: if_splits)
qed

section \<open>Properties\<close>

text \<open>\<^verbatim>\<open>kinit\<close> never panics: from an empty free list it frees
  exactly the page-aligned addresses between the end of the kernel and \<^verbatim>\<open>PHYSTOP\<close>,
  each once.\<close>

theorem kinit_frees_all:
  assumes "0 < kend" and "kend \<le> PHYSTOP" and "ph_freelist s = 0" and "ph_end s = kend"
  shows "\<exists>s' xs. kinit s = Ok s' \<and> kmem_rep kend s' xs \<and> set xs = {x. page_ok kend x}"
proof -
  have "PGROUNDUP kend \<le> PHYSTOP"
    using PGROUNDUP_least(3) [OF assms(2) PHYSTOP_aligned] assms(2) by blast
  moreover have "{x. page_ok kend x \<and> x < PGROUNDUP kend} = {}"
    using PGROUNDUP_least(3) [OF assms(2)] by (auto simp: page_ok_def not_less)
  moreover have "kmem_rep kend s []" using assms by (simp add: kmem_rep_def)
  ultimately show ?thesis
    unfolding kinit_def freerange_def assms(4)
    using freerange_loop_rep [of kend s "[]" "PGROUNDUP kend"] PGROUNDUP_least(1,2) [OF assms(2)] by simp
qed

theorem kinit_frees_all_witness:
  "\<exists>s' xs. kinit \<lparr>ph_mem = (\<lambda>_. 0), ph_freelist = 0, ph_end = 0x80022000\<rparr> = Ok s' \<and>
     kmem_rep 0x80022000 s' xs \<and> set xs = {x. page_ok 0x80022000 x}"
  by (rule kinit_frees_all) (simp_all add: PHYSTOP_def KERNBASE_def)

text \<open>C33. Successive \<^verbatim>\<open>kalloc\<close> calls return pairwise distinct pages, none of
  them null or still on the free list, as long as free pages last; the free list loses
  exactly these pages.\<close>

theorem kalloc_distinct:
  assumes "kmem_rep kend s xs" and "n \<le> length xs"
  shows "\<exists>ps s'. alloc_n kalloc n s = (ps, s') \<and> distinct ps \<and> 0 \<notin> set ps \<and>
    kmem_rep kend s' (drop n xs) \<and> set ps \<inter> set (drop n xs) = {}"
  by (rule kmem.alloc_distinct [OF assms])

text \<open>Two free pages, the second linked from the first.\<close>

definition two_pages :: phys where
  "two_pages = \<lparr>ph_mem = store64 (\<lambda>_. 0) 0x80022000 0x80023000, ph_freelist = 0x80022000,
     ph_end = 0x80022000\<rparr>"

lemma two_pages_rep: "kmem_rep 0x80022000 two_pages [0x80022000, 0x80023000]"
proof -
  have "load64 (store64 (\<lambda>_. 0) 0x80022000 0x80023000) 0x80023000 = load64 (\<lambda>_. 0) 0x80023000"
    by (rule load64_store64_page_other) (simp_all add: PGSIZE_def)
  also have "\<dots> = 0" by (simp add: load64_def view_def get64_def get32_def)
  finally show ?thesis
    by (simp add: kmem_rep_def two_pages_def page_ok_def PGSIZE_def PHYSTOP_def KERNBASE_def)
qed

theorem kalloc_distinct_witness:
  "\<exists>ps s'. alloc_n kalloc 2 two_pages = (ps, s') \<and> distinct ps \<and> 0 \<notin> set ps \<and>
    kmem_rep 0x80022000 s' (drop 2 [0x80022000, 0x80023000]) \<and>
    set ps \<inter> set (drop 2 [0x80022000, 0x80023000]) = {}"
  using kalloc_distinct [OF two_pages_rep, of 2] by simp

end
