(* ===== verification/Xv6_Bio.thy ===== *)
theory Xv6_Bio
  imports Xv6_Lock
begin

text \<open>
  \<^verbatim>\<open>kernel/bio.c\<close>: the buffer cache.  A pointer to a \<^verbatim>\<open>struct buf\<close> is its
  index: \<open>0 .. NBUF-1\<close> are the elements of \<^verbatim>\<open>bcache.buf\<close> and \<open>NBUF\<close> is
  \<^verbatim>\<open>bcache.head\<close>.  The LRU list is kept in the \<^verbatim>\<open>prev\<close> and \<^verbatim>\<open>next\<close> fields, as
  in the source.  The state also holds the disk, the history of the writes to it (for
  crash reasoning) and the pid of the running process, which the sleep locks record.
  \<^verbatim>\<open>bcache.lock\<close> makes each critical section one atomic step; a buffer's sleep lock
  that is already held makes the caller \<^const>\<open>Blocked\<close>.
\<close>

section \<open>State\<close>

definition BSIZE :: nat where "BSIZE = 1024"
definition MAXOPBLOCKS :: nat where "MAXOPBLOCKS = 10"
definition NBUF :: nat where "NBUF = MAXOPBLOCKS * 3"
definition ROOTDEV :: u32 where "ROOTDEV = 1"

record buf =
  b_valid :: bool
  b_disk :: bool
  b_dev :: u32
  b_blockno :: u32
  b_lock :: sleeplock
  b_refcnt :: u32
  b_prev :: nat
  b_next :: nat
  b_data :: bytes

record bio =
  bc_buf :: "nat \<Rightarrow> buf"
  bc_pid :: nat
  d_disk :: "u32 \<Rightarrow> bytes"
  d_trace :: "(u32 \<times> bytes) list"

definition bset :: "nat \<Rightarrow> (buf \<Rightarrow> buf) \<Rightarrow> bio \<Rightarrow> bio" where
  "bset b f s = s\<lparr>bc_buf := (bc_buf s)(b := f (bc_buf s b))\<rparr>"

definition set_data :: "nat \<Rightarrow> bytes \<Rightarrow> bio \<Rightarrow> bio" where
  "set_data b d = bset b (\<lambda>x. x\<lparr>b_data := d\<rparr>)"

text \<open>The \<^verbatim>\<open>BSIZE\<close> bytes that a transfer of a block moves.\<close>

definition blk :: "bytes \<Rightarrow> bytes" where
  "blk d = (\<lambda>i. if i < BSIZE then d i else 0)"

text \<open>
  \<open>disk_rw\<close> is what the disk driver provides: a transfer of one block between the
  buffer and the disk, addressed by the block number alone (the driver ignores
  \<^verbatim>\<open>b->dev\<close>), complete when the call returns.
\<close>

definition disk_rw :: "nat \<Rightarrow> bool \<Rightarrow> bio \<Rightarrow> bio" where
  "disk_rw b write s =
     (let x = bc_buf s b
      in if write
         then s\<lparr>d_disk := (d_disk s)(b_blockno x := blk (b_data x)),
                d_trace := d_trace s @ [(b_blockno x, blk (b_data x))]\<rparr>
         else set_data b (d_disk s (b_blockno x)) s)"

section \<open>Operations\<close>

definition push_front :: "nat \<Rightarrow> bio \<Rightarrow> bio" where
  "push_front b s =
     (let s = bset b (\<lambda>x. x\<lparr>b_next := b_next (bc_buf s NBUF)\<rparr>) s;
          s = bset b (\<lambda>x. x\<lparr>b_prev := NBUF\<rparr>) s;
          s = bset (b_next (bc_buf s NBUF)) (\<lambda>x. x\<lparr>b_prev := b\<rparr>) s
      in bset NBUF (\<lambda>x. x\<lparr>b_next := b\<rparr>) s)"

definition unlink :: "nat \<Rightarrow> bio \<Rightarrow> bio" where
  "unlink b s =
     (let s = bset (b_next (bc_buf s b)) (\<lambda>x. x\<lparr>b_prev := b_prev (bc_buf s b)\<rparr>) s
      in bset (b_prev (bc_buf s b)) (\<lambda>x. x\<lparr>b_next := b_next (bc_buf s b)\<rparr>) s)"

primrec binit_loop :: "nat \<Rightarrow> nat \<Rightarrow> bio \<Rightarrow> bio" where
  "binit_loop b 0 s = s"
| "binit_loop b (Suc n) s =
     binit_loop (Suc b) n
       (push_front b (bset b (\<lambda>x. x\<lparr>b_lock := initsleeplock (b_lock x) ''buffer''\<rparr>) s))"

definition binit :: "bio \<Rightarrow> bio" where
  "binit s =
     (let s = bset NBUF (\<lambda>x. x\<lparr>b_prev := NBUF, b_next := NBUF\<rparr>) s
      in binit_loop 0 NBUF s)"

text \<open>
  The two loops of \<^verbatim>\<open>bget\<close>: follow \<open>nxt\<close> from \<open>b\<close> until a buffer satisfies
  \<open>ok\<close>; the list head ends the search.
\<close>

partial_function (option) scan :: "(nat \<Rightarrow> nat) \<Rightarrow> (nat \<Rightarrow> bool) \<Rightarrow> nat \<Rightarrow> nat option option" where
  "scan nxt ok b =
     (if b = NBUF then Some None
      else if ok b then Some (Some b)
      else scan nxt ok (nxt b))"

definition lock_buf :: "nat \<Rightarrow> bio \<Rightarrow> (nat \<times> bio) outcome" where
  "lock_buf b s =
     obind (acquiresleep (bc_pid s) (b_lock (bc_buf s b))) (\<lambda>lk.
     Ok (b, bset b (\<lambda>x. x\<lparr>b_lock := lk\<rparr>) s))"

definition bget :: "u32 \<Rightarrow> u32 \<Rightarrow> bio \<Rightarrow> (nat \<times> bio) outcome" where
  "bget dev blockno s =
     (case scan (\<lambda>b. b_next (bc_buf s b))
                (\<lambda>b. b_dev (bc_buf s b) = dev \<and> b_blockno (bc_buf s b) = blockno)
                (b_next (bc_buf s NBUF)) of
        None \<Rightarrow> Diverge
      | Some (Some b) \<Rightarrow> lock_buf b (bset b (\<lambda>x. x\<lparr>b_refcnt := b_refcnt x + 1\<rparr>) s)
      | Some None \<Rightarrow>
          (case scan (\<lambda>b. b_prev (bc_buf s b)) (\<lambda>b. b_refcnt (bc_buf s b) = 0)
                     (b_prev (bc_buf s NBUF)) of
             None \<Rightarrow> Diverge
           | Some (Some b) \<Rightarrow>
               lock_buf b (bset b (\<lambda>x. x\<lparr>b_dev := dev, b_blockno := blockno,
                                         b_valid := False, b_refcnt := 1\<rparr>) s)
           | Some None \<Rightarrow> Panic ''bget: no buffers''))"

definition bread :: "u32 \<Rightarrow> u32 \<Rightarrow> bio \<Rightarrow> (nat \<times> bio) outcome" where
  "bread dev blockno s =
     obind (bget dev blockno s) (\<lambda>(b, s).
     if \<not> b_valid (bc_buf s b)
     then Ok (b, bset b (\<lambda>x. x\<lparr>b_valid := True\<rparr>) (disk_rw b False s))
     else Ok (b, s))"

definition bwrite :: "nat \<Rightarrow> bio \<Rightarrow> bio outcome" where
  "bwrite b s =
     (if \<not> holdingsleep (bc_pid s) (b_lock (bc_buf s b)) then Panic ''bwrite''
      else Ok (disk_rw b True s))"

definition brelse :: "nat \<Rightarrow> bio \<Rightarrow> bio outcome" where
  "brelse b s =
     (if \<not> holdingsleep (bc_pid s) (b_lock (bc_buf s b)) then Panic ''brelse''
      else let s = bset b (\<lambda>x. x\<lparr>b_lock := releasesleep (b_lock x)\<rparr>) s;
               s = bset b (\<lambda>x. x\<lparr>b_refcnt := b_refcnt x - 1\<rparr>) s
           in Ok (if b_refcnt (bc_buf s b) = 0 then push_front b (unlink b s) else s))"

definition bpin :: "nat \<Rightarrow> bio \<Rightarrow> bio" where
  "bpin b = bset b (\<lambda>x. x\<lparr>b_refcnt := b_refcnt x + 1\<rparr>)"

definition bunpin :: "nat \<Rightarrow> bio \<Rightarrow> bio" where
  "bunpin b = bset b (\<lambda>x. x\<lparr>b_refcnt := b_refcnt x - 1\<rparr>)"

section \<open>The LRU list\<close>

primrec chain :: "(nat \<Rightarrow> nat) \<Rightarrow> nat \<Rightarrow> nat list \<Rightarrow> nat \<Rightarrow> bool" where
  "chain f a [] c \<longleftrightarrow> f a = c"
| "chain f a (x # xs) c \<longleftrightarrow> f a = x \<and> chain f x xs c"

lemma chain_append: "chain f a (xs @ x # ys) c \<longleftrightarrow> chain f a xs x \<and> chain f x ys c"
  by (induction xs arbitrary: a) auto

lemma chain_cong:
  "f a = g a \<Longrightarrow> (\<And>y. y \<in> set xs \<Longrightarrow> f y = g y) \<Longrightarrow> chain f a xs c = chain g a xs c"
  by (induction xs arbitrary: a) auto

lemma chain_upd_other: "y \<noteq> a \<Longrightarrow> y \<notin> set xs \<Longrightarrow> chain (f(y := v)) a xs c = chain f a xs c"
  by (rule chain_cong) auto

lemma last_Cons_Cons: "last (a # x # xs) = last (x # xs)"
  by simp

lemma chain_upd_last:
  "chain f a xs c \<Longrightarrow> distinct (a # xs) \<Longrightarrow> chain (f(last (a # xs) := d)) a xs d"
proof (induction xs arbitrary: a)
  case (Cons x xs)
  have "chain (f(last (x # xs) := d)) x xs d"
    by (rule Cons.IH) (use Cons.prems in simp_all)
  moreover have "last (x # xs) \<noteq> a" using Cons.prems last_in_set [of "x # xs"] by auto
  ultimately show ?case using Cons.prems unfolding last_Cons_Cons chain.simps
    by (metis fun_upd_other)
qed simp

lemma chain_delete:
  "chain f a (xs @ b # ys) c \<Longrightarrow> distinct (a # xs @ b # ys) \<Longrightarrow>
     chain (f(last (a # xs) := f b)) a (xs @ ys) c"
proof (induction xs arbitrary: a)
  case Nil
  then have "chain f (f b) (tl ys) c" if "ys \<noteq> []" using that by (cases ys) auto
  moreover have "a \<noteq> f b" "a \<notin> set (tl ys)" if "ys \<noteq> []" using that Nil by (cases ys; simp)+
  ultimately have "chain (f(a := f b)) (f b) (tl ys) c" if "ys \<noteq> []"
    using that by (subst chain_upd_other) auto
  then show ?case using Nil by (cases ys) (simp_all del: fun_upd_apply add: fun_upd_same)
next
  case (Cons x xs)
  have "chain (f(last (x # xs) := f b)) x (xs @ ys) c"
    by (rule Cons.IH) (use Cons.prems in simp_all)
  moreover have "last (x # xs) \<noteq> a" using Cons.prems last_in_set [of "x # xs"] by auto
  ultimately show ?case using Cons.prems 
    unfolding last_Cons_Cons append_Cons chain.simps by (metis fun_upd_other)
qed

lemma chain_first: "chain f a xs c \<Longrightarrow> f a = hd (xs @ [c])"
  by (cases xs) auto

lemma last_rev_hd: "last (a # rev xs) = hd (xs @ [a])"
  by (cases xs) auto

lemma scan_chain:
  "chain f a xs NBUF \<Longrightarrow> NBUF \<notin> set xs \<Longrightarrow> scan f ok (f a) = Some (find ok xs)"
proof (induction xs arbitrary: a)
  case Nil
  then show ?case by (subst scan.simps) simp
next
  case (Cons x xs)
  then show ?case by (subst scan.simps) auto
qed

abbreviation nxt :: "bio \<Rightarrow> nat \<Rightarrow> nat" where "nxt s \<equiv> \<lambda>b. b_next (bc_buf s b)"
abbreviation prv :: "bio \<Rightarrow> nat \<Rightarrow> nat" where "prv s \<equiv> \<lambda>b. b_prev (bc_buf s b)"

text \<open>The doubly linked list through the head holds the buffers \<open>xs\<close>, most recent first.\<close>

definition dll :: "bio \<Rightarrow> nat list \<Rightarrow> bool" where
  "dll s xs \<longleftrightarrow> chain (nxt s) NBUF xs NBUF \<and> chain (prv s) NBUF (rev xs) NBUF \<and>
     distinct xs \<and> NBUF \<notin> set xs"

lemma bset_buf [simp]: "bc_buf (bset b f s) = (bc_buf s)(b := f (bc_buf s b))"
  by (simp add: bset_def)

lemma bset_rest [simp]:
  "bc_pid (bset b f s) = bc_pid s" "d_disk (bset b f s) = d_disk s"
  "d_trace (bset b f s) = d_trace s"
  by (simp_all add: bset_def)

lemma push_front_nxt:
  "b \<noteq> NBUF \<Longrightarrow> nxt (push_front b s) = (nxt s)(b := nxt s NBUF, NBUF := b)"
  by (auto simp: push_front_def Let_def fun_eq_iff)

lemma push_front_prv:
  "b \<noteq> NBUF \<Longrightarrow> prv (push_front b s) = (prv s)(b := NBUF, nxt s NBUF := b)"
  by (auto simp: push_front_def Let_def fun_eq_iff)

lemma unlink_nxt: "nxt (unlink b s) = (nxt s)(prv (unlink b s) b := nxt s b)"
  by (auto simp: unlink_def Let_def fun_eq_iff)

lemma dll_push_front:
  assumes "dll s xs" and "b \<notin> set xs" and "b \<noteq> NBUF"
  shows "dll (push_front b s) (b # xs)"
proof -
  have c: "chain (nxt s) NBUF xs NBUF" "chain (prv s) NBUF (rev xs) NBUF" "distinct xs"
    "NBUF \<notin> set xs"
    using assms(1) by (auto simp: dll_def)
  have "chain (nxt (push_front b s)) b xs NBUF"
  proof (cases xs)
    case (Cons y ys)
    then show ?thesis
      unfolding push_front_nxt [OF assms(3)] using c assms(2,3) by (auto simp: chain_upd_other)
  qed (use c assms in \<open>simp add: push_front_nxt\<close>)
  moreover have "last (NBUF # rev xs) = nxt s NBUF"
    unfolding last_rev_hd using chain_first [OF c(1)] by simp
  then have "chain ((prv s)(nxt s NBUF := b)) NBUF (rev xs) b"
    using chain_upd_last [OF c(2), of b] c by simp
  then have "chain (prv (push_front b s)) NBUF (rev xs) b"
    unfolding push_front_prv [OF assms(3)] using assms(2,3)
    by (subst chain_cong [where g = "(prv s)(nxt s NBUF := b)"]) auto
  moreover have "nxt s NBUF \<noteq> b"
    using chain_first [OF c(1)] assms by (cases xs) auto
  ultimately show ?thesis
    using c assms push_front_nxt [OF assms(3), THEN fun_cong, of s NBUF]
      push_front_prv [OF assms(3), THEN fun_cong, of s b]
    by (simp add: dll_def chain_append)
qed

lemma dll_unlink:
  assumes "dll s (xs @ b # ys)"
  shows "dll (unlink b s) (xs @ ys)"
proof -
  have c: "chain (nxt s) NBUF (xs @ b # ys) NBUF" "chain (prv s) NBUF (rev ys @ b # rev xs) NBUF"
    "distinct (NBUF # xs @ b # ys)" "distinct (NBUF # rev ys @ b # rev xs)"
    using assms by (auto simp: dll_def)
  have n: "last (NBUF # rev ys) = nxt s b"
    using c(1) chain_first [of "nxt s" b ys NBUF] unfolding last_rev_hd chain_append by simp
  have p: "last (NBUF # xs) = prv s b"
    using c(2) chain_first [of "prv s" b "rev xs" NBUF] last_rev_hd [of NBUF "rev xs"]
    unfolding chain_append by simp
  have nb: "nxt s b \<noteq> b"
    using n c(3) last_in_set [of "NBUF # rev ys"] by auto
  have "prv (unlink b s) = (prv s)(nxt s b := prv s b)"
    by (auto simp: unlink_def Let_def fun_eq_iff)
  moreover have "prv (unlink b s) b = prv s b" using nb by (simp add: unlink_def Let_def)
  then have "nxt (unlink b s) = (nxt s)(prv s b := nxt s b)" unfolding unlink_nxt by simp
  ultimately show ?thesis
    using chain_delete [OF c(1,3)] chain_delete [OF c(2,4)] c(3) n p
    by (auto simp: dll_def)
qed

text \<open>Neither list operation touches any field but the links.\<close>

lemma push_front_fields [simp]:
  "b_valid (bc_buf (push_front b s) i) = b_valid (bc_buf s i)"
  "b_disk (bc_buf (push_front b s) i) = b_disk (bc_buf s i)"
  "b_dev (bc_buf (push_front b s) i) = b_dev (bc_buf s i)"
  "b_blockno (bc_buf (push_front b s) i) = b_blockno (bc_buf s i)"
  "b_lock (bc_buf (push_front b s) i) = b_lock (bc_buf s i)"
  "b_refcnt (bc_buf (push_front b s) i) = b_refcnt (bc_buf s i)"
  "b_data (bc_buf (push_front b s) i) = b_data (bc_buf s i)"
  "bc_pid (push_front b s) = bc_pid s" "d_disk (push_front b s) = d_disk s"
  "d_trace (push_front b s) = d_trace s"
  by (simp_all add: push_front_def Let_def)

lemma unlink_fields [simp]:
  "b_valid (bc_buf (unlink b s) i) = b_valid (bc_buf s i)"
  "b_disk (bc_buf (unlink b s) i) = b_disk (bc_buf s i)"
  "b_dev (bc_buf (unlink b s) i) = b_dev (bc_buf s i)"
  "b_blockno (bc_buf (unlink b s) i) = b_blockno (bc_buf s i)"
  "b_lock (bc_buf (unlink b s) i) = b_lock (bc_buf s i)"
  "b_refcnt (bc_buf (unlink b s) i) = b_refcnt (bc_buf s i)"
  "b_data (bc_buf (unlink b s) i) = b_data (bc_buf s i)"
  "bc_pid (unlink b s) = bc_pid s" "d_disk (unlink b s) = d_disk s"
  "d_trace (unlink b s) = d_trace s"
  by (simp_all add: unlink_def Let_def)

lemma dll_bset:
  assumes "\<And>x. b_next (f x) = b_next x" and "\<And>x. b_prev (f x) = b_prev x"
  shows "dll (bset b f s) xs = dll s xs"
proof -
  have "nxt (bset b f s) = nxt s" "prv (bset b f s) = prv s" using assms by auto
  then show ?thesis by (simp only: dll_def)
qed

lemma dll_relink:
  "dll s xs \<Longrightarrow> b \<in> set xs \<Longrightarrow> \<exists>ys. dll (push_front b (unlink b s)) ys \<and> set ys = set xs"
proof -
  assume d: "dll s xs" and b: "b \<in> set xs"
  then obtain us vs where xs: "xs = us @ b # vs" by (meson split_list)
  have "dll (push_front b (unlink b s)) (b # us @ vs)"
    using d xs by (intro dll_push_front dll_unlink) (auto simp: dll_def)
  then show ?thesis using xs by (intro exI [of _ "b # us @ vs"]) auto
qed

section \<open>Invariant and abstract view\<close>

definition lru :: "bio \<Rightarrow> nat list \<Rightarrow> bool" where
  "lru s xs \<longleftrightarrow> dll s xs \<and> set xs = {..<NBUF}"

text \<open>
  A buffer either has never been used or holds a block of the root device; a buffer
  nobody references is unlocked and, if valid, agrees with the disk.
\<close>

definition buf_ok :: "bio \<Rightarrow> buf \<Rightarrow> bool" where
  "buf_ok s x \<longleftrightarrow>
     (b_dev x = ROOTDEV \<or> b_dev x = 0 \<and> \<not> b_valid x \<and> b_refcnt x = 0) \<and>
     (b_refcnt x = 0 \<longrightarrow> \<not> sl_locked (b_lock x) \<and>
        (b_valid x \<longrightarrow> blk (b_data x) = d_disk s (b_blockno x)))"

definition bufs_ok :: "bio \<Rightarrow> bool" where
  "bufs_ok s \<longleftrightarrow> (\<forall>i<NBUF. buf_ok s (bc_buf s i))"

definition holds_block :: "bio \<Rightarrow> nat \<Rightarrow> u32 \<Rightarrow> bool" where
  "holds_block s i n \<longleftrightarrow> i < NBUF \<and> b_dev (bc_buf s i) = ROOTDEV \<and> b_blockno (bc_buf s i) = n"

text \<open>At most one buffer per disk block.\<close>

definition uniq :: "bio \<Rightarrow> bool" where
  "uniq s \<longleftrightarrow> (\<forall>i j n. holds_block s i n \<longrightarrow> holds_block s j n \<longrightarrow> i = j)"

definition disk_ok :: "bio \<Rightarrow> bool" where
  "disk_ok s \<longleftrightarrow> (\<forall>n. blk (d_disk s n) = d_disk s n)"

definition bio_inv :: "bio \<Rightarrow> bool" where
  "bio_inv s \<longleftrightarrow> (\<exists>xs. lru s xs) \<and> bufs_ok s \<and> uniq s \<and> disk_ok s"

definition cached :: "bio \<Rightarrow> u32 \<Rightarrow> nat option" where
  "cached s n = find (\<lambda>i. b_dev (bc_buf s i) = ROOTDEV \<and> b_blockno (bc_buf s i) = n) [0..<NBUF]"

text \<open>
  What the users of the cache see: per disk block its current contents, the number of
  references to it and who has it locked, together with the disk and its history.
\<close>

record acache =
  a_cont :: "u32 \<Rightarrow> bytes"
  a_refs :: "u32 \<Rightarrow> u32"
  a_held :: "u32 \<Rightarrow> nat option"
  a_disk :: "u32 \<Rightarrow> bytes"
  a_trace :: "(u32 \<times> bytes) list"
  a_pid :: nat

definition buf_cont :: "bio \<Rightarrow> u32 \<Rightarrow> bytes" where
  "buf_cont s n = (case cached s n of
     Some i \<Rightarrow> if b_valid (bc_buf s i) then blk (b_data (bc_buf s i)) else d_disk s n
   | None \<Rightarrow> d_disk s n)"

definition buf_refs :: "bio \<Rightarrow> u32 \<Rightarrow> u32" where
  "buf_refs s n = (case cached s n of Some i \<Rightarrow> b_refcnt (bc_buf s i) | None \<Rightarrow> 0)"

definition buf_held :: "bio \<Rightarrow> u32 \<Rightarrow> nat option" where
  "buf_held s n = (case cached s n of
     Some i \<Rightarrow> if sl_locked (b_lock (bc_buf s i)) then Some (sl_pid (b_lock (bc_buf s i))) else None
   | None \<Rightarrow> None)"

definition acache_of :: "bio \<Rightarrow> acache" where
  "acache_of s = \<lparr>a_cont = buf_cont s, a_refs = buf_refs s, a_held = buf_held s,
     a_disk = d_disk s, a_trace = d_trace s, a_pid = bc_pid s\<rparr>"

text \<open>\<open>handle s n b\<close>: the running process has block \<open>n\<close> locked in buffer \<open>b\<close>.\<close>

definition handle :: "bio \<Rightarrow> u32 \<Rightarrow> nat \<Rightarrow> bool" where
  "handle s n b \<longleftrightarrow> holds_block s b n \<and> b_valid (bc_buf s b) \<and>
     holdingsleep (bc_pid s) (b_lock (bc_buf s b))"

lemma blk_blk [simp]: "blk (blk d) = blk d"
  by (simp add: blk_def fun_eq_iff)

lemma find_upt_Some_iff:
  "find P [0..<n] = Some i \<longleftrightarrow> i < n \<and> P i \<and> (\<forall>j<i. \<not> P j)"
  by (auto simp: find_Some_iff)

lemma cached_iff:
  assumes "uniq s"
  shows "cached s n = Some i \<longleftrightarrow> holds_block s i n"
proof
  assume "cached s n = Some i"
  then show "holds_block s i n" by (auto simp: cached_def holds_block_def find_upt_Some_iff)
next
  assume h: "holds_block s i n"
  then have "cached s n \<noteq> None"
    by (auto simp: cached_def holds_block_def find_None_iff)
  then obtain j where j: "cached s n = Some j" by auto
  then have "holds_block s j n" by (auto simp: cached_def holds_block_def find_upt_Some_iff)
  then show "cached s n = Some i" using h j assms by (auto simp: uniq_def)
qed

lemma cached_eqI:
  assumes "uniq s" and "\<And>i. holds_block s i n \<longleftrightarrow> c = Some i"
  shows "cached s n = c"
proof (cases c)
  case None
  then show ?thesis using cached_iff [OF assms(1), of n] assms(2) by (cases "cached s n") auto
qed (use cached_iff [OF assms(1), of n] assms(2) in auto)

lemma cached_holds: "cached s n = Some i \<Longrightarrow> holds_block s i n"
  by (auto simp: cached_def holds_block_def find_upt_Some_iff)

lemma view_of_holder:
  assumes "uniq s" and "holds_block s i n"
  shows "buf_cont s n = (if b_valid (bc_buf s i) then blk (b_data (bc_buf s i)) else d_disk s n)"
    "buf_refs s n = b_refcnt (bc_buf s i)"
    "buf_held s n = (if sl_locked (b_lock (bc_buf s i))
       then Some (sl_pid (b_lock (bc_buf s i))) else None)"
proof -
  have "cached s n = Some i" using cached_iff [OF assms(1)] assms(2) by blast
  then show "buf_cont s n = (if b_valid (bc_buf s i) then blk (b_data (bc_buf s i)) else d_disk s n)"
    "buf_refs s n = b_refcnt (bc_buf s i)"
    "buf_held s n = (if sl_locked (b_lock (bc_buf s i))
       then Some (sl_pid (b_lock (bc_buf s i))) else None)"
    by (simp_all add: buf_cont_def buf_refs_def buf_held_def)
qed

section \<open>Changing one buffer\<close>

definition keeps_key :: "(buf \<Rightarrow> buf) \<Rightarrow> bool" where
  "keeps_key f \<longleftrightarrow> (\<forall>x. b_dev (f x) = b_dev x \<and> b_blockno (f x) = b_blockno x \<and>
     b_next (f x) = b_next x \<and> b_prev (f x) = b_prev x)"

lemma bset_holds: "keeps_key f \<Longrightarrow> holds_block (bset b f s) i n = holds_block s i n"
  by (auto simp: holds_block_def keeps_key_def)

lemma bset_uniq: "keeps_key f \<Longrightarrow> uniq (bset b f s) = uniq s"
  by (simp add: uniq_def bset_holds)

lemma bset_cached: "keeps_key f \<Longrightarrow> cached (bset b f s) n = cached s n"
proof -
  assume k: "keeps_key f"
  have "(\<lambda>i. b_dev (bc_buf (bset b f s) i) = ROOTDEV \<and> b_blockno (bc_buf (bset b f s) i) = n) =
      (\<lambda>i. b_dev (bc_buf s i) = ROOTDEV \<and> b_blockno (bc_buf s i) = n)"
    using k by (auto simp: keeps_key_def fun_eq_iff)
  then show ?thesis by (simp only: cached_def)
qed

lemma bset_lru: "keeps_key f \<Longrightarrow> lru (bset b f s) xs = lru s xs"
  unfolding lru_def by (subst dll_bset) (auto simp: keeps_key_def)

lemma cached_other: "holds_block s b n \<Longrightarrow> m \<noteq> n \<Longrightarrow> cached s m = Some i \<Longrightarrow> i \<noteq> b"
  by (auto dest: cached_holds simp: holds_block_def)

lemma bset_refs:
  assumes k: "keeps_key f" and u: "uniq s" and h: "holds_block s b n"
  shows "buf_refs (bset b f s) = (buf_refs s)(n := b_refcnt (f (bc_buf s b)))"
proof
  fix m
  show "buf_refs (bset b f s) m = ((buf_refs s)(n := b_refcnt (f (bc_buf s b)))) m"
    using cached_iff [OF u, of n b] h cached_other [OF h, of m]
    by (cases "m = n") (auto simp: buf_refs_def bset_cached [OF k] split: option.splits)
qed

lemma bset_held:
  assumes k: "keeps_key f" and u: "uniq s" and h: "holds_block s b n"
  shows "buf_held (bset b f s) = (buf_held s)(n := if sl_locked (b_lock (f (bc_buf s b)))
     then Some (sl_pid (b_lock (f (bc_buf s b)))) else None)"
proof
  fix m
  show "buf_held (bset b f s) m = ((buf_held s)(n := if sl_locked (b_lock (f (bc_buf s b)))
     then Some (sl_pid (b_lock (f (bc_buf s b)))) else None)) m"
    using cached_iff [OF u, of n b] h cached_other [OF h, of m]
    by (cases "m = n") (auto simp: buf_held_def bset_cached [OF k] split: option.splits)
qed

lemma bset_cont:
  assumes k: "keeps_key f" and u: "uniq s" and h: "holds_block s b n"
  shows "buf_cont (bset b f s) = (buf_cont s)(n := if b_valid (f (bc_buf s b))
     then blk (b_data (f (bc_buf s b))) else d_disk s n)"
proof
  fix m
  show "buf_cont (bset b f s) m = ((buf_cont s)(n := if b_valid (f (bc_buf s b))
     then blk (b_data (f (bc_buf s b))) else d_disk s n)) m"
    using cached_iff [OF u, of n b] h cached_other [OF h, of m]
    by (cases "m = n") (auto simp: buf_cont_def bset_cached [OF k] split: option.splits)
qed

lemma buf_ok_bset [simp]: "buf_ok (bset b f s) x = buf_ok s x"
  by (simp add: buf_ok_def)

lemma bset_inv:
  assumes "bio_inv s" and "keeps_key f" and "buf_ok s (f (bc_buf s b))"
  shows "bio_inv (bset b f s)"
proof -
  have "bufs_ok (bset b f s)" using assms by (auto simp: bio_inv_def bufs_ok_def)
  then show ?thesis
    using assms by (simp add: bio_inv_def bset_uniq bset_lru disk_ok_def)
qed

lemma bset_handle:
  assumes "keeps_key f" and "holds_block s b n" and "m \<noteq> n"
  shows "handle (bset b f s) m c = handle s m c"
proof (cases "c = b")
  case True
  then have "\<not> holds_block s c m" using assms by (simp add: holds_block_def)
  then show ?thesis using assms(1) by (simp add: handle_def bset_holds)
qed (simp add: handle_def bset_holds [OF assms(1)])

lemma handle_held: "uniq s \<Longrightarrow> handle s n b \<Longrightarrow> buf_held s n = Some (bc_pid s)"
  by (simp add: handle_def view_of_holder(3) [of s b] holdingsleep_def)

lemma handle_refs: "bio_inv s \<Longrightarrow> handle s n b \<Longrightarrow> buf_refs s n \<noteq> 0"
  using view_of_holder(2) [of s b n]
  by (auto simp: bio_inv_def handle_def bufs_ok_def buf_ok_def holds_block_def holdingsleep_def)

lemma handle_cont: "uniq s \<Longrightarrow> handle s n b \<Longrightarrow> blk (b_data (bc_buf s b)) = buf_cont s n"
  by (simp add: handle_def view_of_holder(1) [of s b])

lemma handle_other: "handle s n b \<Longrightarrow> handle s m c \<Longrightarrow> m \<noteq> n \<Longrightarrow> c \<noteq> b"
  by (auto simp: handle_def holds_block_def)

section \<open>Getting a buffer\<close>

text \<open>
  When \<^verbatim>\<open>bget\<close> can return at once: nobody holds the block, its reference count
  does not wrap, and it is either in use already or some buffer is unused.
\<close>

definition ac_ready :: "u32 \<Rightarrow> acache \<Rightarrow> bool" where
  "ac_ready n a \<longleftrightarrow> a_held a n = None \<and> a_refs a n + 1 \<noteq> 0 \<and>
     (a_refs a n \<noteq> 0 \<or> card {m. a_refs a m \<noteq> 0} < NBUF)"

lemma refs_cached: "buf_refs s m \<noteq> 0 \<Longrightarrow> \<exists>i. holds_block s i m \<and> b_refcnt (bc_buf s i) \<noteq> 0"
  by (auto simp: buf_refs_def dest: cached_holds split: option.splits)

lemma finite_refs: "finite {m. buf_refs s m \<noteq> 0}"
proof (rule finite_subset)
  show "{m. buf_refs s m \<noteq> 0} \<subseteq> (\<lambda>i. b_blockno (bc_buf s i)) ` {..<NBUF}"
    by (auto dest!: refs_cached simp: holds_block_def)
qed simp

lemma free_buffer:
  assumes "bio_inv s" and "card {m. buf_refs s m \<noteq> 0} < NBUF"
  shows "\<exists>i<NBUF. b_refcnt (bc_buf s i) = 0"
proof (rule ccontr)
  assume used: "\<not> ?thesis"
  let ?bn = "\<lambda>i. b_blockno (bc_buf s i)"
  have u: "uniq s" using assms by (simp add: bio_inv_def)
  have h: "holds_block s i (?bn i)" if "i < NBUF" for i
    using that used assms(1) by (auto simp: bio_inv_def bufs_ok_def buf_ok_def holds_block_def)
  have "inj_on ?bn {..<NBUF}"
  proof (rule inj_onI)
    fix i j assume ij: "i \<in> {..<NBUF}" "j \<in> {..<NBUF}" "?bn i = ?bn j"
    then have "holds_block s i (?bn j)" "holds_block s j (?bn j)" using h [of i] h [of j] by auto
    then show "i = j" using u unfolding uniq_def by blast
  qed
  moreover have "?bn ` {..<NBUF} \<subseteq> {m. buf_refs s m \<noteq> 0}"
  proof safe
    fix i assume i: "i < NBUF" "buf_refs s (?bn i) = 0"
    then show False using used view_of_holder(2) [OF u h [OF i(1)]] by auto
  qed
  ultimately have "NBUF \<le> card {m. buf_refs s m \<noteq> 0}"
    using card_inj_on_le [of ?bn "{..<NBUF}" "{m. buf_refs s m \<noteq> 0}"] finite_refs by simp
  then show False using assms(2) by simp
qed

lemma lru_scan:
  assumes "lru s xs"
  shows "scan (nxt s) ok (nxt s NBUF) = Some (find ok xs)"
    "scan (prv s) ok (prv s NBUF) = Some (find ok (rev xs))"
  using assms scan_chain [of "nxt s" NBUF xs ok] scan_chain [of "prv s" NBUF "rev xs" ok]
  by (auto simp: lru_def dll_def)

lemma scan_key:
  assumes "lru s xs" and u: "uniq s"
  shows "scan (nxt s) (\<lambda>b. b_dev (bc_buf s b) = ROOTDEV \<and> b_blockno (bc_buf s b) = n)
           (nxt s NBUF) = Some (cached s n)"
proof -
  let ?P = "\<lambda>b. b_dev (bc_buf s b) = ROOTDEV \<and> b_blockno (bc_buf s b) = n"
  have xs: "set xs = {..<NBUF}" using assms(1) by (simp add: lru_def)
  have "cached s n = find ?P xs"
  proof (rule cached_eqI [OF u])
    fix i
    show "holds_block s i n \<longleftrightarrow> find ?P xs = Some i"
    proof
      assume h: "holds_block s i n"
      then have "find ?P xs \<noteq> None" using xs by (auto simp: find_None_iff holds_block_def)
      then obtain j where j: "find ?P xs = Some j" by auto
      then have "j \<in> set xs" "?P j" by (auto simp: find_Some_iff)
      then have "holds_block s j n" using xs by (auto simp: holds_block_def)
      then show "find ?P xs = Some i" using h j u by (auto simp: uniq_def)
    next
      assume "find ?P xs = Some i"
      then have "i \<in> set xs" "?P i" by (auto simp: find_Some_iff)
      then show "holds_block s i n" using xs by (auto simp: holds_block_def)
    qed
  qed
  then show ?thesis using lru_scan(1) [OF assms(1), of ?P] by simp
qed

definition recycle :: "u32 \<Rightarrow> buf \<Rightarrow> buf" where
  "recycle n x = x\<lparr>b_dev := ROOTDEV, b_blockno := n, b_valid := False, b_refcnt := 1\<rparr>"

lemma recycle_holds:
  "b < NBUF \<Longrightarrow> holds_block (bset b (recycle n) s) i m \<longleftrightarrow>
     (if i = b then m = n else holds_block s i m)"
  by (auto simp: holds_block_def recycle_def)

lemma recycle_uniq:
  assumes "uniq s" and "b < NBUF" and "\<And>i. \<not> holds_block s i n"
  shows "uniq (bset b (recycle n) s)"
  using assms unfolding uniq_def by (auto simp: recycle_holds split: if_splits)

lemma recycle_cached:
  assumes u: "uniq s" and b: "b < NBUF" and "\<And>i. \<not> holds_block s i n"
  shows "cached (bset b (recycle n) s) m =
    (if m = n then Some b else if cached s m = Some b then None else cached s m)"
proof (rule cached_eqI [OF recycle_uniq [OF assms]])
  fix i
  have "holds_block s i m \<Longrightarrow> holds_block s b m \<Longrightarrow> i = b" using u by (auto simp: uniq_def)
  then show "holds_block (bset b (recycle n) s) i m \<longleftrightarrow>
    (if m = n then Some b else if cached s m = Some b then None else cached s m) = Some i"
    using assms(3) cached_iff [OF u, of m] by (auto simp: recycle_holds [OF b])
qed

lemma recycle_view:
  assumes inv: "bio_inv s" and b: "b < NBUF" and free: "b_refcnt (bc_buf s b) = 0"
    and no: "\<And>i. \<not> holds_block s i n"
  shows "buf_refs (bset b (recycle n) s) = (buf_refs s)(n := 1)"
    "buf_held (bset b (recycle n) s) = buf_held s"
    "buf_cont (bset b (recycle n) s) = buf_cont s"
proof -
  have u: "uniq s" and ok: "buf_ok s (bc_buf s b)"
    using inv b by (auto simp: bio_inv_def bufs_ok_def)
  have none: "cached s n = None" using no cached_holds [of s n] by (cases "cached s n") auto
  note c = recycle_cached [OF u b no]
  show "buf_refs (bset b (recycle n) s) = (buf_refs s)(n := 1)"
    by (auto simp: fun_eq_iff buf_refs_def c recycle_def free split: option.splits)
  show "buf_held (bset b (recycle n) s) = buf_held s"
    using ok free none
    by (auto simp: fun_eq_iff buf_held_def c recycle_def buf_ok_def split: option.splits)
  show "buf_cont (bset b (recycle n) s) = buf_cont s"
  proof
    fix m
    have "b_blockno (bc_buf s b) = m" if "cached s m = Some b"
      using cached_holds [OF that] by (simp add: holds_block_def)
    then show "buf_cont (bset b (recycle n) s) m = buf_cont s m"
      using ok free none
      by (auto simp: buf_cont_def c recycle_def buf_ok_def split: option.splits)
  qed
qed

lemma recycle_inv:
  assumes inv: "bio_inv s" and b: "b < NBUF" and free: "b_refcnt (bc_buf s b) = 0"
    and no: "\<And>i. \<not> holds_block s i n"
  shows "bio_inv (bset b (recycle n) s)"
proof -
  have "lru (bset b (recycle n) s) xs = lru s xs" for xs
    unfolding lru_def by (subst dll_bset) (auto simp: recycle_def)
  moreover have "buf_ok s (recycle n x)" for x by (simp add: buf_ok_def recycle_def)
  then have "bufs_ok (bset b (recycle n) s)"
    using inv by (auto simp: bio_inv_def bufs_ok_def)
  ultimately show ?thesis
    using inv b no by (simp add: bio_inv_def recycle_uniq disk_ok_def)
qed

lemma bget_pick:
  assumes inv: "bio_inv s" and rdy: "ac_ready n (acache_of s)"
  obtains b s1 where "bget ROOTDEV n s = lock_buf b s1" "bio_inv s1" "holds_block s1 b n"
    "\<not> sl_locked (b_lock (bc_buf s1 b))" "b_refcnt (bc_buf s1 b) \<noteq> 0"
    "acache_of s1 = (acache_of s)\<lparr>a_refs := (buf_refs s)(n := buf_refs s n + 1)\<rparr>"
    "\<And>m c. m \<noteq> n \<Longrightarrow> handle s1 m c = handle s m c"
proof -
  have u: "uniq s" and ok: "bufs_ok s" using inv by (auto simp: bio_inv_def)
  obtain xs where xs: "lru s xs" using inv by (auto simp: bio_inv_def)
  note find = scan_key [OF xs u, of n] lru_scan(2) [OF xs, of "\<lambda>b. b_refcnt (bc_buf s b) = 0"]
  show thesis
  proof (cases "cached s n")
    case (Some b)
    let ?f = "\<lambda>x. x\<lparr>b_refcnt := b_refcnt x + 1\<rparr>"
    have k: "keeps_key ?f" by (simp add: keeps_key_def)
    have h: "holds_block s b n" using Some by (rule cached_holds)
    note v = view_of_holder [OF u h]
    have free: "\<not> sl_locked (b_lock (bc_buf s b))" "b_refcnt (bc_buf s b) + 1 \<noteq> 0"
      using rdy v by (auto simp: ac_ready_def acache_of_def split: if_splits)
    have "buf_ok s (bc_buf s b)" using ok h by (auto simp: bufs_ok_def holds_block_def)
    then have okf: "buf_ok s (?f (bc_buf s b))" using free h by (auto simp: buf_ok_def holds_block_def)
    show thesis
    proof (rule that [of b "bset b ?f s"])
      show "bget ROOTDEV n s = lock_buf b (bset b ?f s)"
        by (simp add: bget_def find Some)
      show "bio_inv (bset b ?f s)" by (rule bset_inv [OF inv k okf])
      show "holds_block (bset b ?f s) b n" using h by (simp add: bset_holds [OF k])
      show "acache_of (bset b ?f s) =
          (acache_of s)\<lparr>a_refs := (buf_refs s)(n := buf_refs s n + 1)\<rparr>"
        using free v
        by (simp add: acache_of_def bset_refs [OF k u h] bset_held [OF k u h] bset_cont [OF k u h]
            fun_upd_idem)
      show "handle (bset b ?f s) m c = handle s m c" if "m \<noteq> n" for m c
        by (rule bset_handle [OF k h that])
    qed (use free in simp_all)
  next
    case None
    have no: "\<not> holds_block s i n" for i using None cached_iff [OF u, of n i] by simp
    have r0: "buf_refs s n = 0" using None by (simp add: buf_refs_def)
    then obtain i where "i < NBUF" "b_refcnt (bc_buf s i) = 0"
      using free_buffer [OF inv] rdy by (auto simp: ac_ready_def acache_of_def)
    then have "find (\<lambda>b. b_refcnt (bc_buf s b) = 0) (rev xs) \<noteq> None"
      using xs by (auto simp: find_None_iff lru_def)
    then obtain b where b: "find (\<lambda>b. b_refcnt (bc_buf s b) = 0) (rev xs) = Some b" by auto
    then have "b \<in> set xs" and rb: "b_refcnt (bc_buf s b) = 0"
      by (auto simp: find_Some_iff rev_nth)
    then have bN: "b < NBUF" using xs by (auto simp: lru_def)
    have okb: "buf_ok s (bc_buf s b)" using ok bN by (simp add: bufs_ok_def)
    show thesis
    proof (rule that [of b "bset b (recycle n) s"])
      show "bget ROOTDEV n s = lock_buf b (bset b (recycle n) s)"
        by (simp add: bget_def find None b recycle_def [abs_def])
      show "bio_inv (bset b (recycle n) s)" by (rule recycle_inv [OF inv bN rb no])
      show "holds_block (bset b (recycle n) s) b n" by (simp add: recycle_holds [OF bN])
      show "acache_of (bset b (recycle n) s) =
          (acache_of s)\<lparr>a_refs := (buf_refs s)(n := buf_refs s n + 1)\<rparr>"
        using r0 by (simp add: acache_of_def recycle_view [OF inv bN rb no])
      show "handle (bset b (recycle n) s) m c = handle s m c" if "m \<noteq> n" for m c
        using that okb rb
        by (auto simp: handle_def recycle_holds [OF bN] buf_ok_def holdingsleep_def)
    qed (use okb rb in \<open>simp_all add: recycle_def buf_ok_def\<close>)
  qed
qed

section \<open>The cache seen by its users\<close>

text \<open>The abstract effect of each operation, per disk block.\<close>

definition ac_read :: "u32 \<Rightarrow> acache \<Rightarrow> acache" where
  "ac_read n a = a\<lparr>a_refs := (a_refs a)(n := a_refs a n + 1),
     a_held := (a_held a)(n \<mapsto> a_pid a)\<rparr>"

definition ac_set :: "u32 \<Rightarrow> bytes \<Rightarrow> acache \<Rightarrow> acache" where
  "ac_set n d a = a\<lparr>a_cont := (a_cont a)(n := blk d)\<rparr>"

definition ac_write :: "u32 \<Rightarrow> acache \<Rightarrow> acache" where
  "ac_write n a = a\<lparr>a_disk := (a_disk a)(n := a_cont a n),
     a_trace := a_trace a @ [(n, a_cont a n)]\<rparr>"

definition ac_relse :: "u32 \<Rightarrow> acache \<Rightarrow> acache" where
  "ac_relse n a = a\<lparr>a_refs := (a_refs a)(n := a_refs a n - 1),
     a_held := (a_held a)(n := None)\<rparr>"

definition ac_pin :: "u32 \<Rightarrow> acache \<Rightarrow> acache" where
  "ac_pin n a = a\<lparr>a_refs := (a_refs a)(n := a_refs a n + 1)\<rparr>"

definition ac_unpin :: "u32 \<Rightarrow> acache \<Rightarrow> acache" where
  "ac_unpin n a = a\<lparr>a_refs := (a_refs a)(n := a_refs a n - 1)\<rparr>"

lemmas ac_defs = ac_read_def ac_set_def ac_write_def ac_relse_def ac_pin_def ac_unpin_def

lemma acache_of_sel [simp]:
  "a_cont (acache_of s) = buf_cont s" "a_refs (acache_of s) = buf_refs s"
  "a_held (acache_of s) = buf_held s" "a_disk (acache_of s) = d_disk s"
  "a_trace (acache_of s) = d_trace s" "a_pid (acache_of s) = bc_pid s"
  by (simp_all add: acache_of_def)

lemma acache_of_eqI:
  "buf_cont s = a_cont a \<Longrightarrow> buf_refs s = a_refs a \<Longrightarrow> buf_held s = a_held a \<Longrightarrow>
   d_disk s = a_disk a \<Longrightarrow> d_trace s = a_trace a \<Longrightarrow> bc_pid s = a_pid a \<Longrightarrow> acache_of s = a"
  by (simp add: acache_of_def)

lemma bset_acache:
  assumes "keeps_key f" and "uniq s" and "holds_block s b n"
  shows "acache_of (bset b f s) = (acache_of s)\<lparr>
     a_cont := (buf_cont s)(n := if b_valid (f (bc_buf s b))
       then blk (b_data (f (bc_buf s b))) else d_disk s n),
     a_refs := (buf_refs s)(n := b_refcnt (f (bc_buf s b))),
     a_held := (buf_held s)(n := if sl_locked (b_lock (f (bc_buf s b)))
       then Some (sl_pid (b_lock (f (bc_buf s b)))) else None)\<rparr>"
  by (rule acache_of_eqI)
    (simp_all add: bset_refs [OF assms] bset_held [OF assms] bset_cont [OF assms])

lemma bread_spec:
  assumes inv: "bio_inv s" and rdy: "ac_ready n (acache_of s)"
  obtains b s' where "bread ROOTDEV n s = Ok (b, s')" "bio_inv s'" "handle s' n b"
    "acache_of s' = ac_read n (acache_of s)"
    "\<And>m c. m \<noteq> n \<Longrightarrow> handle s' m c = handle s m c"
proof -
  obtain b s1 where get: "bget ROOTDEV n s = lock_buf b s1" and i1: "bio_inv s1"
    and h1: "holds_block s1 b n" and free: "\<not> sl_locked (b_lock (bc_buf s1 b))"
      "b_refcnt (bc_buf s1 b) \<noteq> 0"
    and a1: "acache_of s1 = (acache_of s)\<lparr>a_refs := (buf_refs s)(n := buf_refs s n + 1)\<rparr>"
    and fr1: "\<And>m c. m \<noteq> n \<Longrightarrow> handle s1 m c = handle s m c"
    using bget_pick [OF inv rdy] by blast
  define lk where "lk = (b_lock (bc_buf s1 b))\<lparr>sl_locked := True, sl_pid := bc_pid s1\<rparr>"
  define g where "g = (\<lambda>x :: buf. if b_valid x then x\<lparr>b_lock := lk\<rparr>
      else x\<lparr>b_lock := lk, b_data := d_disk s1 n, b_valid := True\<rparr>)"
  have k: "keeps_key g" by (simp add: keeps_key_def g_def)
  have g: "b_valid (g x)" "b_lock (g x) = lk" "b_refcnt (g x) = b_refcnt x"
    "b_data (g x) = (if b_valid x then b_data x else d_disk s1 n)" for x
    by (simp_all add: g_def)
  have u1: "uniq s1" and d1: "blk (d_disk s1 n) = d_disk s1 n"
    using i1 by (auto simp: bio_inv_def disk_ok_def)
  have read: "bread ROOTDEV n s = Ok (b, bset b g s1)"
    using free h1
    by (simp add: bread_def get lock_buf_def acquiresleep_def disk_rw_def set_data_def bset_def
        g_def lk_def holds_block_def)
  have okg: "buf_ok s1 (g (bc_buf s1 b))"
    using free h1 by (simp add: buf_ok_def g_def holds_block_def)
  have pid: "bc_pid s1 = bc_pid s" using arg_cong [OF a1, of a_pid] by simp
  show thesis
  proof (rule that [OF read])
    show "bio_inv (bset b g s1)" by (rule bset_inv [OF i1 k okg])
    show "handle (bset b g s1) n b"
      using h1 by (simp add: handle_def bset_holds [OF k] g lk_def holdingsleep_def)
    show "acache_of (bset b g s1) = ac_read n (acache_of s)"
      unfolding bset_acache [OF k u1 h1] using a1 view_of_holder [OF u1 h1] d1 pid
      by (auto simp: g lk_def ac_read_def acache_of_def fun_upd_idem split: if_splits)
    show "handle (bset b g s1) m c = handle s m c" if "m \<noteq> n" for m c
      using fr1 [OF that] bset_handle [OF k h1 that] by simp
  qed
qed

lemma handle_uniq: "bio_inv s \<Longrightarrow> uniq s"
  by (simp add: bio_inv_def)

lemma handle_same: "bio_inv s \<Longrightarrow> handle s n b \<Longrightarrow> handle s n c \<Longrightarrow> b = c"
  unfolding bio_inv_def uniq_def handle_def by blast

lemma handleD: "handle s n b \<Longrightarrow> holds_block s b n \<and> b < NBUF \<and> b_valid (bc_buf s b)"
  by (simp add: handle_def holds_block_def)

lemma handle_buf:
  assumes "bio_inv s" and "handle s n b"
  shows "b_refcnt (bc_buf s b) = buf_refs s n" "b_refcnt (bc_buf s b) \<noteq> 0"
    "b_dev (bc_buf s b) = ROOTDEV" "b_blockno (bc_buf s b) = n"
  using handle_refs [OF assms] view_of_holder(2) [of s b n] assms
  by (simp_all add: handle_def holds_block_def bio_inv_def)

lemma set_data_spec:
  assumes inv: "bio_inv s" and h: "handle s n b"
  shows "bio_inv (set_data b d s)" "handle (set_data b d s) n b"
    "acache_of (set_data b d s) = ac_set n d (acache_of s)"
    "m \<noteq> n \<Longrightarrow> handle (set_data b d s) m c = handle s m c"
    "b_data (bc_buf (set_data b d s) b) = d"
proof -
  let ?f = "\<lambda>x :: buf. x\<lparr>b_data := d\<rparr>"
  have k: "keeps_key ?f" by (simp add: keeps_key_def)
  have hb: "holds_block s b n" and u: "uniq s" using h inv by (auto simp: handle_def bio_inv_def)
  show "bio_inv (set_data b d s)"
    unfolding set_data_def
    using handle_buf [OF inv h] by (intro bset_inv inv k) (simp add: buf_ok_def)
  show "handle (set_data b d s) n b"
    using h by (simp add: set_data_def handle_def bset_holds [OF k])
  show "acache_of (set_data b d s) = ac_set n d (acache_of s)"
    unfolding set_data_def bset_acache [OF k u hb] using h view_of_holder [OF u hb]
    by (auto simp: ac_set_def acache_of_def handle_def fun_upd_idem)
  show "m \<noteq> n \<Longrightarrow> handle (set_data b d s) m c = handle s m c"
    unfolding set_data_def by (rule bset_handle [OF k hb])
qed (simp add: set_data_def)

lemma bpin_spec:
  assumes inv: "bio_inv s" and h: "handle s n b" and r: "buf_refs s n + 1 \<noteq> 0"
  shows "bio_inv (bpin b s)" "handle (bpin b s) n b"
    "acache_of (bpin b s) = ac_pin n (acache_of s)"
    "m \<noteq> n \<Longrightarrow> handle (bpin b s) m c = handle s m c"
    "b_data (bc_buf (bpin b s) i) = b_data (bc_buf s i)"
proof -
  let ?f = "\<lambda>x :: buf. x\<lparr>b_refcnt := b_refcnt x + 1\<rparr>"
  have k: "keeps_key ?f" by (simp add: keeps_key_def)
  have hb: "holds_block s b n" and u: "uniq s" using h inv by (auto simp: handle_def bio_inv_def)
  show "bio_inv (bpin b s)"
    unfolding bpin_def
    using handle_buf [OF inv h] r by (intro bset_inv inv k) (simp add: buf_ok_def)
  show "handle (bpin b s) n b" using h by (simp add: bpin_def handle_def bset_holds [OF k])
  show "acache_of (bpin b s) = ac_pin n (acache_of s)"
    unfolding bpin_def bset_acache [OF k u hb] using h view_of_holder [OF u hb]
    by (auto simp: ac_pin_def acache_of_def handle_def fun_upd_idem)
  show "m \<noteq> n \<Longrightarrow> handle (bpin b s) m c = handle s m c"
    unfolding bpin_def by (rule bset_handle [OF k hb])
qed (simp add: bpin_def)

lemma bunpin_spec:
  assumes inv: "bio_inv s" and h: "handle s n b" and r: "buf_refs s n \<noteq> 1"
  shows "bio_inv (bunpin b s)" "handle (bunpin b s) n b"
    "acache_of (bunpin b s) = ac_unpin n (acache_of s)"
    "m \<noteq> n \<Longrightarrow> handle (bunpin b s) m c = handle s m c"
proof -
  let ?f = "\<lambda>x :: buf. x\<lparr>b_refcnt := b_refcnt x - 1\<rparr>"
  have k: "keeps_key ?f" by (simp add: keeps_key_def)
  have hb: "holds_block s b n" and u: "uniq s" using h inv by (auto simp: handle_def bio_inv_def)
  show "bio_inv (bunpin b s)"
    unfolding bunpin_def
    using handle_buf [OF inv h] r by (intro bset_inv inv k) (simp add: buf_ok_def)
  show "handle (bunpin b s) n b" using h by (simp add: bunpin_def handle_def bset_holds [OF k])
  show "acache_of (bunpin b s) = ac_unpin n (acache_of s)"
    unfolding bunpin_def bset_acache [OF k u hb] using h view_of_holder [OF u hb]
    by (auto simp: ac_unpin_def acache_of_def handle_def fun_upd_idem)
  show "m \<noteq> n \<Longrightarrow> handle (bunpin b s) m c = handle s m c"
    unfolding bunpin_def by (rule bset_handle [OF k hb])
qed

lemma bwrite_spec:
  assumes inv: "bio_inv s" and h: "handle s n b"
  obtains s' where "bwrite b s = Ok s'" "bio_inv s'" "handle s' n b"
    "acache_of s' = ac_write n (acache_of s)" "bc_buf s' = bc_buf s"
    "\<And>m c. handle s' m c = handle s m c"
proof -
  define t where "t = disk_rw b True s"
  have hb: "holds_block s b n" and u: "uniq s" and v: "b_valid (bc_buf s b)"
    using h inv by (auto simp: handle_def bio_inv_def)
  have s: "bc_buf t = bc_buf s" "bc_pid t = bc_pid s" "d_disk t = (d_disk s)(n := buf_cont s n)"
      "d_trace t = d_trace s @ [(n, buf_cont s n)]"
    using hb view_of_holder(1) [OF u hb] v
    by (simp_all add: t_def disk_rw_def holds_block_def Let_def)
  have hold: "holds_block t = holds_block s" by (simp add: s holds_block_def fun_eq_iff)
  have cch: "cached t = cached s" by (simp add: s cached_def fun_eq_iff)
  have cn: "cached s n = Some b" using cached_iff [OF u] hb by blast
  have ok: "buf_ok t (bc_buf s i)" if i: "i < NBUF" for i
  proof (cases "i = b")
    case True
    then show ?thesis using handle_buf [OF inv h] by (simp add: buf_ok_def)
  next
    case False
    have okb: "buf_ok s (bc_buf s i)" using inv i by (simp add: bio_inv_def bufs_ok_def)
    have "\<not> holds_block s i n" using u hb False by (auto simp: uniq_def)
    then have "b_dev (bc_buf s i) = ROOTDEV \<Longrightarrow> b_blockno (bc_buf s i) \<noteq> n"
      using i by (simp add: holds_block_def)
    then show ?thesis using okb by (auto simp: buf_ok_def s)
  qed
  have "lru t xs = lru s xs" for xs by (simp add: s lru_def dll_def)
  moreover have "disk_ok t"
    using inv v view_of_holder(1) [OF u hb] by (simp add: bio_inv_def disk_ok_def s)
  ultimately have inv': "bio_inv t"
    using inv ok by (simp add: bio_inv_def bufs_ok_def uniq_def hold s)
  have "buf_cont t = buf_cont s"
    using cn v by (auto simp: buf_cont_def cch fun_eq_iff s split: option.splits)
  moreover have "buf_refs t = buf_refs s" "buf_held t = buf_held s"
    by (simp_all add: buf_refs_def buf_held_def cch fun_eq_iff s split: option.splits)
  ultimately have acc: "acache_of t = ac_write n (acache_of s)"
    by (intro acache_of_eqI) (simp_all add: ac_write_def s)
  have hd: "handle t m c = handle s m c" for m c by (simp add: handle_def hold s)
  show thesis
  proof (rule that [of t])
    show "bwrite b s = Ok t" using h by (simp add: bwrite_def handle_def t_def)
  qed (use h inv' acc hd s in simp_all)
qed

lemma relink_spec:
  assumes inv: "bio_inv s" and b: "b < NBUF"
  shows "bio_inv (push_front b (unlink b s))"
    "acache_of (push_front b (unlink b s)) = acache_of s"
    "handle (push_front b (unlink b s)) m c = handle s m c"
proof -
  let ?s = "push_front b (unlink b s)"
  obtain xs where xs: "lru s xs" using inv by (auto simp: bio_inv_def)
  then obtain ys where "dll ?s ys" "set ys = set xs" using dll_relink [of s xs b] b by (auto simp: lru_def)
  then have "lru ?s ys" using xs by (simp add: lru_def)
  moreover have hold: "holds_block ?s = holds_block s" by (simp add: holds_block_def fun_eq_iff)
  ultimately show "bio_inv ?s"
    using inv by (auto simp: bio_inv_def bufs_ok_def buf_ok_def uniq_def disk_ok_def)
  have "cached ?s = cached s" by (simp add: cached_def fun_eq_iff)
  then have "buf_cont ?s = buf_cont s" "buf_refs ?s = buf_refs s" "buf_held ?s = buf_held s"
    by (simp_all add: buf_cont_def buf_refs_def buf_held_def fun_eq_iff split: option.splits)
  then show "acache_of ?s = acache_of s" by (intro acache_of_eqI) simp_all
  show "handle ?s m c = handle s m c" by (simp add: handle_def hold)
qed

lemma brelse_spec:
  assumes inv: "bio_inv s" and h: "handle s n b"
    and clean: "buf_refs s n = 1 \<Longrightarrow> buf_cont s n = d_disk s n"
  obtains s' where "brelse b s = Ok s'" "bio_inv s'" "acache_of s' = ac_relse n (acache_of s)"
    "\<And>m c. m \<noteq> n \<Longrightarrow> handle s' m c = handle s m c"
proof -
  let ?f = "\<lambda>x :: buf. x\<lparr>b_lock := releasesleep (b_lock x), b_refcnt := b_refcnt x - 1\<rparr>"
  let ?s1 = "bset b ?f s"
  have k: "keeps_key ?f" by (simp add: keeps_key_def)
  have hb: "holds_block s b n" and u: "uniq s" and v: "b_valid (bc_buf s b)" and bN: "b < NBUF"
    using h inv by (auto simp: handle_def bio_inv_def holds_block_def)
  note x = handle_buf [OF inv h] view_of_holder [OF u hb]
  have "buf_ok s (?f (bc_buf s b))"
    using x clean v by (auto simp: buf_ok_def releasesleep_def)
  then have i1: "bio_inv ?s1" by (rule bset_inv [OF inv k])
  have a1: "acache_of ?s1 = ac_relse n (acache_of s)"
    unfolding bset_acache [OF k u hb] using x v
    by (simp add: ac_relse_def acache_of_def releasesleep_def fun_upd_idem)
  have h1: "m \<noteq> n \<Longrightarrow> handle ?s1 m c = handle s m c" for m c by (rule bset_handle [OF k hb])
  have r: "brelse b s = Ok (if b_refcnt (bc_buf s b) - 1 = 0 then push_front b (unlink b ?s1) else ?s1)"
    using h by (simp add: brelse_def handle_def bset_def Let_def)
  show thesis
  proof (cases "b_refcnt (bc_buf s b) - 1 = 0")
    case True
    show thesis
      by (rule that [of "push_front b (unlink b ?s1)"])
        (use r True relink_spec [OF i1 bN] a1 h1 in simp_all)
  next
    case False
    show thesis by (rule that [of ?s1]) (use r False i1 a1 h1 in simp_all)
  qed
qed

text \<open>The zero-initialised cache, and a machine that has just been switched on.\<close>

definition buf0 :: buf where
  "buf0 = \<lparr>b_valid = False, b_disk = False, b_dev = 0, b_blockno = 0,
     b_lock = \<lparr>sl_locked = False, sl_lk = \<lparr>lk_locked = False, lk_name = [], lk_cpu = None\<rparr>,
               sl_name = [], sl_pid = 0\<rparr>,
     b_refcnt = 0, b_prev = 0, b_next = 0, b_data = (\<lambda>_. 0)\<rparr>"

definition power_on :: "nat \<Rightarrow> (u32 \<Rightarrow> bytes) \<Rightarrow> bio" where
  "power_on pid disk = \<lparr>bc_buf = (\<lambda>_. buf0), bc_pid = pid, d_disk = disk, d_trace = []\<rparr>"

definition blank :: "bio \<Rightarrow> bool" where
  "blank s \<longleftrightarrow> (\<forall>i. b_dev (bc_buf s i) = 0 \<and> \<not> b_valid (bc_buf s i) \<and>
     b_refcnt (bc_buf s i) = 0 \<and> \<not> sl_locked (b_lock (bc_buf s i)))"

lemma binit_loop_blank:
  "blank s \<Longrightarrow> blank (binit_loop b n s) \<and> d_disk (binit_loop b n s) = d_disk s \<and>
     d_trace (binit_loop b n s) = d_trace s \<and> bc_pid (binit_loop b n s) = bc_pid s"
proof (induction n arbitrary: b s)
  case (Suc n)
  have "blank (push_front b (bset b (\<lambda>x. x\<lparr>b_lock := initsleeplock (b_lock x) ''buffer''\<rparr>) s))"
    using Suc.prems by (simp add: blank_def initsleeplock_def)
  then show ?case using Suc.IH by simp
qed simp

lemma binit_loop_dll:
  "dll s xs \<Longrightarrow> set xs = {..<b} \<Longrightarrow> b + n \<le> NBUF \<Longrightarrow>
     \<exists>ys. dll (binit_loop b n s) ys \<and> set ys = {..<b + n}"
proof (induction n arbitrary: b s xs)
  case (Suc n)
  let ?s = "bset b (\<lambda>x :: buf. x\<lparr>b_lock := initsleeplock (b_lock x) ''buffer''\<rparr>) s"
  have "dll ?s xs" using Suc.prems by (subst dll_bset) auto
  then have "dll (push_front b ?s) (b # xs)" using Suc.prems by (intro dll_push_front) auto
  moreover have "set (b # xs) = {..<Suc b}" by (simp add: lessThan_Suc Suc.prems(2))
  moreover have "Suc b + n \<le> NBUF" using Suc.prems(3) by simp
  ultimately have "\<exists>ys. dll (binit_loop (Suc b) n (push_front b ?s)) ys \<and> set ys = {..<Suc b + n}"
    by (rule Suc.IH)
  then show ?case by simp
qed auto

lemma binit_spec:
  assumes "blank s" and "disk_ok s"
  shows "bio_inv (binit s)"
    "acache_of (binit s) = \<lparr>a_cont = d_disk s, a_refs = (\<lambda>_. 0), a_held = (\<lambda>_. None),
       a_disk = d_disk s, a_trace = d_trace s, a_pid = bc_pid s\<rparr>"
proof -
  let ?s = "bset NBUF (\<lambda>x :: buf. x\<lparr>b_prev := NBUF, b_next := NBUF\<rparr>) s"
  have "blank ?s" using assms by (simp add: blank_def)
  then have b: "blank (binit s)" "d_disk (binit s) = d_disk s" "d_trace (binit s) = d_trace s"
      "bc_pid (binit s) = bc_pid s"
    using binit_loop_blank [of ?s 0 NBUF] by (simp_all add: binit_def)
  have "dll ?s []" by (simp add: dll_def)
  then have "\<exists>ys. lru (binit s) ys"
    using binit_loop_dll [of ?s "[]" 0 NBUF] by (auto simp: binit_def lru_def)
  moreover have no: "\<not> holds_block (binit s) i n" for i n
    using b(1) by (simp add: blank_def holds_block_def ROOTDEV_def)
  moreover have "bufs_ok (binit s)" using b(1) by (simp add: blank_def bufs_ok_def buf_ok_def)
  ultimately show "bio_inv (binit s)"
    using assms(2) b(2) by (simp add: bio_inv_def uniq_def disk_ok_def)
  have "cached (binit s) n = None" for n
    using no cached_holds [of "binit s" n] by (cases "cached (binit s) n") auto
  then show "acache_of (binit s) = \<lparr>a_cont = d_disk s, a_refs = (\<lambda>_. 0), a_held = (\<lambda>_. None),
       a_disk = d_disk s, a_trace = d_trace s, a_pid = bc_pid s\<rparr>"
    using b by (simp add: acache_of_def buf_cont_def buf_refs_def buf_held_def fun_eq_iff)
qed

lemma idle_clean:
  assumes "bio_inv s" and "buf_refs s n = 0"
  shows "buf_cont s n = d_disk s n" "buf_held s n = None"
proof -
  have *: "b_refcnt (bc_buf s i) = 0 \<and> buf_ok s (bc_buf s i) \<and> b_blockno (bc_buf s i) = n"
    if "cached s n = Some i" for i
    using that assms cached_holds [OF that]
    by (auto simp: buf_refs_def bio_inv_def bufs_ok_def holds_block_def)
  show "buf_cont s n = d_disk s n"
    using * by (auto simp: buf_cont_def buf_ok_def split: option.splits)
  show "buf_held s n = None"
    using * by (auto simp: buf_held_def buf_ok_def split: option.splits)
qed

section \<open>The block cache interface\<close>

text \<open>
  What the log and the file system rely on, stated over the abstract view only: read
  and lock, write through, release, and the client idioms built from them.
\<close>

definition copy_block :: "bytes \<Rightarrow> bytes \<Rightarrow> bytes" where
  "copy_block dst src = (\<lambda>i. if i < BSIZE then src i else dst i)"

lemma blk_copy_block [simp]: "blk (copy_block dst src) = blk src"
  by (simp add: copy_block_def blk_def fun_eq_iff)

locale block_cache =
  fixes rd :: "u32 \<Rightarrow> 's \<Rightarrow> (nat \<times> 's) outcome"
    and wr :: "nat \<Rightarrow> 's \<Rightarrow> 's outcome"
    and rel :: "nat \<Rightarrow> 's \<Rightarrow> 's outcome"
    and getd :: "nat \<Rightarrow> 's \<Rightarrow> bytes"
    and setd :: "nat \<Rightarrow> bytes \<Rightarrow> 's \<Rightarrow> 's"
    and inv :: "'s \<Rightarrow> bool"
    and hnd :: "'s \<Rightarrow> u32 \<Rightarrow> nat \<Rightarrow> bool"
    and view :: "'s \<Rightarrow> acache"
  assumes rd_law: "inv s \<Longrightarrow> ac_ready n (view s) \<Longrightarrow> \<exists>b s'. rd n s = Ok (b, s') \<and> inv s' \<and>
      hnd s' n b \<and> view s' = ac_read n (view s) \<and> (\<forall>m c. m \<noteq> n \<longrightarrow> hnd s' m c = hnd s m c)"
    and wr_law: "inv s \<Longrightarrow> hnd s n b \<Longrightarrow> \<exists>s'. wr b s = Ok s' \<and> inv s' \<and>
      view s' = ac_write n (view s) \<and> (\<forall>m c. hnd s' m c = hnd s m c)"
    and rel_law: "inv s \<Longrightarrow> hnd s n b \<Longrightarrow>
      (a_refs (view s) n = 1 \<longrightarrow> a_cont (view s) n = a_disk (view s) n) \<Longrightarrow>
      \<exists>s'. rel b s = Ok s' \<and> inv s' \<and> view s' = ac_relse n (view s) \<and>
        (\<forall>m c. m \<noteq> n \<longrightarrow> hnd s' m c = hnd s m c)"
    and set_law: "inv s \<Longrightarrow> hnd s n b \<Longrightarrow> inv (setd b d s) \<and> hnd (setd b d s) n b \<and>
      view (setd b d s) = ac_set n d (view s) \<and> (\<forall>m c. m \<noteq> n \<longrightarrow> hnd (setd b d s) m c = hnd s m c)"
    and get_law: "inv s \<Longrightarrow> hnd s n b \<Longrightarrow> blk (getd b s) = a_cont (view s) n"
    and idle_law: "inv s \<Longrightarrow> a_refs (view s) n = 0 \<Longrightarrow> a_cont (view s) n = a_disk (view s) n"
begin

text \<open>Reading a block and releasing it again changes nothing.\<close>

lemma peek:
  assumes "inv s" and rdy: "ac_ready n (view s)"
  obtains b s1 s2 where "rd n s = Ok (b, s1)" "blk (getd b s1) = a_cont (view s) n"
    "rel b s1 = Ok s2" "inv s2" "view s2 = view s" "\<forall>m c. m \<noteq> n \<longrightarrow> hnd s2 m c = hnd s m c"
proof -
  obtain b s1 where s1: "rd n s = Ok (b, s1)" "inv s1" "hnd s1 n b" "view s1 = ac_read n (view s)"
      "\<forall>m c. m \<noteq> n \<longrightarrow> hnd s1 m c = hnd s m c"
    using rd_law [OF assms] by blast
  have "a_refs (view s1) n = 1 \<longrightarrow> a_cont (view s1) n = a_disk (view s1) n"
    using idle_law [OF assms(1)] by (simp add: s1(4) ac_read_def)
  then obtain s2 where s2: "rel b s1 = Ok s2" "inv s2" "view s2 = ac_relse n (view s1)"
      "\<forall>m c. m \<noteq> n \<longrightarrow> hnd s2 m c = hnd s1 m c"
    using rel_law [OF s1(2,3)] by blast
  have "(a_held (view s))(n := None) = a_held (view s)"
    using rdy by (simp add: ac_ready_def fun_upd_idem)
  then have "view s2 = view s"
    by (simp add: s2(3) s1(4) ac_relse_def ac_read_def)
  moreover have "blk (getd b s1) = a_cont (view s) n"
    using get_law [OF s1(2,3)] by (simp add: s1(4) ac_read_def)
  ultimately show thesis using that s1 s2 by blast
qed

text \<open>Read, modify, write through, release.\<close>

lemma update:
  assumes "inv s" and rdy: "ac_ready n (view s)"
  obtains b s1 s2 s3 where "rd n s = Ok (b, s1)" "blk (getd b s1) = a_cont (view s) n"
    "wr b (setd b (f (getd b s1)) s1) = Ok s2" "rel b s2 = Ok s3" "inv s3"
    "view s3 = ac_write n (ac_set n (f (getd b s1)) (view s))" "\<forall>m c. m \<noteq> n \<longrightarrow> hnd s3 m c = hnd s m c"
proof -
  obtain b s1 where s1: "rd n s = Ok (b, s1)" "inv s1" "hnd s1 n b" "view s1 = ac_read n (view s)"
      "\<forall>m c. m \<noteq> n \<longrightarrow> hnd s1 m c = hnd s m c"
    using rd_law [OF assms] by blast
  define d where "d = f (getd b s1)"
  note t = set_law [OF s1(2,3), of d]
  obtain s2 where s2: "wr b (setd b d s1) = Ok s2" "inv s2" "view s2 = ac_write n (view (setd b d s1))"
      "\<forall>m c. hnd s2 m c = hnd (setd b d s1) m c"
    using wr_law [of "setd b d s1" n b] t by blast
  have "a_cont (view s2) n = a_disk (view s2) n" by (simp add: s2(3) ac_write_def)
  moreover have "hnd s2 n b" using s2(4) t by blast
  ultimately obtain s3 where s3: "rel b s2 = Ok s3" "inv s3" "view s3 = ac_relse n (view s2)"
      "\<forall>m c. m \<noteq> n \<longrightarrow> hnd s3 m c = hnd s2 m c"
    using rel_law [OF s2(2)] by blast
  have "(a_held (view s))(n := None) = a_held (view s)"
    using rdy by (simp add: ac_ready_def fun_upd_idem)
  then have "view s3 = ac_write n (ac_set n d (view s))"
    using t by (simp add: s3(3) s2(3) s1(4) ac_defs)
  moreover have "blk (getd b s1) = a_cont (view s) n"
    using get_law [OF s1(2,3)] by (simp add: s1(4) ac_read_def)
  ultimately show thesis using that [of b s1 s2 s3] s1 s2 s3 t unfolding d_def by metis
qed

text \<open>Copy the block in buffer \<open>c\<close> into buffer \<open>b\<close> and write it through.\<close>

lemma copy_write:
  assumes "inv s" and p: "hnd s p b" and q: "hnd s q c" and "p \<noteq> q"
  obtains s1 where "wr b (setd b (copy_block (getd b s) (getd c s)) s) = Ok s1" "inv s1"
    "view s1 = ac_write p (ac_set p (a_cont (view s) q) (view s))" "hnd s1 p b"
    "\<forall>m d. m \<noteq> p \<longrightarrow> hnd s1 m d = hnd s m d"
proof -
  let ?d = "copy_block (getd b s) (getd c s)"
  note t = set_law [OF assms(1) p, of ?d]
  obtain s1 where s1: "wr b (setd b ?d s) = Ok s1" "inv s1" "view s1 = ac_write p (view (setd b ?d s))"
      "\<forall>m c. hnd s1 m c = hnd (setd b ?d s) m c"
    using wr_law [of "setd b ?d s" p b] t by blast
  have "blk (a_cont (view s) q) = a_cont (view s) q" using get_law [OF assms(1) q] blk_blk by metis
  then have "view s1 = ac_write p (ac_set p (a_cont (view s) q) (view s))"
    using s1(3) t get_law [OF assms(1) q] by (simp add: ac_set_def)
  then show thesis using that [of s1] s1 t by metis
qed

lemma release2:
  assumes "inv s" and "hnd s p b" and "hnd s q c" and "p \<noteq> q"
    and "a_refs (view s) p = 1 \<Longrightarrow> a_cont (view s) p = a_disk (view s) p"
    and "a_refs (view s) q = 1 \<Longrightarrow> a_cont (view s) q = a_disk (view s) q"
  obtains s1 s2 where "rel c s = Ok s1" "rel b s1 = Ok s2" "inv s2"
    "view s2 = ac_relse p (ac_relse q (view s))"
    "\<forall>m d. m \<noteq> p \<and> m \<noteq> q \<longrightarrow> hnd s2 m d = hnd s m d"
proof -
  obtain s1 where s1: "rel c s = Ok s1" "inv s1" "view s1 = ac_relse q (view s)"
      "\<forall>m d. m \<noteq> q \<longrightarrow> hnd s1 m d = hnd s m d"
    using rel_law [of s q c] assms by blast
  then have "hnd s1 p b" using assms by blast
  moreover have "a_refs (view s1) p = 1 \<longrightarrow> a_cont (view s1) p = a_disk (view s1) p"
    using assms by (simp add: s1(3) ac_relse_def)
  ultimately obtain s2 where "rel b s1 = Ok s2" "inv s2" "view s2 = ac_relse p (view s1)"
      "\<forall>m d. m \<noteq> p \<longrightarrow> hnd s2 m d = hnd s1 m d"
    using rel_law [OF s1(2)] by blast
  then show thesis using that [of s1 s2] s1 by metis
qed

end

interpretation bc: block_cache "bread ROOTDEV" bwrite brelse "\<lambda>b s. b_data (bc_buf s b)" set_data
  bio_inv handle acache_of
proof
  fix s n b
  assume i: "bio_inv s"
  show "ac_ready n (acache_of s) \<Longrightarrow> \<exists>b s'. bread ROOTDEV n s = Ok (b, s') \<and> bio_inv s' \<and>
      handle s' n b \<and> acache_of s' = ac_read n (acache_of s) \<and>
      (\<forall>m c. m \<noteq> n \<longrightarrow> handle s' m c = handle s m c)"
    using bread_spec [OF i] by metis
  show "a_refs (acache_of s) n = 0 \<Longrightarrow> a_cont (acache_of s) n = a_disk (acache_of s) n"
    using idle_clean(1) [OF i] by simp
  assume h: "handle s n b"
  show "\<exists>s'. bwrite b s = Ok s' \<and> bio_inv s' \<and> acache_of s' = ac_write n (acache_of s) \<and>
      (\<forall>m c. handle s' m c = handle s m c)"
    using bwrite_spec [OF i h] by metis
  show "blk (b_data (bc_buf s b)) = a_cont (acache_of s) n"
    using handle_cont [OF handle_uniq [OF i] h] by simp
  show "a_refs (acache_of s) n = 1 \<longrightarrow> a_cont (acache_of s) n = a_disk (acache_of s) n \<Longrightarrow>
      \<exists>s'. brelse b s = Ok s' \<and> bio_inv s' \<and> acache_of s' = ac_relse n (acache_of s) \<and>
      (\<forall>m c. m \<noteq> n \<longrightarrow> handle s' m c = handle s m c)"
    using brelse_spec [OF i h] unfolding acache_of_sel by metis
  show "bio_inv (set_data b d s) \<and> handle (set_data b d s) n b \<and>
      acache_of (set_data b d s) = ac_set n d (acache_of s) \<and>
      (\<forall>m c. m \<noteq> n \<longrightarrow> handle (set_data b d s) m c = handle s m c)" for d
    using set_data_spec [OF i h] by blast
qed

section \<open>Properties\<close>

lemma power_on_blank: "blank (power_on pid d)" "d_disk (power_on pid d) = d"
    "disk_ok (power_on pid d) \<longleftrightarrow> (\<forall>n. blk (d n) = d n)"
  by (simp_all add: power_on_def blank_def buf0_def disk_ok_def)

lemma zero_disk_ok: "disk_ok (power_on pid (\<lambda>_ _. 0))"
  by (simp add: power_on_blank blk_def)

lemma boot_ready: "ac_ready n (acache_of (binit (power_on pid (\<lambda>_ _. 0))))"
  by (simp add: binit_spec(2) [OF power_on_blank(1) zero_disk_ok] ac_ready_def NBUF_def
      MAXOPBLOCKS_def)

text \<open>C17. \<^verbatim>\<open>bread\<close> returns a locked buffer with the current contents of the block and
  keeps the cache invariant: at most one buffer per block, and an intact LRU list.  Its
  only visible effects are the new reference and the lock.\<close>

theorem bread_refines:
  assumes "bio_inv s" and "ac_ready n (acache_of s)"
  shows "\<exists>b s'. bread ROOTDEV n s = Ok (b, s') \<and> bio_inv s' \<and> handle s' n b \<and>
    blk (b_data (bc_buf s' b)) = buf_cont s n \<and> acache_of s' = ac_read n (acache_of s)"
proof -
  obtain b s' where s': "bread ROOTDEV n s = Ok (b, s')" "bio_inv s'" "handle s' n b"
      "acache_of s' = ac_read n (acache_of s)"
    using bc.rd_law [OF assms] by blast
  have "buf_cont s' n = buf_cont s n"
    using arg_cong [OF s'(4), of a_cont] by (simp add: ac_read_def)
  then have "blk (b_data (bc_buf s' b)) = buf_cont s n"
    using handle_cont [OF handle_uniq [OF s'(2)] s'(3)] by simp
  with s' show ?thesis by blast
qed

theorem bread_refines_witness:
  "\<exists>b s'. bread ROOTDEV 33 (binit (power_on 1 (\<lambda>_ _. 0))) = Ok (b, s') \<and> bio_inv s' \<and>
    handle s' 33 b \<and> blk (b_data (bc_buf s' b)) = buf_cont (binit (power_on 1 (\<lambda>_ _. 0))) 33 \<and>
    acache_of s' = ac_read 33 (acache_of (binit (power_on 1 (\<lambda>_ _. 0))))"
  by (rule bread_refines [OF binit_spec(1) [OF power_on_blank(1) zero_disk_ok] boot_ready])

text \<open>Reading a block, changing its data, writing it and releasing it changes that
  block on disk, and neither any other block nor any reference count or lock.\<close>

theorem block_update:
  assumes "bio_inv s" and "ac_ready n (acache_of s)"
  shows "\<exists>b s1 s2 s3. bread ROOTDEV n s = Ok (b, s1) \<and>
    bwrite b (set_data b (f (b_data (bc_buf s1 b))) s1) = Ok s2 \<and> brelse b s2 = Ok s3 \<and>
    bio_inv s3 \<and>
    d_disk s3 = (d_disk s)(n := blk (f (b_data (bc_buf s1 b)))) \<and>
    buf_cont s3 = (buf_cont s)(n := blk (f (b_data (bc_buf s1 b)))) \<and>
    buf_refs s3 = buf_refs s \<and> buf_held s3 = buf_held s"
proof -
  obtain b s1 s2 s3 where r: "bread ROOTDEV n s = Ok (b, s1)"
      "bwrite b (set_data b (f (b_data (bc_buf s1 b))) s1) = Ok s2" "brelse b s2 = Ok s3"
      "bio_inv s3"
    and v: "acache_of s3 = ac_write n (ac_set n (f (b_data (bc_buf s1 b))) (acache_of s))"
    by (rule bc.update [OF assms, of f])
  have "a_disk (acache_of s3) = (d_disk s)(n := blk (f (b_data (bc_buf s1 b))))"
    "a_cont (acache_of s3) = (buf_cont s)(n := blk (f (b_data (bc_buf s1 b))))"
    "a_refs (acache_of s3) = buf_refs s" "a_held (acache_of s3) = buf_held s"
    unfolding v by (simp_all add: ac_defs)
  with r show ?thesis by auto
qed

theorem block_update_witness:
  "\<exists>b s1 s2 s3. bread ROOTDEV 33 (binit (power_on 1 (\<lambda>_ _. 0))) = Ok (b, s1) \<and>
    bwrite b (set_data b ((\<lambda>d. d(0 := 7)) (b_data (bc_buf s1 b))) s1) = Ok s2 \<and>
    brelse b s2 = Ok s3 \<and> bio_inv s3 \<and>
    d_disk s3 = (d_disk (binit (power_on 1 (\<lambda>_ _. 0))))
      (33 := blk ((\<lambda>d. d(0 := 7)) (b_data (bc_buf s1 b)))) \<and>
    buf_cont s3 = (buf_cont (binit (power_on 1 (\<lambda>_ _. 0))))
      (33 := blk ((\<lambda>d. d(0 := 7)) (b_data (bc_buf s1 b)))) \<and>
    buf_refs s3 = buf_refs (binit (power_on 1 (\<lambda>_ _. 0))) \<and>
    buf_held s3 = buf_held (binit (power_on 1 (\<lambda>_ _. 0)))"
  by (rule block_update [OF binit_spec(1) [OF power_on_blank(1) zero_disk_ok] boot_ready,
      where f = "\<lambda>d. d(0 := 7)"])

text \<open>On a miss \<^verbatim>\<open>bget\<close> recycles the least recently used buffer that nobody
  references, and panics exactly when every buffer is referenced; the search over the
  linked list always ends.\<close>

theorem bget_recycles_lru:
  assumes "bio_inv s" and "lru s xs" and "cached s n = None"
  shows "bget ROOTDEV n s =
    (case find (\<lambda>b. b_refcnt (bc_buf s b) = 0) (rev xs) of
       None \<Rightarrow> Panic ''bget: no buffers''
     | Some b \<Rightarrow> lock_buf b (bset b (recycle n) s))"
  using scan_key [OF assms(2) handle_uniq [OF assms(1)], of n] assms(3)
    lru_scan(2) [OF assms(2), of "\<lambda>b. b_refcnt (bc_buf s b) = 0"]
  by (simp add: bget_def recycle_def [abs_def] split: option.splits)

lemma boot_cached: "cached (binit (power_on pid (\<lambda>_ _. 0))) n = None"
proof -
  have "blank (binit (power_on pid (\<lambda>_ _. 0)))"
    unfolding binit_def Let_def
    by (rule binit_loop_blank [THEN conjunct1]) (simp add: power_on_def blank_def buf0_def)
  then show ?thesis by (auto simp: cached_def find_None_iff blank_def ROOTDEV_def)
qed

theorem bget_recycles_lru_witness:
  "\<exists>xs. lru (binit (power_on 1 (\<lambda>_ _. 0))) xs \<and> bget ROOTDEV 5 (binit (power_on 1 (\<lambda>_ _. 0))) =
    (case find (\<lambda>b. b_refcnt (bc_buf (binit (power_on 1 (\<lambda>_ _. 0))) b) = 0) (rev xs) of
       None \<Rightarrow> Panic ''bget: no buffers''
     | Some b \<Rightarrow> lock_buf b (bset b (recycle 5) (binit (power_on 1 (\<lambda>_ _. 0)))))"
proof -
  note i = binit_spec(1) [OF power_on_blank(1) zero_disk_ok, of 1]
  then obtain xs where xs: "lru (binit (power_on 1 (\<lambda>_ _. 0))) xs" by (auto simp: bio_inv_def)
  show ?thesis using bget_recycles_lru [OF i xs boot_cached] xs by blast
qed

end
