(* ===== verification/Xv6_Log.thy ===== *)
theory Xv6_Log
  imports Xv6_Bio
begin

text \<open>
  \<^verbatim>\<open>kernel/log.c\<close>: the write-ahead log.  The in-memory \<^verbatim>\<open>struct log\<close> sits on top of
  the buffer cache of \<^theory_text>\<open>Xv6_Bio\<close>, whose history of disk writes makes crashes
  explicit: a crash keeps the disk after some prefix of the writes and loses the rest
  of the state.  \<^verbatim>\<open>log.lock\<close> makes each critical section atomic; \<^verbatim>\<open>begin_op\<close> is
  \<^const>\<open>Blocked\<close> where it sleeps.
\<close>

section \<open>State\<close>

definition LOGSIZE :: nat where "LOGSIZE = MAXOPBLOCKS * 3"

record log =
  lg_bio :: bio
  lg_start :: u32
  lg_size :: int
  lg_outstanding :: int
  lg_committing :: bool
  lg_dev :: u32
  lg_n :: int
  lg_block :: "nat \<Rightarrow> u32"

abbreviation bdata :: "nat \<Rightarrow> bio \<Rightarrow> bytes" where
  "bdata b s \<equiv> b_data (bc_buf s b)"

section \<open>Operations\<close>

text \<open>One pass of the loop body of \<^verbatim>\<open>install_trans\<close>, and the loop.\<close>

definition install_step :: "bool \<Rightarrow> log \<Rightarrow> nat \<Rightarrow> bio \<Rightarrow> bio outcome" where
  "install_step recovering lg tail s =
     (if tail \<ge> LOGSIZE then Fault
      else obind (bread (lg_dev lg) (lg_start lg + of_nat tail + 1) s) (\<lambda>(lbuf, s).
           obind (bread (lg_dev lg) (lg_block lg tail) s) (\<lambda>(dbuf, s).
           obind (bwrite dbuf (set_data dbuf (copy_block (bdata dbuf s) (bdata lbuf s)) s)) (\<lambda>s.
           let s = (if recovering then s else bunpin dbuf s)
           in obind (brelse lbuf s) (brelse dbuf)))))"

primrec install_loop :: "bool \<Rightarrow> log \<Rightarrow> nat \<Rightarrow> nat \<Rightarrow> bio \<Rightarrow> bio outcome" where
  "install_loop recovering lg tail 0 s = Ok s"
| "install_loop recovering lg tail (Suc k) s =
     obind (install_step recovering lg tail s) (install_loop recovering lg (Suc tail) k)"

definition install_trans :: "bool \<Rightarrow> log \<Rightarrow> log outcome" where
  "install_trans recovering lg =
     obind (install_loop recovering lg 0 (nat (lg_n lg)) (lg_bio lg)) (\<lambda>s.
     Ok (lg\<lparr>lg_bio := s\<rparr>))"

text \<open>The header block: \<^verbatim>\<open>n\<close> at offset 0 and \<^verbatim>\<open>block[i]\<close> at offset \<open>4 + 4 * i\<close>.\<close>

primrec read_blocks :: "bytes \<Rightarrow> nat \<Rightarrow> nat \<Rightarrow> (nat \<Rightarrow> u32) \<Rightarrow> (nat \<Rightarrow> u32) outcome" where
  "read_blocks lh i 0 bl = Ok bl"
| "read_blocks lh i (Suc k) bl =
     (if i \<ge> LOGSIZE then Fault
      else read_blocks lh (Suc i) k (bl(i := get32 lh (4 + 4 * i))))"

definition read_head :: "log \<Rightarrow> log outcome" where
  "read_head lg =
     obind (bread (lg_dev lg) (lg_start lg) (lg_bio lg)) (\<lambda>(buf, s).
     let lh = bdata buf s; lg = lg\<lparr>lg_n := sint (get32 lh 0)\<rparr>
     in obind (read_blocks lh 0 (nat (lg_n lg)) (lg_block lg)) (\<lambda>bl.
        obind (brelse buf s) (\<lambda>s.
        Ok (lg\<lparr>lg_block := bl, lg_bio := s\<rparr>))))"

primrec write_blocks :: "(nat \<Rightarrow> u32) \<Rightarrow> nat \<Rightarrow> nat \<Rightarrow> bytes \<Rightarrow> bytes outcome" where
  "write_blocks bl i 0 hb = Ok hb"
| "write_blocks bl i (Suc k) hb =
     (if i \<ge> LOGSIZE then Fault
      else write_blocks bl (Suc i) k (put32 hb (4 + 4 * i) (bl i)))"

definition write_head :: "log \<Rightarrow> log outcome" where
  "write_head lg =
     obind (bread (lg_dev lg) (lg_start lg) (lg_bio lg)) (\<lambda>(buf, s).
     obind (write_blocks (lg_block lg) 0 (nat (lg_n lg))
              (put32 (bdata buf s) 0 (of_int (lg_n lg)))) (\<lambda>hb.
     obind (bwrite buf (set_data buf hb s)) (\<lambda>s.
     obind (brelse buf s) (\<lambda>s.
     Ok (lg\<lparr>lg_bio := s\<rparr>)))))"

definition recover_from_log :: "log \<Rightarrow> log outcome" where
  "recover_from_log lg =
     obind (read_head lg) (\<lambda>lg.
     obind (install_trans True lg) (\<lambda>lg.
     write_head (lg\<lparr>lg_n := 0\<rparr>)))"

text \<open>
  \<open>logstart\<close> and \<open>nlog\<close> are the fields of the superblock.  The size check of the
  source (\<open>4 + 4 * LOGSIZE \<ge> BSIZE\<close>) is on constants.
\<close>

definition initlog :: "u32 \<Rightarrow> u32 \<Rightarrow> u32 \<Rightarrow> log \<Rightarrow> log outcome" where
  "initlog dev logstart nlog lg =
     (if 4 + 4 * LOGSIZE \<ge> BSIZE then Panic ''initlog: too big logheader''
      else recover_from_log
             (lg\<lparr>lg_start := logstart, lg_size := sint nlog, lg_dev := dev\<rparr>))"

definition begin_op :: "log \<Rightarrow> log outcome" where
  "begin_op lg =
     (if lg_committing lg then Blocked
      else if lg_n lg + (lg_outstanding lg + 1) * int MAXOPBLOCKS > int LOGSIZE then Blocked
      else Ok (lg\<lparr>lg_outstanding := lg_outstanding lg + 1\<rparr>))"

definition write_log_step :: "log \<Rightarrow> nat \<Rightarrow> bio \<Rightarrow> bio outcome" where
  "write_log_step lg tail s =
     (if tail \<ge> LOGSIZE then Fault
      else obind (bread (lg_dev lg) (lg_start lg + of_nat tail + 1) s) (\<lambda>(to, s).
           obind (bread (lg_dev lg) (lg_block lg tail) s) (\<lambda>(from, s).
           obind (bwrite to (set_data to (copy_block (bdata to s) (bdata from s)) s)) (\<lambda>s.
           obind (brelse from s) (brelse to)))))"

primrec write_log_loop :: "log \<Rightarrow> nat \<Rightarrow> nat \<Rightarrow> bio \<Rightarrow> bio outcome" where
  "write_log_loop lg tail 0 s = Ok s"
| "write_log_loop lg tail (Suc k) s =
     obind (write_log_step lg tail s) (write_log_loop lg (Suc tail) k)"

definition write_log :: "log \<Rightarrow> log outcome" where
  "write_log lg =
     obind (write_log_loop lg 0 (nat (lg_n lg)) (lg_bio lg)) (\<lambda>s. Ok (lg\<lparr>lg_bio := s\<rparr>))"

definition commit :: "log \<Rightarrow> log outcome" where
  "commit lg =
     (if lg_n lg > 0
      then obind (write_log lg) (\<lambda>lg.
           obind (write_head lg) (\<lambda>lg.
           obind (install_trans False lg) (\<lambda>lg.
           write_head (lg\<lparr>lg_n := 0\<rparr>))))
      else Ok lg)"

definition end_op :: "log \<Rightarrow> log outcome" where
  "end_op lg =
     (let lg = lg\<lparr>lg_outstanding := lg_outstanding lg - 1\<rparr>
      in if lg_committing lg then Panic ''log.committing''
         else if lg_outstanding lg = 0
         then obind (commit (lg\<lparr>lg_committing := True\<rparr>)) (\<lambda>lg.
              Ok (lg\<lparr>lg_committing := False\<rparr>))
         else Ok lg)"

text \<open>The index where \<^verbatim>\<open>log_write\<close> stores the block: its slot if it is logged, else \<open>n\<close>.\<close>

primrec log_slot :: "(nat \<Rightarrow> u32) \<Rightarrow> u32 \<Rightarrow> nat \<Rightarrow> nat \<Rightarrow> nat" where
  "log_slot bl bn i 0 = i"
| "log_slot bl bn i (Suc k) = (if bl i = bn then i else log_slot bl bn (Suc i) k)"

definition log_write :: "nat \<Rightarrow> log \<Rightarrow> log outcome" where
  "log_write b lg =
     (if lg_n lg \<ge> int LOGSIZE \<or> lg_n lg \<ge> lg_size lg - 1 then Panic ''too big a transaction''
      else if lg_outstanding lg < 1 then Panic ''log_write outside of trans''
      else let bn = b_blockno (bc_buf (lg_bio lg) b);
               i = log_slot (lg_block lg) bn 0 (nat (lg_n lg));
               lg = lg\<lparr>lg_block := (lg_block lg)(i := bn)\<rparr>
           in Ok (if int i = lg_n lg
                  then lg\<lparr>lg_bio := bpin b (lg_bio lg), lg_n := lg_n lg + 1\<rparr>
                  else lg))"

section \<open>Steps over the abstract cache\<close>

text \<open>Nobody holds a buffer, and exactly the blocks of \<open>B\<close> are pinned, once each.\<close>

definition quiet :: "u32 set \<Rightarrow> acache \<Rightarrow> bool" where
  "quiet B a \<longleftrightarrow> a_held a = (\<lambda>_. None) \<and> a_refs a = (\<lambda>m. if m \<in> B then 1 else 0)"

definition a_copy :: "u32 \<Rightarrow> u32 \<Rightarrow> acache \<Rightarrow> acache" where
  "a_copy p q a = ac_write p (ac_set p (a_cont a q) a)"

lemma quiet_ready: "quiet B a \<Longrightarrow> m \<in> B \<or> card B < NBUF \<Longrightarrow> ac_ready m a"
  by (auto simp: quiet_def ac_ready_def)

lemma quiet_ready2:
  assumes "quiet B a" and "p \<noteq> q" and "q \<in> B \<or> card (insert p B) < NBUF"
  shows "ac_ready q (ac_read p a)"
proof -
  have "{m. a_refs (ac_read p a) m \<noteq> 0} = insert p B"
    using assms(1) by (auto simp: quiet_def ac_read_def)
  moreover have "a_held (ac_read p a) q = None" "a_refs (ac_read p a) q = (if q \<in> B then 1 else 0)"
    using assms(1,2) by (auto simp: quiet_def ac_read_def)
  ultimately show ?thesis
    using assms(3) unfolding ac_ready_def by (auto split: if_splits)
qed

lemma quiet_write: "quiet B (ac_write n (ac_set n d a)) = quiet B a"
  by (simp add: quiet_def ac_write_def ac_set_def)

lemma quiet_copy: "quiet B (a_copy p q a) = quiet B a"
  by (simp add: a_copy_def quiet_write)

lemma read2:
  assumes "bio_inv s" and q: "quiet B (acache_of s)" and "p \<noteq> q" and "p \<in> B \<or> card B < NBUF"
    and "q \<in> B \<or> card (insert p B) < NBUF"
  obtains b c s1 s2 where "bread ROOTDEV p s = Ok (b, s1)" "bread ROOTDEV q s1 = Ok (c, s2)"
    "bio_inv s2" "handle s2 p b" "handle s2 q c"
    "acache_of s2 = ac_read q (ac_read p (acache_of s))"
proof -
  obtain b s1 where s1: "bread ROOTDEV p s = Ok (b, s1)" "bio_inv s1" "handle s1 p b"
      "acache_of s1 = ac_read p (acache_of s)"
    using bc.rd_law [OF assms(1) quiet_ready [OF q assms(4)]] by blast
  have "ac_ready q (acache_of s1)" unfolding s1(4) by (rule quiet_ready2 [OF q assms(3,5)])
  then obtain c s2 where "bread ROOTDEV q s1 = Ok (c, s2)" "bio_inv s2" "handle s2 q c"
      "acache_of s2 = ac_read q (acache_of s1)" "\<forall>m d. m \<noteq> q \<longrightarrow> handle s2 m d = handle s1 m d"
    using bc.rd_law [OF s1(2)] by blast
  with s1 assms(3) that show thesis by metis
qed

lemma write_log_step_spec:
  assumes inv: "bio_inv s" and q: "quiet B (acache_of s)" and B: "card B < NBUF"
    and lg: "lg_dev lg = ROOTDEV" "tail < LOGSIZE"
    and L: "L = lg_start lg + of_nat tail + 1" and H: "lg_block lg tail \<in> B" "L \<notin> B"
  obtains s' where "write_log_step lg tail s = Ok s'" "bio_inv s'"
    "acache_of s' = a_copy L (lg_block lg tail) (acache_of s)"
proof -
  let ?H = "lg_block lg tail"
  have ne: "L \<noteq> ?H" using H by auto
  obtain b c s1 s2 where r: "bread ROOTDEV L s = Ok (b, s1)" "bread ROOTDEV ?H s1 = Ok (c, s2)"
      "bio_inv s2" and h: "handle s2 L b" "handle s2 ?H c"
      and a2: "acache_of s2 = ac_read ?H (ac_read L (acache_of s))"
    by (rule read2 [OF inv q ne disjI2 [OF B] disjI1 [OF H(1)]])
  obtain s3 where w: "bwrite b (set_data b (copy_block (bdata b s2) (bdata c s2)) s2) = Ok s3"
      "bio_inv s3" and a3: "acache_of s3 = ac_write L (ac_set L (a_cont (acache_of s2) ?H) (acache_of s2))"
      and h3: "handle s3 L b" "\<forall>m d. m \<noteq> L \<longrightarrow> handle s3 m d = handle s2 m d"
    by (rule bc.copy_write [OF r(3) h ne])
  have refs: "a_refs (acache_of s3) ?H \<noteq> 1"
    using q H ne unfolding a3 a2 by (simp add: ac_defs quiet_def)
  have clean: "a_cont (acache_of s3) L = a_disk (acache_of s3) L"
    unfolding a3 by (simp add: ac_defs)
  have hc: "handle s3 ?H c" using h3(2) ne h by metis
  obtain s4 s5 where s5: "brelse c s3 = Ok s4" "brelse b s4 = Ok s5" "bio_inv s5"
      and a5: "acache_of s5 = ac_relse L (ac_relse ?H (acache_of s3))"
    using bc.release2 [OF w(2) h3(1) hc ne clean] refs by metis
  have "acache_of s5 = a_copy L ?H (acache_of s)"
    unfolding a5 a3 a2 using q ne
    by (auto simp: ac_defs a_copy_def quiet_def fun_upd_twist fun_eq_iff intro!: acache.equality)
  moreover have "write_log_step lg tail s = Ok s5"
    using lg r w s5 unfolding write_log_step_def L by simp
  ultimately show thesis using that s5(3) by blast
qed

text \<open>The common part of \<^verbatim>\<open>install_trans\<close>: read both blocks, copy and write the home block.\<close>

lemma install_prefix:
  assumes inv: "bio_inv s" and q: "quiet B (acache_of s)" and B: "card B < NBUF" and L: "L \<notin> B"
    and H: "H \<in> B \<or> card (insert L B) < NBUF" and ne: "H \<noteq> L"
  obtains b c s1 s2 s3 where "bread ROOTDEV L s = Ok (b, s1)" "bread ROOTDEV H s1 = Ok (c, s2)"
    "bwrite c (set_data c (copy_block (bdata c s2) (bdata b s2)) s2) = Ok s3" "bio_inv s3"
    "handle s3 H c" "handle s3 L b"
    "acache_of s3 = a_copy H L (ac_read H (ac_read L (acache_of s)))"
    "a_cont (acache_of s3) L = a_disk (acache_of s3) L"
proof -
  obtain b c s1 s2 where r: "bread ROOTDEV L s = Ok (b, s1)" "bread ROOTDEV H s1 = Ok (c, s2)"
      "bio_inv s2" and h: "handle s2 L b" "handle s2 H c"
      and a2: "acache_of s2 = ac_read H (ac_read L (acache_of s))"
    by (rule read2 [OF inv q ne [symmetric] disjI2 [OF B] H])
  obtain s3 where w: "bwrite c (set_data c (copy_block (bdata c s2) (bdata b s2)) s2) = Ok s3"
      "bio_inv s3" and a3: "acache_of s3 = ac_write H (ac_set H (a_cont (acache_of s2) L) (acache_of s2))"
      and h3: "handle s3 H c" "\<forall>m d. m \<noteq> H \<longrightarrow> handle s3 m d = handle s2 m d"
    by (rule bc.copy_write [OF r(3) h(2,1) ne])
  have "a_cont (acache_of s) L = a_disk (acache_of s) L"
    using bc.idle_law [OF inv, of L] q L by (simp add: quiet_def)
  then have "a_cont (acache_of s3) L = a_disk (acache_of s3) L"
    unfolding a3 a2 using ne by (simp add: ac_defs)
  moreover have "handle s3 L b" using h3(2) h(1) ne by metis
  ultimately show thesis using that r w h3(1) a3 unfolding a2 a_copy_def by metis
qed

lemma install_step_recovering:
  assumes inv: "bio_inv s" and q: "quiet {} (acache_of s)"
    and lg: "lg_dev lg = ROOTDEV" "tail < LOGSIZE"
    and L: "L = lg_start lg + of_nat tail + 1" and ne: "lg_block lg tail \<noteq> L"
  obtains s' where "install_step True lg tail s = Ok s'" "bio_inv s'"
    "acache_of s' = a_copy (lg_block lg tail) L (acache_of s)"
proof -
  let ?H = "lg_block lg tail"
  have N: "card {} < NBUF" "L \<notin> {}" "?H \<in> {} \<or> card {L} < NBUF"
    by (simp_all add: NBUF_def MAXOPBLOCKS_def)
  obtain b c s1 s2 s3 where r: "bread ROOTDEV L s = Ok (b, s1)" "bread ROOTDEV ?H s1 = Ok (c, s2)"
      "bwrite c (set_data c (copy_block (bdata c s2) (bdata b s2)) s2) = Ok s3" "bio_inv s3"
      "handle s3 ?H c" "handle s3 L b"
    and a3: "acache_of s3 = a_copy ?H L (ac_read ?H (ac_read L (acache_of s)))"
      "a_cont (acache_of s3) L = a_disk (acache_of s3) L"
    by (rule install_prefix [OF inv q N ne])
  have "a_cont (acache_of s3) ?H = a_disk (acache_of s3) ?H"
    unfolding a3(1) by (simp add: a_copy_def ac_defs)
  then obtain s4 s5 where s5: "brelse b s3 = Ok s4" "brelse c s4 = Ok s5" "bio_inv s5"
      and a5: "acache_of s5 = ac_relse ?H (ac_relse L (acache_of s3))"
    using bc.release2 [OF r(4,5,6) ne _ a3(2)] by metis
  have "acache_of s5 = a_copy ?H L (acache_of s)"
    unfolding a5 a3(1) using q ne
    by (auto simp: ac_defs a_copy_def quiet_def fun_eq_iff intro!: acache.equality)
  moreover have "install_step True lg tail s = Ok s5"
    using lg r s5 unfolding install_step_def L by simp
  ultimately show thesis using that s5(3) by blast
qed

lemma install_step_commit:
  assumes inv: "bio_inv s" and q: "quiet B (acache_of s)" and B: "card B < NBUF" and LB: "L \<notin> B"
    and lg: "lg_dev lg = ROOTDEV" "tail < LOGSIZE"
    and L: "L = lg_start lg + of_nat tail + 1" and HB: "lg_block lg tail \<in> B"
  obtains s' where "install_step False lg tail s = Ok s'" "bio_inv s'"
    "acache_of s' = (a_copy (lg_block lg tail) L (acache_of s))
       \<lparr>a_refs := (\<lambda>m. if m \<in> B - {lg_block lg tail} then 1 else 0)\<rparr>"
proof -
  let ?H = "lg_block lg tail"
  have ne: "?H \<noteq> L" using HB LB by auto
  obtain b c s1 s2 s3 where r: "bread ROOTDEV L s = Ok (b, s1)" "bread ROOTDEV ?H s1 = Ok (c, s2)"
      "bwrite c (set_data c (copy_block (bdata c s2) (bdata b s2)) s2) = Ok s3" "bio_inv s3"
      "handle s3 ?H c" "handle s3 L b"
    and a3: "acache_of s3 = a_copy ?H L (ac_read ?H (ac_read L (acache_of s)))"
      "a_cont (acache_of s3) L = a_disk (acache_of s3) L"
    by (rule install_prefix [OF inv q B LB disjI1 [OF HB] ne])
  have "a_refs (acache_of s3) ?H = 2"
    unfolding a3(1) using q HB ne by (simp add: a_copy_def ac_defs quiet_def)
  then have "buf_refs s3 ?H \<noteq> 1" by simp
  note u = bunpin_spec [OF r(4,5) this]
  have hb: "handle (bunpin c s3) L b" using u(4) [of L b] ne r(6) by simp
  have "a_cont (acache_of (bunpin c s3)) ?H = a_disk (acache_of (bunpin c s3)) ?H"
    unfolding u(3) a3(1) by (simp add: a_copy_def ac_defs)
  moreover have "a_cont (acache_of (bunpin c s3)) L = a_disk (acache_of (bunpin c s3)) L"
    unfolding u(3) using a3(2) by (simp add: ac_unpin_def)
  ultimately obtain s4 s5 where s5: "brelse b (bunpin c s3) = Ok s4" "brelse c s4 = Ok s5" "bio_inv s5"
      and a5: "acache_of s5 = ac_relse ?H (ac_relse L (acache_of (bunpin c s3)))"
    using bc.release2 [OF u(1,2) hb ne] by metis
  have "acache_of s5 = (a_copy ?H L (acache_of s))\<lparr>a_refs := (\<lambda>m. if m \<in> B - {?H} then 1 else 0)\<rparr>"
    unfolding a5 u(3) a3(1) using q ne LB HB
    by (auto simp: ac_defs a_copy_def quiet_def fun_eq_iff intro!: acache.equality)
  moreover have "install_step False lg tail s = Ok s5"
    using lg r s5 unfolding install_step_def L by simp
  ultimately show thesis using that s5(3) by blast
qed

section \<open>Sequences of block writes\<close>

definition apply_writes :: "(u32 \<Rightarrow> bytes) \<Rightarrow> (u32 \<times> bytes) list \<Rightarrow> u32 \<Rightarrow> bytes" where
  "apply_writes d ws = fold (\<lambda>(n, x) d. d(n := x)) ws d"

lemma apply_writes_Nil [simp]: "apply_writes d [] = d"
  and apply_writes_Cons [simp]: "apply_writes d ((n, x) # ws) = apply_writes (d(n := x)) ws"
  and apply_writes_append [simp]:
    "apply_writes d (ws @ vs) = apply_writes (apply_writes d ws) vs"
  by (simp_all add: apply_writes_def)

lemma apply_writes_eq:
  "apply_writes d ws m = (case map_of (rev ws) m of Some x \<Rightarrow> x | None \<Rightarrow> d m)"
proof (induction ws arbitrary: d)
  case (Cons w ws)
  then show ?case
    by (cases w) (auto simp: map_add_def split: option.splits)
qed simp

lemma apply_writes_other: "m \<notin> fst ` set ws \<Longrightarrow> apply_writes d ws m = d m"
  by (induction ws arbitrary: d) auto

lemma apply_writes_map:
  assumes "inj_on p (set xs)" and "i \<in> set xs"
  shows "apply_writes d (map (\<lambda>i. (p i, v i)) xs) (p i) = v i"
  using assms
proof (induction xs arbitrary: d)
  case (Cons x xs)
  show ?case
  proof (cases "i \<in> set xs")
    case False
    then have "p i \<notin> p ` set xs" using Cons.prems by (auto simp: inj_on_def)
    moreover have "i = x" using Cons.prems False by simp
    ultimately show ?thesis by (subst list.map) (simp add: apply_writes_other image_image)
  qed (use Cons in simp)
qed simp

lemma apply_writes_canon:
  "(\<And>m. blk (d m) = d m) \<Longrightarrow> (\<And>n x. (n, x) \<in> set ws \<Longrightarrow> blk x = x) \<Longrightarrow>
     blk (apply_writes d ws m) = apply_writes d ws m"
proof (induction ws arbitrary: d)
  case (Cons w ws)
  obtain n x where w: "w = (n, x)" by (cases w)
  have "blk ((d(n := x)) m) = (d(n := x)) m" for m using Cons.prems(1) Cons.prems(2) [of n x] w by simp
  then show ?case unfolding w apply_writes_Cons by (rule Cons.IH) (use Cons.prems(2) in auto)
qed simp

lemma cont_canon: "bio_inv s \<Longrightarrow> blk (buf_cont s m) = buf_cont s m"
  by (simp add: buf_cont_def bio_inv_def disk_ok_def split: option.splits)

text \<open>A run of block copies is a run of writes, of the data the sources had at the start.\<close>

lemma fold_a_copy:
  assumes "\<And>i. i \<in> set xs \<Longrightarrow> blk (a_cont a (q i)) = a_cont a (q i)"
    and "\<And>i j. i \<in> set xs \<Longrightarrow> j \<in> set xs \<Longrightarrow> p i \<noteq> q j"
    and "ws = map (\<lambda>i. (p i, a_cont a (q i))) xs"
  shows "fold (\<lambda>i. a_copy (p i) (q i)) xs a =
    a\<lparr>a_cont := apply_writes (a_cont a) ws, a_disk := apply_writes (a_disk a) ws,
      a_trace := a_trace a @ ws\<rparr>"
  using assms
proof (induction xs arbitrary: a ws)
  case (Cons x xs)
  let ?a = "a_copy (p x) (q x) a"
  have c: "a_cont ?a (q i) = a_cont a (q i)" if "i \<in> set xs" for i
    using that Cons.prems(2) [of x i] by (simp add: a_copy_def ac_defs)
  have "fold (\<lambda>i. a_copy (p i) (q i)) xs ?a =
      ?a\<lparr>a_cont := apply_writes (a_cont ?a) (tl ws), a_disk := apply_writes (a_disk ?a) (tl ws),
         a_trace := a_trace ?a @ tl ws\<rparr>"
    by (rule Cons.IH) (use Cons.prems c in auto)
  moreover have "ws = (p x, a_cont a (q x)) # tl ws" using Cons.prems(3) by simp
  moreover have "blk (a_cont a (q x)) = a_cont a (q x)" using Cons.prems(1) by simp
  ultimately show ?case
    by (cases ws) (auto simp: a_copy_def [of "p x" "q x" a] ac_defs)
qed simp

section \<open>The loops\<close>

abbreviation log_blk :: "u32 \<Rightarrow> nat \<Rightarrow> u32" where
  "log_blk start i \<equiv> start + of_nat i + 1"

text \<open>The blocks of the log: the header and \<open>c\<close> data blocks.\<close>

definition log_area :: "u32 \<Rightarrow> nat \<Rightarrow> u32 set" where
  "log_area start c = insert start (log_blk start ` {..<c})"

text \<open>The capacity of the log: its blocks but the header.\<close>

abbreviation log_cap :: "log \<Rightarrow> nat" where
  "log_cap lg \<equiv> nat (lg_size lg - 1)"

lemma log_blk_inj: "inj_on (log_blk start) {..<LOGSIZE}"
proof (rule inj_onI)
  fix i j assume "i \<in> {..<LOGSIZE}" "j \<in> {..<LOGSIZE}" "log_blk start i = log_blk start j"
  then show "i = j"
    using of_nat32_eq_iff [of i j] by (simp add: LOGSIZE_def MAXOPBLOCKS_def)
qed

lemma log_blk_start: "i < LOGSIZE \<Longrightarrow> log_blk start i \<noteq> start"
proof -
  assume i: "i < LOGSIZE"
  have "of_nat (Suc i) \<noteq> (0 :: u32)"
    using i of_nat32_eq_iff [of "Suc i" 0] by (simp add: LOGSIZE_def MAXOPBLOCKS_def del: of_nat_Suc)
  moreover have "log_blk start i = start + of_nat (Suc i)" by simp
  ultimately show ?thesis by (metis add_cancel_right_right)
qed

lemma log_areaI: "start \<in> log_area start c" "i < c \<Longrightarrow> log_blk start i \<in> log_area start c"
  by (auto simp: log_area_def)

lemma write_log_loop_spec:
  assumes "bio_inv s" and "quiet B (acache_of s)" and B: "card B < NBUF"
    and lg: "lg_dev lg = ROOTDEV" "tail + k \<le> c" and c: "c \<le> LOGSIZE"
    and bl: "\<And>i. i < tail + k \<Longrightarrow> lg_block lg i \<in> B" and area: "B \<inter> log_area (lg_start lg) c = {}"
  shows "\<exists>s'. write_log_loop lg tail k s = Ok s' \<and> bio_inv s' \<and>
    acache_of s' = fold (\<lambda>i. a_copy (log_blk (lg_start lg) i) (lg_block lg i)) [tail..<tail + k]
      (acache_of s)"
  using assms(1,2,5,7)
proof (induction k arbitrary: s tail)
  case (Suc k)
  let ?L = "log_blk (lg_start lg) tail"
  have t: "tail < LOGSIZE" "lg_block lg tail \<in> B" and tc: "tail < c" using Suc.prems c by auto
  have "?L \<notin> B" using log_areaI(2) [OF tc] area by blast
  from write_log_step_spec [OF Suc.prems(1,2) B lg(1) t(1) refl t(2) this]
  obtain s1 where s1: "write_log_step lg tail s = Ok s1" "bio_inv s1"
      "acache_of s1 = a_copy ?L (lg_block lg tail) (acache_of s)" .
  have "quiet B (acache_of s1)" unfolding s1(3) quiet_copy by (rule Suc.prems)
  moreover have "Suc tail + k \<le> c" using Suc.prems by simp
  ultimately obtain s2 where s2: "write_log_loop lg (Suc tail) k s1 = Ok s2" "bio_inv s2"
      "acache_of s2 = fold (\<lambda>i. a_copy (log_blk (lg_start lg) i) (lg_block lg i))
         [Suc tail..<Suc tail + k] (acache_of s1)"
    using Suc.IH [of s1 "Suc tail"] s1(2) Suc.prems(4) by auto
  have "[tail..<tail + Suc k] = tail # [Suc tail..<Suc tail + k]" by (simp add: upt_conv_Cons)
  then show ?case using s1 s2 by simp
qed auto

lemma install_loop_recovering:
  assumes "bio_inv s" and "quiet {} (acache_of s)"
    and lg: "lg_dev lg = ROOTDEV" "tail + k \<le> c" and c: "c \<le> LOGSIZE"
    and bl: "\<And>i. i < tail + k \<Longrightarrow> lg_block lg i \<notin> log_area (lg_start lg) c"
  shows "\<exists>s'. install_loop True lg tail k s = Ok s' \<and> bio_inv s' \<and>
    acache_of s' = fold (\<lambda>i. a_copy (lg_block lg i) (log_blk (lg_start lg) i)) [tail..<tail + k]
      (acache_of s)"
  using assms(1,2,4,6)
proof (induction k arbitrary: s tail)
  case (Suc k)
  let ?L = "log_blk (lg_start lg) tail"
  have t: "tail < LOGSIZE" and tc: "tail < c" using Suc.prems c by auto
  have "lg_block lg tail \<noteq> ?L" using log_areaI(2) [OF tc, of "lg_start lg"] Suc.prems(4) [of tail] by auto
  from install_step_recovering [OF Suc.prems(1,2) lg(1) t refl this]
  obtain s1 where s1: "install_step True lg tail s = Ok s1" "bio_inv s1"
      "acache_of s1 = a_copy (lg_block lg tail) ?L (acache_of s)" .
  have "quiet {} (acache_of s1)" unfolding s1(3) quiet_copy by (rule Suc.prems)
  moreover have "Suc tail + k \<le> c" using Suc.prems by simp
  ultimately obtain s2 where s2: "install_loop True lg (Suc tail) k s1 = Ok s2" "bio_inv s2"
      "acache_of s2 = fold (\<lambda>i. a_copy (lg_block lg i) (log_blk (lg_start lg) i))
         [Suc tail..<Suc tail + k] (acache_of s1)"
    using Suc.IH [of s1 "Suc tail"] s1(2) Suc.prems(4) by auto
  have "[tail..<tail + Suc k] = tail # [Suc tail..<Suc tail + k]" by (simp add: upt_conv_Cons)
  then show ?case using s1 s2 by simp
qed auto

lemma a_copy_refs: "a_copy p q (a\<lparr>a_refs := r\<rparr>) = (a_copy p q a)\<lparr>a_refs := r\<rparr>"
  by (simp add: a_copy_def ac_defs)

lemma fold_a_copy_refs:
  "fold (\<lambda>i. a_copy (p i) (q i)) xs (a\<lparr>a_refs := r\<rparr>) =
     (fold (\<lambda>i. a_copy (p i) (q i)) xs a)\<lparr>a_refs := r\<rparr>"
  by (induction xs arbitrary: a) (simp_all add: a_copy_refs)

lemma quiet_refs: "quiet B a \<Longrightarrow> quiet C (a\<lparr>a_refs := (\<lambda>m. if m \<in> C then 1 else 0)\<rparr>)"
  by (simp add: quiet_def)

lemma install_loop_commit:
  assumes "bio_inv s" and "quiet (lg_block lg ` {tail..<tail + k}) (acache_of s)"
    and lg: "lg_dev lg = ROOTDEV" "tail + k \<le> c" "tail + k < NBUF" and c: "c \<le> LOGSIZE"
    and inj: "inj_on (lg_block lg) {..<tail + k}"
    and area: "lg_block lg ` {..<tail + k} \<inter> log_area (lg_start lg) c = {}"
  shows "\<exists>s'. install_loop False lg tail k s = Ok s' \<and> bio_inv s' \<and>
    acache_of s' = (fold (\<lambda>i. a_copy (lg_block lg i) (log_blk (lg_start lg) i)) [tail..<tail + k]
      (acache_of s))\<lparr>a_refs := (\<lambda>_. 0)\<rparr>"
  using assms(1,2,4,5,7,8)
proof (induction k arbitrary: s tail)
  case 0
  then have "(acache_of s)\<lparr>a_refs := (\<lambda>_. 0)\<rparr> = acache_of s"
    by (simp add: quiet_def acache_of_def)
  then show ?case using 0 by simp
next
  case (Suc k)
  let ?L = "log_blk (lg_start lg) tail" and ?B = "lg_block lg ` {tail..<tail + Suc k}"
  let ?C = "lg_block lg ` {Suc tail..<Suc tail + k}"
  have t: "tail < LOGSIZE" "lg_block lg tail \<in> ?B" and tc: "tail < c" using Suc.prems c by auto
  have "card ?B \<le> Suc k" using card_image_le [of "{tail..<tail + Suc k}" "lg_block lg"] by simp
  then have cB: "card ?B < NBUF" using Suc.prems(4) by simp
  have "?B \<subseteq> lg_block lg ` {..<tail + Suc k}" by auto
  then have nL: "?L \<notin> ?B" using log_areaI(2) [OF tc, of "lg_start lg"] Suc.prems(6) by blast
  from install_step_commit [OF Suc.prems(1,2) cB nL lg(1) t(1) refl t(2)]
  obtain s1 where s1: "install_step False lg tail s = Ok s1" "bio_inv s1"
      "acache_of s1 = (a_copy (lg_block lg tail) ?L (acache_of s))
         \<lparr>a_refs := (\<lambda>m. if m \<in> ?B - {lg_block lg tail} then 1 else 0)\<rparr>" .
  have "?B - {lg_block lg tail} = ?C"
  proof -
    have "{tail..<tail + Suc k} = insert tail {Suc tail..<Suc tail + k}" by auto
    moreover have "lg_block lg tail \<notin> ?C"
    proof
      assume "lg_block lg tail \<in> ?C"
      then obtain j where "lg_block lg tail = lg_block lg j" "Suc tail \<le> j" "j < tail + Suc k" by auto
      then show False using inj_onD [OF Suc.prems(5), of tail j] by simp
    qed
    ultimately show ?thesis by auto
  qed
  then have q1: "quiet ?C (acache_of s1)"
    unfolding s1(3) using Suc.prems(2) quiet_refs quiet_copy by metis
  have "\<exists>s2. install_loop False lg (Suc tail) k s1 = Ok s2 \<and> bio_inv s2 \<and>
      acache_of s2 = (fold (\<lambda>i. a_copy (lg_block lg i) (log_blk (lg_start lg) i))
         [Suc tail..<Suc tail + k] (acache_of s1))\<lparr>a_refs := (\<lambda>_. 0)\<rparr>"
    by (rule Suc.IH [OF s1(2) q1]) (use Suc.prems in simp_all)
  then obtain s2 where s2: "install_loop False lg (Suc tail) k s1 = Ok s2" "bio_inv s2"
      "acache_of s2 = (fold (\<lambda>i. a_copy (lg_block lg i) (log_blk (lg_start lg) i))
         [Suc tail..<Suc tail + k] (acache_of s1))\<lparr>a_refs := (\<lambda>_. 0)\<rparr>" by blast
  have "[tail..<tail + Suc k] = tail # [Suc tail..<Suc tail + k]" by (simp add: upt_conv_Cons)
  then show ?case using s1 s2 by (simp add: fold_a_copy_refs)
qed

section \<open>The header block\<close>

lemma write_blocks_eq:
  "i + k \<le> LOGSIZE \<Longrightarrow>
     write_blocks bl i k hb = Ok (fold (\<lambda>j hb. put32 hb (4 + 4 * j) (bl j)) [i..<i + k] hb)"
proof (induction k arbitrary: i hb)
  case (Suc k)
  have "[i..<i + Suc k] = i # [Suc i..<Suc i + k]" by (simp add: upt_conv_Cons)
  then show ?case using Suc.prems Suc.IH [of "Suc i"] by simp
qed simp

lemma header_get:
  "get32 (fold (\<lambda>j hb. put32 hb (4 + 4 * j) (bl j)) [i..<i + k] hb) 0 = get32 hb 0"
  "get32 (fold (\<lambda>j hb. put32 hb (4 + 4 * j) (bl j)) [i..<i + k] hb) (4 + 4 * j) =
     (if i \<le> j \<and> j < i + k then bl j else get32 hb (4 + 4 * j))"
proof (induction k)
  case (Suc k)
  { case 1 show ?case using Suc by simp }
  { case 2
    show ?case
    proof (cases "j = i + k")
      case False
      then have "4 + 4 * j + 4 \<le> 4 + 4 * (i + k) \<or> 4 + 4 * (i + k) + 4 \<le> 4 + 4 * j" by arith
      then show ?thesis using Suc False by auto
    qed simp }
qed auto

lemma get32_blk: "k + 4 \<le> BSIZE \<Longrightarrow> get32 (blk d) k = get32 d k"
  by (rule get32_cong) (simp add: blk_def)

lemma read_blocks_eq:
  "i + k \<le> LOGSIZE \<Longrightarrow> read_blocks lh i k bl =
     Ok (\<lambda>j. if i \<le> j \<and> j < i + k then get32 lh (4 + 4 * j) else bl j)"
proof (induction k arbitrary: i bl)
  case (Suc k)
  have "read_blocks lh i (Suc k) bl = read_blocks lh (Suc i) k (bl(i := get32 lh (4 + 4 * i)))"
    using Suc.prems by simp
  also have "\<dots> = Ok (\<lambda>j. if Suc i \<le> j \<and> j < Suc i + k then get32 lh (4 + 4 * j)
      else (bl(i := get32 lh (4 + 4 * i))) j)"
    using Suc by simp
  also have "\<dots> = Ok (\<lambda>j. if i \<le> j \<and> j < i + Suc k then get32 lh (4 + 4 * j) else bl j)"
    by (auto simp: fun_eq_iff)
  finally show ?case .
qed (auto simp: fun_eq_iff)

text \<open>What the header block \<open>h\<close> says.\<close>

definition hdr_n :: "bytes \<Rightarrow> nat" where
  "hdr_n h = nat (sint (get32 h 0))"

definition hdr_block :: "bytes \<Rightarrow> nat \<Rightarrow> u32" where
  "hdr_block h i = get32 h (4 + 4 * i)"

definition header_for :: "log \<Rightarrow> bytes \<Rightarrow> bool" where
  "header_for lg h \<longleftrightarrow> hdr_n h = nat (lg_n lg) \<and> blk h = h \<and>
     (\<forall>i < nat (lg_n lg). hdr_block h i = lg_block lg i)"

lemma sint_small: "0 \<le> n \<Longrightarrow> n \<le> int LOGSIZE \<Longrightarrow> sint (of_int n :: u32) = n"
  by (simp add: LOGSIZE_def MAXOPBLOCKS_def signed_of_int signed_take_bit_int_eq_self)

lemma write_head_spec:
  assumes inv: "bio_inv (lg_bio lg)" and q: "quiet B (acache_of (lg_bio lg))" and B: "card B < NBUF"
    and lg: "lg_dev lg = ROOTDEV" "0 \<le> lg_n lg" "lg_n lg \<le> int LOGSIZE"
  obtains h s where "write_head lg = Ok (lg\<lparr>lg_bio := s\<rparr>)" "bio_inv s" "header_for lg h"
    "acache_of s = ac_write (lg_start lg) (ac_set (lg_start lg) h (acache_of (lg_bio lg)))"
proof -
  let ?n = "nat (lg_n lg)"
  let ?f = "\<lambda>d. fold (\<lambda>j hb. put32 hb (4 + 4 * j) (lg_block lg j)) [0..<0 + ?n]
    (put32 d 0 (of_int (lg_n lg)))"
  have n: "?n \<le> LOGSIZE" using lg by simp
  obtain b s1 s2 s3 where r: "bread ROOTDEV (lg_start lg) (lg_bio lg) = Ok (b, s1)"
      "bwrite b (set_data b (?f (bdata b s1)) s1) = Ok s2" "brelse b s2 = Ok s3" "bio_inv s3"
      "acache_of s3 = ac_write (lg_start lg) (ac_set (lg_start lg) (?f (bdata b s1))
         (acache_of (lg_bio lg)))"
    by (rule bc.update [OF inv quiet_ready [OF q disjI2 [OF B]], of "lg_start lg" ?f])
  have w: "write_blocks (lg_block lg) 0 ?n (put32 (bdata b s1) 0 (of_int (lg_n lg))) =
      Ok (?f (bdata b s1))"
    by (rule write_blocks_eq) (use n in simp)
  have hf: "header_for lg (blk (?f (bdata b s1)))"
    unfolding header_for_def hdr_n_def hdr_block_def
    using header_get [where i = 0 and k = "?n"] n lg sint_small
    by (simp add: get32_blk BSIZE_def LOGSIZE_def MAXOPBLOCKS_def)
  have e: "ac_set (lg_start lg) (blk d) a = ac_set (lg_start lg) d a" for d a
    by (simp add: ac_set_def)
  have "write_head lg = Ok (lg\<lparr>lg_bio := s3\<rparr>)"
    using r w lg by (simp add: write_head_def)
  then show thesis using r(4) hf r(5) [folded e [of "?f (bdata b s1)"]] by (rule that)
qed

lemma read_head_spec:
  assumes inv: "bio_inv (lg_bio lg)" and q: "quiet B (acache_of (lg_bio lg))" and B: "card B < NBUF"
    and lg: "lg_dev lg = ROOTDEV" and h: "h = buf_cont (lg_bio lg) (lg_start lg)"
    and n: "hdr_n h \<le> LOGSIZE"
  obtains s where "read_head lg = Ok (lg\<lparr>lg_n := sint (get32 h 0),
      lg_block := (\<lambda>j. if j < hdr_n h then hdr_block h j else lg_block lg j), lg_bio := s\<rparr>)"
    "bio_inv s" "acache_of s = acache_of (lg_bio lg)"
proof -
  obtain b s1 s2 where r: "bread ROOTDEV (lg_start lg) (lg_bio lg) = Ok (b, s1)"
      "blk (bdata b s1) = a_cont (acache_of (lg_bio lg)) (lg_start lg)" "brelse b s1 = Ok s2"
      "bio_inv s2" "acache_of s2 = acache_of (lg_bio lg)"
    by (rule bc.peek [OF inv quiet_ready [OF q disjI2 [OF B]], of "lg_start lg"])
  have g: "get32 (bdata b s1) k = get32 h k" if "k + 4 \<le> BSIZE" for k
    using r(2) h get32_blk [OF that, of "bdata b s1"] by simp
  have g0: "get32 (bdata b s1) 0 = get32 h 0" by (rule g) (simp add: BSIZE_def)
  have "read_blocks (bdata b s1) 0 (hdr_n h) (lg_block lg) =
      Ok (\<lambda>j. if j < hdr_n h then hdr_block h j else lg_block lg j)"
  proof -
    have "get32 (bdata b s1) (4 + 4 * j) = hdr_block h j" if "j < hdr_n h" for j
      unfolding hdr_block_def using that n by (intro g) (simp add: BSIZE_def LOGSIZE_def MAXOPBLOCKS_def)
    then show ?thesis
      using n by (subst read_blocks_eq) (auto simp: fun_eq_iff)
  qed
  then have "read_head lg = Ok (lg\<lparr>lg_n := sint (get32 h 0),
      lg_block := (\<lambda>j. if j < hdr_n h then hdr_block h j else lg_block lg j), lg_bio := s2\<rparr>)"
    using r lg by (simp add: read_head_def Let_def g0 hdr_n_def)
  then show thesis using that r(4,5) by blast
qed

section \<open>Recovery\<close>

text \<open>
  The durable contents of a disk: what recovery makes of it.  A committed header
  redirects the blocks it names to the copies in the log.
\<close>

definition replay :: "u32 \<Rightarrow> (u32 \<Rightarrow> bytes) \<Rightarrow> (u32 \<times> bytes) list" where
  "replay start d =
     map (\<lambda>i. (hdr_block (d start) i, d (log_blk start i))) [0..<hdr_n (d start)]"

definition durable :: "u32 \<Rightarrow> (u32 \<Rightarrow> bytes) \<Rightarrow> u32 \<Rightarrow> bytes" where
  "durable start d = apply_writes d (replay start d)"

text \<open>A header the log code can have written, on a disk of whole blocks.\<close>

definition hdr_ok :: "u32 \<Rightarrow> nat \<Rightarrow> (u32 \<Rightarrow> bytes) \<Rightarrow> bool" where
  "hdr_ok start c d \<longleftrightarrow> (\<forall>m. blk (d m) = d m) \<and> hdr_n (d start) \<le> c \<and> c \<le> LOGSIZE \<and>
     (\<forall>i<hdr_n (d start). hdr_block (d start) i \<notin> log_area start c)"

definition boot_log :: "nat \<Rightarrow> (u32 \<Rightarrow> bytes) \<Rightarrow> log" where
  "boot_log pid d = \<lparr>lg_bio = binit (power_on pid d), lg_start = 0, lg_size = 0, lg_outstanding = 0,
     lg_committing = False, lg_dev = 0, lg_n = 0, lg_block = (\<lambda>_. 0)\<rparr>"

text \<open>Switch on with disk \<open>d\<close> and run \<^verbatim>\<open>initlog\<close>.\<close>

definition reboot :: "nat \<Rightarrow> u32 \<Rightarrow> u32 \<Rightarrow> (u32 \<Rightarrow> bytes) \<Rightarrow> log outcome" where
  "reboot pid start nlog d = initlog ROOTDEV start nlog (boot_log pid d)"

definition logged :: "log \<Rightarrow> u32 set" where
  "logged lg = lg_block lg ` {..<nat (lg_n lg)}"

text \<open>
  The state of the log between system calls.  The bound on \<open>lg_size\<close> is the one
  \<^verbatim>\<open>mkfs\<close> establishes (\<^verbatim>\<open>nlog = LOGSIZE\<close>).
\<close>

definition log_inv :: "log \<Rightarrow> bool" where
  "log_inv lg \<longleftrightarrow> bio_inv (lg_bio lg) \<and> quiet (logged lg) (acache_of (lg_bio lg)) \<and>
     lg_dev lg = ROOTDEV \<and> 0 \<le> lg_n lg \<and> lg_n lg < lg_size lg \<and> lg_size lg \<le> int LOGSIZE \<and>
     inj_on (lg_block lg) {..<nat (lg_n lg)} \<and> logged lg \<inter> log_area (lg_start lg) (log_cap lg) = {} \<and>
     hdr_n (d_disk (lg_bio lg) (lg_start lg)) = 0"

lemma boot_cache:
  assumes "\<And>m. blk (d m) = d m"
  shows "bio_inv (binit (power_on pid d))" "quiet {} (acache_of (binit (power_on pid d)))"
    "buf_cont (binit (power_on pid d)) = d" "d_disk (binit (power_on pid d)) = d"
    "d_trace (binit (power_on pid d)) = []"
proof -
  have "disk_ok (power_on pid d)" using assms by (simp add: power_on_def disk_ok_def)
  note b = binit_spec [OF power_on_blank(1) this]
  show "bio_inv (binit (power_on pid d))" by (rule b(1))
  show "quiet {} (acache_of (binit (power_on pid d)))" by (simp add: b(2) quiet_def)
  show "buf_cont (binit (power_on pid d)) = d" "d_disk (binit (power_on pid d)) = d"
    "d_trace (binit (power_on pid d)) = []"
    using b(2) by (simp_all add: acache_of_def power_on_def)
qed

lemma replay_outside: "hdr_ok start c d \<Longrightarrow> m \<in> log_area start c \<Longrightarrow> m \<notin> fst ` set (replay start d)"
  by (auto simp: replay_def hdr_ok_def)

lemma fold_install:
  assumes d: "hdr_ok start c d" and n: "n = hdr_n (d start)"
    and a: "a_cont a = d" "a_disk a = d"
    and H: "\<And>i. i < n \<Longrightarrow> H i = hdr_block (d start) i"
  shows "fold (\<lambda>i. a_copy (H i) (log_blk start i)) [0..<n] a =
    a\<lparr>a_cont := durable start d, a_disk := durable start d, a_trace := a_trace a @ replay start d\<rparr>"
proof -
  have ws: "replay start d = map (\<lambda>i. (H i, a_cont a (log_blk start i))) [0..<n]"
    using H n a by (simp add: replay_def)
  have "fold (\<lambda>i. a_copy (H i) (log_blk start i)) [0..<n] a =
      a\<lparr>a_cont := apply_writes (a_cont a) (replay start d),
        a_disk := apply_writes (a_disk a) (replay start d), a_trace := a_trace a @ replay start d\<rparr>"
  proof (rule fold_a_copy [OF _ _ ws])
    fix i j assume "i \<in> set [0..<n]" "j \<in> set [0..<n]"
    then have "H i \<notin> log_area start c" "log_blk start j \<in> log_area start c"
      using d n H by (auto simp: hdr_ok_def intro: log_areaI)
    then show "H i \<noteq> log_blk start j" by metis
  qed (use d a in \<open>simp add: hdr_ok_def\<close>)
  then show ?thesis using a by (simp add: durable_def)
qed

text \<open>\<^verbatim>\<open>initlog\<close> on a cache that nobody uses.\<close>

lemma initlog_spec:
  assumes d: "hdr_ok start c d"
    and bt: "bio_inv (lg_bio l)" "quiet {} (acache_of (lg_bio l))" "buf_cont (lg_bio l) = d" "d_disk (lg_bio l) = d"
    and idle: "lg_outstanding l = 0" "\<not> lg_committing l"
  obtains lg h where "initlog ROOTDEV start nlog l = Ok lg" "hdr_n h = 0" "blk h = h"
    "bio_inv (lg_bio lg)" "quiet {} (acache_of (lg_bio lg))" "lg_n lg = 0" "lg_dev lg = ROOTDEV"
    "lg_start lg = start" "lg_size lg = sint nlog" "lg_outstanding lg = 0" "\<not> lg_committing lg"
    "d_trace (lg_bio lg) = d_trace (lg_bio l) @ replay start d @ [(start, h)]"
    "d_disk (lg_bio lg) = (durable start d)(start := h)"
proof -
  have n: "hdr_n (d start) \<le> LOGSIZE" using d by (auto simp: hdr_ok_def)
  define l0 where "l0 = l\<lparr>lg_start := start, lg_size := sint nlog, lg_dev := ROOTDEV\<rparr>"
  have l0: "lg_bio l0 = lg_bio l" "lg_start l0 = start" "lg_dev l0 = ROOTDEV"
      "lg_size l0 = sint nlog" "lg_outstanding l0 = 0" "\<not> lg_committing l0"
    using idle by (simp_all add: l0_def)
  have N: "card {} < NBUF" by (simp add: NBUF_def MAXOPBLOCKS_def)
  have dh: "d start = buf_cont (lg_bio l0) (lg_start l0)" using bt l0 by simp
  obtain s1 where r1: "read_head l0 = Ok (l0\<lparr>lg_n := sint (get32 (d start) 0),
      lg_block := (\<lambda>j. if j < hdr_n (d start) then hdr_block (d start) j else lg_block l0 j),
      lg_bio := s1\<rparr>)" and i1: "bio_inv s1" and a1: "acache_of s1 = acache_of (lg_bio l0)"
    by (rule read_head_spec [OF _ _ N l0(3) dh n]) (use bt l0 in simp_all)
  define l1 where "l1 = l0\<lparr>lg_n := sint (get32 (d start) 0),
      lg_block := (\<lambda>j. if j < hdr_n (d start) then hdr_block (d start) j else lg_block l0 j),
      lg_bio := s1\<rparr>"
  have l1: "nat (lg_n l1) = hdr_n (d start)" "lg_start l1 = start" "lg_dev l1 = ROOTDEV" "lg_bio l1 = s1"
      "\<And>i. i < hdr_n (d start) \<Longrightarrow> lg_block l1 i = hdr_block (d start) i"
    using l0 by (simp_all add: l1_def hdr_n_def)
  have q1: "quiet {} (acache_of s1)" unfolding a1 l0(1) by (rule bt(2))
  have "\<exists>s2. install_loop True l1 0 (hdr_n (d start)) s1 = Ok s2 \<and> bio_inv s2 \<and>
    acache_of s2 = fold (\<lambda>i. a_copy (lg_block l1 i) (log_blk (lg_start l1) i)) [0..<0 + hdr_n (d start)]
      (acache_of s1)"
    using d n l1 by (intro install_loop_recovering i1 q1) (auto simp: hdr_ok_def)
  then obtain s2 where s2: "install_loop True l1 0 (hdr_n (d start)) s1 = Ok s2" "bio_inv s2"
      and "acache_of s2 = fold (\<lambda>i. a_copy (lg_block l1 i) (log_blk start i)) [0..<hdr_n (d start)]
        (acache_of s1)"
    using l1 by auto
  then have a2: "acache_of s2 = (acache_of s1)\<lparr>a_cont := durable start d, a_disk := durable start d,
      a_trace := d_trace s1 @ replay start d\<rparr>"
    using fold_install [OF d refl, of "acache_of s1" "lg_block l1"] l1 a1 bt l0
    by (simp add: acache_of_def)
  define l2 where "l2 = l1\<lparr>lg_bio := s2, lg_n := 0\<rparr>"
  have q2: "quiet {} (acache_of s2)" unfolding a2 using q1 by (simp add: quiet_def)
  obtain h s3 where w: "write_head l2 = Ok (l2\<lparr>lg_bio := s3\<rparr>)" "bio_inv s3" "header_for l2 h"
    "acache_of s3 = ac_write (lg_start l2) (ac_set (lg_start l2) h (acache_of (lg_bio l2)))"
    by (rule write_head_spec [OF _ _ N, of l2]) (use s2 q2 l1 in \<open>simp_all add: l2_def\<close>)
  have h: "hdr_n h = 0" "blk h = h" using w(3) by (simp_all add: header_for_def l2_def)
  have l2: "lg_bio l2 = s2" "lg_start l2 = start" using l1 by (simp_all add: l2_def)
  have a3: "acache_of s3 = ac_write start (ac_set start h (acache_of s2))" using w(4) l2 by simp
  have "initlog ROOTDEV start nlog l = Ok (l2\<lparr>lg_bio := s3\<rparr>)"
    using r1 s2 w(1) l1(1,4)
    by (simp add: initlog_def recover_from_log_def install_trans_def BSIZE_def
        LOGSIZE_def MAXOPBLOCKS_def l0_def [symmetric] l1_def [symmetric] l2_def)
  moreover have "d_trace s3 = d_trace (lg_bio l) @ replay start d @ [(start, h)]" "d_disk s3 = (durable start d)(start := h)"
    using arg_cong [OF a3, of a_trace] arg_cong [OF a3, of a_disk] arg_cong [OF a1, of a_trace]
      a2 bt l0 h by (simp_all add: ac_defs)
  moreover have "quiet {} (acache_of s3)" unfolding a3 quiet_write by (rule q2)
  ultimately show thesis
    using that [of "l2\<lparr>lg_bio := s3\<rparr>" h] h w(2) l2 l1 l0 by (simp add: l2_def l1_def)
qed

lemma reboot_spec:
  assumes d: "hdr_ok start c d"
  obtains lg h where "reboot pid start nlog d = Ok lg" "hdr_n h = 0" "blk h = h"
    "bio_inv (lg_bio lg)" "quiet {} (acache_of (lg_bio lg))" "lg_n lg = 0" "lg_dev lg = ROOTDEV"
    "lg_start lg = start" "lg_size lg = sint nlog" "lg_outstanding lg = 0" "\<not> lg_committing lg"
    "d_trace (lg_bio lg) = replay start d @ [(start, h)]"
    "d_disk (lg_bio lg) = (durable start d)(start := h)"
proof -
  have "\<And>m. blk (d m) = d m" using d by (auto simp: hdr_ok_def)
  note bt = boot_cache [OF this, of pid]
  show thesis
    by (rule initlog_spec [OF d, where l = "boot_log pid d" and nlog = nlog])
      (use bt that in \<open>simp_all add: boot_log_def reboot_def\<close>)
qed

section \<open>Commit\<close>

text \<open>The writes of a commit of \<open>lg\<close> whose header blocks are \<open>h1\<close> and then \<open>h2\<close>.\<close>

definition log_copies :: "log \<Rightarrow> (u32 \<times> bytes) list" where
  "log_copies lg = map (\<lambda>i. (log_blk (lg_start lg) i, buf_cont (lg_bio lg) (lg_block lg i)))
     [0..<nat (lg_n lg)]"

definition home_copies :: "log \<Rightarrow> (u32 \<times> bytes) list" where
  "home_copies lg = map (\<lambda>i. (lg_block lg i, buf_cont (lg_bio lg) (lg_block lg i)))
     [0..<nat (lg_n lg)]"

definition commit_writes :: "log \<Rightarrow> bytes \<Rightarrow> bytes \<Rightarrow> (u32 \<times> bytes) list" where
  "commit_writes lg h1 h2 =
     log_copies lg @ (lg_start lg, h1) # home_copies lg @ [(lg_start lg, h2)]"

lemma log_invD:
  assumes "log_inv lg"
  shows "bio_inv (lg_bio lg)" "quiet (logged lg) (acache_of (lg_bio lg))" "lg_dev lg = ROOTDEV"
    "0 \<le> lg_n lg" "nat (lg_n lg) \<le> LOGSIZE" "nat (lg_n lg) < NBUF" "card (logged lg) < NBUF"
    "inj_on (lg_block lg) {..<nat (lg_n lg)}" "logged lg \<inter> log_area (lg_start lg) (log_cap lg) = {}"
    "hdr_n (d_disk (lg_bio lg) (lg_start lg)) = 0" "nat (lg_n lg) \<le> log_cap lg"
    "log_cap lg \<le> LOGSIZE"
proof -
  show n: "nat (lg_n lg) < NBUF"
    using assms by (auto simp: log_inv_def LOGSIZE_def NBUF_def MAXOPBLOCKS_def)
  have "card (logged lg) \<le> nat (lg_n lg)"
    unfolding logged_def using card_image_le [of "{..<nat (lg_n lg)}" "lg_block lg"] by simp
  then show "card (logged lg) < NBUF" using n by simp
qed (use assms in \<open>auto simp: log_inv_def\<close>)

lemma write_log_spec:
  assumes "log_inv lg"
  obtains s where "write_log lg = Ok (lg\<lparr>lg_bio := s\<rparr>)" "bio_inv s"
    "acache_of s = (acache_of (lg_bio lg))
       \<lparr>a_cont := apply_writes (buf_cont (lg_bio lg)) (log_copies lg),
        a_disk := apply_writes (d_disk (lg_bio lg)) (log_copies lg),
        a_trace := d_trace (lg_bio lg) @ log_copies lg\<rparr>"
proof -
  note i = log_invD [OF assms]
  let ?n = "nat (lg_n lg)" and ?s = "lg_bio lg" and ?L = "log_blk (lg_start lg)"
  have bl: "lg_block lg j \<in> logged lg" if "j < ?n" for j using that by (simp add: logged_def)
  have "\<exists>s. write_log_loop lg 0 ?n ?s = Ok s \<and> bio_inv s \<and>
      acache_of s = fold (\<lambda>i. a_copy (?L i) (lg_block lg i)) [0..<0 + ?n] (acache_of ?s)"
    using i bl by (intro write_log_loop_spec [where B = "logged lg"]) auto
  then obtain s where s: "write_log_loop lg 0 ?n ?s = Ok s" "bio_inv s"
      "acache_of s = fold (\<lambda>i. a_copy (?L i) (lg_block lg i)) [0..<?n] (acache_of ?s)" by auto
  have "fold (\<lambda>i. a_copy (?L i) (lg_block lg i)) [0..<?n] (acache_of ?s) = (acache_of ?s)
       \<lparr>a_cont := apply_writes (a_cont (acache_of ?s)) (log_copies lg),
        a_disk := apply_writes (a_disk (acache_of ?s)) (log_copies lg),
        a_trace := a_trace (acache_of ?s) @ log_copies lg\<rparr>"
  proof (rule fold_a_copy)
    fix j k assume "j \<in> set [0..<?n]" "k \<in> set [0..<?n]"
    then have "?L j \<in> log_area (lg_start lg) (log_cap lg)" "lg_block lg k \<in> logged lg"
      using i bl by (auto intro: log_areaI)
    then show "?L j \<noteq> lg_block lg k" using i(9) by (metis disjoint_iff)
  qed (simp_all add: cont_canon [OF i(1)] log_copies_def)
  then show thesis using that [of s] s by (simp add: write_log_def)
qed

lemma install_commit_spec:
  assumes lg: "bio_inv (lg_bio lg)" "quiet (logged lg) (acache_of (lg_bio lg))" "lg_dev lg = ROOTDEV"
      "nat (lg_n lg) \<le> log_cap lg" "nat (lg_n lg) < NBUF" "inj_on (lg_block lg) {..<nat (lg_n lg)}"
      "logged lg \<inter> log_area (lg_start lg) (log_cap lg) = {}" "log_cap lg \<le> LOGSIZE"
    and ws: "ws = map (\<lambda>i. (lg_block lg i, buf_cont (lg_bio lg) (log_blk (lg_start lg) i)))
      [0..<nat (lg_n lg)]"
  obtains s where "install_trans False lg = Ok (lg\<lparr>lg_bio := s\<rparr>)" "bio_inv s"
    "acache_of s = (acache_of (lg_bio lg))\<lparr>a_cont := apply_writes (buf_cont (lg_bio lg)) ws,
        a_disk := apply_writes (d_disk (lg_bio lg)) ws,
        a_trace := d_trace (lg_bio lg) @ ws, a_refs := (\<lambda>_. 0)\<rparr>"
proof -
  let ?n = "nat (lg_n lg)" and ?s = "lg_bio lg" and ?L = "log_blk (lg_start lg)"
  have B: "lg_block lg ` {0..<0 + ?n} = logged lg" by (simp add: logged_def lessThan_atLeast0)
  have "\<exists>s. install_loop False lg 0 ?n ?s = Ok s \<and> bio_inv s \<and>
      acache_of s = (fold (\<lambda>i. a_copy (lg_block lg i) (?L i)) [0..<0 + ?n] (acache_of ?s))
        \<lparr>a_refs := (\<lambda>_. 0)\<rparr>"
    using lg by (intro install_loop_commit [where c = "log_cap lg"])
      (simp_all add: B logged_def lessThan_atLeast0)
  then obtain s where s: "install_loop False lg 0 ?n ?s = Ok s" "bio_inv s"
      "acache_of s = (fold (\<lambda>i. a_copy (lg_block lg i) (?L i)) [0..<?n] (acache_of ?s))
        \<lparr>a_refs := (\<lambda>_. 0)\<rparr>" by auto
  have "fold (\<lambda>i. a_copy (lg_block lg i) (?L i)) [0..<?n] (acache_of ?s) = (acache_of ?s)
       \<lparr>a_cont := apply_writes (a_cont (acache_of ?s)) ws,
        a_disk := apply_writes (a_disk (acache_of ?s)) ws,
        a_trace := a_trace (acache_of ?s) @ ws\<rparr>"
  proof (rule fold_a_copy)
    fix j k assume "j \<in> set [0..<?n]" "k \<in> set [0..<?n]"
    then have "?L k \<in> log_area (lg_start lg) (log_cap lg)" "lg_block lg j \<in> logged lg"
      using lg by (auto simp: logged_def intro: log_areaI)
    then show "lg_block lg j \<noteq> ?L k" using lg(7) by (metis disjoint_iff)
  qed (simp_all add: cont_canon [OF lg(1)] ws)
  then show thesis using that [of s] s by (simp add: install_trans_def)
qed

lemma ac_write_set:
  "blk h = h \<Longrightarrow> ac_write n (ac_set n h a) = a\<lparr>a_cont := apply_writes (a_cont a) [(n, h)],
     a_disk := apply_writes (a_disk a) [(n, h)], a_trace := a_trace a @ [(n, h)]\<rparr>"
  by (simp add: ac_defs)

lemma log_copies_get:
  assumes "log_inv lg" and "i < nat (lg_n lg)"
  shows "apply_writes c (log_copies lg) (log_blk (lg_start lg) i) = buf_cont (lg_bio lg) (lg_block lg i)"
  unfolding log_copies_def
  using assms log_invD(5) [OF assms(1)]
  by (intro apply_writes_map [where p = "log_blk (lg_start lg)"] inj_on_subset [OF log_blk_inj]) auto

lemma log_copies_fst: "fst ` set (log_copies lg) = log_blk (lg_start lg) ` {..<nat (lg_n lg)}"
  and home_copies_fst: "fst ` set (home_copies lg) = logged lg"
  by (auto simp: log_copies_def home_copies_def logged_def image_image lessThan_atLeast0)

lemma commit_spec:
  assumes lg: "log_inv lg" and pos: "lg_n lg > 0"
  obtains s h1 h2 where "commit lg = Ok (lg\<lparr>lg_bio := s, lg_n := 0\<rparr>)" "bio_inv s"
    "header_for lg h1" "hdr_n h2 = 0" "blk h2 = h2"
    "acache_of s = (acache_of (lg_bio lg))
       \<lparr>a_cont := apply_writes (buf_cont (lg_bio lg)) (commit_writes lg h1 h2),
        a_disk := apply_writes (d_disk (lg_bio lg)) (commit_writes lg h1 h2),
        a_trace := d_trace (lg_bio lg) @ commit_writes lg h1 h2, a_refs := (\<lambda>_. 0)\<rparr>"
proof -
  note i = log_invD [OF lg]
  have n: "lg_n lg \<le> int LOGSIZE" using i(4,5) by simp
  obtain s1 where w1: "write_log lg = Ok (lg\<lparr>lg_bio := s1\<rparr>)" "bio_inv s1"
    and a1: "acache_of s1 = (acache_of (lg_bio lg))
       \<lparr>a_cont := apply_writes (buf_cont (lg_bio lg)) (log_copies lg),
        a_disk := apply_writes (d_disk (lg_bio lg)) (log_copies lg),
        a_trace := d_trace (lg_bio lg) @ log_copies lg\<rparr>"
    by (rule write_log_spec [OF lg])
  define l1 where "l1 = lg\<lparr>lg_bio := s1\<rparr>"
  have q1: "quiet (logged lg) (acache_of s1)" unfolding a1 using i(2) by (simp add: quiet_def)
  obtain h1 s2 where w2: "write_head l1 = Ok (l1\<lparr>lg_bio := s2\<rparr>)" "bio_inv s2" "header_for l1 h1"
    and a2: "acache_of s2 = ac_write (lg_start l1) (ac_set (lg_start l1) h1 (acache_of (lg_bio l1)))"
    by (rule write_head_spec [OF _ _ i(7), of l1]) (use w1 q1 i n in \<open>simp_all add: l1_def\<close>)
  have h1: "header_for lg h1" "blk h1 = h1" using w2(3) by (simp_all add: header_for_def l1_def)
  define l2 where "l2 = lg\<lparr>lg_bio := s2\<rparr>"
  have a2': "acache_of s2 = (acache_of s1)
      \<lparr>a_cont := apply_writes (buf_cont s1) [(lg_start lg, h1)],
       a_disk := apply_writes (d_disk s1) [(lg_start lg, h1)],
       a_trace := d_trace s1 @ [(lg_start lg, h1)]\<rparr>"
    unfolding a2 ac_write_set [OF h1(2)] by (simp add: l1_def)
  have q2: "quiet (logged lg) (acache_of s2)" unfolding a2' using q1 by (simp add: quiet_def)
  have c1: "buf_cont s1 = apply_writes (buf_cont (lg_bio lg)) (log_copies lg)"
    using arg_cong [OF a1, of a_cont] by simp
  have c2: "buf_cont s2 = (buf_cont s1)(lg_start lg := h1)"
    using arg_cong [OF a2', of a_cont] by simp
  have ws: "home_copies lg = map (\<lambda>i. (lg_block l2 i, buf_cont (lg_bio l2) (log_blk (lg_start l2) i)))
      [0..<nat (lg_n l2)]"
    using log_copies_get [OF lg] log_blk_start i(5) by (simp add: home_copies_def l2_def c2 c1)
  have lg2: "logged l2 = logged lg" by (simp add: logged_def l2_def)
  obtain s3 where w3: "install_trans False l2 = Ok (l2\<lparr>lg_bio := s3\<rparr>)" "bio_inv s3"
    and a3: "acache_of s3 = (acache_of (lg_bio l2))
       \<lparr>a_cont := apply_writes (buf_cont (lg_bio l2)) (home_copies lg),
        a_disk := apply_writes (d_disk (lg_bio l2)) (home_copies lg),
        a_trace := d_trace (lg_bio l2) @ home_copies lg, a_refs := (\<lambda>_. 0)\<rparr>"
    by (rule install_commit_spec [OF _ _ _ _ _ _ _ _ ws])
      (use w2 q2 i in \<open>simp_all add: lg2, simp_all add: l2_def\<close>)
  define l3 where "l3 = l2\<lparr>lg_bio := s3, lg_n := 0\<rparr>"
  have q3: "quiet {} (acache_of s3)" unfolding a3 using q2 by (simp add: quiet_def l2_def)
  have N: "card {} < NBUF" by (simp add: NBUF_def MAXOPBLOCKS_def)
  obtain h2 s4 where w4: "write_head l3 = Ok (l3\<lparr>lg_bio := s4\<rparr>)" "bio_inv s4" "header_for l3 h2"
    and a4: "acache_of s4 = ac_write (lg_start l3) (ac_set (lg_start l3) h2 (acache_of (lg_bio l3)))"
    by (rule write_head_spec [OF _ _ N, of l3]) (use w3 q3 i in \<open>simp_all add: l3_def l2_def\<close>)
  have h2: "hdr_n h2 = 0" "blk h2 = h2" using w4(3) by (simp_all add: header_for_def l3_def)
  have "commit lg = Ok (lg\<lparr>lg_bio := s4, lg_n := 0\<rparr>)"
    using pos w1(1) w2(1) w3(1) w4(1) by (simp add: commit_def l1_def l2_def l3_def)
  moreover have "acache_of s4 = (acache_of (lg_bio lg))
       \<lparr>a_cont := apply_writes (buf_cont (lg_bio lg)) (commit_writes lg h1 h2),
        a_disk := apply_writes (d_disk (lg_bio lg)) (commit_writes lg h1 h2),
        a_trace := d_trace (lg_bio lg) @ commit_writes lg h1 h2, a_refs := (\<lambda>_. 0)\<rparr>"
    unfolding a4 ac_write_set [OF h2(2)]
    using a3 a2' a1 by (simp add: l3_def l2_def commit_writes_def acache_of_def)
  ultimately show thesis using w4(2) h1(1) h2 that by blast
qed

section \<open>Crashes\<close>

lemma apply_writes_take: "apply_writes (apply_writes d (take k ws)) ws = apply_writes d ws"
proof
  fix m
  show "apply_writes (apply_writes d (take k ws)) ws m = apply_writes d ws m"
  proof (cases "m \<in> fst ` set ws")
    case True
    then have "map_of (rev ws) m \<noteq> None" by (simp add: map_of_eq_None_iff)
    then show ?thesis by (auto simp: apply_writes_eq [of _ ws])
  next
    case False
    then have "m \<notin> fst ` set (take k ws)" using set_take_subset [of k ws] by blast
    then show ?thesis using False by (simp add: apply_writes_other)
  qed
qed

lemma idle_header: "hdr_n (d start) = 0 \<Longrightarrow> durable start d = d"
  by (simp add: durable_def replay_def)

lemma replay_canon: "hdr_ok start c d \<Longrightarrow> (n, x) \<in> set (replay start d) \<Longrightarrow> blk x = x"
  by (auto simp: replay_def hdr_ok_def)

text \<open>A crash during recovery leaves a disk with the same durable contents.\<close>

lemma recovery_prefix:
  assumes d: "hdr_ok start c d" and h: "hdr_n h = 0" "blk h = h"
    and d': "d' = apply_writes d (take k (replay start d @ [(start, h)]))"
  shows "hdr_ok start c d'" "m \<notin> log_area start c \<Longrightarrow> durable start d' m = durable start d m"
proof -
  have canon: "blk (d' m) = d' m" for m
    unfolding d'
    by (rule apply_writes_canon)
      (use d h in \<open>auto simp: hdr_ok_def dest!: in_set_takeD intro: replay_canon [OF d]\<close>)
  have "hdr_ok start c d' \<and> (m \<notin> log_area start c \<longrightarrow> durable start d' m = durable start d m)"
  proof (cases "k \<le> length (replay start d)")
    case True
    then have d1: "d' = apply_writes d (take k (replay start d))" by (simp add: d')
    have same: "d' l = d l" if "l \<in> log_area start c" for l
      unfolding d1 using replay_outside [OF d that] set_take_subset [of k "replay start d"]
      by (intro apply_writes_other) blast
    have st: "d' start = d start" by (rule same [OF log_areaI(1)])
    have n: "hdr_n (d start) \<le> c" using d by (simp add: hdr_ok_def)
    have "replay start d' = replay start d"
      unfolding replay_def st using n same [OF log_areaI(2)] by auto
    then have "durable start d' = durable start d"
      unfolding durable_def d1 by (simp add: apply_writes_take)
    moreover have "hdr_ok start c d'" using d canon unfolding hdr_ok_def st by blast
    ultimately show ?thesis by simp
  next
    case False
    then have d1: "d' = (durable start d)(start := h)" by (simp add: d' durable_def)
    then have "hdr_ok start c d'" using canon h d by (simp add: hdr_ok_def)
    moreover have "durable start d' = d'" using d1 h by (intro idle_header) simp
    ultimately show ?thesis using d1 log_areaI(1) [of start] by auto
  qed
  then show "hdr_ok start c d'" "m \<notin> log_area start c \<Longrightarrow> durable start d' m = durable start d m"
    by blast+
qed

lemma unlogged_clean:
  assumes "log_inv lg" and "m \<notin> logged lg"
  shows "d_disk (lg_bio lg) m = buf_cont (lg_bio lg) m"
  using idle_clean(1) [of "lg_bio lg" m] log_invD(1,2) [OF assms(1)] assms(2) by (simp add: quiet_def)

lemma home_copies_get:
  assumes lg: "log_inv lg" and m: "m \<notin> log_area (lg_start lg) (log_cap lg)"
    and d: "\<And>m. m \<notin> log_area (lg_start lg) (log_cap lg) \<Longrightarrow> m \<notin> logged lg \<Longrightarrow> d m = d_disk (lg_bio lg) m"
  shows "apply_writes d (home_copies lg) m = buf_cont (lg_bio lg) m"
proof (cases "m \<in> logged lg")
  case True
  then obtain i where i: "i < nat (lg_n lg)" "m = lg_block lg i" by (auto simp: logged_def)
  show ?thesis
    unfolding home_copies_def i(2)
    using i(1) log_invD(8) [OF lg]
    by (intro apply_writes_map [where p = "lg_block lg"]) (simp_all add: lessThan_atLeast0)
next
  case False
  then have "apply_writes d (home_copies lg) m = d m"
    by (intro apply_writes_other) (simp add: home_copies_fst)
  then show ?thesis using d [OF m False] unlogged_clean [OF lg False] by simp
qed

text \<open>A crash during a commit: before the header is written nothing has changed, from
  then on everything has.\<close>

lemma commit_prefix_before:
  assumes lg: "log_inv lg" and k: "k \<le> nat (lg_n lg)" and st: "start = lg_start lg" and c: "c = log_cap lg"
    and d: "d = apply_writes (d_disk (lg_bio lg)) (take k (commit_writes lg h1 h2))"
  shows "hdr_ok start c d" "m \<notin> log_area start c \<Longrightarrow> durable start d m = d_disk (lg_bio lg) m"
proof -
  note i = log_invD [OF lg]
  have d1: "d = apply_writes (d_disk (lg_bio lg)) (take k (log_copies lg))"
    using k by (simp add: d commit_writes_def log_copies_def)
  have sub: "fst ` set (take k (log_copies lg)) \<subseteq> log_blk start ` {..<c}"
  proof -
    have "fst ` set (take k (log_copies lg)) \<subseteq> fst ` set (log_copies lg)"
      by (intro image_mono set_take_subset)
    also have "\<dots> \<subseteq> log_blk start ` {..<c}"
      unfolding log_copies_fst st using i(11) c by (intro image_mono) simp
    finally show ?thesis .
  qed
  have out: "d m = d_disk (lg_bio lg) m" if "m \<notin> log_blk start ` {..<c}" for m
    unfolding d1 using sub that by (intro apply_writes_other) blast
  have "d start = d_disk (lg_bio lg) start" using log_blk_start [of _ start] i(12) c by (intro out) auto
  then have h0: "hdr_n (d start) = 0" using i(10) st by simp
  have canon: "blk (d m) = d m" for m
    unfolding d1
    by (rule apply_writes_canon)
      (use i(1) cont_canon [OF i(1)] in \<open>auto simp: bio_inv_def disk_ok_def log_copies_def dest!: in_set_takeD\<close>)
  then show "hdr_ok start c d" using h0 i(12) c by (simp add: hdr_ok_def)
  show "durable start d m = d_disk (lg_bio lg) m" if "m \<notin> log_area start c"
    unfolding idle_header [of d, OF h0] using that by (intro out) (auto simp: log_area_def)
qed

lemma commit_prefix_after:
  assumes lg: "log_inv lg" and st: "start = lg_start lg" and c: "c = log_cap lg"
    and h: "header_for lg h1" "hdr_n h2 = 0" "blk h2 = h2"
    and d: "d = apply_writes (d_disk (lg_bio lg))
      (log_copies lg @ (start, h1) # take j (home_copies lg @ [(start, h2)]))"
  shows "hdr_ok start c d" "m \<notin> log_area start c \<Longrightarrow> durable start d m = buf_cont (lg_bio lg) m"
proof -
  note i = log_invD [OF lg]
  let ?d1 = "(apply_writes (d_disk (lg_bio lg)) (log_copies lg))(start := h1)"
  have d1: "d = apply_writes ?d1 (take j (home_copies lg @ [(start, h2)]))" by (simp add: d)
  have h1: "blk h1 = h1" "hdr_n h1 = nat (lg_n lg)" using h(1) by (simp_all add: header_for_def)
  have canon: "blk (d m) = d m" for m
    unfolding d
    by (rule apply_writes_canon)
      (use i(1) cont_canon [OF i(1)] h1 h in \<open>auto simp: bio_inv_def disk_ok_def log_copies_def
         home_copies_def dest!: in_set_takeD\<close>)
  have out: "?d1 m = d_disk (lg_bio lg) m" if "m \<notin> log_area start c" for m
  proof -
    have "m \<noteq> start" "m \<notin> fst ` set (log_copies lg)"
      using that i(11) st c by (auto simp: log_copies_fst log_area_def)
    then show ?thesis by (simp add: apply_writes_other)
  qed
  have area: "l \<notin> fst ` set (home_copies lg)" if "l \<in> log_area start c" for l
    using that i(9) st c by (auto simp: home_copies_fst)
  have "hdr_ok start c d \<and> (m \<notin> log_area start c \<longrightarrow> durable start d m = buf_cont (lg_bio lg) m)"
  proof (cases "j \<le> length (home_copies lg)")
    case True
    then have d2: "d = apply_writes ?d1 (take j (home_copies lg))" by (simp add: d1)
    have same: "d l = ?d1 l" if "l \<in> log_area start c" for l
      unfolding d2 using area [OF that] set_take_subset [of j "home_copies lg"]
      by (intro apply_writes_other) blast
    have ds: "d start = h1" using same [OF log_areaI(1)] by simp
    have L: "d (log_blk start l) = buf_cont (lg_bio lg) (lg_block lg l)" if "l < nat (lg_n lg)" for l
      using that i(5,11) c same [OF log_areaI(2), of l] log_blk_start [of l start]
        log_copies_get [OF lg that] st by simp
    have "replay start d = home_copies lg"
      unfolding replay_def ds home_copies_def using L h(1) by (auto simp: header_for_def)
    then have "durable start d = apply_writes ?d1 (home_copies lg)"
      unfolding durable_def d2 by (simp add: apply_writes_take)
    moreover have "hdr_ok start c d"
      using canon h(1) i(9,11,12) st c unfolding hdr_ok_def ds by (auto simp: header_for_def logged_def)
    ultimately show ?thesis using home_copies_get [OF lg, of m ?d1] out st c by simp
  next
    case False
    then have d2: "d = (apply_writes ?d1 (home_copies lg))(start := h2)" by (simp add: d1)
    then have "hdr_ok start c d" using canon h i(12) c by (simp add: hdr_ok_def)
    moreover have "durable start d = d" using d2 h by (intro idle_header) simp
    moreover have "m \<notin> log_area start c \<Longrightarrow> m \<noteq> start" using log_areaI(1) by blast
    ultimately show ?thesis using home_copies_get [OF lg, of m ?d1] out st c d2 by simp
  qed
  then show "hdr_ok start c d" "m \<notin> log_area start c \<Longrightarrow> durable start d m = buf_cont (lg_bio lg) m"
    by blast+
qed

lemma commit_prefix:
  assumes lg: "log_inv lg" and st: "start = lg_start lg" and c: "c = log_cap lg"
    and h: "header_for lg h1" "hdr_n h2 = 0" "blk h2 = h2"
    and d: "d = apply_writes (d_disk (lg_bio lg)) (take k (commit_writes lg h1 h2))"
  shows "hdr_ok start c d"
    "m \<notin> log_area start c \<Longrightarrow> durable start d m =
       (if k \<le> nat (lg_n lg) then d_disk (lg_bio lg) m else buf_cont (lg_bio lg) m)"
proof -
  have "hdr_ok start c d \<and> (m \<notin> log_area start c \<longrightarrow> durable start d m =
       (if k \<le> nat (lg_n lg) then d_disk (lg_bio lg) m else buf_cont (lg_bio lg) m))"
  proof (cases "k \<le> nat (lg_n lg)")
    case True
    then show ?thesis using commit_prefix_before [OF lg True st c d] by simp
  next
    case False
    then obtain j where "k = Suc (nat (lg_n lg) + j)" using less_imp_Suc_add by (metis not_le)
    then have "take k (commit_writes lg h1 h2) =
        log_copies lg @ (start, h1) # take j (home_copies lg @ [(start, h2)])"
      by (simp add: commit_writes_def log_copies_def st)
    then show ?thesis using commit_prefix_after [OF lg st c h] False d by simp
  qed
  then show "hdr_ok start c d" "m \<notin> log_area start c \<Longrightarrow> durable start d m =
       (if k \<le> nat (lg_n lg) then d_disk (lg_bio lg) m else buf_cont (lg_bio lg) m)" by blast+
qed

text \<open>Power failures during recovery: each one cuts the writes of a reboot short.\<close>

inductive interrupted :: "nat \<Rightarrow> u32 \<Rightarrow> u32 \<Rightarrow> (u32 \<Rightarrow> bytes) \<Rightarrow> (u32 \<Rightarrow> bytes) \<Rightarrow> bool"
  for pid start nlog d where
  int_none: "interrupted pid start nlog d d"
| int_again: "interrupted pid start nlog d d1 \<Longrightarrow> reboot pid start nlog d1 = Ok r \<Longrightarrow>
    interrupted pid start nlog d (apply_writes d1 (take k (d_trace (lg_bio r))))"

lemma interrupted_durable:
  assumes "interrupted pid start nlog d d'" and "hdr_ok start c d"
  shows "hdr_ok start c d' \<and> (\<forall>m. m \<notin> log_area start c \<longrightarrow> durable start d' m = durable start d m)"
  using assms
proof (induction rule: interrupted.induct)
  case (int_again d1 r k)
  then have d1: "hdr_ok start c d1" "\<forall>m. m \<notin> log_area start c \<longrightarrow> durable start d1 m = durable start d m"
    by auto
  obtain lg h where r: "reboot pid start nlog d1 = Ok lg" "hdr_n h = 0" "blk h = h"
      "d_trace (lg_bio lg) = replay start d1 @ [(start, h)]"
    using reboot_spec [OF d1(1), of pid nlog] by metis
  then have "lg = r" using int_again.hyps by simp
  then show ?case using recovery_prefix [OF d1(1) r(2,3), where k = k, OF refl] r(4) d1(2) by simp
qed simp

section \<open>Writing inside a transaction\<close>

lemma log_slot_old:
  "i \<le> j \<Longrightarrow> j < i + k \<Longrightarrow> bl j = n \<Longrightarrow>
     log_slot bl n i k < i + k \<and> bl (log_slot bl n i k) = n"
proof (induction k arbitrary: i)
  case (Suc k)
  show ?case
  proof (cases "bl i = n")
    case False
    then have "Suc i \<le> j" "j < Suc i + k" using Suc.prems by (cases "i = j"; simp)+
    then show ?thesis using False Suc.IH [of "Suc i"] Suc.prems by simp
  qed simp
qed simp

lemma log_slot_new: "(\<And>j. i \<le> j \<Longrightarrow> j < i + k \<Longrightarrow> bl j \<noteq> n) \<Longrightarrow> log_slot bl n i k = i + k"
  by (induction k arbitrary: i) auto

text \<open>The two ways \<^verbatim>\<open>log_write\<close> records a block.\<close>

lemma log_write_absorb:
  assumes "lg_n lg < int LOGSIZE" and "lg_n lg < lg_size lg - 1" and "lg_outstanding lg \<ge> 1"
    and "b_blockno (bc_buf (lg_bio lg) b) \<in> logged lg"
  shows "log_write b lg = Ok lg"
proof -
  let ?bn = "b_blockno (bc_buf (lg_bio lg) b)" and ?n = "nat (lg_n lg)"
  obtain j where "j < ?n" "lg_block lg j = ?bn" using assms(4) by (auto simp: logged_def)
  then have s: "log_slot (lg_block lg) ?bn 0 ?n < ?n" "lg_block lg (log_slot (lg_block lg) ?bn 0 ?n) = ?bn"
    using log_slot_old [of 0 j ?n "lg_block lg" ?bn] by simp_all
  then have "int (log_slot (lg_block lg) ?bn 0 ?n) \<noteq> lg_n lg" by linarith
  moreover have "(lg_block lg)(log_slot (lg_block lg) ?bn 0 ?n := ?bn) = lg_block lg"
    using s(2) by (simp add: fun_upd_idem)
  ultimately show ?thesis using assms(1-3) by (simp add: log_write_def Let_def)
qed

lemma log_write_append:
  assumes "0 \<le> lg_n lg" and "lg_n lg < int LOGSIZE" and "lg_n lg < lg_size lg - 1"
    and "lg_outstanding lg \<ge> 1" and "b_blockno (bc_buf (lg_bio lg) b) \<notin> logged lg"
  shows "log_write b lg = Ok (lg\<lparr>lg_block := (lg_block lg)(nat (lg_n lg) := b_blockno (bc_buf (lg_bio lg) b)),
    lg_bio := bpin b (lg_bio lg), lg_n := lg_n lg + 1\<rparr>)"
proof -
  let ?bn = "b_blockno (bc_buf (lg_bio lg) b)" and ?n = "nat (lg_n lg)"
  have "lg_block lg j \<noteq> ?bn" if "j < ?n" for j
    using assms(5) that unfolding logged_def by (metis imageI lessThan_iff)
  then have "log_slot (lg_block lg) ?bn 0 ?n = ?n" using log_slot_new [of 0 ?n] by simp
  then show ?thesis using assms(1-4) by (simp add: log_write_def Let_def)
qed

text \<open>
  The state inside a transaction: the running process holds the blocks \<open>X\<close>, and has
  changed the blocks \<open>D\<close> among them without having called \<^verbatim>\<open>log_write\<close> yet.  Any
  other block that is not logged is as on disk.
\<close>

definition busy :: "u32 set \<Rightarrow> u32 set \<Rightarrow> acache \<Rightarrow> bool" where
  "busy B X a \<longleftrightarrow> a_held a = (\<lambda>m. if m \<in> X then Some (a_pid a) else None) \<and>
     a_refs a = (\<lambda>m. (if m \<in> B then 1 else 0) + (if m \<in> X then 1 else 0))"

definition txn :: "log \<Rightarrow> u32 set \<Rightarrow> u32 set \<Rightarrow> bool" where
  "txn lg X D \<longleftrightarrow> bio_inv (lg_bio lg) \<and> busy (logged lg) X (acache_of (lg_bio lg)) \<and>
     lg_dev lg = ROOTDEV \<and> 0 \<le> lg_n lg \<and> lg_n lg < lg_size lg \<and> lg_size lg \<le> int LOGSIZE \<and>
     inj_on (lg_block lg) {..<nat (lg_n lg)} \<and> logged lg \<inter> log_area (lg_start lg) (log_cap lg) = {} \<and>
     hdr_n (d_disk (lg_bio lg) (lg_start lg)) = 0 \<and> D \<subseteq> X \<and>
     (\<forall>m. m \<notin> logged lg \<union> D \<longrightarrow> buf_cont (lg_bio lg) m = d_disk (lg_bio lg) m)"

lemma txn_idle: "txn lg {} {} \<longleftrightarrow> log_inv lg"
proof
  assume "log_inv lg"
  then show "txn lg {} {}"
    using unlogged_clean [of lg] by (auto simp: txn_def log_inv_def busy_def quiet_def)
qed (auto simp: txn_def log_inv_def busy_def quiet_def)

lemma busy_ready:
  assumes "busy B X a" and "n \<notin> X" and "n \<in> B \<or> card (B \<union> X) < NBUF"
  shows "ac_ready n a"
proof -
  have "{m. a_refs a m \<noteq> 0} = B \<union> X" using assms(1) by (auto simp: busy_def)
  moreover have "a_held a n = None" "a_refs a n = (if n \<in> B then 1 else 0)"
    using assms(1,2) by (auto simp: busy_def)
  ultimately show ?thesis using assms(3) by (auto simp: ac_ready_def)
qed

lemma txn_bread:
  assumes t: "txn lg X D" and n: "n \<notin> X" "n \<in> logged lg \<or> card (logged lg \<union> X) < NBUF"
  obtains b s where "bread ROOTDEV n (lg_bio lg) = Ok (b, s)" "handle s n b"
    "txn (lg\<lparr>lg_bio := s\<rparr>) (insert n X) D" "blk (bdata b s) = buf_cont (lg_bio lg) n"
    "buf_cont s = buf_cont (lg_bio lg)" "d_disk s = d_disk (lg_bio lg)"
    "\<forall>m c. m \<noteq> n \<longrightarrow> handle s m c = handle (lg_bio lg) m c"
proof -
  have inv: "bio_inv (lg_bio lg)" and bs: "busy (logged lg) X (acache_of (lg_bio lg))"
    using t by (auto simp: txn_def)
  obtain b s where r: "bread ROOTDEV n (lg_bio lg) = Ok (b, s)" "bio_inv s" "handle s n b"
      "acache_of s = ac_read n (acache_of (lg_bio lg))"
      "\<forall>m c. m \<noteq> n \<longrightarrow> handle s m c = handle (lg_bio lg) m c"
    using bc.rd_law [OF inv busy_ready [OF bs n]] by blast
  have v: "buf_cont s = buf_cont (lg_bio lg)" "d_disk s = d_disk (lg_bio lg)"
    using arg_cong [OF r(4), of a_cont] arg_cong [OF r(4), of a_disk] by (simp_all add: ac_read_def)
  have "busy (logged lg) (insert n X) (acache_of s)"
    unfolding r(4) using bs n(1) by (auto simp: busy_def ac_read_def fun_eq_iff)
  then have "txn (lg\<lparr>lg_bio := s\<rparr>) (insert n X) D"
    using t r(2) v by (auto simp: txn_def logged_def)
  moreover have "blk (bdata b s) = buf_cont (lg_bio lg) n"
    using bc.get_law [OF r(2,3)] v by simp
  ultimately show thesis using that r v by blast
qed

lemma txn_set:
  assumes t: "txn lg X D" and n: "n \<in> X" and h: "handle (lg_bio lg) n b"
  shows "txn (lg\<lparr>lg_bio := set_data b d (lg_bio lg)\<rparr>) X (insert n D)"
    "buf_cont (set_data b d (lg_bio lg)) = (buf_cont (lg_bio lg))(n := blk d)"
    "d_disk (set_data b d (lg_bio lg)) = d_disk (lg_bio lg)"
proof -
  have inv: "bio_inv (lg_bio lg)" using t by (simp add: txn_def)
  note s = set_data_spec [OF inv h, where d = d]
  show v: "buf_cont (set_data b d (lg_bio lg)) = (buf_cont (lg_bio lg))(n := blk d)"
    "d_disk (set_data b d (lg_bio lg)) = d_disk (lg_bio lg)"
    using arg_cong [OF s(3), of a_cont] arg_cong [OF s(3), of a_disk] by (simp_all add: ac_set_def)
  have "busy B X (acache_of (set_data b d (lg_bio lg))) = busy B X (acache_of (lg_bio lg))" for B
    unfolding s(3) by (simp add: busy_def ac_set_def cong: if_cong)
  then show "txn (lg\<lparr>lg_bio := set_data b d (lg_bio lg)\<rparr>) X (insert n D)"
    using t s(1) n v by (auto simp: txn_def logged_def)
qed

lemma txn_handle_block: "txn lg X D \<Longrightarrow> handle (lg_bio lg) n b \<Longrightarrow> b_blockno (bc_buf (lg_bio lg) b) = n"
  by (simp add: handle_def holds_block_def)

lemma logged_append:
  "logged (lg\<lparr>lg_block := (lg_block lg)(nat (lg_n lg) := n), lg_bio := s, lg_n := lg_n lg + 1\<rparr>) =
     insert n (logged lg)" if "0 \<le> lg_n lg"
proof -
  have "nat (lg_n lg + 1) = Suc (nat (lg_n lg))" using that by simp
  then show ?thesis by (auto simp: logged_def lessThan_Suc)
qed

lemma txn_log_write:
  assumes t: "txn lg X D" and n: "n \<in> X" and h: "handle (lg_bio lg) n b"
    and area: "n \<notin> log_area (lg_start lg) (log_cap lg)"
    and room: "lg_n lg < lg_size lg - 1" "lg_outstanding lg \<ge> 1"
  obtains lg' where "log_write b lg = Ok lg'" "txn lg' X (D - {n})" "logged lg' = insert n (logged lg)"
    "lg_n lg' = lg_n lg + (if n \<in> logged lg then 0 else 1)" "lg_size lg' = lg_size lg"
    "lg_start lg' = lg_start lg" "lg_outstanding lg' = lg_outstanding lg"
    "lg_committing lg' = lg_committing lg"
    "buf_cont (lg_bio lg') = buf_cont (lg_bio lg)" "d_disk (lg_bio lg') = d_disk (lg_bio lg)"
    "\<forall>m c. handle (lg_bio lg) m c \<longrightarrow> handle (lg_bio lg') m c"
    "\<forall>i. bdata i (lg_bio lg') = bdata i (lg_bio lg)"
proof -
  have bn: "b_blockno (bc_buf (lg_bio lg) b) = n" using txn_handle_block [OF t h] .
  have L: "0 \<le> lg_n lg" "lg_n lg < int LOGSIZE" "lg_size lg \<le> int LOGSIZE" using t by (auto simp: txn_def)
  show thesis
  proof (cases "n \<in> logged lg")
    case True
    have "log_write b lg = Ok lg" by (rule log_write_absorb) (use L room True bn in simp_all)
    moreover have "txn lg X (D - {n})" using t True by (auto simp: txn_def)
    ultimately show thesis using that [of lg] True by (simp add: insert_absorb)
  next
    case False
    let ?lg = "lg\<lparr>lg_block := (lg_block lg)(nat (lg_n lg) := n), lg_bio := bpin b (lg_bio lg),
      lg_n := lg_n lg + 1\<rparr>"
    have inv: "bio_inv (lg_bio lg)" and bs: "busy (logged lg) X (acache_of (lg_bio lg))"
      using t by (auto simp: txn_def)
    have r: "buf_refs (lg_bio lg) n = 1"
      using fun_cong [of "buf_refs (lg_bio lg)" _ n] bs n False by (auto simp: busy_def)
    note p = bpin_spec [OF inv h, unfolded r, simplified]
    have lw: "log_write b lg = Ok ?lg"
      using log_write_append [OF L(1,2) room, of b] False bn by simp
    have lgd: "logged ?lg = insert n (logged lg)" by (rule logged_append [OF L(1)])
    have v: "buf_cont (bpin b (lg_bio lg)) = buf_cont (lg_bio lg)"
      "d_disk (bpin b (lg_bio lg)) = d_disk (lg_bio lg)"
      using arg_cong [OF p(3), of a_cont] arg_cong [OF p(3), of a_disk] by (simp_all add: ac_pin_def)
    have "busy (insert n (logged lg)) X (acache_of (bpin b (lg_bio lg)))"
      unfolding p(3) using bs False by (auto simp: busy_def ac_pin_def fun_eq_iff)
    moreover have "inj_on (lg_block ?lg) {..<nat (lg_n ?lg)}"
    proof -
      have "nat (lg_n ?lg) = Suc (nat (lg_n lg))" using L by simp
      then show ?thesis
        using t False unfolding txn_def logged_def lessThan_Suc
        by (auto simp: inj_on_def image_iff)
    qed
    ultimately have "txn ?lg X (D - {n})"
      using t p(1) v L room area unfolding txn_def lgd by auto
    moreover have "handle (bpin b (lg_bio lg)) m c" if "handle (lg_bio lg) m c" for m c
      using p(2) p(4) [of m c] that handle_same [OF inv h, of c] by (cases "m = n") auto
    ultimately show thesis using that [OF lw] lgd v p(5) False by simp
  qed
qed

lemma txn_brelse:
  assumes t: "txn lg X D" and n: "n \<in> X" "n \<notin> D" and h: "handle (lg_bio lg) n b"
  obtains s where "brelse b (lg_bio lg) = Ok s" "txn (lg\<lparr>lg_bio := s\<rparr>) (X - {n}) D"
    "buf_cont s = buf_cont (lg_bio lg)" "d_disk s = d_disk (lg_bio lg)"
    "\<forall>m c. m \<noteq> n \<longrightarrow> handle s m c = handle (lg_bio lg) m c"
proof -
  have inv: "bio_inv (lg_bio lg)" and bs: "busy (logged lg) X (acache_of (lg_bio lg))"
    using t by (auto simp: txn_def)
  have "buf_refs (lg_bio lg) n = (if n \<in> logged lg then 1 else 0) + 1" using bs n by (simp add: busy_def)
  then have "a_refs (acache_of (lg_bio lg)) n = 1 \<longrightarrow>
      a_cont (acache_of (lg_bio lg)) n = a_disk (acache_of (lg_bio lg)) n"
    using t n by (auto simp: txn_def)
  then obtain s where s: "brelse b (lg_bio lg) = Ok s" "bio_inv s"
      "acache_of s = ac_relse n (acache_of (lg_bio lg))"
      "\<forall>m c. m \<noteq> n \<longrightarrow> handle s m c = handle (lg_bio lg) m c"
    using bc.rel_law [OF inv h] by blast
  have v: "buf_cont s = buf_cont (lg_bio lg)" "d_disk s = d_disk (lg_bio lg)"
    using arg_cong [OF s(3), of a_cont] arg_cong [OF s(3), of a_disk] by (simp_all add: ac_relse_def)
  have "busy (logged lg) (X - {n}) (acache_of s)"
    unfolding s(3) using bs n(1) by (auto simp: busy_def ac_relse_def fun_eq_iff)
  then have "txn (lg\<lparr>lg_bio := s\<rparr>) (X - {n}) D"
    using t s(2) v n by (auto simp: txn_def logged_def)
  then show thesis using that s v by blast
qed

section \<open>Whole operations\<close>

lemma initlog_log_inv:
  assumes d: "hdr_ok start c d" and nlog: "0 < sint nlog" "sint nlog \<le> int LOGSIZE"
    and bt: "bio_inv (lg_bio l)" "quiet {} (acache_of (lg_bio l))" "buf_cont (lg_bio l) = d" "d_disk (lg_bio l) = d"
    and idle: "lg_outstanding l = 0" "\<not> lg_committing l"
  obtains lg where "initlog ROOTDEV start nlog l = Ok lg" "log_inv lg" "lg_n lg = 0"
    "lg_outstanding lg = 0" "\<not> lg_committing lg" "lg_start lg = start" "lg_size lg = sint nlog"
    "\<forall>m. m \<notin> log_area start c \<longrightarrow> d_disk (lg_bio lg) m = durable start d m \<and>
       buf_cont (lg_bio lg) m = durable start d m"
proof -
  obtain lg h where r: "initlog ROOTDEV start nlog l = Ok lg" "hdr_n h = 0" "blk h = h"
    "bio_inv (lg_bio lg)" "quiet {} (acache_of (lg_bio lg))" "lg_n lg = 0" "lg_dev lg = ROOTDEV"
    "lg_start lg = start" "lg_size lg = sint nlog" "lg_outstanding lg = 0" "\<not> lg_committing lg"
    "d_trace (lg_bio lg) = d_trace (lg_bio l) @ replay start d @ [(start, h)]"
    "d_disk (lg_bio lg) = (durable start d)(start := h)"
    by (rule initlog_spec [OF d bt idle])
  have li: "log_inv lg" using r nlog by (simp add: log_inv_def logged_def)
  have "d_disk (lg_bio lg) m = buf_cont (lg_bio lg) m" for m
    by (rule unlogged_clean [OF li]) (simp add: logged_def r)
  moreover have "d_disk (lg_bio lg) m = durable start d m" if "m \<notin> log_area start c" for m
    using r(13) that log_areaI(1) [of start] by auto
  ultimately show thesis using that [OF r(1) li r(6,10,11,8,9)] by metis
qed

lemma reboot_log_inv:
  assumes d: "hdr_ok start c d" and nlog: "0 < sint nlog" "sint nlog \<le> int LOGSIZE"
  obtains lg where "reboot pid start nlog d = Ok lg" "log_inv lg" "lg_n lg = 0"
    "lg_outstanding lg = 0" "\<not> lg_committing lg" "lg_start lg = start" "lg_size lg = sint nlog"
    "\<forall>m. m \<notin> log_area start c \<longrightarrow> d_disk (lg_bio lg) m = durable start d m \<and>
       buf_cont (lg_bio lg) m = durable start d m"
proof -
  have "\<And>m. blk (d m) = d m" using d by (auto simp: hdr_ok_def)
  note bt = boot_cache [OF this, of pid]
  show thesis
    by (rule initlog_log_inv [OF d nlog, where l = "boot_log pid d"])
      (use bt that in \<open>simp_all add: boot_log_def reboot_def\<close>)
qed

lemma log_update_spec:
  assumes lg: "log_inv lg" and n: "n \<notin> log_area (lg_start lg) (log_cap lg)"
    and room: "lg_n lg < lg_size lg - 1" "lg_outstanding lg \<ge> 1"
  obtains b s lg1 s2 where "bread ROOTDEV n (lg_bio lg) = Ok (b, s)"
    "log_write b (lg\<lparr>lg_bio := set_data b (f (bdata b s)) s\<rparr>) = Ok lg1"
    "brelse b (lg_bio lg1) = Ok s2" "log_inv (lg1\<lparr>lg_bio := s2\<rparr>)"
    "blk (bdata b s) = buf_cont (lg_bio lg) n"
    "buf_cont s2 = (buf_cont (lg_bio lg))(n := blk (f (bdata b s)))"
    "d_disk s2 = d_disk (lg_bio lg)" "logged lg1 = insert n (logged lg)"
    "lg_n lg1 = lg_n lg + (if n \<in> logged lg then 0 else 1)"
    "lg_size lg1 = lg_size lg" "lg_outstanding lg1 = lg_outstanding lg" "lg_start lg1 = lg_start lg"
    "lg_committing lg1 = lg_committing lg"
proof -
  have t: "txn lg {} {}" using lg by (simp add: txn_idle)
  have c: "n \<in> logged lg \<or> card (logged lg \<union> {}) < NBUF" using log_invD(7) [OF lg] by simp
  obtain b s where r: "bread ROOTDEV n (lg_bio lg) = Ok (b, s)" "handle s n b"
    "txn (lg\<lparr>lg_bio := s\<rparr>) {n} {}" "blk (bdata b s) = buf_cont (lg_bio lg) n"
    "buf_cont s = buf_cont (lg_bio lg)" "d_disk s = d_disk (lg_bio lg)"
    "\<forall>m c. m \<noteq> n \<longrightarrow> handle s m c = handle (lg_bio lg) m c"
    by (rule txn_bread [OF t empty_iff [THEN iffD1, THEN notI] c])
  let ?l = "lg\<lparr>lg_bio := s\<rparr>" and ?d = "f (bdata b s)"
  let ?l1 = "lg\<lparr>lg_bio := set_data b ?d s\<rparr>"
  have hs: "handle (lg_bio ?l) n b" using r by simp
  have t1: "txn ?l1 {n} {n}" using txn_set(1) [OF r(3) _ hs, of ?d] by simp
  have v1: "buf_cont (set_data b ?d s) = (buf_cont s)(n := blk ?d)" "d_disk (set_data b ?d s) = d_disk s"
    using txn_set(2,3) [OF r(3) _ hs, of ?d] by simp_all
  have "bio_inv s" using r(3) by (simp add: txn_def)
  then have h1: "handle (lg_bio ?l1) n b" using set_data_spec(2) r(2) by simp
  obtain lg1 where w: "log_write b ?l1 = Ok lg1" "txn lg1 {n} ({n} - {n})"
    "logged lg1 = insert n (logged ?l1)" "lg_n lg1 = lg_n ?l1 + (if n \<in> logged ?l1 then 0 else 1)"
    "lg_size lg1 = lg_size ?l1" "lg_start lg1 = lg_start ?l1" "lg_outstanding lg1 = lg_outstanding ?l1"
    "lg_committing lg1 = lg_committing ?l1"
    "buf_cont (lg_bio lg1) = buf_cont (lg_bio ?l1)" "d_disk (lg_bio lg1) = d_disk (lg_bio ?l1)"
    "\<forall>m c. handle (lg_bio ?l1) m c \<longrightarrow> handle (lg_bio lg1) m c"
    "\<forall>i. bdata i (lg_bio lg1) = bdata i (lg_bio ?l1)"
    by (rule txn_log_write [OF t1 _ h1]) (use n room in simp_all)
  have t2: "txn lg1 {n} {}" using w(2) by simp
  have "handle (lg_bio lg1) n b" using w(11) h1 by blast
  then obtain s2 where e: "brelse b (lg_bio lg1) = Ok s2" "txn (lg1\<lparr>lg_bio := s2\<rparr>) ({n} - {n}) {}"
      "buf_cont s2 = buf_cont (lg_bio lg1)" "d_disk s2 = d_disk (lg_bio lg1)"
      "\<forall>m c. m \<noteq> n \<longrightarrow> handle s2 m c = handle (lg_bio lg1) m c"
    by (rule txn_brelse [OF t2 singletonI equals0D [OF refl]])
  have "log_inv (lg1\<lparr>lg_bio := s2\<rparr>)" using e(2) by (simp add: txn_idle)
  then show thesis
    using that [OF r(1) w(1) e(1)] r v1 w e by (simp add: logged_def)
qed

lemma commit_inv:
  assumes lg: "log_inv lg"
  obtains lg' where "commit lg = Ok lg'" "log_inv lg'" "lg_n lg' = 0"
    "lg_outstanding lg' = lg_outstanding lg" "lg_committing lg' = lg_committing lg"
    "lg_start lg' = lg_start lg" "lg_size lg' = lg_size lg" "lg_dev lg' = lg_dev lg"
    "\<forall>m. m \<notin> log_area (lg_start lg) (log_cap lg) \<longrightarrow> d_disk (lg_bio lg') m = buf_cont (lg_bio lg) m \<and>
       buf_cont (lg_bio lg') m = buf_cont (lg_bio lg) m"
proof (cases "lg_n lg > 0")
  case False
  then have n: "lg_n lg = 0" using log_invD(4) [OF lg] by simp
  then have "d_disk (lg_bio lg) m = buf_cont (lg_bio lg) m" for m
    by (intro unlogged_clean [OF lg]) (simp add: logged_def)
  then show thesis using that [of lg] lg n by (simp add: commit_def)
next
  case True
  obtain s h1 h2 where c: "commit lg = Ok (lg\<lparr>lg_bio := s, lg_n := 0\<rparr>)" "bio_inv s"
    "header_for lg h1" "hdr_n h2 = 0" "blk h2 = h2"
    and a: "acache_of s = (acache_of (lg_bio lg))
       \<lparr>a_cont := apply_writes (buf_cont (lg_bio lg)) (commit_writes lg h1 h2),
        a_disk := apply_writes (d_disk (lg_bio lg)) (commit_writes lg h1 h2),
        a_trace := d_trace (lg_bio lg) @ commit_writes lg h1 h2, a_refs := (\<lambda>_. 0)\<rparr>"
    by (rule commit_spec [OF lg True])
  let ?lg = "lg\<lparr>lg_bio := s, lg_n := 0\<rparr>"
  have d: "d_disk s = apply_writes (d_disk (lg_bio lg)) (commit_writes lg h1 h2)"
    using arg_cong [OF a, of a_disk] by simp
  have h: "hdr_n (d_disk s (lg_start lg)) = 0" using c(4) by (simp add: d commit_writes_def)
  have "quiet {} (acache_of s)" unfolding a using log_invD(2) [OF lg] by (simp add: quiet_def)
  then have li: "log_inv ?lg" using lg c(2) h by (simp add: log_inv_def logged_def)
  have "d_disk s m = buf_cont (lg_bio lg) m" if m: "m \<notin> log_area (lg_start lg) (log_cap lg)" for m
  proof -
    have "take (length (commit_writes lg h1 h2)) (commit_writes lg h1 h2) = commit_writes lg h1 h2"
      by simp
    then have "durable (lg_start lg) (d_disk s) m = buf_cont (lg_bio lg) m"
      using commit_prefix(2) [OF lg refl refl c(3-5), of "d_disk s" "length (commit_writes lg h1 h2)"] d m
      by (simp add: commit_writes_def log_copies_def)
    then show ?thesis by (simp add: idle_header [of "d_disk s", OF h])
  qed
  moreover have "d_disk s m = buf_cont s m" for m
    using unlogged_clean [OF li, of m] by (simp add: logged_def)
  ultimately show thesis using that [OF c(1) li] by simp
qed

text \<open>What a reboot finds after a crash whose disk is \<open>d\<close>, interrupted or not.\<close>

lemma reboot_after:
  assumes "hdr_ok start (nat (sint nlog - 1)) d0" and "0 < sint nlog" "sint nlog \<le> int LOGSIZE" and "interrupted pid start nlog d0 d"
  shows "\<exists>r. reboot pid start nlog d = Ok r \<and>
    (\<forall>m. m \<notin> log_area start (nat (sint nlog - 1)) \<longrightarrow> buf_cont (lg_bio r) m = durable start d0 m)"
proof -
  note i = interrupted_durable [OF assms(4,1)]
  obtain r where "reboot pid start nlog d = Ok r"
      "\<forall>m. m \<notin> log_area start (nat (sint nlog - 1)) \<longrightarrow> d_disk (lg_bio r) m = durable start d m \<and>
        buf_cont (lg_bio r) m = durable start d m"
    using reboot_log_inv [OF conjunct1 [OF i] assms(2,3)] by metis
  then show ?thesis using conjunct2 [OF i] by auto
qed

lemma commit_crash:
  assumes "log_inv lg" and "sint nlog = lg_size lg"
  shows "\<exists>lg' ws. commit lg = Ok lg' \<and> d_trace (lg_bio lg') = d_trace (lg_bio lg) @ ws \<and>
    (\<forall>k d. interrupted pid (lg_start lg) nlog
        (apply_writes (d_disk (lg_bio lg)) (take k ws)) d \<longrightarrow>
      (\<exists>r. reboot pid (lg_start lg) nlog d = Ok r \<and>
        (\<forall>m. m \<notin> log_area (lg_start lg) (log_cap lg) \<longrightarrow> buf_cont (lg_bio r) m =
          (if k \<le> nat (lg_n lg) then d_disk (lg_bio lg) m else buf_cont (lg_bio lg) m))))"
proof (cases "lg_n lg > 0")
  case True
  obtain s h1 h2 where c: "commit lg = Ok (lg\<lparr>lg_bio := s, lg_n := 0\<rparr>)" "bio_inv s"
    and h: "header_for lg h1" "hdr_n h2 = 0" "blk h2 = h2"
    and a: "acache_of s = (acache_of (lg_bio lg))
       \<lparr>a_cont := apply_writes (buf_cont (lg_bio lg)) (commit_writes lg h1 h2),
        a_disk := apply_writes (d_disk (lg_bio lg)) (commit_writes lg h1 h2),
        a_trace := d_trace (lg_bio lg) @ commit_writes lg h1 h2, a_refs := (\<lambda>_. 0)\<rparr>"
    by (rule commit_spec [OF assms(1) True])
  let ?start = "lg_start lg" and ?ws = "commit_writes lg h1 h2"
  have nlog: "0 < sint nlog" "sint nlog \<le> int LOGSIZE" using assms by (auto simp: log_inv_def)
  have tr: "d_trace s = d_trace (lg_bio lg) @ ?ws" using arg_cong [OF a, of a_trace] by simp
  have "\<exists>r. reboot pid ?start nlog d = Ok r \<and> (\<forall>m. m \<notin> log_area ?start (log_cap lg) \<longrightarrow> buf_cont (lg_bio r) m =
      (if k \<le> nat (lg_n lg) then d_disk (lg_bio lg) m else buf_cont (lg_bio lg) m))"
    if int: "interrupted pid ?start nlog (apply_writes (d_disk (lg_bio lg)) (take k ?ws)) d" for k d
  proof -
    note p = commit_prefix [OF assms(1) refl refl h refl, where k = k]
    show ?thesis using reboot_after [OF _ nlog int] p assms(2) by auto
  qed
  with c(1) tr show ?thesis by (intro exI [of _ "lg\<lparr>lg_bio := s, lg_n := 0\<rparr>"] exI [of _ ?ws]) simp
next
  case False
  then have n: "lg_n lg = 0" using log_invD(4) [OF assms(1)] by simp
  have clean: "d_disk (lg_bio lg) m = buf_cont (lg_bio lg) m" for m
    by (rule unlogged_clean [OF assms(1)]) (simp add: n logged_def)
  have nlog: "0 < sint nlog" "sint nlog \<le> int LOGSIZE" using assms by (auto simp: log_inv_def)
  note p = commit_prefix_before [OF assms(1) _ refl refl, of 0 "d_disk (lg_bio lg)"]
  have "\<exists>r. reboot pid (lg_start lg) nlog d = Ok r \<and>
      (\<forall>m. m \<notin> log_area (lg_start lg) (log_cap lg) \<longrightarrow> buf_cont (lg_bio r) m = d_disk (lg_bio lg) m)"
    if "interrupted pid (lg_start lg) nlog (d_disk (lg_bio lg)) d" for d
    using reboot_after [OF _ nlog that] p assms(2) by auto
  then show ?thesis using n clean by (intro exI [of _ lg] exI [of _ "[]"]) (simp add: commit_def, blast)
qed

section \<open>Properties\<close>

text \<open>C3. Crash atomicity of \<^verbatim>\<open>commit\<close>.  Whatever prefix of the disk writes of a commit
  reaches the disk, and however often recovery itself is interrupted, a reboot that
  runs to its end yields either the disk contents from before the commit (if the crash
  came before the header was written) or those of the whole transaction, for all
  blocks outside the log at once.\<close>

theorem commit_crash_atomic:
  assumes "log_inv lg" and "sint nlog = lg_size lg"
  shows "\<exists>lg' ws. commit lg = Ok lg' \<and> d_trace (lg_bio lg') = d_trace (lg_bio lg) @ ws \<and>
    (\<forall>k d. interrupted pid (lg_start lg) nlog
        (apply_writes (d_disk (lg_bio lg)) (take k ws)) d \<longrightarrow>
      (\<exists>r. reboot pid (lg_start lg) nlog d = Ok r \<and>
        (\<forall>m. m \<notin> log_area (lg_start lg) (log_cap lg) \<longrightarrow> buf_cont (lg_bio r) m =
          (if k \<le> nat (lg_n lg) then d_disk (lg_bio lg) m else buf_cont (lg_bio lg) m))))"
  by (rule commit_crash [OF assms])

text \<open>A log with one logged block, reached from a zeroed disk.\<close>

lemma zero_hdr_ok: "c \<le> LOGSIZE \<Longrightarrow> hdr_ok start c (\<lambda>_ _. 0)"
  by (simp add: hdr_ok_def hdr_n_def get32_def blk_def)

lemma log_inv_counters [simp]:
  "log_inv (lg\<lparr>lg_outstanding := x\<rparr>) = log_inv lg" "log_inv (lg\<lparr>lg_committing := c\<rparr>) = log_inv lg"
  by (simp_all add: log_inv_def logged_def)

lemma begin_op_inv: "begin_op lg = Ok lg' \<Longrightarrow> log_inv lg' = log_inv lg"
  by (auto simp: begin_op_def split: if_splits)

lemma idle_log_exists:
  obtains lg where "log_inv lg" "lg_n lg = 0" "lg_size lg = 30" "lg_outstanding lg = 1"
    "\<not> lg_committing lg" "lg_start lg = 2"
proof -
  obtain l0 where l0: "log_inv l0" "lg_n l0 = 0" "lg_outstanding l0 = 0" "\<not> lg_committing l0"
      "lg_start l0 = 2" "lg_size l0 = sint (30 :: u32)"
    by (rule reboot_log_inv [OF zero_hdr_ok, of 29, where nlog = 30])
      (simp_all add: LOGSIZE_def MAXOPBLOCKS_def)
  let ?l = "l0\<lparr>lg_outstanding := 1\<rparr>"
  have "begin_op l0 = Ok ?l" using l0 by (simp add: begin_op_def LOGSIZE_def MAXOPBLOCKS_def)
  then have "log_inv ?l" using begin_op_inv l0(1) by blast
  then show thesis by (rule that) (use l0 in simp_all)
qed

lemma home_50: "50 \<notin> log_area 2 29"
proof
  assume "50 \<in> log_area 2 29"
  then obtain i where "i < 29" "50 = 2 + of_nat i + (1 :: u32)"
    by (auto simp: log_area_def)
  then show False using of_nat32_eq_iff [of i 47] by (simp add: algebra_simps)
qed

lemma one_logged_exists:
  obtains lg where "log_inv lg" "lg_n lg = 1" "lg_size lg = 30" "lg_outstanding lg = 1"
    "\<not> lg_committing lg" "lg_start lg = 2"
proof -
  obtain l where l: "log_inv l" "lg_n l = 0" "lg_size l = 30" "lg_outstanding l = 1"
    "\<not> lg_committing l" "lg_start l = 2" by (rule idle_log_exists)
  have home: "50 \<notin> log_area (lg_start l) (log_cap l)" using l(3,6) home_50 by simp
  have e: "logged l = {}" using l(2) by (simp add: logged_def)
  show thesis
  proof (rule log_update_spec [OF l(1) home, where f = "\<lambda>d. d(0 := 7)"])
    fix l1 s2
    assume "log_inv (l1\<lparr>lg_bio := s2\<rparr>)" "lg_n l1 = lg_n l + (if 50 \<in> logged l then 0 else 1)"
      "lg_size l1 = lg_size l" "lg_outstanding l1 = lg_outstanding l" "lg_start l1 = lg_start l"
      "lg_committing l1 = lg_committing l"
    then show thesis using that [of "l1\<lparr>lg_bio := s2\<rparr>"] l e by simp
  qed (use l in simp_all)
qed

theorem commit_crash_atomic_witness:
  "\<exists>lg. log_inv lg \<and> 0 < lg_n lg \<and>
    (\<exists>lg' ws. commit lg = Ok lg' \<and> d_trace (lg_bio lg') = d_trace (lg_bio lg) @ ws \<and>
      (\<forall>k d. interrupted 1 (lg_start lg) 30 (apply_writes (d_disk (lg_bio lg)) (take k ws)) d \<longrightarrow>
        (\<exists>r. reboot 1 (lg_start lg) 30 d = Ok r \<and>
          (\<forall>m. m \<notin> log_area (lg_start lg) (log_cap lg) \<longrightarrow> buf_cont (lg_bio r) m =
            (if k \<le> nat (lg_n lg) then d_disk (lg_bio lg) m else buf_cont (lg_bio lg) m)))))"
proof -
  obtain lg where lg: "log_inv lg" "lg_n lg = 1" "lg_size lg = 30" by (rule one_logged_exists)
  then show ?thesis by (intro exI [of _ lg] conjI commit_crash_atomic) simp_all
qed

text \<open>C6. Recovery: on any disk whose log header is well formed, \<^verbatim>\<open>initlog\<close> returns with
  an empty log, and every block outside the log holds its durable contents: the copy in
  the log if the header names the block, the old contents otherwise.\<close>

theorem recovery_installs:
  assumes "hdr_ok start c d" and "0 < sint nlog" and "sint nlog \<le> int LOGSIZE"
    and "c = nat (sint nlog - 1)"
  shows "\<exists>lg. reboot pid start nlog d = Ok lg \<and> log_inv lg \<and> lg_n lg = 0 \<and>
    (\<forall>m. m \<notin> log_area start c \<longrightarrow> d_disk (lg_bio lg) m = durable start d m \<and>
       buf_cont (lg_bio lg) m = durable start d m)"
  using reboot_log_inv [OF assms(1-3)] by metis

theorem recovery_installs_witness:
  "\<exists>lg. reboot 1 2 30 (\<lambda>_ _. 0) = Ok lg \<and> log_inv lg \<and> lg_n lg = 0 \<and>
    (\<forall>m. m \<notin> log_area 2 29 \<longrightarrow> d_disk (lg_bio lg) m = durable 2 (\<lambda>_ _. 0) m \<and>
       buf_cont (lg_bio lg) m = durable 2 (\<lambda>_ _. 0) m)"
  by (rule recovery_installs [OF zero_hdr_ok, of 29]) (simp_all add: LOGSIZE_def MAXOPBLOCKS_def)

text \<open>Changing a block inside a transaction (read, modify, \<^verbatim>\<open>log_write\<close>, release)
  never touches the disk: it changes the cached contents of that block only, records the
  block once in the log however often it is written, and keeps the log invariant.\<close>

theorem log_update:
  assumes "log_inv lg" and "n \<notin> log_area (lg_start lg) (log_cap lg)"
    and "lg_n lg < lg_size lg - 1" and "lg_outstanding lg \<ge> 1"
  shows "\<exists>b s lg1 s2. bread ROOTDEV n (lg_bio lg) = Ok (b, s) \<and>
    log_write b (lg\<lparr>lg_bio := set_data b (f (bdata b s)) s\<rparr>) = Ok lg1 \<and>
    brelse b (lg_bio lg1) = Ok s2 \<and> log_inv (lg1\<lparr>lg_bio := s2\<rparr>) \<and>
    buf_cont s2 = (buf_cont (lg_bio lg))(n := blk (f (bdata b s))) \<and>
    d_disk s2 = d_disk (lg_bio lg) \<and> logged lg1 = insert n (logged lg) \<and>
    lg_n lg1 = lg_n lg + (if n \<in> logged lg then 0 else 1)"
  using log_update_spec [OF assms, of f] by metis

theorem log_update_witness:
  "\<exists>lg. log_inv lg \<and> (\<exists>b s lg1 s2. bread ROOTDEV 50 (lg_bio lg) = Ok (b, s) \<and>
    log_write b (lg\<lparr>lg_bio := set_data b ((\<lambda>_ _. 1) (bdata b s)) s\<rparr>) = Ok lg1 \<and>
    brelse b (lg_bio lg1) = Ok s2 \<and> log_inv (lg1\<lparr>lg_bio := s2\<rparr>) \<and>
    buf_cont s2 = (buf_cont (lg_bio lg))(50 := blk ((\<lambda>_ _. 1) (bdata b s))) \<and>
    d_disk s2 = d_disk (lg_bio lg) \<and> logged lg1 = insert 50 (logged lg) \<and>
    lg_n lg1 = lg_n lg + (if 50 \<in> logged lg then 0 else 1))"
proof -
  obtain lg where lg: "log_inv lg" "lg_n lg = 1" "lg_size lg = 30" "lg_outstanding lg = 1"
    "lg_start lg = 2" by (rule one_logged_exists)
  then show ?thesis
    by (intro exI [of _ lg] conjI log_update [where f = "\<lambda>_ _. 1"]) (simp_all add: home_50)
qed

text \<open>C12. The \<^verbatim>\<open>end_op\<close> of the last outstanding system call commits: afterwards the log
  is empty and every block outside the log is on disk as the transaction left it.\<close>

theorem end_op_commits:
  assumes "log_inv lg" and "lg_outstanding lg = 1" and "\<not> lg_committing lg"
  shows "\<exists>lg'. end_op lg = Ok lg' \<and> log_inv lg' \<and> lg_n lg' = 0 \<and> lg_outstanding lg' = 0 \<and>
    \<not> lg_committing lg' \<and>
    (\<forall>m. m \<notin> log_area (lg_start lg) (log_cap lg) \<longrightarrow> d_disk (lg_bio lg') m = buf_cont (lg_bio lg) m \<and>
       buf_cont (lg_bio lg') m = buf_cont (lg_bio lg) m)"
proof -
  let ?l = "lg\<lparr>lg_outstanding := 0, lg_committing := True\<rparr>"
  have "log_inv ?l" using assms(1) by simp
  then obtain l where l: "commit ?l = Ok l" "log_inv l" "lg_n l = 0" "lg_outstanding l = 0"
      "\<forall>m. m \<notin> log_area (lg_start lg) (log_cap lg) \<longrightarrow> d_disk (lg_bio l) m = buf_cont (lg_bio lg) m \<and>
         buf_cont (lg_bio l) m = buf_cont (lg_bio lg) m"
    using commit_inv [of ?l] by auto
  then have "end_op lg = Ok (l\<lparr>lg_committing := False\<rparr>)"
    using assms by (simp add: end_op_def)
  then show ?thesis using l by (intro exI [of _ "l\<lparr>lg_committing := False\<rparr>"]) simp
qed

theorem end_op_commits_witness:
  "\<exists>lg. log_inv lg \<and> lg_n lg = 1 \<and> (\<exists>lg'. end_op lg = Ok lg' \<and> log_inv lg' \<and> lg_n lg' = 0 \<and>
    lg_outstanding lg' = 0 \<and> \<not> lg_committing lg' \<and>
    (\<forall>m. m \<notin> log_area (lg_start lg) (log_cap lg) \<longrightarrow> d_disk (lg_bio lg') m = buf_cont (lg_bio lg) m \<and>
       buf_cont (lg_bio lg') m = buf_cont (lg_bio lg) m))"
proof -
  obtain lg where lg: "log_inv lg" "lg_n lg = 1" "lg_outstanding lg = 1" "\<not> lg_committing lg"
    by (rule one_logged_exists)
  then show ?thesis by (intro exI [of _ lg] conjI end_op_commits)
qed

primrec log_write_all :: "nat list \<Rightarrow> log \<Rightarrow> log outcome" where
  "log_write_all [] lg = Ok lg"
| "log_write_all (b # bs) lg = obind (log_write b lg) (log_write_all bs)"

abbreviation buf_no :: "log \<Rightarrow> nat \<Rightarrow> u32" where
  "buf_no lg b \<equiv> b_blockno (bc_buf (lg_bio lg) b)"

lemma log_write_all_overflow:
  assumes "0 \<le> lg_n lg" and "lg_size lg = int LOGSIZE" and "lg_outstanding lg \<ge> 1"
    and "distinct (map (buf_no lg) bs)" and "buf_no lg ` set bs \<inter> logged lg = {}"
    and "nat (lg_n lg) + length bs \<ge> LOGSIZE" and "bs \<noteq> []"
  shows "log_write_all bs lg = Panic ''too big a transaction''"
  using assms
proof (induction bs arbitrary: lg)
  case (Cons b bs)
  show ?case
  proof (cases "lg_n lg < lg_size lg - 1")
    case False
    then show ?thesis by (simp add: log_write_def)
  next
    case True
    let ?lg = "lg\<lparr>lg_block := (lg_block lg)(nat (lg_n lg) := buf_no lg b),
      lg_bio := bpin b (lg_bio lg), lg_n := lg_n lg + 1\<rparr>"
    have w: "log_write b lg = Ok ?lg"
      by (rule log_write_append) (use Cons.prems True in auto)
    have no: "buf_no ?lg = buf_no lg" by (simp add: bpin_def fun_eq_iff)
    have "log_write_all bs ?lg = Panic ''too big a transaction''"
    proof (rule Cons.IH)
      show "buf_no ?lg ` set bs \<inter> logged ?lg = {}"
        unfolding no logged_append [OF Cons.prems(1)] using Cons.prems(4,5) by auto
      show "bs \<noteq> []" using Cons.prems(1,2,6) True by (cases bs) auto
    qed (use Cons.prems no in \<open>simp_all add: nat_add_distrib\<close>)
    then show ?thesis using w by simp
  qed
qed simp

text \<open>C35. The reservation check of \<^verbatim>\<open>begin_op\<close> admits more than the log holds.  With the
  log size \<^verbatim>\<open>mkfs\<close> uses (\<^verbatim>\<open>LOGSIZE\<close> blocks including the header), three concurrent
  operations are admitted, and if each logs its \<^verbatim>\<open>MAXOPBLOCKS\<close> distinct blocks the last
  \<^verbatim>\<open>log_write\<close> panics.\<close>

theorem log_reservation_gap:
  assumes "lg_n lg = 0" and "lg_outstanding lg = 0" and "\<not> lg_committing lg"
    and "lg_size lg = int LOGSIZE" and "length bs = 3 * MAXOPBLOCKS"
    and "distinct (map (buf_no lg) bs)"
  shows "\<exists>l3. obind (obind (begin_op lg) begin_op) begin_op = Ok l3 \<and>
    log_write_all bs l3 = Panic ''too big a transaction''"
proof -
  let ?l = "lg\<lparr>lg_outstanding := 3\<rparr>"
  have "obind (obind (begin_op lg) begin_op) begin_op = Ok ?l"
    using assms(1-3) by (simp add: begin_op_def LOGSIZE_def MAXOPBLOCKS_def)
  moreover have "log_write_all bs ?l = Panic ''too big a transaction''"
    by (rule log_write_all_overflow)
      (use assms in \<open>auto simp: logged_def LOGSIZE_def MAXOPBLOCKS_def\<close>)
  ultimately show ?thesis by (intro exI [of _ ?l] conjI)
qed

theorem log_reservation_gap_witness:
  "\<exists>l3. obind (obind (begin_op ((boot_log 1 (\<lambda>_ _. 0))
        \<lparr>lg_bio := (power_on 1 (\<lambda>_ _. 0))\<lparr>bc_buf := (\<lambda>i. buf0\<lparr>b_blockno := of_nat i\<rparr>)\<rparr>,
         lg_size := int LOGSIZE\<rparr>)) begin_op) begin_op = Ok l3 \<and>
    log_write_all [0..<30] l3 = Panic ''too big a transaction''"
  by (rule log_reservation_gap)
    (simp_all add: boot_log_def MAXOPBLOCKS_def distinct_map inj_on_def of_nat32_eq_iff)

end
