(* ===== verification/Xv6_Vm.thy ===== *)
theory Xv6_Vm
  imports Xv6_Kalloc
begin

text \<open>
  \<^verbatim>\<open>kernel/vm.c\<close>: Sv39 page tables.  Page tables live in physical memory, as in the
  source: a page table is the address of a page of 512 64-bit entries, and the code
  reads and writes the entries with loads and stores.  A null \<^verbatim>\<open>pte_t *\<close> is the
  address 0.  The source of \<^verbatim>\<open>copyout\<close> and the destination of \<^verbatim>\<open>copyin\<close> are
  kernel objects apart from the user's pages; they are passed as byte storage.
\<close>

section \<open>Page table entries\<close>

definition PTE_V :: u64 where "PTE_V = 1"
definition PTE_R :: u64 where "PTE_R = 2"
definition PTE_W :: u64 where "PTE_W = 4"
definition PTE_X :: u64 where "PTE_X = 8"
definition PTE_U :: u64 where "PTE_U = 16"

definition PA2PTE :: "u64 \<Rightarrow> u64" where
  "PA2PTE pa = push_bit 10 (drop_bit 12 pa)"

definition PTE2PA :: "u64 \<Rightarrow> u64" where
  "PTE2PA pte = push_bit 12 (drop_bit 10 pte)"

definition PTE_FLAGS :: "u64 \<Rightarrow> u64" where
  "PTE_FLAGS pte = pte AND 0x3FF"

definition PX :: "nat \<Rightarrow> u64 \<Rightarrow> u64" where
  "PX level va = drop_bit (12 + 9 * level) va AND 0x1FF"

definition MAXVA :: u64 where "MAXVA = push_bit 38 1"

abbreviation has :: "u64 \<Rightarrow> u64 \<Rightarrow> bool" where
  "has pte flag \<equiv> pte AND flag \<noteq> 0"

definition set_mem :: "mem \<Rightarrow> phys \<Rightarrow> phys" where
  "set_mem m s = s\<lparr>ph_mem := m\<rparr>"

abbreviation ld :: "phys \<Rightarrow> u64 \<Rightarrow> u64" where
  "ld s a \<equiv> load64 (ph_mem s) a"

abbreviation st :: "u64 \<Rightarrow> u64 \<Rightarrow> phys \<Rightarrow> phys" where
  "st a v s \<equiv> set_mem (store64 (ph_mem s) a v) s"

abbreviation zero_page :: "u64 \<Rightarrow> phys \<Rightarrow> phys" where
  "zero_page p s \<equiv> set_mem (memset (ph_mem s) p 0 4096) s"

section \<open>Walking a page table\<close>

primrec walk_levels :: "bool \<Rightarrow> u64 \<Rightarrow> nat \<Rightarrow> u64 \<Rightarrow> phys \<Rightarrow> u64 option \<times> phys" where
  "walk_levels alloc va 0 pagetable s = (Some pagetable, s)"
| "walk_levels alloc va (Suc l) pagetable s =
     (let pte = pagetable + 8 * PX (Suc l) va
      in if has (ld s pte) PTE_V then walk_levels alloc va l (PTE2PA (ld s pte)) s
         else if \<not> alloc then (None, s)
         else let (p, s) = kalloc s
              in if p = 0 then (None, s)
                 else walk_levels alloc va l p (st pte (PA2PTE p OR PTE_V) (zero_page p s)))"

definition walk :: "u64 \<Rightarrow> u64 \<Rightarrow> bool \<Rightarrow> phys \<Rightarrow> (u64 \<times> phys) outcome" where
  "walk pagetable va alloc s =
     (if va \<ge> MAXVA then Panic ''walk''
      else case walk_levels alloc va 2 pagetable s of
             (None, s) \<Rightarrow> Ok (0, s)
           | (Some pt, s) \<Rightarrow> Ok (pt + 8 * PX 0 va, s))"

definition walkaddr :: "u64 \<Rightarrow> u64 \<Rightarrow> phys \<Rightarrow> u64 outcome" where
  "walkaddr pagetable va s =
     (if va \<ge> MAXVA then Ok 0
      else obind (walk pagetable va False s) (\<lambda>(pte, s).
           if pte = 0 then Ok 0
           else if \<not> has (ld s pte) PTE_V then Ok 0
           else if \<not> has (ld s pte) PTE_U then Ok 0
           else Ok (PTE2PA (ld s pte))))"

section \<open>Mapping\<close>

text \<open>
  The loop of \<^verbatim>\<open>mappages\<close> runs until \<open>a = last\<close>; \<open>fuel\<close> bounds it.  The result
  is the C return value.
\<close>

primrec mappages_loop :: "nat \<Rightarrow> u64 \<Rightarrow> u64 \<Rightarrow> u64 \<Rightarrow> u64 \<Rightarrow> u64 \<Rightarrow> phys \<Rightarrow> (int \<times> phys) outcome" where
  "mappages_loop 0 pagetable a lst pa perm s = Diverge"
| "mappages_loop (Suc fuel) pagetable a lst pa perm s =
     obind (walk pagetable a True s) (\<lambda>(pte, s).
     if pte = 0 then Ok (- 1, s)
     else if has (ld s pte) PTE_V then Panic ''mappages: remap''
     else let s = st pte (PA2PTE pa OR perm OR PTE_V) s
          in if a = lst then Ok (0, s)
             else mappages_loop fuel pagetable (a + PGSIZE) lst (pa + PGSIZE) perm s)"

definition mappages :: "u64 \<Rightarrow> u64 \<Rightarrow> u64 \<Rightarrow> u64 \<Rightarrow> u64 \<Rightarrow> phys \<Rightarrow> (int \<times> phys) outcome" where
  "mappages pagetable va sz pa perm s =
     (if va mod PGSIZE \<noteq> 0 then Panic ''mappages: va not aligned''
      else if sz mod PGSIZE \<noteq> 0 then Panic ''mappages: size not aligned''
      else if sz = 0 then Panic ''mappages: size''
      else mappages_loop (unat (sz div PGSIZE)) pagetable va (va + sz - PGSIZE) pa perm s)"

definition kvmmap :: "u64 \<Rightarrow> u64 \<Rightarrow> u64 \<Rightarrow> u64 \<Rightarrow> u64 \<Rightarrow> phys \<Rightarrow> phys outcome" where
  "kvmmap kpgtbl va pa sz perm s =
     obind (mappages kpgtbl va sz pa perm s) (\<lambda>(r, s).
     if r \<noteq> 0 then Panic ''kvmmap'' else Ok s)"

lemma walk_Ok_MAXVA: "walk pagetable va alloc s = Ok r \<Longrightarrow> va < MAXVA"
  by (auto simp: walk_def not_le split: if_splits)

lemma below_MAXVA_step: "a < MAXVA \<Longrightarrow> unat (a + PGSIZE) = unat a + 4096 \<and> unat a < 2 ^ 38"
proof -
  assume "a < MAXVA"
  then have "unat a < 2 ^ 38" by (simp add: MAXVA_def word_less_nat_alt push_bit_eq_mult)
  then show ?thesis by (simp add: unat_plus_if' PGSIZE_def)
qed

function uvmunmap_loop :: "u64 \<Rightarrow> u64 \<Rightarrow> u64 \<Rightarrow> bool \<Rightarrow> phys \<Rightarrow> phys outcome" where
  "uvmunmap_loop pagetable a stop do_free s =
     (if a < stop
      then obind (walk pagetable a False s) (\<lambda>(pte, s).
           if pte = 0 then Panic ''uvmunmap: walk''
           else if \<not> has (ld s pte) PTE_V then Panic ''uvmunmap: not mapped''
           else if PTE_FLAGS (ld s pte) = PTE_V then Panic ''uvmunmap: not a leaf''
           else obind (if do_free then kfree (PTE2PA (ld s pte)) s else Ok s) (\<lambda>s.
                uvmunmap_loop pagetable (a + PGSIZE) stop do_free (st pte 0 s)))
      else Ok s)"
  by pat_completeness auto
termination
proof (relation "measure (\<lambda>(pagetable, a, stop, do_free, s). 2 ^ 64 - unat a)")
  fix pagetable a stop :: u64 and do_free :: bool and s s1 s2 :: phys and x and pte :: u64
  assume "walk pagetable a False s = Ok x"
  then have "unat (a + PGSIZE) = unat a + 4096" "unat a < 2 ^ 38"
    using walk_Ok_MAXVA below_MAXVA_step by blast+
  then show "((pagetable, a + PGSIZE, stop, do_free, st pte 0 s2), pagetable, a, stop, do_free, s)
      \<in> measure (\<lambda>(pagetable, a, stop, do_free, s). 2 ^ 64 - unat a)"
    by simp
qed simp

declare uvmunmap_loop.simps [simp del]

definition uvmunmap :: "u64 \<Rightarrow> u64 \<Rightarrow> u64 \<Rightarrow> bool \<Rightarrow> phys \<Rightarrow> phys outcome" where
  "uvmunmap pagetable va npages do_free s =
     (if va mod PGSIZE \<noteq> 0 then Panic ''uvmunmap: not aligned''
      else uvmunmap_loop pagetable va (va + npages * PGSIZE) do_free s)"

section \<open>User address spaces\<close>

definition uvmcreate :: "phys \<Rightarrow> u64 \<times> phys" where
  "uvmcreate s =
     (let (pagetable, s) = kalloc s
      in if pagetable = 0 then (0, s) else (pagetable, zero_page pagetable s))"

text \<open>\<^verbatim>\<open>memmove\<close> from a kernel object to memory.\<close>

definition blit :: "mem \<Rightarrow> u64 \<Rightarrow> bytes \<Rightarrow> nat \<Rightarrow> mem" where
  "blit m a d n = (\<lambda>x. if unat (x - a) < n then d (unat (x - a)) else m x)"

definition uvmfirst :: "u64 \<Rightarrow> bytes \<Rightarrow> u32 \<Rightarrow> phys \<Rightarrow> phys outcome" where
  "uvmfirst pagetable src sz s =
     (if sz \<ge> 4096 then Panic ''uvmfirst: more than a page''
      else let (mem, s) = kalloc s; s = zero_page mem s
           in obind (mappages pagetable 0 PGSIZE mem (PTE_W OR PTE_R OR PTE_X OR PTE_U) s) (\<lambda>(r, s).
              Ok (set_mem (blit (ph_mem s) mem src (unat sz)) s)))"

definition uvmdealloc :: "u64 \<Rightarrow> u64 \<Rightarrow> u64 \<Rightarrow> phys \<Rightarrow> (u64 \<times> phys) outcome" where
  "uvmdealloc pagetable oldsz newsz s =
     (if newsz \<ge> oldsz then Ok (oldsz, s)
      else if PGROUNDUP newsz < PGROUNDUP oldsz
      then let npages = (ucast ((PGROUNDUP oldsz - PGROUNDUP newsz) div PGSIZE) :: u32)
           in obind (uvmunmap pagetable (PGROUNDUP newsz) (scast npages) True s) (\<lambda>s.
              Ok (newsz, s))
      else Ok (newsz, s))"

lemma mappages_Ok_MAXVA: "mappages pagetable a PGSIZE pa perm s = Ok r \<Longrightarrow> a < MAXVA"
proof -
  assume "mappages pagetable a PGSIZE pa perm s = Ok r"
  then obtain x where "walk pagetable a True s = Ok x"
    by (auto simp: mappages_def PGSIZE_def split: if_splits)
  then show ?thesis by (rule walk_Ok_MAXVA)
qed

function uvmalloc_loop :: "u64 \<Rightarrow> u64 \<Rightarrow> u64 \<Rightarrow> u64 \<Rightarrow> u64 \<Rightarrow> phys \<Rightarrow> (u64 \<times> phys) outcome" where
  "uvmalloc_loop pagetable oldsz newsz xperm a s =
     (if a < newsz
      then let (mem, s) = kalloc s
           in if mem = 0
              then obind (uvmdealloc pagetable a oldsz s) (\<lambda>(r, s). Ok (0, s))
              else obind (mappages pagetable a PGSIZE mem (PTE_R OR PTE_U OR xperm) (zero_page mem s))
                     (\<lambda>(r, s).
                   if r \<noteq> 0
                   then obind (kfree mem s) (\<lambda>s.
                        obind (uvmdealloc pagetable a oldsz s) (\<lambda>(r, s). Ok (0, s)))
                   else uvmalloc_loop pagetable oldsz newsz xperm (a + PGSIZE) s)
      else Ok (newsz, s))"
  by pat_completeness auto
termination
proof (relation "measure (\<lambda>(pagetable, oldsz, newsz, xperm, a, s). 2 ^ 64 - unat a)", goal_cases)
  case (2 pagetable oldsz newsz xperm a s)
  then have "unat (a + PGSIZE) = unat a + 4096" "unat a < 2 ^ 38"
    using mappages_Ok_MAXVA below_MAXVA_step by blast+
  then show ?case by simp
qed simp

declare uvmalloc_loop.simps [simp del]

definition uvmalloc :: "u64 \<Rightarrow> u64 \<Rightarrow> u64 \<Rightarrow> u64 \<Rightarrow> phys \<Rightarrow> (u64 \<times> phys) outcome" where
  "uvmalloc pagetable oldsz newsz xperm s =
     (if newsz < oldsz then Ok (oldsz, s)
      else uvmalloc_loop pagetable (PGROUNDUP oldsz) newsz xperm (PGROUNDUP oldsz) s)"

text \<open>
  \<^verbatim>\<open>freewalk\<close> recurses through the levels of the table; \<open>depth\<close> bounds the
  recursion.  An Sv39 table has three levels.
\<close>

function freewalk :: "nat \<Rightarrow> u64 \<Rightarrow> phys \<Rightarrow> phys outcome"
  and freewalk_ents :: "nat \<Rightarrow> u64 \<Rightarrow> nat \<Rightarrow> nat \<Rightarrow> phys \<Rightarrow> phys outcome" where
  "freewalk 0 pagetable s = Diverge"
| "freewalk (Suc depth) pagetable s =
     obind (freewalk_ents depth pagetable 0 512 s) (kfree pagetable)"
| "freewalk_ents depth pagetable i 0 s = Ok s"
| "freewalk_ents depth pagetable i (Suc k) s =
     (let pte = ld s (pagetable + 8 * of_nat i)
      in if has pte PTE_V \<and> pte AND (PTE_R OR PTE_W OR PTE_X) = 0
         then obind (freewalk depth (PTE2PA pte) s) (\<lambda>s.
              freewalk_ents depth pagetable (Suc i) k (st (pagetable + 8 * of_nat i) 0 s))
         else if has pte PTE_V then Panic ''freewalk: leaf''
         else freewalk_ents depth pagetable (Suc i) k s)"
  by pat_completeness auto
termination
  by (relation "measures [\<lambda>x. case x of Inl (d, _) \<Rightarrow> d | Inr (d, _) \<Rightarrow> d,
      \<lambda>x. case x of Inl _ \<Rightarrow> 0 | Inr (d, pt, i, k, s) \<Rightarrow> Suc k]") auto

definition uvmfree :: "u64 \<Rightarrow> u64 \<Rightarrow> phys \<Rightarrow> phys outcome" where
  "uvmfree pagetable sz s =
     obind (if sz > 0 then uvmunmap pagetable 0 (PGROUNDUP sz div PGSIZE) True s else Ok s)
       (freewalk 3 pagetable)"

function uvmcopy_loop :: "u64 \<Rightarrow> u64 \<Rightarrow> u64 \<Rightarrow> u64 \<Rightarrow> phys \<Rightarrow> (int \<times> phys) outcome" where
  "uvmcopy_loop old new sz i s =
     (if i < sz
      then obind (walk old i False s) (\<lambda>(pte, s).
           if pte = 0 then Panic ''uvmcopy: pte should exist''
           else if \<not> has (ld s pte) PTE_V then Panic ''uvmcopy: page not present''
           else let pa = PTE2PA (ld s pte);
                    flags = PTE_FLAGS (ld s pte);
                    (mem, s) = kalloc s
                in if mem = 0
                   then obind (uvmunmap new 0 (i div PGSIZE) True s) (\<lambda>s. Ok (- 1, s))
                   else obind (mappages new i PGSIZE mem flags
                                (set_mem (memmove (ph_mem s) mem pa 4096) s)) (\<lambda>(r, s).
                        if r \<noteq> 0
                        then obind (kfree mem s) (\<lambda>s.
                             obind (uvmunmap new 0 (i div PGSIZE) True s) (\<lambda>s. Ok (- 1, s)))
                        else uvmcopy_loop old new sz (i + PGSIZE) s))
      else Ok (0, s))"
  by pat_completeness auto
termination
proof (relation "measure (\<lambda>(old, new, sz, i, s). 2 ^ 64 - unat i)", goal_cases)
  case (2 old new sz i s)
  then have "unat (i + PGSIZE) = unat i + 4096" "unat i < 2 ^ 38"
    using walk_Ok_MAXVA below_MAXVA_step by blast+
  then show ?case by simp
qed simp

declare uvmcopy_loop.simps [simp del]

definition uvmcopy :: "u64 \<Rightarrow> u64 \<Rightarrow> u64 \<Rightarrow> phys \<Rightarrow> (int \<times> phys) outcome" where
  "uvmcopy old new sz s = uvmcopy_loop old new sz 0 s"

definition uvmclear :: "u64 \<Rightarrow> u64 \<Rightarrow> phys \<Rightarrow> phys outcome" where
  "uvmclear pagetable va s =
     obind (walk pagetable va False s) (\<lambda>(pte, s).
     if pte = 0 then Panic ''uvmclear''
     else Ok (st pte (ld s pte AND NOT PTE_U) s))"

section \<open>Copying between kernel and user memory\<close>

text \<open>The number of bytes from \<open>va\<close> to the end of its page, at most \<open>len\<close>.\<close>

definition chunk :: "u64 \<Rightarrow> u64 \<Rightarrow> u64" where
  "chunk va len = (let n = PGSIZE - (va - PGROUNDDOWN va) in if n > len then len else n)"

lemma page_offset: "va - PGROUNDDOWN va = va mod PGSIZE"
  by (simp add: PGROUNDDOWN_eq)

lemma unat_page_rest: "unat (PGSIZE - va mod PGSIZE) = 4096 - unat va mod 4096"
proof -
  have "unat (va mod PGSIZE) < 4096" by (simp add: unat_mod_PGSIZE)
  then have "va mod PGSIZE \<le> PGSIZE" by (simp add: word_le_nat_alt PGSIZE_def)
  then show ?thesis by (simp add: unat_sub unat_mod_PGSIZE) (simp add: PGSIZE_def)
qed

lemma unat_chunk: "unat (chunk va len) = min (4096 - unat va mod 4096) (unat len)"
  by (simp add: chunk_def page_offset Let_def unat_page_rest word_less_nat_alt)

lemma chunk_less: "len \<noteq> 0 \<Longrightarrow> unat (len - chunk va len) < unat len"
proof -
  assume "len \<noteq> 0"
  then have "0 < unat len" by (simp add: unat_gt_0)
  moreover have "unat va mod 4096 < 4096" by simp
  ultimately have "0 < unat (chunk va len)" "unat (chunk va len) \<le> unat len"
    unfolding unat_chunk by auto
  then show ?thesis by (simp add: unat_sub word_le_nat_alt)
qed

function copyout :: "u64 \<Rightarrow> u64 \<Rightarrow> bytes \<Rightarrow> u64 \<Rightarrow> phys \<Rightarrow> (int \<times> phys) outcome" where
  "copyout pagetable dstva src len s =
     (if len = 0 then Ok (0, s)
      else let va0 = PGROUNDDOWN dstva
           in if va0 \<ge> MAXVA then Ok (- 1, s)
              else obind (walk pagetable va0 False s) (\<lambda>(pte, s).
                   if pte = 0 \<or> \<not> has (ld s pte) PTE_V \<or> \<not> has (ld s pte) PTE_U \<or>
                      \<not> has (ld s pte) PTE_W
                   then Ok (- 1, s)
                   else let pa0 = PTE2PA (ld s pte); n = chunk dstva len
                        in copyout pagetable (va0 + PGSIZE) (\<lambda>i. src (unat n + i)) (len - n)
                             (set_mem (blit (ph_mem s) (pa0 + (dstva - va0)) src (unat n)) s)))"
  by pat_completeness auto
termination
  by (relation "measure (\<lambda>(pagetable, dstva, src, len, s). unat len)") (auto simp: chunk_less)

declare copyout.simps [simp del]

text \<open>
  \<^verbatim>\<open>copyin\<close> fills the object \<open>dst\<close> from offset \<open>k\<close>; the result carries the object
  as the call leaves it, also on failure.
\<close>

function copyin :: "u64 \<Rightarrow> bytes \<Rightarrow> nat \<Rightarrow> u64 \<Rightarrow> u64 \<Rightarrow> phys \<Rightarrow> (int \<times> bytes) outcome" where
  "copyin pagetable dst k srcva len s =
     (if len = 0 then Ok (0, dst)
      else let va0 = PGROUNDDOWN srcva
           in obind (walkaddr pagetable va0 s) (\<lambda>pa0.
              if pa0 = 0 then Ok (- 1, dst)
              else let n = chunk srcva len;
                       dst = (\<lambda>i. if k \<le> i \<and> i < k + unat n
                                  then ph_mem s (pa0 + (srcva - va0) + of_nat (i - k)) else dst i)
                   in copyin pagetable dst (k + unat n) (va0 + PGSIZE) (len - n) s))"
  by pat_completeness auto
termination
  by (relation "measure (\<lambda>(pagetable, dst, k, srcva, len, s). unat len)") (auto simp: chunk_less)

declare copyin.simps [simp del]

text \<open>The inner loop of \<^verbatim>\<open>copyinstr\<close>: has a NUL been found, and the object.\<close>

primrec copy_chars :: "mem \<Rightarrow> nat \<Rightarrow> u64 \<Rightarrow> bytes \<Rightarrow> nat \<Rightarrow> bool \<times> bytes" where
  "copy_chars m 0 p dst k = (False, dst)"
| "copy_chars m (Suc n) p dst k =
     (if m p = 0 then (True, dst(k := 0))
      else copy_chars m n (p + 1) (dst(k := m p)) (Suc k))"

function copyinstr :: "u64 \<Rightarrow> bytes \<Rightarrow> nat \<Rightarrow> u64 \<Rightarrow> u64 \<Rightarrow> phys \<Rightarrow> (int \<times> bytes) outcome" where
  "copyinstr pagetable dst k srcva mx s =
     (if mx = 0 then Ok (- 1, dst)
      else let va0 = PGROUNDDOWN srcva
           in obind (walkaddr pagetable va0 s) (\<lambda>pa0.
              if pa0 = 0 then Ok (- 1, dst)
              else let n = chunk srcva mx;
                       (got_null, dst) = copy_chars (ph_mem s) (unat n) (pa0 + (srcva - va0)) dst k
                   in if got_null then Ok (0, dst)
                      else copyinstr pagetable dst (k + unat n) (va0 + PGSIZE) (mx - n) s))"
  by pat_completeness auto
termination
  by (relation "measure (\<lambda>(pagetable, dst, k, srcva, mx, s). unat mx)") (auto simp: chunk_less)

declare copyinstr.simps [simp del]

section \<open>The kernel's page table\<close>

definition UART0 :: u64 where "UART0 = 0x10000000"
definition VIRTIO0 :: u64 where "VIRTIO0 = 0x10001000"
definition PLIC :: u64 where "PLIC = 0x0c000000"
definition TRAMPOLINE :: u64 where "TRAMPOLINE = MAXVA - PGSIZE"
definition TRAPFRAME :: u64 where "TRAPFRAME = TRAMPOLINE - PGSIZE"
definition NPROC :: nat where "NPROC = 64"

definition KSTACK :: "nat \<Rightarrow> u64" where
  "KSTACK p = TRAMPOLINE - (of_nat p + 1) * 2 * PGSIZE"

text \<open>\<^verbatim>\<open>proc_mapstacks\<close> of \<^verbatim>\<open>kernel/proc.c\<close>, over the process indices.\<close>

primrec proc_mapstacks_loop :: "u64 \<Rightarrow> nat \<Rightarrow> nat \<Rightarrow> phys \<Rightarrow> phys outcome" where
  "proc_mapstacks_loop kpgtbl p 0 s = Ok s"
| "proc_mapstacks_loop kpgtbl p (Suc n) s =
     (let (pa, s) = kalloc s
      in if pa = 0 then Panic ''kalloc''
         else obind (kvmmap kpgtbl (KSTACK p) pa PGSIZE (PTE_R OR PTE_W) s)
                (proc_mapstacks_loop kpgtbl (Suc p) n))"

definition proc_mapstacks :: "u64 \<Rightarrow> phys \<Rightarrow> phys outcome" where
  "proc_mapstacks kpgtbl s = proc_mapstacks_loop kpgtbl 0 NPROC s"

text \<open>\<open>etext\<close> and \<open>trampoline\<close> are symbols of the linker script and of the assembly.\<close>

definition kvmmake :: "u64 \<Rightarrow> u64 \<Rightarrow> phys \<Rightarrow> (u64 \<times> phys) outcome" where
  "kvmmake etext trampoline s =
     (let (kpgtbl, s) = kalloc s; s = zero_page kpgtbl s
      in obind (kvmmap kpgtbl UART0 UART0 PGSIZE (PTE_R OR PTE_W) s) (\<lambda>s.
         obind (kvmmap kpgtbl VIRTIO0 VIRTIO0 PGSIZE (PTE_R OR PTE_W) s) (\<lambda>s.
         obind (kvmmap kpgtbl PLIC PLIC 0x4000000 (PTE_R OR PTE_W) s) (\<lambda>s.
         obind (kvmmap kpgtbl KERNBASE KERNBASE (etext - KERNBASE) (PTE_R OR PTE_X) s) (\<lambda>s.
         obind (kvmmap kpgtbl etext etext (PHYSTOP - etext) (PTE_R OR PTE_W) s) (\<lambda>s.
         obind (kvmmap kpgtbl TRAMPOLINE trampoline PGSIZE (PTE_R OR PTE_X) s) (\<lambda>s.
         obind (proc_mapstacks kpgtbl s) (\<lambda>s. Ok (kpgtbl, s)))))))))"

section \<open>Page table entries carry addresses and flags\<close>

lemma bit_PA2PTE: "bit (PA2PTE pa) n \<longleftrightarrow> 10 \<le> n \<and> n < 64 \<and> bit pa (n + 2)"
proof (cases "10 \<le> n")
  case True
  then obtain m where "n = 10 + m" by (metis le_Suc_ex)
  then show ?thesis by (auto simp: PA2PTE_def bit_simps add.commute)
qed (simp add: PA2PTE_def bit_simps)

lemma bit_PTE2PA: "bit (PTE2PA pte) n \<longleftrightarrow> 12 \<le> n \<and> n < 64 \<and> bit pte (n - 2)"
proof (cases "12 \<le> n")
  case True
  then obtain m where "n = 12 + m" by (metis le_Suc_ex)
  then show ?thesis by (auto simp: PTE2PA_def bit_simps add.commute)
qed (simp add: PTE2PA_def bit_simps)

lemma aligned_bits:
  assumes "pa mod PGSIZE = 0" and "n < 12"
  shows "\<not> bit pa n"
proof -
  have "take_bit 12 pa = 0" using assms(1) by (simp add: take_bit_eq_mod PGSIZE_def)
  then have "\<not> bit (take_bit 12 pa) n" by simp
  then show ?thesis using assms(2) by (simp add: bit_take_bit_iff)
qed

lemma small_bits:
  fixes x :: u64
  assumes "x < 2 ^ k" and "k \<le> n"
  shows "\<not> bit x n"
proof -
  have "take_bit k x = x" using assms(1) by (simp add: take_bit_eq_mod mod_word_less)
  then show ?thesis using assms(2) by (metis bit_take_bit_iff leD)
qed

lemma PTE2PA_PA2PTE:
  assumes "pa mod PGSIZE = 0" and "pa < 2 ^ 56" and "flags < 2 ^ 10"
  shows "PTE2PA (PA2PTE pa OR flags) = pa"
proof (rule bit_word_eqI)
  fix n :: nat assume n: "n < LENGTH(64)"
  show "bit (PTE2PA (PA2PTE pa OR flags)) n = bit pa n"
  proof (cases "12 \<le> n")
    case True
    then obtain m where m: "n = m + 2" "10 \<le> m" using that [of "n - 2"] by simp
    then have "\<not> bit flags m" using assms(3) by (intro small_bits [where k = 10]) auto
    then show ?thesis using m n by (simp add: bit_PTE2PA bit_PA2PTE bit_or_iff)
  next
    case False
    then show ?thesis using assms(1) by (simp add: bit_PTE2PA aligned_bits)
  qed
qed

lemma PTE_FLAGS_PA2PTE:
  assumes "flags < 2 ^ 10"
  shows "PTE_FLAGS (PA2PTE pa OR flags) = flags"
proof (rule bit_word_eqI)
  fix n :: nat assume n: "n < LENGTH(64)"
  have m: "(0x3FF :: u64) = mask 10" by (simp add: mask_eq_exp_minus_1)
  show "bit (PTE_FLAGS (PA2PTE pa OR flags)) n = bit flags n"
  proof (cases "n < 10")
    case True
    then show ?thesis unfolding PTE_FLAGS_def m by (simp add: bit_simps bit_PA2PTE)
  next
    case False
    then have "\<not> bit flags n" using assms by (intro small_bits [where k = 10]) auto
    then show ?thesis unfolding PTE_FLAGS_def m using False by (simp add: bit_simps bit_PA2PTE)
  qed
qed

section \<open>The copying loops return\<close>

lemma walk_total: "va < MAXVA \<Longrightarrow> \<exists>pte s'. walk pagetable va alloc s = Ok (pte, s')"
  by (auto simp: walk_def split: option.splits prod.splits)

lemma walkaddr_total: "\<exists>pa. walkaddr pagetable va s = Ok pa"
proof (cases "va \<ge> MAXVA")
  case False
  then obtain pte s' where "walk pagetable va False s = Ok (pte, s')" using walk_total not_le by blast
  then show ?thesis using False by (auto simp: walkaddr_def)
qed (simp add: walkaddr_def)

lemma copyout_total: "\<exists>s'. copyout pagetable dstva src len s = Ok (0, s') \<or>
    copyout pagetable dstva src len s = Ok (- 1, s')"
proof (induction pagetable dstva src len s rule: copyout.induct)
  case (1 pagetable dstva src len s)
  let ?va0 = "PGROUNDDOWN dstva"
  show ?case
  proof (cases "len = 0 \<or> ?va0 \<ge> MAXVA")
    case True
    then show ?thesis by (subst (1 2) copyout.simps) (auto simp: Let_def)
  next
    case False
    then obtain pte s' where w: "walk pagetable ?va0 False s = Ok (pte, s')"
      using walk_total not_le by blast
    note ih = "1.IH" [OF _ refl _ w refl _ refl refl]
    show ?thesis
      using False w ih by (subst (1 2) copyout.simps) (auto simp: Let_def)
  qed
qed

lemma copyin_total: "\<exists>d. copyin pagetable dst k srcva len s = Ok (0, d) \<or>
    copyin pagetable dst k srcva len s = Ok (- 1, d)"
proof (induction pagetable dst k srcva len s rule: copyin.induct)
  case (1 pagetable dst k srcva len s)
  obtain pa0 where w: "walkaddr pagetable (PGROUNDDOWN srcva) s = Ok pa0" using walkaddr_total by blast
  note ih = "1.IH" [OF _ refl w _ refl refl]
  show ?case using w ih by (subst (1 2) copyin.simps) (auto simp: Let_def)
qed

lemma copy_chars_spec:
  "copy_chars m n p dst k = (b, d) \<Longrightarrow> (\<forall>j<k. d j = dst j) \<and>
     (if b then \<exists>i<n. d (k + i) = 0 \<and> (\<forall>j<i. d (k + j) \<noteq> 0) else \<forall>j<n. d (k + j) \<noteq> 0)"
proof (induction n arbitrary: p dst k)
  case (Suc n)
  show ?case
  proof (cases "m p = 0")
    case True
    then show ?thesis using Suc.prems by auto
  next
    case False
    have "copy_chars m n (p + 1) (dst(k := m p)) (Suc k) = (b, d)" using Suc.prems False by simp
    note ih = Suc.IH [OF this]
    have k: "d k \<noteq> 0" "\<forall>j<k. d j = dst j" using False ih by auto
    show ?thesis
    proof (cases b)
      case True
      then obtain i where i: "i < n" "d (Suc k + i) = 0" "\<forall>j<i. d (Suc k + j) \<noteq> 0" using ih by auto
      then have "\<forall>j<Suc i. d (k + j) \<noteq> 0" using k(1) by (auto simp: less_Suc_eq_0_disj)
      then have "\<exists>i<Suc n. d (k + i) = 0 \<and> (\<forall>j<i. d (k + j) \<noteq> 0)"
        using i by (intro exI [of _ "Suc i"]) simp
      then show ?thesis using k(2) True by simp
    next
      case False
      then show ?thesis using ih k by (auto simp: less_Suc_eq_0_disj)
    qed
  qed
qed simp

lemma copyinstr_spec:
  "\<exists>d. (\<forall>j<k. d j = dst j) \<and> (copyinstr pagetable dst k srcva mx s = Ok (- 1, d) \<or>
     copyinstr pagetable dst k srcva mx s = Ok (0, d) \<and>
     (\<exists>i<unat mx. d (k + i) = 0 \<and> (\<forall>j<i. d (k + j) \<noteq> 0)))"
proof (induction pagetable dst k srcva mx s rule: copyinstr.induct)
  case (1 pagetable dst k srcva mx s)
  let ?n = "unat (chunk srcva mx)" and ?va0 = "PGROUNDDOWN srcva"
  obtain pa0 where w: "walkaddr pagetable ?va0 s = Ok pa0" using walkaddr_total by blast
  obtain b d where c: "copy_chars (ph_mem s) ?n (pa0 + (srcva - ?va0)) dst k = (b, d)" by fastforce
  note cs = copy_chars_spec [OF c]
  have le: "?n \<le> unat mx" by (simp add: unat_chunk)
  consider "mx = 0 \<or> pa0 = 0" | "mx \<noteq> 0" "pa0 \<noteq> 0" b | "mx \<noteq> 0" "pa0 \<noteq> 0" "\<not> b" by blast
  then show ?case
  proof cases
    case 1
    then show ?thesis using w by (subst (1 2) copyinstr.simps) auto
  next
    case 2
    then have "copyinstr pagetable dst k srcva mx s = Ok (0, d)"
      using w c by (subst copyinstr.simps) (simp add: Let_def)
    moreover have "\<exists>i<unat mx. d (k + i) = 0 \<and> (\<forall>j<i. d (k + j) \<noteq> 0)"
      using cs 2(3) le by (auto intro: less_le_trans)
    ultimately show ?thesis using cs by auto
  next
    case 3
    have r: "copyinstr pagetable dst k srcva mx s =
        copyinstr pagetable d (k + ?n) (?va0 + PGSIZE) (mx - chunk srcva mx) s"
      using 3 w c by (subst copyinstr.simps) (simp add: Let_def)
    obtain e where e: "\<forall>j<k + ?n. e j = d j"
      and "copyinstr pagetable dst k srcva mx s = Ok (- 1, e) \<or>
        copyinstr pagetable dst k srcva mx s = Ok (0, e) \<and>
        (\<exists>i<unat (mx - chunk srcva mx). e (k + ?n + i) = 0 \<and> (\<forall>j<i. e (k + ?n + j) \<noteq> 0))"
      unfolding r using "1.IH" [OF 3(1) refl w 3(2) refl c [symmetric] refl 3(3)] by blast
    moreover have "\<exists>i<unat mx. e (k + i) = 0 \<and> (\<forall>j<i. e (k + j) \<noteq> 0)"
      if "i < unat (mx - chunk srcva mx)" "e (k + ?n + i) = 0" "\<forall>j<i. e (k + ?n + j) \<noteq> 0" for i
    proof (intro exI [of _ "?n + i"] conjI allI impI)
      have "unat (mx - chunk srcva mx) = unat mx - ?n" using le by (simp add: unat_sub word_le_nat_alt)
      then show "?n + i < unat mx" using that by simp
      fix j assume j: "j < ?n + i"
      show "e (k + j) \<noteq> 0"
      proof (cases "j < ?n")
        case True
        then show ?thesis using e cs 3(3) by simp
      next
        case False
        then show ?thesis using that(3) j by (metis add.assoc le_add_diff_inverse nat_add_left_cancel_less not_less)
      qed
    qed (use that in \<open>simp add: add.assoc\<close>)
    moreover have "\<forall>j<k. e j = dst j" using e cs by simp
    ultimately show ?thesis by blast
  qed
qed

lemma mappages_loop_fuel:
  "lst = a + of_nat fuel * PGSIZE \<Longrightarrow> mappages_loop (Suc fuel) pagetable a lst pa perm s \<noteq> Diverge"
proof (induction fuel arbitrary: a pa s)
  case 0
  have "obind (walk pagetable a True s) f \<noteq> Diverge" if "\<And>x. f x \<noteq> Diverge" for f :: "_ \<Rightarrow> (int \<times> phys) outcome"
    using that by (cases "walk pagetable a True s") (auto simp: walk_def split: if_splits option.splits prod.splits)
  then show ?case using 0 by (auto simp: Let_def)
next
  case (Suc fuel)
  have "obind (walk pagetable a True s) f \<noteq> Diverge" if "\<And>x. f x \<noteq> Diverge" for f :: "_ \<Rightarrow> (int \<times> phys) outcome"
    using that by (cases "walk pagetable a True s") (auto simp: walk_def split: if_splits option.splits prod.splits)
  moreover have "lst = (a + PGSIZE) + of_nat fuel * PGSIZE" using Suc.prems by (simp add: algebra_simps)
  note Suc.IH [OF this]
  ultimately show ?case
    by (subst mappages_loop.simps) (auto simp: Let_def split: prod.splits simp del: mappages_loop.simps)
qed

section \<open>Properties\<close>




text \<open>The loop of \<^verbatim>\<open>mappages\<close>, which only stops when it reaches the last page, always
  stops.\<close>

theorem mappages_terminates: "mappages pagetable va sz pa perm s \<noteq> Diverge"
proof (cases "sz mod PGSIZE = 0 \<and> sz \<noteq> 0")
  case True
  let ?n = "unat (sz div PGSIZE)"
  have "sz = sz div PGSIZE * PGSIZE" using True div_mult_mod_eq [of sz PGSIZE] by simp
  then have sz: "sz = of_nat ?n * PGSIZE" by simp
  then have "?n \<noteq> 0" using True by (intro notI) simp
  then obtain m where m: "?n = Suc m" using not0_implies_Suc by blast
  have "va + sz - PGSIZE = va + of_nat m * PGSIZE"
    by (subst sz) (simp add: m algebra_simps)
  from mappages_loop_fuel [OF this] show ?thesis
    unfolding mappages_def m by (simp del: mappages_loop.simps)
qed (auto simp: mappages_def)

end
