(* ===== verification/Xv6_Huffman.thy ===== *)
theory Xv6_Huffman
  imports Xv6_Prelude "HOL-Library.Multiset"
begin

text \<open>
  \<^verbatim>\<open>kernel/compress.c\<close>: the Huffman coder that \<^verbatim>\<open>writei\<close> and \<^verbatim>\<open>readi\<close> use for
  regular files.  The static array \<^verbatim>\<open>tree\<close> is raw storage with the layout of
  \<^verbatim>\<open>struct huffman_node\<close> (16 bytes: \<^verbatim>\<open>c\<close> at 0, \<^verbatim>\<open>freq\<close> at 4, \<^verbatim>\<open>left\<close> at 8,
  \<^verbatim>\<open>right\<close> at 12), because the code copies it byte for byte into the output and back.
  An index outside the array is a \<^const>\<open>Fault\<close>.
\<close>

section \<open>State\<close>

definition MAX_TREE_NODES :: nat where "MAX_TREE_NODES = 512"
definition MAX_HEAP_SIZE :: nat where "MAX_HEAP_SIZE = 256"

record huff =
  h_tree :: bytes
  h_heap :: "nat \<Rightarrow> nat"
  h_heap_size :: nat
  h_tree_size :: int

definition t_c :: "huff \<Rightarrow> nat \<Rightarrow> u8" where
  "t_c h i = h_tree h (16 * i)"

definition t_freq :: "huff \<Rightarrow> nat \<Rightarrow> int" where
  "t_freq h i = sint (get32 (h_tree h) (16 * i + 4))"

definition t_left :: "huff \<Rightarrow> nat \<Rightarrow> int" where
  "t_left h i = sint (get32 (h_tree h) (16 * i + 8))"

definition t_right :: "huff \<Rightarrow> nat \<Rightarrow> int" where
  "t_right h i = sint (get32 (h_tree h) (16 * i + 12))"

section \<open>Priority queue\<close>

definition swap_heap :: "nat \<Rightarrow> nat \<Rightarrow> huff \<Rightarrow> huff" where
  "swap_heap a b h =
     (let temp = h_heap h a
      in h\<lparr>h_heap := (h_heap h)(a := h_heap h b, b := temp)\<rparr>)"

definition heap_freq :: "huff \<Rightarrow> nat \<Rightarrow> int" where
  "heap_freq h i = t_freq h (h_heap h i)"

definition smallest_of :: "nat \<Rightarrow> huff \<Rightarrow> nat" where
  "smallest_of i h =
     (let left = 2 * i + 1; right = 2 * i + 2;
          smallest = (if left < h_heap_size h \<and> heap_freq h left < heap_freq h i then left else i)
      in if right < h_heap_size h \<and> heap_freq h right < heap_freq h smallest then right
         else smallest)"

lemma smallest_of_bound: "smallest_of i h \<noteq> i \<Longrightarrow> i < smallest_of i h \<and> smallest_of i h < h_heap_size h"
  by (auto simp: smallest_of_def Let_def split: if_splits)

function min_heapify :: "nat \<Rightarrow> huff \<Rightarrow> huff" where
  "min_heapify i h =
     (let smallest = smallest_of i h
      in if smallest \<noteq> i then min_heapify smallest (swap_heap i smallest h) else h)"
  by pat_completeness auto
termination
proof (relation "measure (\<lambda>(i, h). h_heap_size h - i)")
  fix i :: nat and h :: huff and x :: nat
  assume "x = smallest_of i h" "x \<noteq> i"
  then show "((x, swap_heap i x h), i, h) \<in> measure (\<lambda>(i, h). h_heap_size h - i)"
    using smallest_of_bound [of i h] by (auto simp: swap_heap_def Let_def)
qed simp

declare min_heapify.simps [simp del]

fun sift_up :: "nat \<Rightarrow> huff \<Rightarrow> huff" where
  "sift_up i h =
     (if i > 0 \<and> heap_freq h ((i - 1) div 2) > heap_freq h i
      then sift_up ((i - 1) div 2) (swap_heap i ((i - 1) div 2) h)
      else h)"

declare sift_up.simps [simp del]

definition insert_heap :: "nat \<Rightarrow> huff \<Rightarrow> huff" where
  "insert_heap node_idx h =
     (if h_heap_size h \<ge> MAX_HEAP_SIZE then h
      else let i = h_heap_size h;
               h = h\<lparr>h_heap := (h_heap h)(i := node_idx), h_heap_size := i + 1\<rparr>
           in sift_up i h)"

text \<open>The result is the C return value; the heap is not empty where the code uses it.\<close>

definition extract_min :: "huff \<Rightarrow> int \<times> huff" where
  "extract_min h =
     (if h_heap_size h \<le> 0 then (- 1, h)
      else let mn = h_heap h 0;
               h = h\<lparr>h_heap_size := h_heap_size h - 1\<rparr>;
               h = h\<lparr>h_heap := (h_heap h)(0 := h_heap h (h_heap_size h))\<rparr>
           in (int mn, min_heapify 0 h))"

section \<open>Building the tree\<close>

definition set_node :: "nat \<Rightarrow> u8 \<Rightarrow> int \<Rightarrow> int \<Rightarrow> int \<Rightarrow> bytes \<Rightarrow> bytes" where
  "set_node i c freq left right t =
     put32 (put32 (put32 (t(16 * i := c)) (16 * i + 4) (of_int freq)) (16 * i + 8) (of_int left))
       (16 * i + 12) (of_int right)"

text \<open>An inner node keeps whatever \<^verbatim>\<open>c\<close> its slot had.\<close>

definition set_inner :: "nat \<Rightarrow> int \<Rightarrow> int \<Rightarrow> int \<Rightarrow> bytes \<Rightarrow> bytes" where
  "set_inner i freq left right t =
     put32 (put32 (put32 t (16 * i + 4) (of_int freq)) (16 * i + 8) (of_int left))
       (16 * i + 12) (of_int right)"

primrec count_freq :: "bytes \<Rightarrow> nat \<Rightarrow> nat \<Rightarrow> (u8 \<Rightarrow> int) \<Rightarrow> u8 \<Rightarrow> int" where
  "count_freq input i 0 freq = freq"
| "count_freq input i (Suc n) freq =
     count_freq input (Suc i) n (freq(input i := freq (input i) + 1))"

primrec make_leaves :: "(u8 \<Rightarrow> int) \<Rightarrow> nat \<Rightarrow> nat \<Rightarrow> huff \<Rightarrow> huff" where
  "make_leaves freq i 0 h = h"
| "make_leaves freq i (Suc n) h =
     make_leaves freq (Suc i) n
       (if freq (of_nat i) > 0
        then let ts = nat (h_tree_size h);
                 h = h\<lparr>h_tree := set_node ts (of_nat i) (freq (of_nat i)) (- 1) (- 1) (h_tree h),
                       h_tree_size := h_tree_size h + 1\<rparr>
             in insert_heap ts h
        else h)"

lemma min_heapify_size [simp]:
  "h_heap_size (min_heapify i h) = h_heap_size h" "h_tree (min_heapify i h) = h_tree h"
  "h_tree_size (min_heapify i h) = h_tree_size h"
proof (induction i h rule: min_heapify.induct)
  case (1 i h)
  { case 1 then show ?case using "1.IH"(1) by (subst min_heapify.simps) (simp add: Let_def swap_heap_def) }
  { case 2 then show ?case using "1.IH"(2) by (subst min_heapify.simps) (simp add: Let_def swap_heap_def) }
  { case 3 then show ?case using "1.IH"(3) by (subst min_heapify.simps) (simp add: Let_def swap_heap_def) }
qed

lemma sift_up_size [simp]:
  "h_heap_size (sift_up i h) = h_heap_size h" "h_tree (sift_up i h) = h_tree h"
  "h_tree_size (sift_up i h) = h_tree_size h"
proof (induction i h rule: sift_up.induct)
  case (1 i h)
  { case 1 then show ?case using "1.IH"(1) by (subst sift_up.simps) (simp add: Let_def swap_heap_def) }
  { case 2 then show ?case using "1.IH"(2) by (subst sift_up.simps) (simp add: Let_def swap_heap_def) }
  { case 3 then show ?case using "1.IH"(3) by (subst sift_up.simps) (simp add: Let_def swap_heap_def) }
qed

lemma extract_min_size:
  "h_heap_size (snd (extract_min h)) = h_heap_size h - 1" "h_tree (snd (extract_min h)) = h_tree h"
  "h_tree_size (snd (extract_min h)) = h_tree_size h"
  by (simp_all add: extract_min_def Let_def)

lemma insert_heap_size:
  "h_heap_size (insert_heap n h) = (if h_heap_size h < MAX_HEAP_SIZE then h_heap_size h + 1 else h_heap_size h)"
  "h_tree (insert_heap n h) = h_tree h" "h_tree_size (insert_heap n h) = h_tree_size h"
  by (simp_all add: insert_heap_def Let_def)

function merge_nodes :: "huff \<Rightarrow> huff" where
  "merge_nodes h =
     (if h_heap_size h > 1
      then let (left, h) = extract_min h;
               (right, h) = extract_min h;
               ts = nat (h_tree_size h);
               h = h\<lparr>h_tree := set_inner ts (t_freq h (nat left) + t_freq h (nat right)) left right
                              (h_tree h),
                     h_tree_size := h_tree_size h + 1\<rparr>
           in merge_nodes (insert_heap ts h)
      else h)"
  by pat_completeness auto
termination
proof (relation "measure h_heap_size")
  fix h h1 h2 h3 :: huff and left right :: int and x y and ts :: nat
  assume "1 < h_heap_size h" "x = extract_min h" "(left, h1) = x" "y = extract_min h1" "(right, h2) = y"
    "h3 = h2\<lparr>h_tree := set_inner ts (t_freq h2 (nat left) + t_freq h2 (nat right)) left right (h_tree h2),
                     h_tree_size := h_tree_size h2 + 1\<rparr>"
  moreover from this have "h1 = snd (extract_min h)" "h2 = snd (extract_min h1)" by (metis snd_conv)+
  ultimately show "(insert_heap ts h3, h) \<in> measure h_heap_size"
    by (auto simp: insert_heap_size extract_min_size)
qed simp

declare merge_nodes.simps [simp del]

definition build_tree :: "bytes \<Rightarrow> nat \<Rightarrow> huff \<Rightarrow> huff" where
  "build_tree input inlen h =
     (let freq = count_freq input 0 inlen (\<lambda>_. 0);
          h = h\<lparr>h_tree_size := 0, h_heap_size := 0\<rparr>;
          h = make_leaves freq 0 256 h
      in merge_nodes h)"

section \<open>Bits\<close>

text \<open>An output position: the buffer, the byte position and the bit position.\<close>

type_synonym bitpos = "bytes \<times> nat \<times> nat"

definition write_bit :: "bool \<Rightarrow> bitpos \<Rightarrow> bitpos" where
  "write_bit b p =
     (let (output, byte_pos, bit_pos) = p;
          output = (if bit_pos = 0 then output(byte_pos := 0) else output);
          output = output(byte_pos := output byte_pos OR push_bit (7 - bit_pos) (of_bool b));
          bit_pos = (bit_pos + 1) mod 8;
          byte_pos = (if bit_pos = 0 then byte_pos + 1 else byte_pos)
      in (output, byte_pos, bit_pos))"

definition read_bit :: "bytes \<Rightarrow> nat \<times> nat \<Rightarrow> bool \<times> (nat \<times> nat)" where
  "read_bit input p =
     (let (byte_pos, bit_pos) = p;
          b = bit (input byte_pos) (7 - bit_pos);
          bit_pos = (bit_pos + 1) mod 8;
          byte_pos = (if bit_pos = 0 then byte_pos + 1 else byte_pos)
      in (b, byte_pos, bit_pos))"

section \<open>Compression\<close>

definition node_ok :: "int \<Rightarrow> bool" where
  "node_ok i \<longleftrightarrow> 0 \<le> i \<and> i < int MAX_TREE_NODES"

definition is_leaf :: "huff \<Rightarrow> int \<Rightarrow> bool" where
  "is_leaf h i \<longleftrightarrow> t_left h (nat i) = - 1 \<and> t_right h (nat i) = - 1"

text \<open>
  The walk from the root for one character; \<open>False\<close> is the early \<^verbatim>\<open>return -1\<close>.  A walk
  of more than \<open>MAX_TREE_NODES\<close> steps visits a node twice and never ends.
\<close>

primrec encode_char :: "nat \<Rightarrow> huff \<Rightarrow> int \<Rightarrow> u8 \<Rightarrow> int \<Rightarrow> bitpos \<Rightarrow> (bool \<times> bitpos) outcome" where
  "encode_char 0 h maxlen c curr_node p = Diverge"
| "encode_char (Suc fuel) h maxlen c curr_node p =
     (if \<not> node_ok curr_node then Fault
      else if is_leaf h curr_node then Ok (True, p)
      else if int (fst (snd p)) \<ge> maxlen then Ok (False, p)
      else let left = t_left h (nat curr_node)
           in if \<not> node_ok left then Fault
              else if c < t_c h (nat left)
              then encode_char fuel h maxlen c left (write_bit False p)
              else encode_char fuel h maxlen c (t_right h (nat curr_node)) (write_bit True p))"

primrec encode_all :: "huff \<Rightarrow> int \<Rightarrow> bytes \<Rightarrow> nat \<Rightarrow> nat \<Rightarrow> bitpos \<Rightarrow> (bool \<times> bitpos) outcome" where
  "encode_all h maxlen input i 0 p = Ok (True, p)"
| "encode_all h maxlen input i (Suc n) p =
     obind (encode_char (Suc MAX_TREE_NODES) h maxlen (input i) (h_tree_size h - 1) p) (\<lambda>(ok, p).
     if \<not> ok then Ok (False, p) else encode_all h maxlen input (Suc i) n p)"

text \<open>\<^verbatim>\<open>memmove\<close> between two objects: \<open>n\<close> bytes of \<open>src\<close> from \<open>j\<close> to \<open>dst\<close> at \<open>i\<close>.\<close>

definition move_bytes :: "bytes \<Rightarrow> nat \<Rightarrow> bytes \<Rightarrow> nat \<Rightarrow> nat \<Rightarrow> bytes" where
  "move_bytes dst i src j n = (\<lambda>k. if i \<le> k \<and> k < i + n then src (j + (k - i)) else dst k)"

text \<open>The arguments are never null where the kernel calls it.\<close>

definition compress_huffman :: "bytes \<Rightarrow> int \<Rightarrow> bytes \<Rightarrow> int \<Rightarrow> huff \<Rightarrow> (int \<times> bytes \<times> huff) outcome" where
  "compress_huffman input inlen output maxlen h =
     (if inlen \<le> 0 \<or> maxlen \<le> 0 then Ok (- 1, output, h)
      else let h = build_tree input (nat inlen) h;
               tbytes = 16 * nat (h_tree_size h)
           in if 4 + int tbytes \<ge> maxlen then Ok (- 1, output, h)
              else let output = put32 output 0 (of_int (h_tree_size h));
                       output = move_bytes output 4 (h_tree h) 0 tbytes
                   in obind (encode_all h maxlen input 0 (nat inlen) (output, 4 + tbytes, 0))
                        (\<lambda>(ok, output, byte_pos, bit_pos).
                      if \<not> ok then Ok (- 1, output, h)
                      else let byte_pos = (if bit_pos > 0 then byte_pos + 1 else byte_pos)
                           in if int byte_pos \<ge> inlen then Ok (- 1, output, h)
                              else Ok (int byte_pos, output, h)))"

section \<open>Decompression\<close>

lemma read_bit_progress:
  "b < 8 \<Longrightarrow> read_bit input (i, b) = (x, i', b') \<Longrightarrow> 8 * i' + b' = 8 * i + b + 1 \<and> b' < 8"
  by (cases "b = 7") (auto simp: read_bit_def)

text \<open>
  The walk from the root to a leaf; it stops early at the end of the input.  The bit
  position is always below 8; the guard on it is what makes the recursion total.
\<close>

function decode_walk :: "huff \<Rightarrow> bytes \<Rightarrow> nat \<Rightarrow> int \<Rightarrow> nat \<times> nat \<Rightarrow> (int \<times> nat \<times> nat) outcome" where
  "decode_walk h input inlen curr_node (in_pos, bit_pos) =
     (if \<not> node_ok curr_node then Fault
      else if is_leaf h curr_node then Ok (curr_node, in_pos, bit_pos)
      else if in_pos \<ge> inlen \<or> bit_pos \<ge> 8 then Ok (curr_node, in_pos, bit_pos)
      else let (b, q) = read_bit input (in_pos, bit_pos)
           in decode_walk h input inlen
                (if b then t_right h (nat curr_node) else t_left h (nat curr_node)) q)"
  by pat_completeness auto
termination
proof (relation "measure (\<lambda>(h, input, inlen, curr_node, (in_pos, bit_pos)). 8 * inlen - (8 * in_pos + bit_pos))")
  fix h input inlen curr_node in_pos bit_pos x b q
  assume "\<not> (inlen \<le> in_pos \<or> 8 \<le> bit_pos)" "x = read_bit input (in_pos, bit_pos)" "(b, q) = x"
  moreover obtain i' b' where "q = (i', b')" by (cases q)
  ultimately have "8 * i' + b' = 8 * in_pos + bit_pos + 1" "in_pos < inlen" "bit_pos < 8" "q = (i', b')"
    using read_bit_progress [of bit_pos input in_pos b i' b'] by auto
  then show "((h, input, inlen, if b then t_right h (nat curr_node) else t_left h (nat curr_node), q),
      h, input, inlen, curr_node, in_pos, bit_pos)
      \<in> measure (\<lambda>(h, input, inlen, curr_node, (in_pos, bit_pos)). 8 * inlen - (8 * in_pos + bit_pos))"
    by auto
qed simp

declare decode_walk.simps [simp del]

lemma decode_walk_progress:
  "decode_walk h input inlen n q = Ok (m, q') \<Longrightarrow> snd q < 8 \<Longrightarrow>
     8 * fst q + snd q \<le> 8 * fst q' + snd q' \<and> snd q' < 8 \<and> node_ok m \<and>
     (\<not> is_leaf h m \<longrightarrow> inlen \<le> fst q')"
proof (induction h input inlen n q rule: decode_walk.induct)
  case (1 h input inlen n i b)
  show ?case
  proof (cases "node_ok n \<and> \<not> is_leaf h n \<and> i < inlen")
    case False
    then show ?thesis using "1.prems" by (subst (asm) decode_walk.simps) (auto split: if_splits)
  next
    case True
    obtain x i' b' where r: "read_bit input (i, b) = (x, i', b')" by (cases "read_bit input (i, b)") auto
    have b: "b < 8" using "1.prems" by simp
    note p = read_bit_progress [OF b r]
    have "decode_walk h input inlen (if x then t_right h (nat n) else t_left h (nat n)) (i', b') = Ok (m, q')"
      using "1.prems"(1) True b r by (subst (asm) decode_walk.simps) simp
    then show ?thesis
      using "1.IH" [OF _ _ _ r [symmetric] refl, of] True b p by auto
  qed
qed

function decode_all :: "huff \<Rightarrow> bytes \<Rightarrow> nat \<Rightarrow> nat \<Rightarrow> nat \<times> nat \<Rightarrow> bytes \<Rightarrow> nat \<Rightarrow> (nat \<times> bytes) outcome" where
  "decode_all h input inlen maxlen (in_pos, bit_pos) output out_pos =
     (if in_pos < inlen \<and> out_pos < maxlen \<and> bit_pos < 8
      then obind (decode_walk h input inlen (h_tree_size h - 1) (in_pos, bit_pos)) (\<lambda>(curr_node, q).
           if is_leaf h curr_node
           then decode_all h input inlen maxlen q (output(out_pos := t_c h (nat curr_node))) (out_pos + 1)
           else decode_all h input inlen maxlen q output out_pos)
      else Ok (out_pos, output))"
  by pat_completeness auto
termination
proof (relation "measure (\<lambda>(h, input, inlen, maxlen, (i, b), output, out_pos).
    (8 * inlen - (8 * i + b)) + (maxlen - out_pos))", goal_cases)
  case (2 h input inlen maxlen i b outp out_pos y m q)
  then show ?case
    using decode_walk_progress [of h input inlen "h_tree_size h - 1" "(i, b)" m q] by (cases q) auto
next
  case (3 h input inlen maxlen i b outp out_pos y m q)
  then show ?case
    using decode_walk_progress [of h input inlen "h_tree_size h - 1" "(i, b)" m q] by (cases q) auto
qed simp

declare decode_all.simps [simp del]

definition decompress_huffman :: "bytes \<Rightarrow> int \<Rightarrow> bytes \<Rightarrow> int \<Rightarrow> huff \<Rightarrow> (int \<times> bytes \<times> huff) outcome" where
  "decompress_huffman input inlen output maxlen h =
     (if inlen \<le> 0 \<or> maxlen \<le> 0 then Ok (- 1, output, h)
      else let h = h\<lparr>h_tree_size := sint (get32 input 0)\<rparr>
           in if h_tree_size h \<le> 0 \<or> h_tree_size h > int MAX_TREE_NODES then Ok (- 1, output, h)
              else let tbytes = 16 * nat (h_tree_size h)
                   in if 4 + int tbytes > inlen then Ok (- 1, output, h)
                      else let h = h\<lparr>h_tree := move_bytes (h_tree h) 0 input 4 tbytes\<rparr>
                           in obind (decode_all h input (nat inlen) (nat maxlen) (4 + tbytes, 0) output 0)
                                (\<lambda>(out_pos, output). Ok (int out_pos, output, h)))"

section \<open>The heap as a multiset\<close>

definition heap_ms :: "huff \<Rightarrow> nat multiset" where
  "heap_ms h = mset (map (h_heap h) [0..<h_heap_size h])"

lemma swap_heap_ms: "a < h_heap_size h \<Longrightarrow> b < h_heap_size h \<Longrightarrow> heap_ms (swap_heap a b h) = heap_ms h"
proof -
  assume ab: "a < h_heap_size h" "b < h_heap_size h"
  let ?n = "h_heap_size h" and ?f = "h_heap h"
  have "map (?f(a := ?f b, b := ?f a)) [0..<?n] = (map ?f [0..<?n])[a := ?f b, b := ?f a]"
    using ab by (intro nth_equalityI) (auto simp: nth_list_update)
  also have "mset \<dots> = mset (map ?f [0..<?n])"
    using mset_swap [of b "map ?f [0..<?n]" a] ab by (simp add: list_update_swap)
  finally show ?thesis by (simp add: heap_ms_def swap_heap_def Let_def)
qed

lemma swap_heap_size [simp]: "h_heap_size (swap_heap a b h) = h_heap_size h"
  by (simp add: swap_heap_def Let_def)

lemma min_heapify_ms [simp]: "heap_ms (min_heapify i h) = heap_ms h"
proof (induction i h rule: min_heapify.induct)
  case (1 i h)
  show ?case
  proof (cases "smallest_of i h = i")
    case False
    then have "heap_ms (swap_heap i (smallest_of i h) h) = heap_ms h"
      using smallest_of_bound [OF False] by (intro swap_heap_ms) auto
    then show ?thesis using "1.IH" [OF refl False] False by (subst min_heapify.simps) (simp add: Let_def)
  qed (subst min_heapify.simps, simp)
qed

lemma sift_up_ms: "i < h_heap_size h \<Longrightarrow> heap_ms (sift_up i h) = heap_ms h"
proof (induction i h rule: sift_up.induct)
  case (1 i h)
  show ?case
  proof (cases "i > 0 \<and> heap_freq h ((i - 1) div 2) > heap_freq h i")
    case True
    have p: "(i - 1) div 2 < h_heap_size h" using "1.prems" by (simp add: less_le_trans)
    have "heap_ms (sift_up i h) = heap_ms (sift_up ((i - 1) div 2) (swap_heap i ((i - 1) div 2) h))"
      using True by (subst sift_up.simps) simp
    also have "\<dots> = heap_ms (swap_heap i ((i - 1) div 2) h)"
      by (rule "1.IH" [OF True]) (use p in simp)
    also have "\<dots> = heap_ms h" using "1.prems" p by (rule swap_heap_ms)
    finally show ?thesis .
  qed (subst sift_up.simps, auto)
qed

lemma insert_heap_ms:
  assumes "h_heap_size h < MAX_HEAP_SIZE"
  shows "heap_ms (insert_heap n h) = add_mset n (heap_ms h)"
proof -
  let ?h = "h\<lparr>h_heap := (h_heap h)(h_heap_size h := n), h_heap_size := h_heap_size h + 1\<rparr>"
  have "heap_ms (insert_heap n h) = heap_ms (sift_up (h_heap_size h) ?h)"
    using assms by (simp add: insert_heap_def Let_def)
  also have "\<dots> = heap_ms ?h" by (rule sift_up_ms) simp
  also have "\<dots> = add_mset n (heap_ms h)" by (simp add: heap_ms_def)
  finally show ?thesis .
qed

lemma extract_min_ms:
  assumes "0 < h_heap_size h" and "extract_min h = (m, h')"
  shows "m = int (h_heap h 0)" "h_heap h 0 \<in># heap_ms h" "heap_ms h' = heap_ms h - {#h_heap h 0#}"
proof -
  let ?n = "h_heap_size h" and ?f = "h_heap h"
  show "m = int (h_heap h 0)" using assms by (simp add: extract_min_def Let_def)
  show "h_heap h 0 \<in># heap_ms h" using assms(1) by (auto simp: heap_ms_def)
  have "heap_ms h' = heap_ms (h\<lparr>h_heap_size := ?n - 1, h_heap := ?f(0 := ?f (?n - 1))\<rparr>)"
    using assms by (auto simp: extract_min_def Let_def)
  then have h': "heap_ms h' = mset (map (?f(0 := ?f (?n - 1))) [0..<?n - 1])"
    by (simp add: heap_ms_def)
  obtain k where n: "?n = Suc k" using assms(1) gr0_implies_Suc by blast
  show "heap_ms h' = heap_ms h - {#h_heap h 0#}"
  proof (cases k)
    case 0
    then show ?thesis using n h' by (simp add: heap_ms_def)
  next
    case (Suc j)
    have up: "[0..<Suc k] = 0 # [1..<k] @ [k]" "[0..<k] = 0 # [1..<k]"
      using Suc by (simp_all add: upt_conv_Cons)
    have "map (?f(0 := ?f k)) [1..<k] = map ?f [1..<k]" by simp
    then show ?thesis using n h' up by (simp add: heap_ms_def)
  qed
qed

lemma heap_ms_size: "size (heap_ms h) = h_heap_size h"
  by (simp add: heap_ms_def)

section \<open>Nodes in the raw tree\<close>

lemma get32_upd_other: "k < j \<or> j + 4 \<le> k \<Longrightarrow> get32 (t(k := v)) j = get32 t j"
  by (rule get32_cong) auto

lemma put32_byte_other: "k < j \<or> j + 4 \<le> k \<Longrightarrow> put32 t j v k = t k"
  by (auto simp: put32_def)

definition leaf_at :: "huff \<Rightarrow> nat \<Rightarrow> u8 \<Rightarrow> bool" where
  "leaf_at h i c \<longleftrightarrow> t_c h i = c \<and> t_left h i = - 1 \<and> t_right h i = - 1"

lemmas t_defs = t_c_def t_freq_def t_left_def t_right_def

lemma set_node_other:
  assumes "j \<noteq> i"
  shows "set_node i c f l r t (16 * j) = t (16 * j)"
    "get32 (set_node i c f l r t) (16 * j + 4) = get32 t (16 * j + 4)"
    "get32 (set_node i c f l r t) (16 * j + 8) = get32 t (16 * j + 8)"
    "get32 (set_node i c f l r t) (16 * j + 12) = get32 t (16 * j + 12)"
proof -
  have "16 * j + 16 \<le> 16 * i \<or> 16 * i + 16 \<le> 16 * j" using assms by arith
  then show "set_node i c f l r t (16 * j) = t (16 * j)"
    "get32 (set_node i c f l r t) (16 * j + 4) = get32 t (16 * j + 4)"
    "get32 (set_node i c f l r t) (16 * j + 8) = get32 t (16 * j + 8)"
    "get32 (set_node i c f l r t) (16 * j + 12) = get32 t (16 * j + 12)"
    by (auto simp: set_node_def put32_byte_other get32_put32_other get32_upd_other)
qed

lemma set_inner_other:
  assumes "j \<noteq> i"
  shows "set_inner i f l r t (16 * j) = t (16 * j)"
    "get32 (set_inner i f l r t) (16 * j + 4) = get32 t (16 * j + 4)"
    "get32 (set_inner i f l r t) (16 * j + 8) = get32 t (16 * j + 8)"
    "get32 (set_inner i f l r t) (16 * j + 12) = get32 t (16 * j + 12)"
proof -
  have "16 * j + 16 \<le> 16 * i \<or> 16 * i + 16 \<le> 16 * j" using assms by arith
  then show "set_inner i f l r t (16 * j) = t (16 * j)"
    "get32 (set_inner i f l r t) (16 * j + 4) = get32 t (16 * j + 4)"
    "get32 (set_inner i f l r t) (16 * j + 8) = get32 t (16 * j + 8)"
    "get32 (set_inner i f l r t) (16 * j + 12) = get32 t (16 * j + 12)"
    by (auto simp: set_inner_def put32_byte_other get32_put32_other)
qed

lemma set_node_same:
  "set_node i c f l r t (16 * i) = c" "get32 (set_node i c f l r t) (16 * i + 8) = of_int l"
  "get32 (set_node i c f l r t) (16 * i + 12) = of_int r"
  "get32 (set_node i c f l r t) (16 * i + 4) = of_int f"
  by (auto simp: set_node_def put32_byte_other get32_put32_other)

lemma set_inner_same:
  "get32 (set_inner i f l r t) (16 * i + 8) = of_int l"
  "get32 (set_inner i f l r t) (16 * i + 12) = of_int r"
  "get32 (set_inner i f l r t) (16 * i + 4) = of_int f"
  by (auto simp: set_inner_def get32_put32_other)

lemma leaf_at_insert [simp]: "leaf_at (insert_heap n h) i c = leaf_at h i c"
  by (simp add: leaf_at_def t_defs insert_heap_size)

lemma sint32_small: "- 1 \<le> x \<Longrightarrow> x < 1024 \<Longrightarrow> sint (of_int x :: u32) = x"
  by (simp add: signed_of_int signed_take_bit_int_eq_self)

section \<open>The shape of the tree\<close>

definition symbols :: "(u8 \<Rightarrow> int) \<Rightarrow> nat \<Rightarrow> u8 list" where
  "symbols freq i = map of_nat (filter (\<lambda>j. freq (of_nat j) > 0) [0..<i])"

lemma symbols_Suc:
  "symbols freq (Suc i) = symbols freq i @ (if freq (of_nat i) > 0 then [of_nat i] else [])"
  by (simp add: symbols_def)

lemma symbols_length: "length (symbols freq i) \<le> i"
  by (simp add: symbols_def order_trans [OF length_filter_le])

definition leaves_inv :: "(u8 \<Rightarrow> int) \<Rightarrow> nat \<Rightarrow> huff \<Rightarrow> bool" where
  "leaves_inv freq i h \<longleftrightarrow> h_tree_size h = int (length (symbols freq i)) \<and>
     (\<forall>m < length (symbols freq i). leaf_at h m (symbols freq i ! m)) \<and>
     heap_ms h = mset [0..<length (symbols freq i)]"

lemma heap_ms_tree [simp]: "heap_ms (h\<lparr>h_tree := t, h_tree_size := n\<rparr>) = heap_ms h"
  by (simp add: heap_ms_def)

lemma make_leaves_inv:
  assumes "leaves_inv freq i h" "i + n \<le> 256"
  shows "leaves_inv freq (i + n) (make_leaves freq i n h)"
  using assms
proof (induction n arbitrary: i h)
  case (Suc n)
  let ?k = "length (symbols freq i)"
  have k: "?k < MAX_HEAP_SIZE" "h_heap_size h = ?k" "nat (h_tree_size h) = ?k"
    using Suc.prems symbols_length [of freq i] heap_ms_size [of h]
    by (auto simp: leaves_inv_def MAX_HEAP_SIZE_def simp flip: mset_upt)
  show ?case
  proof (cases "freq (of_nat i) > 0")
    case True
    let ?h = "h\<lparr>h_tree := set_node ?k (of_nat i) (freq (of_nat i)) (- 1) (- 1) (h_tree h),
                       h_tree_size := h_tree_size h + 1\<rparr>"
    have old: "leaf_at ?h m c = leaf_at h m c" if "m < ?k" for m c
      using that by (simp add: leaf_at_def t_defs set_node_other)
    have new: "leaf_at ?h ?k (of_nat i)"
      using sint32_small [of "- 1"] by (simp add: leaf_at_def t_defs set_node_same)
    have "leaves_inv freq (Suc i) (insert_heap ?k ?h)"
      using Suc.prems(1) True k old new
      by (auto simp: leaves_inv_def symbols_Suc insert_heap_size insert_heap_ms nth_append less_Suc_eq)
    then show ?thesis using Suc.IH [of "Suc i"] Suc.prems(2) True k by (simp add: Let_def)
  next
    case False
    then have "leaves_inv freq (Suc i) h" using Suc.prems(1) by (simp add: leaves_inv_def symbols_Suc)
    then show ?thesis using Suc.IH [of "Suc i" h] Suc.prems(2) False by simp
  qed
qed simp

definition children :: "huff \<Rightarrow> nat \<Rightarrow> nat list" where
  "children h i = [nat (t_left h i), nat (t_right h i)]"

definition inner_at :: "huff \<Rightarrow> nat \<Rightarrow> bool" where
  "inner_at h i \<longleftrightarrow> 0 \<le> t_left h i \<and> t_left h i < int i \<and> 0 \<le> t_right h i \<and> t_right h i < int i"

text \<open>
  Every node below the current size is either in the heap or the child of exactly one inner
  node; an inner node is newer than its children.
\<close>

definition tree_inv :: "u8 list \<Rightarrow> nat \<Rightarrow> huff \<Rightarrow> bool" where
  "tree_inv cs ts h \<longleftrightarrow> h_tree_size h = int ts \<and> length cs \<le> ts \<and> length cs \<le> 256 \<and>
     (\<forall>i < length cs. leaf_at h i (cs ! i)) \<and> (\<forall>i. length cs \<le> i \<and> i < ts \<longrightarrow> inner_at h i) \<and>
     heap_ms h + mset (concat (map (children h) [length cs..<ts])) = mset [0..<ts] \<and>
     h_heap_size h + ts = 2 * length cs"

definition add_inner :: "int \<Rightarrow> int \<Rightarrow> huff \<Rightarrow> huff" where
  "add_inner l r h = h\<lparr>h_tree := set_inner (nat (h_tree_size h)) (t_freq h (nat l) + t_freq h (nat r)) l r (h_tree h),
     h_tree_size := h_tree_size h + 1\<rparr>"

lemma merge_step:
  assumes "1 < h_heap_size h" "extract_min h = (l, h1)" "extract_min h1 = (r, h2)"
  shows "merge_nodes h = merge_nodes (insert_heap (nat (h_tree_size h2)) (add_inner l r h2))"
  using assms by (subst merge_nodes.simps) (simp add: Let_def add_inner_def)

lemma add_inner_old:
  assumes "h_tree_size h = int ts" "i < ts"
  shows "leaf_at (add_inner l r h) i c = leaf_at h i c" "inner_at (add_inner l r h) i = inner_at h i"
    "children (add_inner l r h) i = children h i"
  using assms by (auto simp: add_inner_def leaf_at_def inner_at_def children_def t_defs set_inner_other)

lemma add_inner_new:
  assumes "h_tree_size h = int ts" "l < ts" "r < ts" "ts < 512"
  shows "inner_at (add_inner (int l) (int r) h) ts" "children (add_inner (int l) (int r) h) ts = [l, r]"
  using assms sint32_small [of "int l"] sint32_small [of "int r"]
  by (auto simp: add_inner_def inner_at_def children_def t_defs set_inner_same)

lemma tree_inv_insert [simp]:
  "inner_at (insert_heap n h) i = inner_at h i" "children (insert_heap n h) = children h"
  by (simp_all add: inner_at_def children_def t_defs insert_heap_size fun_eq_iff)

lemma tree_same:
  assumes "h_tree h' = h_tree h"
  shows "leaf_at h' = leaf_at h" "inner_at h' = inner_at h" "children h' = children h" "t_freq h' = t_freq h"
    "is_leaf h' = is_leaf h" "t_c h' = t_c h" "t_left h' = t_left h" "t_right h' = t_right h"
  by (intro ext, simp add: leaf_at_def inner_at_def children_def t_defs is_leaf_def assms)+

lemma merge_step_inv:
  assumes inv: "tree_inv cs ts h" and big: "1 < h_heap_size h"
    and l: "extract_min h = (l, h1)" and r: "extract_min h1 = (r, h2)"
  shows "tree_inv cs (Suc ts) (insert_heap (nat (h_tree_size h2)) (add_inner l r h2))"
proof -
  have sz: "h_heap_size h1 = h_heap_size h - 1" "h_heap_size h2 = h_heap_size h - 2"
    and tr: "h_tree h2 = h_tree h" and ts: "h_tree_size h2 = int ts"
    using extract_min_size [of h] extract_min_size [of h1] l r inv by (simp_all add: tree_inv_def)
  have 1: "0 < h_heap_size h" "0 < h_heap_size h1" using big sz by auto
  obtain a b where a: "l = int a" "a \<in># heap_ms h" "heap_ms h1 = heap_ms h - {#a#}"
    and b: "r = int b" "b \<in># heap_ms h1" "heap_ms h2 = heap_ms h1 - {#b#}"
    using extract_min_ms [OF 1(1) l] extract_min_ms [OF 1(2) r] by blast
  have "heap_ms h = add_mset a (heap_ms h1)" "heap_ms h1 = add_mset b (heap_ms h2)"
    using a(2,3) b(2,3) by (metis insert_DiffM)+
  then have hm: "heap_ms h = heap_ms h2 + {#a, b#}" by simp
  have all: "heap_ms h + mset (concat (map (children h) [length cs..<ts])) = mset [0..<ts]"
    and len: "h_heap_size h + ts = 2 * length cs" "length cs \<le> ts" "length cs \<le> 256"
    using inv by (auto simp: tree_inv_def)
  have "a \<in># mset [0..<ts]" "b \<in># mset [0..<ts]" unfolding all [symmetric] hm by simp_all
  then have ab: "a < ts" "b < ts" by auto
  have t512: "ts < 512" "h_heap_size h2 < MAX_HEAP_SIZE" using len big sz by (auto simp: MAX_HEAP_SIZE_def)
  let ?g = "add_inner l r h2"
  have ch: "concat (map (children ?g) [length cs..<ts]) = concat (map (children h) [length cs..<ts])"
    using add_inner_old(3) [OF ts] tree_same(3) [OF tr] by (intro arg_cong [where f = concat] map_cong) simp_all
  have new: "inner_at ?g ts" "children ?g ts = [a, b]"
    using add_inner_new [OF ts ab t512(1)] a b by simp_all
  have g: "heap_ms ?g = heap_ms h2" "h_heap_size ?g = h_heap_size h2" "h_tree_size ?g = int (Suc ts)"
    using ts by (simp_all add: add_inner_def)
  have "add_mset ts (heap_ms h2) + mset (concat (map (children ?g) [length cs..<Suc ts])) = mset [0..<Suc ts]"
    using all hm len new(2) ch by (simp add: add_mset_commute)
  moreover have "\<forall>i. length cs \<le> i \<and> i < Suc ts \<longrightarrow> inner_at ?g i"
    using inv new(1) add_inner_old(2) [OF ts] tree_same(2) [OF tr] by (auto simp: tree_inv_def less_Suc_eq)
  moreover have "\<forall>i < length cs. leaf_at ?g i (cs ! i)"
    using inv add_inner_old(1) [OF ts] tree_same(1) [OF tr] by (simp add: tree_inv_def)
  ultimately show ?thesis
    using len ts t512 g sz big by (simp add: tree_inv_def insert_heap_size insert_heap_ms)
qed

lemma merge_nodes_inv:
  "tree_inv cs ts h \<Longrightarrow> cs \<noteq> [] \<Longrightarrow> tree_inv cs (2 * length cs - 1) (merge_nodes h)"
proof (induction "h_heap_size h" arbitrary: h ts rule: less_induct)
  case less
  show ?case
  proof (cases "1 < h_heap_size h")
    case True
    obtain l h1 r h2 where e: "extract_min h = (l, h1)" "extract_min h1 = (r, h2)" by (metis surj_pair)
    let ?g = "insert_heap (nat (h_tree_size h2)) (add_inner l r h2)"
    note inv = merge_step_inv [OF less.prems(1) True e]
    have "h_heap_size ?g < h_heap_size h" using inv less.prems(1) by (simp add: tree_inv_def)
    from less.hyps [OF this inv less.prems(2)] show ?thesis by (simp add: merge_step [OF True e])
  next
    case False
    have "h_heap_size h = 1"
    proof (rule ccontr)
      assume "h_heap_size h \<noteq> 1"
      then have "h_heap_size h = 0" using False by simp
      then have z: "heap_ms h = {#}" using heap_ms_size [of h] by simp
      let ?k = "length cs"
      have "tree_inv cs ts h" by fact
      then have *: "mset (concat (map (children h) [?k..<ts])) = mset [0..<ts]" "ts = 2 * ?k"
        "\<forall>i. ?k \<le> i \<and> i < ts \<longrightarrow> inner_at h i" using z \<open>h_heap_size h = 0\<close> by (auto simp: tree_inv_def)
      then have "set (concat (map (children h) [?k..<ts])) = set [0..<ts]" by (metis set_mset_mset)
      moreover have "ts - 1 \<in> set [0..<ts]" using *(2) less.prems(2) by (cases cs) auto
      ultimately have "ts - 1 \<in> (\<Union>i \<in> {?k..<ts}. set (children h i))" by simp
      then obtain i where "?k \<le> i" "i < ts" "ts - 1 \<in> set (children h i)" by auto
      then show False using *(3) by (auto simp: children_def inner_at_def)
    qed
    then have "ts = 2 * length cs - 1" using less.prems(1) by (auto simp: tree_inv_def)
    then show ?thesis using less.prems(1) False by (subst merge_nodes.simps) simp
  qed
qed

lemma count_freq_pos:
  "\<forall>c. 0 \<le> f c \<Longrightarrow> (0 < count_freq input i n f c) = (0 < f c \<or> (\<exists>j. i \<le> j \<and> j < i + n \<and> input j = c))"
proof (induction n arbitrary: i f)
  case (Suc n)
  let ?f = "f(input i := f (input i) + 1)"
  have "\<forall>c. 0 \<le> ?f c" using Suc.prems by (simp add: add_nonneg_nonneg)
  from Suc.IH [OF this, of "Suc i"]
  have "(0 < count_freq input i (Suc n) f c) = (0 < ?f c \<or> (\<exists>j. Suc i \<le> j \<and> j < Suc i + n \<and> input j = c))"
    by (simp del: fun_upd_apply)
  moreover have "0 < ?f c \<longleftrightarrow> 0 < f c \<or> input i = c"
    using Suc.prems [rule_format, of "input i"] by auto
  moreover have "(\<exists>j. i \<le> j \<and> j < i + Suc n \<and> input j = c) \<longleftrightarrow>
      input i = c \<or> (\<exists>j. Suc i \<le> j \<and> j < Suc i + n \<and> input j = c)"
    by (metis Suc_leD Suc_le_eq add_Suc_right add_Suc le_add1 le_eq_less_or_eq less_add_Suc1)
  ultimately show ?case by blast
qed auto

lemma set_symbols: "set (symbols freq 256) = {c. 0 < freq c}"
proof -
  have "c \<in> of_nat ` {j. j < 256 \<and> 0 < freq (of_nat j)}" if "0 < freq c" for c :: u8
    using that unat8_less [of c] by (intro image_eqI [of _ _ "unat c"]) auto
  then show ?thesis by (auto simp: symbols_def)
qed

lemma distinct_symbols: "distinct (symbols freq 256)"
proof -
  have "inj_on (of_nat :: nat \<Rightarrow> u8) {j. j < 256}"
    by (intro inj_onI) (simp add: word_unat_eq_iff unat_of_nat)
  then show ?thesis by (auto simp: symbols_def distinct_map intro: inj_on_subset)
qed

definition alphabet :: "bytes \<Rightarrow> nat \<Rightarrow> u8 list" where
  "alphabet input n = symbols (count_freq input 0 n (\<lambda>_. 0)) 256"

lemma alphabet_props:
  "set (alphabet input n) = input ` {..<n}" "distinct (alphabet input n)" "length (alphabet input n) \<le> 256"
  using distinct_symbols symbols_length
  by (auto simp: alphabet_def set_symbols count_freq_pos)

lemma build_tree_inv:
  assumes "0 < n"
  shows "tree_inv (alphabet input n) (2 * length (alphabet input n) - 1) (build_tree input n h)"
proof -
  let ?f = "count_freq input 0 n (\<lambda>_. 0)" and ?h = "h\<lparr>h_tree_size := 0, h_heap_size := 0\<rparr>"
  have "leaves_inv ?f 0 ?h" by (simp add: leaves_inv_def symbols_def heap_ms_def)
  from make_leaves_inv [OF this, of 256]
  have lv: "leaves_inv ?f 256 (make_leaves ?f 0 256 ?h)" by simp
  have "tree_inv (alphabet input n) (length (alphabet input n)) (make_leaves ?f 0 256 ?h)"
    using lv heap_ms_size [of "make_leaves ?f 0 256 ?h"] symbols_length [of ?f 256]
    by (auto simp: leaves_inv_def tree_inv_def alphabet_def simp flip: mset_upt)
  moreover have "alphabet input n \<noteq> []" using alphabet_props(1) [of input n] assms by auto
  ultimately show ?thesis using merge_nodes_inv by (simp add: build_tree_def Let_def)
qed

section \<open>Bit streams\<close>

definition sbit :: "bytes \<Rightarrow> nat \<Rightarrow> bool" where
  "sbit d j = bit (d (j div 8)) (7 - j mod 8)"

text \<open>Nothing is set behind the current bit of the byte that is being written.\<close>

definition clean :: "bitpos \<Rightarrow> bool" where
  "clean p \<longleftrightarrow> (case p of (d, i, b) \<Rightarrow> b < 8 \<and> (b = 0 \<or> (\<forall>j. b \<le> j \<and> j < 8 \<longrightarrow> \<not> bit (d i) (7 - j))))"

definition bitno :: "bitpos \<Rightarrow> nat" where
  "bitno p = (case p of (d, i, b) \<Rightarrow> 8 * i + b)"

lemma write_bit_props:
  assumes "clean p" "write_bit x p = q"
  shows "clean q" "bitno q = bitno p + 1" "sbit (fst q) (bitno p) = x"
    "\<forall>j < bitno p. sbit (fst q) j = sbit (fst p) j" "\<forall>k < fst (snd p). fst q k = fst p k"
proof -
  obtain d i b where p: "p = (d, i, b)" by (cases p)
  have b: "b < 8" using assms p by (simp add: clean_def)
  let ?e = "if b = 0 then d(i := 0) else d"
  let ?d = "?e(i := ?e i OR push_bit (7 - b) (of_bool x))"
  have q: "fst q = ?d" "snd q = (if b = 7 then (i + 1, 0) else (i, b + 1))"
    using assms(2) b by (auto simp: p write_bit_def Let_def)
  have zero: "\<not> bit (?e i) (7 - j)" if "b \<le> j" "j < 8" for j
    using assms(1) that by (auto simp: p clean_def)
  have bits: "bit (?d i) (7 - j) = (if j = b then x else bit (?e i) (7 - j))" if "j < 8" for j
    using zero [of b] b that by (auto simp: bit_simps)
  show "clean q" using q b bits zero by (cases q) (auto simp: clean_def simp del: fun_upd_apply split: if_splits)
  show "bitno q = bitno p + 1" using q b by (cases q) (auto simp: bitno_def p split: if_splits)
  show "sbit (fst q) (bitno p) = x" using bits [OF b] q b by (simp add: sbit_def bitno_def p del: fun_upd_apply)
  show "\<forall>j < bitno p. sbit (fst q) j = sbit (fst p) j"
  proof (intro allI impI)
    fix j assume "j < bitno p"
    then have "8 * (j div 8) + j mod 8 < 8 * i + b" "j mod 8 < 8" by (simp_all add: bitno_def p)
    then consider "j div 8 < i" | "j div 8 = i" "j mod 8 < b" using b by linarith
    then show "sbit (fst q) j = sbit (fst p) j"
    proof cases
      case 2
      then have "bit (?d i) (7 - j mod 8) = bit (d i) (7 - j mod 8)" using bits [of "j mod 8"] by auto
      then show ?thesis using q(1) 2(1) by (simp add: sbit_def p del: fun_upd_apply)
    qed (auto simp: sbit_def p q(1))
  qed
  show "\<forall>k < fst (snd p). fst q k = fst p k" by (auto simp: q(1) p)
qed

lemma write_bits_props:
  assumes "clean p" "fold write_bit bs p = q"
  shows "clean q \<and> bitno q = bitno p + length bs \<and> (\<forall>j < length bs. sbit (fst q) (bitno p + j) = bs ! j) \<and>
    (\<forall>j < bitno p. sbit (fst q) j = sbit (fst p) j) \<and> (\<forall>k < fst (snd p). fst q k = fst p k) \<and>
    fst (snd p) \<le> fst (snd q)"
  using assms
proof (induction bs arbitrary: p)
  case (Cons x bs)
  let ?p = "write_bit x p"
  note w = write_bit_props [OF Cons.prems(1) refl, of x]
  have f: "fold write_bit bs ?p = q" using Cons.prems(2) by simp
  note ih = Cons.IH [OF w(1) f]
  have le: "fst (snd p) \<le> fst (snd ?p)" by (cases p) (auto simp: write_bit_def Let_def)
  have "sbit (fst q) (bitno p + j) = (x # bs) ! j" if "j < length (x # bs)" for j
    using that ih w(2,3) by (cases j) auto
  then show ?case using ih w(2,4,5) le by auto
qed simp

section \<open>Routes through the tree\<close>

text \<open>
  The branch the coder takes for a character, the bits it emits, and the leaf it ends in.
\<close>

inductive route :: "huff \<Rightarrow> u8 \<Rightarrow> nat \<Rightarrow> bool list \<Rightarrow> nat \<Rightarrow> bool" for h c where
  stop: "is_leaf h (int n) \<Longrightarrow> n < MAX_TREE_NODES \<Longrightarrow> route h c n [] n"
| left: "\<not> is_leaf h (int n) \<Longrightarrow> n < MAX_TREE_NODES \<Longrightarrow> t_left h n = int l \<Longrightarrow> l < MAX_TREE_NODES \<Longrightarrow>
    c < t_c h l \<Longrightarrow> route h c l bs m \<Longrightarrow> route h c n (False # bs) m"
| right: "\<not> is_leaf h (int n) \<Longrightarrow> n < MAX_TREE_NODES \<Longrightarrow> t_left h n = int l \<Longrightarrow> l < MAX_TREE_NODES \<Longrightarrow>
    \<not> c < t_c h l \<Longrightarrow> t_right h n = int r \<Longrightarrow> route h c r bs m \<Longrightarrow> route h c n (True # bs) m"

inductive_cases route_NilE: "route h c n [] m"

lemma node_ok_int [simp]: "node_ok (int n) \<longleftrightarrow> n < MAX_TREE_NODES"
  by (simp add: node_ok_def)

lemma encode_char_route:
  "route h c n bs m \<Longrightarrow> length bs < fuel \<Longrightarrow>
     \<exists>ok q. encode_char fuel h maxlen c (int n) p = Ok (ok, q) \<and> (ok \<longrightarrow> q = fold write_bit bs p)"
proof (induction arbitrary: fuel p rule: route.induct)
  case (stop n)
  then show ?case by (cases fuel) auto
next
  case (left n l bs m)
  obtain k where k: "fuel = Suc k" "length bs < k" using left.prems by (cases fuel) auto
  show ?case using left.hyps k(1) left.IH [OF k(2), of "write_bit False p"]
    by (cases "maxlen \<le> int (fst (snd p))") (simp_all add: Let_def, metis surj_pair)
next
  case (right n l r bs m)
  obtain k where k: "fuel = Suc k" "length bs < k" using right.prems by (cases fuel) auto
  show ?case using right.hyps k(1) right.IH [OF k(2), of "write_bit True p"]
    by (cases "maxlen \<le> int (fst (snd p))") (simp_all add: Let_def, metis surj_pair)
qed

lemma encode_all_routes:
  assumes "\<forall>c. route h c root (bits c) (leaf c) \<and> length (bits c) \<le> MAX_TREE_NODES"
    and "h_tree_size h - 1 = int root"
  shows "\<exists>ok q. encode_all h maxlen input i n p = Ok (ok, q) \<and>
    (ok \<longrightarrow> q = fold write_bit (concat (map (\<lambda>j. bits (input j)) [i..<i + n])) p)"
proof (induction n arbitrary: i p)
  case (Suc n)
  obtain ok q where e: "encode_char (Suc MAX_TREE_NODES) h maxlen (input i) (int root) p = Ok (ok, q)"
    "ok \<longrightarrow> q = fold write_bit (bits (input i)) p"
    using encode_char_route [of h "input i" root "bits (input i)" _ "Suc MAX_TREE_NODES" maxlen p] assms(1)
    by (metis less_Suc_eq_le)
  have "[i..<i + Suc n] = i # [Suc i..<Suc i + n]" by (simp add: upt_conv_Cons)
  then show ?case using e Suc.IH [of "Suc i" q] assms(2) by (cases ok) auto
qed auto

lemma read_bit_route:
  assumes "\<forall>j < length (x # bs). sbit input (8 * i + b + j) = (x # bs) ! j" "b < 8"
  obtains i' b' where "read_bit input (i, b) = (x, i', b')" "b' < 8" "8 * i' + b' = 8 * i + b + 1"
    "\<forall>j < length bs. sbit input (8 * i' + b' + j) = bs ! j"
proof -
  obtain y i' b' where r: "read_bit input (i, b) = (y, i', b')" by (cases "read_bit input (i, b)") auto
  note pr = read_bit_progress [OF assms(2) r]
  have "y = sbit input (8 * i + b)" using r assms(2) by (auto simp: read_bit_def Let_def sbit_def)
  then have "y = x" using assms(1) [rule_format, of 0] by simp
  moreover have "sbit input (8 * i' + b' + j) = bs ! j" if "j < length bs" for j
    using assms(1) [rule_format, of "Suc j"] that pr by simp
  ultimately show thesis using that r pr by blast
qed

lemma decode_walk_inner:
  assumes "\<not> is_leaf h (int n)" "n < MAX_TREE_NODES" "i < inlen" "b < 8" "read_bit input (i, b) = (x, q)"
  shows "decode_walk h input inlen (int n) (i, b) =
    decode_walk h input inlen (if x then t_right h n else t_left h n) q"
  using assms by (subst decode_walk.simps) simp

lemma decode_walk_route:
  "route h c n bs m \<Longrightarrow> b < 8 \<Longrightarrow> \<forall>j < length bs. sbit input (8 * i + b + j) = bs ! j \<Longrightarrow>
     8 * i + b + length bs \<le> 8 * inlen \<Longrightarrow>
     decode_walk h input inlen (int n) (i, b) =
       Ok (int m, (8 * i + b + length bs) div 8, (8 * i + b + length bs) mod 8)"
proof (induction arbitrary: i b rule: route.induct)
  case (stop n)
  then show ?case by (subst decode_walk.simps) auto
next
  case (left n l bs m)
  obtain i' b' where r: "read_bit input (i, b) = (False, i', b')" "b' < 8" "8 * i' + b' = 8 * i + b + 1"
    "\<forall>j < length bs. sbit input (8 * i' + b' + j) = bs ! j"
    by (rule read_bit_route [OF left.prems(2,1)])
  have "i < inlen" "8 * i' + b' + length bs \<le> 8 * inlen" using left.prems r(3) by simp_all
  then show ?case
    using left.IH [OF r(2,4)] decode_walk_inner [OF left.hyps(1,2) _ left.prems(1) r(1)] left.hyps(3) r(3)
    by simp
next
  case (right n l r bs m)
  obtain i' b' where rd: "read_bit input (i, b) = (True, i', b')" "b' < 8" "8 * i' + b' = 8 * i + b + 1"
    "\<forall>j < length bs. sbit input (8 * i' + b' + j) = bs ! j"
    by (rule read_bit_route [OF right.prems(2,1)])
  have "i < inlen" "8 * i' + b' + length bs \<le> 8 * inlen" using right.prems rd(3) by simp_all
  then show ?case
    using right.IH [OF rd(2,4)] decode_walk_inner [OF right.hyps(1,2) _ right.prems(1) rd(1)] right.hyps(6) rd(3)
    by simp
qed

text \<open>A tree whose inner nodes point to older nodes; every walk in it ends.\<close>

definition descending :: "huff \<Rightarrow> nat \<Rightarrow> bool" where
  "descending h ts \<longleftrightarrow> ts \<le> MAX_TREE_NODES \<and> (\<forall>i < ts. is_leaf h (int i) \<or> inner_at h i)"

lemma inner_not_leaf: "inner_at h i \<Longrightarrow> \<not> is_leaf h (int i)"
  by (auto simp: inner_at_def is_leaf_def)

lemma leaf_at_leaf: "leaf_at h i c \<Longrightarrow> is_leaf h (int i)"
  by (simp add: leaf_at_def is_leaf_def)

lemma inner_atE:
  assumes "inner_at h n"
  obtains l r where "t_left h n = int l" "l < n" "t_right h n = int r" "r < n"
  using assms by (metis inner_at_def nonneg_int_cases of_nat_less_iff)

lemma route_exists:
  assumes "descending h ts" "n < ts"
  shows "\<exists>bs m. route h c n bs m \<and> length bs \<le> n"
  using assms(2)
proof (induction n rule: less_induct)
  case (less n)
  have n: "n < MAX_TREE_NODES" using assms(1) less.prems by (simp add: descending_def)
  show ?case
  proof (cases "is_leaf h (int n)")
    case True
    then show ?thesis using n by (intro exI [of _ "[]"] exI [of _ n]) (simp add: route.stop)
  next
    case False
    then have "inner_at h n" using assms(1) less.prems by (auto simp: descending_def)
    then obtain l r where lr: "t_left h n = int l" "l < n" "t_right h n = int r" "r < n" by (rule inner_atE)
    show ?thesis
    proof (cases "c < t_c h l")
      case True
      obtain bs m where "route h c l bs m" "length bs \<le> l" using less.IH [OF lr(2)] lr less.prems by force
      then show ?thesis using route.left [OF False n lr(1) _ True] lr n
        by (intro exI [of _ "False # bs"] exI [of _ m]) auto
    next
      case ge: False
      obtain bs m where "route h c r bs m" "length bs \<le> r" using less.IH [OF lr(4)] lr less.prems by force
      then show ?thesis using route.right [OF False n lr(1) _ ge lr(3)] lr n
        by (intro exI [of _ "True # bs"] exI [of _ m]) auto
    qed
  qed
qed

lemma route_leaf: "route h c n bs m \<Longrightarrow> is_leaf h (int m)"
  by (induction rule: route.induct)

lemma route_bound:
  assumes "descending h ts"
  shows "route h c n bs m \<Longrightarrow> n < ts \<Longrightarrow> m < ts"
proof (induction rule: route.induct)
  case (left n l bs m)
  then have "inner_at h n" using assms by (auto simp: descending_def)
  then show ?case using left by (auto simp: inner_at_def)
next
  case (right n l r bs m)
  then have "inner_at h n" using assms by (auto simp: descending_def)
  then show ?case using right by (auto simp: inner_at_def)
qed

lemma decode_walk_ok:
  "descending h ts \<Longrightarrow> 0 \<le> n \<Longrightarrow> n < int ts \<Longrightarrow> \<exists>m q. decode_walk h input inlen n q0 = Ok (m, q)"
proof (induction h input inlen n q0 rule: decode_walk.induct)
  case (1 h input inlen n i b)
  have n: "node_ok n" using "1.prems" by (auto simp: descending_def node_ok_def)
  show ?case
  proof (cases "is_leaf h n \<or> inlen \<le> i \<or> 8 \<le> b")
    case True
    then show ?thesis using n by (subst decode_walk.simps) auto
  next
    case False
    have "n = int (nat n)" "nat n < ts" using "1.prems" by simp_all
    then have inner: "inner_at h (nat n)" using "1.prems"(1) False unfolding descending_def by metis
    obtain x q where r: "read_bit input (i, b) = (x, q)" by (cases "read_bit input (i, b)")
    let ?m = "if x then t_right h (nat n) else t_left h (nat n)"
    have "0 \<le> ?m" "?m < int ts" using inner "1.prems" by (auto simp: inner_at_def)
    then have "\<exists>m q'. decode_walk h input inlen ?m q = Ok (m, q')"
      using "1.IH" [OF _ _ _ r [symmetric] refl "1.prems"(1)] n False by simp
    then show ?thesis using n False r by (subst decode_walk.simps) simp
  qed
qed

lemma decode_all_ok:
  "descending h ts \<Longrightarrow> h_tree_size h = int ts \<Longrightarrow> 0 < ts \<Longrightarrow>
     \<exists>r buf'. decode_all h input inlen maxlen q buf k = Ok (r, buf') \<and> k \<le> r \<and> (\<forall>j<k. buf' j = buf j)"
proof (induction h input inlen maxlen q buf k rule: decode_all.induct)
  case (1 h input inlen maxlen i b buf k)
  show ?case
  proof (cases "i < inlen \<and> k < maxlen \<and> b < 8")
    case True
    obtain m q where w: "decode_walk h input inlen (h_tree_size h - 1) (i, b) = Ok (m, q)"
      using decode_walk_ok [OF "1.prems"(1), of "h_tree_size h - 1"] "1.prems" by force
    show ?thesis
    proof (cases "is_leaf h m")
      case leaf: True
      obtain r buf' where "decode_all h input inlen maxlen q (buf(k := t_c h (nat m))) (k + 1) = Ok (r, buf')"
        "k + 1 \<le> r" "\<forall>j<k + 1. buf' j = (buf(k := t_c h (nat m))) j"
        using "1.IH"(1) [OF True w refl leaf "1.prems"] by blast
      then show ?thesis using True w leaf by (subst decode_all.simps) auto
    next
      case inner: False
      show ?thesis using "1.IH"(2) [OF True w refl inner "1.prems"] True w inner
        by (subst decode_all.simps) simp
    qed
  qed (subst decode_all.simps, auto)
qed

text \<open>The characters of \<open>cs\<close> written to \<open>buf\<close> from \<open>k\<close> on.\<close>

definition put_list :: "bytes \<Rightarrow> nat \<Rightarrow> u8 list \<Rightarrow> bytes" where
  "put_list buf k cs = (\<lambda>j. if k \<le> j \<and> j < k + length cs then cs ! (j - k) else buf j)"

lemma put_list_Nil [simp]: "put_list buf k [] = buf"
  by (rule ext) (auto simp: put_list_def)

lemma put_list_Cons: "put_list buf k (c # cs) = put_list (buf(k := c)) (k + 1) cs"
proof
  fix j
  consider "j = k" | "k + 1 \<le> j" | "j < k" by linarith
  then show "put_list buf k (c # cs) j = put_list (buf(k := c)) (k + 1) cs j"
    by cases (auto simp: put_list_def nth_Cons')
qed

lemma decode_all_routes:
  assumes rt: "\<forall>c. route h c root (bits c) (leaf c) \<and> bits c \<noteq> []" "h_tree_size h - 1 = int root"
  shows "\<forall>j < length (concat (map bits cs)). sbit data (S + j) = concat (map bits cs) ! j \<Longrightarrow>
    S + length (concat (map bits cs)) \<le> 8 * inlen \<Longrightarrow> k + length cs \<le> maxlen \<Longrightarrow>
    \<exists>q. decode_all h data inlen maxlen (S div 8, S mod 8) buf k =
      decode_all h data inlen maxlen q (put_list buf k (map (\<lambda>c. t_c h (leaf c)) cs)) (k + length cs)"
proof (induction cs arbitrary: S buf k)
  case (Cons c cs)
  let ?n = "length (bits c)" and ?rest = "concat (map bits cs)"
  have here: "sbit data (S + j) = bits c ! j" if "j < ?n" for j
    using Cons.prems(1) [rule_format, of j] that by (simp add: nth_append)
  have later: "sbit data (S + ?n + j) = ?rest ! j" if "j < length ?rest" for j
    using Cons.prems(1) [rule_format, of "?n + j"] that by (simp add: add.assoc)
  have w: "decode_walk h data inlen (int root) (S div 8, S mod 8) =
      Ok (int (leaf c), (S + ?n) div 8, (S + ?n) mod 8)"
    using decode_walk_route [of h c root "bits c" "leaf c" "S mod 8" data "S div 8" inlen] rt(1) here
      Cons.prems(2) by simp
  have "S < 8 * inlen" using Cons.prems(2) rt(1) by (cases "bits c") auto
  then have i: "S div 8 < inlen" by (simp add: less_mult_imp_div_less mult.commute)
  have "is_leaf h (int (leaf c))" using rt(1) route_leaf by blast
  then have "decode_all h data inlen maxlen (S div 8, S mod 8) buf k =
      decode_all h data inlen maxlen ((S + ?n) div 8, (S + ?n) mod 8) (buf(k := t_c h (leaf c))) (k + 1)"
    using w i rt(2) Cons.prems(3) by (subst decode_all.simps) simp
  moreover have "\<exists>q. decode_all h data inlen maxlen ((S + ?n) div 8, (S + ?n) mod 8) (buf(k := t_c h (leaf c))) (k + 1) =
      decode_all h data inlen maxlen q
        (put_list (buf(k := t_c h (leaf c))) (k + 1) (map (\<lambda>c. t_c h (leaf c)) cs)) (k + 1 + length cs)"
    using later Cons.prems(2,3) by (intro Cons.IH) (simp_all add: add.assoc)
  ultimately show ?case by (simp add: put_list_Cons)
qed auto

section \<open>Round trips\<close>

lemma tree_inv_descending: "tree_inv cs ts h \<Longrightarrow> 0 < h_heap_size h \<Longrightarrow> descending h ts"
proof -
  assume inv: "tree_inv cs ts h" and "0 < h_heap_size h"
  then have "ts \<le> MAX_TREE_NODES" by (auto simp: tree_inv_def MAX_TREE_NODES_def)
  moreover have "is_leaf h (int i) \<or> inner_at h i" if "i < ts" for i
    using inv that leaf_at_leaf by (cases "i < length cs") (auto simp: tree_inv_def)
  ultimately show ?thesis by (simp add: descending_def)
qed

text \<open>The left child of the first inner node is a leaf and nobody's right child.\<close>

lemma left_leaf:
  assumes inv: "tree_inv cs ts h" and two: "length cs < ts"
  obtains l where "t_left h (length cs) = int l" "l < length cs" "\<forall>q. length cs \<le> q \<and> q < ts \<longrightarrow> t_right h q \<noteq> int l"
proof -
  let ?k = "length cs"
  have "inner_at h ?k" using inv two by (simp add: tree_inv_def)
  then obtain l r where l: "t_left h ?k = int l" "l < ?k" "t_right h ?k = int r" by (rule inner_atE)
  obtain ys where "mset ys = heap_ms h" using ex_mset by blast
  then have "mset (concat (map (children h) [?k..<ts]) @ ys) = mset [0..<ts]"
    using inv by (simp add: tree_inv_def ac_simps)
  then have "distinct (concat (map (children h) [?k..<ts]) @ ys)" by (metis mset_eq_imp_distinct_iff distinct_upt)
  then have "distinct (concat (map (children h) (?k # [Suc ?k..<ts])))"
    using two by (simp only: upt_conv_Cons distinct_append)
  then have d: "distinct (children h ?k @ concat (map (children h) [Suc ?k..<ts]))" by simp
  have "t_right h q \<noteq> int l" if "?k \<le> q" "q < ts" for q
  proof (cases "q = ?k")
    case True
    then show ?thesis using d l by (auto simp: children_def)
  next
    case False
    then have "nat (t_right h q) \<in> set (concat (map (children h) [Suc ?k..<ts]))"
      using that by (auto simp: children_def intro!: bexI [of _ q])
    then show ?thesis using d l by (auto simp: children_def)
  qed
  then show thesis using that l by blast
qed

text \<open>The coder never ends in that leaf when it is asked to encode its character.\<close>

lemma route_misses:
  assumes inv: "tree_inv cs ts h" and d: "descending h ts"
    and l: "l < length cs" "\<forall>q. length cs \<le> q \<and> q < ts \<longrightarrow> t_right h q \<noteq> int l"
  shows "route h (cs ! l) n bs m \<Longrightarrow> n < ts \<Longrightarrow> n \<noteq> l \<Longrightarrow> m \<noteq> l"
proof (induction rule: route.induct)
  case (left n i bs m)
  then have "inner_at h n" using d by (auto simp: descending_def)
  moreover have "i \<noteq> l" using inv l(1) left.hyps(5) by (auto simp: tree_inv_def leaf_at_def)
  ultimately show ?case using left by (auto simp: inner_at_def)
next
  case (right n i r bs m)
  then have n: "inner_at h n" using d by (auto simp: descending_def)
  have "length cs \<le> n" using inv right.hyps(1) unfolding tree_inv_def by (metis leaf_at_leaf not_le)
  then have "r \<noteq> l" using l(2) right.prems(1) right.hyps(6) by auto
  then show ?case using n right by (auto simp: inner_at_def)
qed simp

lemma lost_symbol:
  assumes inv: "tree_inv cs ts h" and d: "descending h ts" and two: "length cs < ts" and "distinct cs"
  shows "\<exists>x \<in> set cs. \<forall>bs m. route h x (ts - 1) bs m \<longrightarrow> t_c h m \<noteq> x"
proof -
  obtain l where l: "l < length cs" "\<forall>q. length cs \<le> q \<and> q < ts \<longrightarrow> t_right h q \<noteq> int l"
    using left_leaf [OF inv two] by metis
  have "t_c h m \<noteq> cs ! l" if r: "route h (cs ! l) (ts - 1) bs m" for bs m
  proof -
    have root: "ts - 1 < ts" "ts - 1 \<noteq> l" using two l(1) by auto
    have "m \<noteq> l" by (rule route_misses [OF inv d l r root])
    have "m < length cs"
      using route_leaf [OF r] route_bound [OF d r root(1)] inv unfolding tree_inv_def by (metis inner_not_leaf not_le)
    then show ?thesis using inv l(1) \<open>m \<noteq> l\<close> assms(4) by (simp add: tree_inv_def leaf_at_def nth_eq_iff_index_eq)
  qed
  then show ?thesis using l(1) by (meson nth_mem)
qed

lemma node_same:
  assumes "\<forall>j < 16 * ts. h_tree h' j = h_tree h j" "i < ts"
  shows "t_c h' i = t_c h i" "t_left h' i = t_left h i" "t_right h' i = t_right h i"
    "is_leaf h' (int i) = is_leaf h (int i)" "inner_at h' i = inner_at h i"
proof -
  have "get32 (h_tree h') (16 * i + k) = get32 (h_tree h) (16 * i + k)" if "k \<le> 12" for k
    using assms that by (intro get32_cong) auto
  then show "t_c h' i = t_c h i" "t_left h' i = t_left h i" "t_right h' i = t_right h i"
    "is_leaf h' (int i) = is_leaf h (int i)" "inner_at h' i = inner_at h i"
    using assms by (simp_all add: t_defs is_leaf_def inner_at_def)
qed

lemma descending_same:
  assumes "\<forall>j < 16 * ts. h_tree h' j = h_tree h j" "descending h ts"
  shows "descending h' ts"
  using assms node_same(4,5) [OF assms(1)] by (simp add: descending_def)

lemma route_same:
  assumes eq: "\<forall>j < 16 * ts. h_tree h' j = h_tree h j" and d: "descending h ts"
  shows "route h c n bs m \<Longrightarrow> n < ts \<Longrightarrow> route h' c n bs m"
proof (induction rule: route.induct)
  case (stop n)
  then show ?case using node_same(4) [OF eq] by (intro route.stop) auto
next
  case (left n l bs m)
  then have "inner_at h n" using d by (auto simp: descending_def)
  then have "l < ts" using left by (auto simp: inner_at_def)
  then show ?case using left node_same [OF eq] by (intro route.left [of _ n l]) auto
next
  case (right n l r bs m)
  then have "inner_at h n" using d by (auto simp: descending_def)
  then have "l < ts" "r < ts" using right by (auto simp: inner_at_def)
  then show ?case using right node_same [OF eq] by (intro route.right [of _ n l _ r]) auto
qed

text \<open>The coder's view of a tree: for every character the bits and the leaf of its route.\<close>

definition coder :: "huff \<Rightarrow> nat \<Rightarrow> (u8 \<Rightarrow> bool list) \<Rightarrow> (u8 \<Rightarrow> nat) \<Rightarrow> bool" where
  "coder h ts bits leaf \<longleftrightarrow> (\<forall>c. route h c (ts - 1) (bits c) (leaf c) \<and> length (bits c) \<le> MAX_TREE_NODES \<and> leaf c < ts)"

lemma coder_exists:
  assumes "descending h ts" "0 < ts"
  obtains bits leaf where "coder h ts bits leaf"
proof -
  have "\<forall>c. \<exists>bs m. route h c (ts - 1) bs m \<and> length bs \<le> MAX_TREE_NODES \<and> m < ts"
  proof
    fix c
    obtain bs m where r: "route h c (ts - 1) bs m" "length bs \<le> ts - 1"
      using route_exists [OF assms(1), of "ts - 1"] assms(2) by force
    then have "m < ts" using route_bound [OF assms(1) r(1)] assms(2) by simp
    moreover have "length bs \<le> MAX_TREE_NODES" using r(2) assms(1) by (auto simp: descending_def)
    ultimately show "\<exists>bs m. route h c (ts - 1) bs m \<and> length bs \<le> MAX_TREE_NODES \<and> m < ts"
      using r(1) by blast
  qed
  then show thesis using that unfolding coder_def by metis
qed

abbreviation code_bits :: "(u8 \<Rightarrow> bool list) \<Rightarrow> bytes \<Rightarrow> nat \<Rightarrow> bool list" where
  "code_bits bits input n \<equiv> concat (map bits (map input [0..<n]))"

text \<open>What a successful \<^verbatim>\<open>compress_huffman\<close> wrote.\<close>

lemma compress_ok:
  assumes "compress_huffman input inlen buf maxlen h = Ok (r, cmp, h1)" "0 < r"
    and ts: "h_tree_size h1 = int ts" "ts \<le> MAX_TREE_NODES" "0 < ts" and cd: "coder h1 ts bits leaf"
  shows "h1 = build_tree input (nat inlen) h" "0 < inlen" "r < inlen"
    "sint (get32 cmp 0) = int ts" "\<forall>j < 16 * ts. cmp (4 + j) = h_tree h1 j" "4 + 16 * ts \<le> nat r"
    "\<forall>j < length (code_bits bits input (nat inlen)).
       sbit cmp (8 * (4 + 16 * ts) + j) = code_bits bits input (nat inlen) ! j"
    "8 * (4 + 16 * ts) + length (code_bits bits input (nat inlen)) \<le> 8 * nat r"
    "bits = (\<lambda>_. []) \<Longrightarrow> nat r = 4 + 16 * ts"
proof -
  let ?T = "build_tree input (nat inlen) h"
  have len: "0 < inlen" "0 < maxlen" using assms(1,2) by (auto simp: compress_huffman_def split: if_splits)
  show "0 < inlen" by fact
  let ?tb = "16 * nat (h_tree_size ?T)"
  let ?o = "move_bytes (put32 buf 0 (of_int (h_tree_size ?T))) 4 (h_tree ?T) 0 ?tb"
  have run: "obind (encode_all ?T maxlen input 0 (nat inlen) (?o, 4 + ?tb, 0))
      (\<lambda>(ok, d, i, b). if \<not> ok then Ok (- 1, d, ?T)
        else let i = (if b > 0 then i + 1 else i) in if int i \<ge> inlen then Ok (- 1, d, ?T) else Ok (int i, d, ?T))
      = Ok (r, cmp, h1)"
    using assms(1,2) len by (auto simp: compress_huffman_def Let_def split: if_splits)
  then obtain ok d i b where e: "encode_all ?T maxlen input 0 (nat inlen) (?o, 4 + ?tb, 0) = Ok (ok, d, i, b)"
    by (auto simp: obind_Ok_iff)
  then have res: "ok" "cmp = d" "h1 = ?T" "r = int (if b > 0 then i + 1 else i)" "r < inlen"
    using run assms(2) by (auto simp: Let_def split: if_splits)
  show "h1 = ?T" "r < inlen" by fact+
  have tb: "?tb = 16 * ts" using ts res(3) by simp
  have root: "h_tree_size ?T - 1 = int (ts - 1)" using ts(1,3) res(3) by simp
  have fl: "fold write_bit (code_bits bits input (nat inlen)) (?o, 4 + ?tb, 0) = (d, i, b)"
    using encode_all_routes [OF _ root, of bits leaf maxlen input 0 "nat inlen" "(?o, 4 + ?tb, 0)"] cd res(1,3) e
    by (auto simp: coder_def comp_def)
  have cl: "clean (?o, 4 + ?tb, 0)" by (simp add: clean_def)
  have w: "clean (d, i, b)" "bitno (d, i, b) = 8 * (4 + 16 * ts) + length (code_bits bits input (nat inlen))"
    "\<forall>j < length (code_bits bits input (nat inlen)). sbit d (8 * (4 + 16 * ts) + j) = code_bits bits input (nat inlen) ! j"
    "\<forall>k < 4 + 16 * ts. d k = ?o k" "4 + 16 * ts \<le> i"
    using write_bits_props [OF cl fl] tb by (simp_all add: bitno_def del: length_concat)
  have nr: "nat r = (if b > 0 then i + 1 else i)" using res(4) by simp
  have b8: "b < 8" using w(1) by (simp add: clean_def)
  have "get32 cmp 0 = get32 (put32 buf 0 (of_int (int ts))) 0"
    using w(4) res(2,3) ts(1) by (intro get32_cong) (simp add: move_bytes_def)
  then show "sint (get32 cmp 0) = int ts" using sint32_small [of "int ts"] ts(2) by (simp add: MAX_TREE_NODES_def)
  show "\<forall>j < 16 * ts. cmp (4 + j) = h_tree h1 j" using w(4) res(2,3) tb by (simp add: move_bytes_def)
  show "4 + 16 * ts \<le> nat r" using w(5) nr by simp
  show "\<forall>j < length (code_bits bits input (nat inlen)).
       sbit cmp (8 * (4 + 16 * ts) + j) = code_bits bits input (nat inlen) ! j" using w(3) res(2) by simp
  show "8 * (4 + 16 * ts) + length (code_bits bits input (nat inlen)) \<le> 8 * nat r"
    using w(2) b8 nr by (simp add: bitno_def)
  show "nat r = 4 + 16 * ts" if "bits = (\<lambda>_. [])"
  proof -
    have "code_bits bits input (nat inlen) = []" using that by simp
    then have "8 * i + b = 8 * (4 + 16 * ts)" using w(2) by (simp add: bitno_def)
    then have "b = 0" using b8 by presburger
    then show ?thesis using \<open>8 * i + b = _\<close> nr by simp
  qed
qed

lemma decompress_eq:
  assumes "0 < inlen" "0 < maxlen" "sint (get32 input 0) = int ts" "0 < ts" "ts \<le> MAX_TREE_NODES" "4 + 16 * ts \<le> nat inlen"
  shows "decompress_huffman input inlen buf maxlen h =
    (let h = h\<lparr>h_tree_size := int ts, h_tree := move_bytes (h_tree h) 0 input 4 (16 * ts)\<rparr>
     in obind (decode_all h input (nat inlen) (nat maxlen) (4 + 16 * ts, 0) buf 0)
          (\<lambda>(out_pos, d). Ok (int out_pos, d, h)))"
proof -
  have "\<not> inlen < 4 + 16 * int ts" using assms(1,6) by linarith
  then show ?thesis using assms by (simp add: decompress_huffman_def Let_def)
qed

text \<open>Decoding a prefix of the input gives the leaves of its routes; the rest leaves them alone.\<close>

lemma decode_prefix:
  assumes d: "descending h ts" "h_tree_size h = int ts" "0 < ts" and cd: "coder h ts bits leaf" "\<forall>c. bits c \<noteq> []"
    and s: "\<forall>j < length (code_bits bits input n). sbit data (8 * S + j) = code_bits bits input n ! j"
    and len: "8 * S + length (code_bits bits input n) \<le> 8 * inlen" and i: "i < n" "n \<le> maxlen"
  shows "\<exists>r buf'. decode_all h data inlen maxlen (S, 0) buf 0 = Ok (r, buf') \<and> buf' i = t_c h (leaf (input i))"
proof -
  let ?cs = "map input [0..<Suc i]"
  have "[0..<n] = [0..<Suc i] @ [Suc i..<n]" using i(1) upt_add_eq_append [of 0 "Suc i" "n - Suc i"] by (simp del: upt_Suc)
  then have pre: "code_bits bits input n = concat (map bits ?cs) @ concat (map bits (map input [Suc i..<n]))"
    by simp
  have "\<exists>q. decode_all h data inlen maxlen (8 * S div 8, 8 * S mod 8) buf 0 =
      decode_all h data inlen maxlen q (put_list buf 0 (map (\<lambda>c. t_c h (leaf c)) ?cs)) (0 + length ?cs)"
  proof (rule decode_all_routes)
    show "\<forall>c. route h c (ts - 1) (bits c) (leaf c) \<and> bits c \<noteq> []" using cd by (simp add: coder_def)
    show "h_tree_size h - 1 = int (ts - 1)" using d by simp
    show "\<forall>j < length (concat (map bits ?cs)). sbit data (8 * S + j) = concat (map bits ?cs) ! j"
      using s unfolding pre by (metis length_append nth_append trans_less_add1)
    show "8 * S + length (concat (map bits ?cs)) \<le> 8 * inlen"
      using len unfolding pre length_append by linarith
    show "0 + length ?cs \<le> maxlen" using i by simp
  qed
  then obtain q where "decode_all h data inlen maxlen (S, 0) buf 0 =
      decode_all h data inlen maxlen q (put_list buf 0 (map (\<lambda>c. t_c h (leaf c)) ?cs)) (Suc i)" by auto
  then show ?thesis
    using decode_all_ok [OF d, of data inlen maxlen q "put_list buf 0 (map (\<lambda>c. t_c h (leaf c)) ?cs)" "Suc i"]
    by (auto simp: put_list_def simp del: upt_Suc)
qed

lemma lossy_many:
  assumes run: "compress_huffman input inlen buf0 maxlen h = Ok (r, cmp, T)" "0 < r"
    and inv: "tree_inv (alphabet input (nat inlen)) ts T" and d: "descending T ts"
    and two: "length (alphabet input (nat inlen)) < ts"
  shows "\<exists>r2 d2 h2. decompress_huffman cmp r buf inlen g = Ok (r2, d2, h2) \<and> (\<exists>i < nat inlen. d2 i \<noteq> input i)"
proof -
  have ts: "h_tree_size T = int ts" "ts \<le> MAX_TREE_NODES" "0 < ts" using inv d two by (auto simp: tree_inv_def descending_def)
  obtain bits leaf where cd: "coder T ts bits leaf" using coder_exists [OF d ts(3)] .
  note c = compress_ok [OF run ts cd]
  let ?h = "g\<lparr>h_tree_size := int ts, h_tree := move_bytes (h_tree g) 0 cmp 4 (16 * ts)\<rparr>"
  have same: "\<forall>j < 16 * ts. h_tree ?h j = h_tree T j" using c(5) by (simp add: move_bytes_def)
  note d' = descending_same [OF same d]
  have cd': "coder ?h ts bits leaf" using cd route_same [OF same d] ts(3) by (simp add: coder_def)
  have "inner_at T (ts - 1)" using inv two by (auto simp: tree_inv_def)
  then have ne: "\<forall>c. bits c \<noteq> []" using cd inner_not_leaf unfolding coder_def by (metis route_NilE)
  obtain x where x: "x \<in> set (alphabet input (nat inlen))" "t_c T (leaf x) \<noteq> x"
    using lost_symbol [OF inv d two alphabet_props(2)] cd by (auto simp: coder_def)
  then obtain i where i: "i < nat inlen" "input i = x" using alphabet_props(1) by auto
  have "t_c ?h (leaf x) \<noteq> x" using x(2) node_same(1) [OF same] cd by (simp add: coder_def)
  moreover obtain r2 d2 where "decode_all ?h cmp (nat r) (nat inlen) (4 + 16 * ts, 0) buf 0 = Ok (r2, d2)"
    "d2 i = t_c ?h (leaf (input i))"
    using decode_prefix [OF d' _ ts(3) cd' ne c(7,8) i(1), of "nat inlen" buf] by auto
  ultimately show ?thesis
    using decompress_eq [OF \<open>0 < r\<close> c(2,4) ts(3,2) c(6), of buf g] i by (auto simp: Let_def)
qed

lemma lossy_one:
  assumes run: "compress_huffman input inlen buf0 maxlen h = Ok (r, cmp, T)" "0 < r"
    and inv: "tree_inv cs 1 T" "length cs = 1"
  shows "\<exists>d2 h2. decompress_huffman cmp r buf inlen g = Ok (0, d2, h2) \<and> inlen \<noteq> 0"
proof -
  have leaf: "is_leaf T 0" using inv leaf_at_leaf [of T 0] by (auto simp: tree_inv_def)
  have ts: "h_tree_size T = int 1" "1 \<le> MAX_TREE_NODES" "0 < (1 :: nat)" using inv by (auto simp: tree_inv_def MAX_TREE_NODES_def)
  have "coder T 1 (\<lambda>_. []) (\<lambda>_. 0)" using leaf ts by (auto simp: coder_def intro!: route.stop)
  note c = compress_ok [OF run ts this]
  show ?thesis
    using decompress_eq [OF \<open>0 < r\<close> c(2,4) ts(3,2) c(6), of buf g] c(2) c(9) [OF refl]
    by (simp add: Let_def decode_all.simps)
qed

lemma encode_char_fits:
  "route h c n bs m \<Longrightarrow> length bs < fuel \<Longrightarrow> clean p \<Longrightarrow> int (bitno p + length bs) \<le> 8 * maxlen \<Longrightarrow>
     encode_char fuel h maxlen c (int n) p = Ok (True, fold write_bit bs p)"
proof (induction arbitrary: fuel p rule: route.induct)
  case (stop n)
  then show ?case by (cases fuel) auto
next
  case (left n l bs m)
  obtain k where k: "fuel = Suc k" "length bs < k" using left.prems(1) by (cases fuel) auto
  have "\<not> maxlen \<le> int (fst (snd p))" using left.prems(3) by (cases p) (auto simp: bitno_def)
  moreover note write_bit_props(1,2) [OF left.prems(2) refl, of False]
  ultimately show ?case using left.hyps k(1) left.IH [OF k(2), of "write_bit False p"] left.prems(3)
    by (simp add: Let_def)
next
  case (right n l r bs m)
  obtain k where k: "fuel = Suc k" "length bs < k" using right.prems(1) by (cases fuel) auto
  have "\<not> maxlen \<le> int (fst (snd p))" using right.prems(3) by (cases p) (auto simp: bitno_def)
  moreover note write_bit_props(1,2) [OF right.prems(2) refl, of True]
  ultimately show ?case using right.hyps k(1) right.IH [OF k(2), of "write_bit True p"] right.prems(3)
    by (simp add: Let_def)
qed

lemma encode_all_fits:
  assumes "\<forall>c. route h c root (bits c) (leaf c) \<and> length (bits c) \<le> k" "k \<le> MAX_TREE_NODES"
    and "h_tree_size h - 1 = int root"
  shows "clean p \<Longrightarrow> int (bitno p + n * k) \<le> 8 * maxlen \<Longrightarrow>
    \<exists>q. encode_all h maxlen input i n p = Ok (True, q) \<and> clean q \<and> bitno q \<le> bitno p + n * k \<and>
      fst (snd p) \<le> fst (snd q)"
proof (induction n arbitrary: i p)
  case (Suc n)
  let ?bs = "bits (input i)" let ?q = "fold write_bit ?bs p"
  have l: "length ?bs \<le> k" "length ?bs < Suc MAX_TREE_NODES" using assms(1,2) by (auto intro: le_imp_less_Suc le_trans)
  have e: "encode_char (Suc MAX_TREE_NODES) h maxlen (input i) (h_tree_size h - 1) p = Ok (True, ?q)"
    unfolding assms(3)
  proof (rule encode_char_fits [OF _ l(2) Suc.prems(1)])
    show "route h (input i) root ?bs (leaf (input i))" using assms(1) by blast
    have "bitno p + length ?bs \<le> bitno p + Suc n * k" using l(1) by (simp add: trans_le_add1)
    then show "int (bitno p + length ?bs) \<le> 8 * maxlen" using Suc.prems(2) by linarith
  qed
  note w = write_bits_props [OF Suc.prems(1) refl, of ?bs]
  have "\<exists>q. encode_all h maxlen input (Suc i) n ?q = Ok (True, q) \<and> clean q \<and> bitno q \<le> bitno ?q + n * k \<and>
      fst (snd ?q) \<le> fst (snd q)"
    using w l(1) Suc.prems(2) by (intro Suc.IH) auto
  then obtain q where "encode_all h maxlen input (Suc i) n ?q = Ok (True, q)" "clean q" "bitno q \<le> bitno ?q + n * k"
      "fst (snd ?q) \<le> fst (snd q)" by blast
  then show ?case using e w l(1) by (intro exI [of _ q]) auto
qed auto

lemma build_tree_props:
  assumes "0 < inlen" "k = length (alphabet input (nat inlen))"
  shows "0 < k" "tree_inv (alphabet input (nat inlen)) (2 * k - 1) (build_tree input (nat inlen) h)"
    "descending (build_tree input (nat inlen) h) (2 * k - 1)"
    "h_tree_size (build_tree input (nat inlen) h) = int (2 * k - 1)"
proof -
  have "input 0 \<in> set (alphabet input (nat inlen))"
    using alphabet_props(1) [of input "nat inlen"] assms(1) by simp
  then show k: "0 < k" using assms(2) by (cases "alphabet input (nat inlen)") auto
  show inv: "tree_inv (alphabet input (nat inlen)) (2 * k - 1) (build_tree input (nat inlen) h)"
    using build_tree_inv assms by simp
  have "h_heap_size (build_tree input (nat inlen) h) + (2 * k - 1) = 2 * k"
    using inv assms(2) by (simp add: tree_inv_def)
  then show "descending (build_tree input (nat inlen) h) (2 * k - 1)"
    using tree_inv_descending [OF inv] k by simp
  show "h_tree_size (build_tree input (nat inlen) h) = int (2 * k - 1)" using inv by (simp add: tree_inv_def)
qed

text \<open>
  With \<open>k\<close> distinct bytes the serialised tree takes \<open>16 (2 k - 1)\<close> bytes and a code word at
  most \<open>2 k - 2\<close> bits.
\<close>

lemma compress_fits:
  assumes "0 < inlen" "k = card (input ` {..<nat inlen})"
    and "8 * (4 + 16 * (2 * k - 1)) + nat inlen * (2 * k - 2) < 8 * (nat inlen - 1)" "inlen \<le> maxlen"
  shows "\<exists>r cmp h1. compress_huffman input inlen buf maxlen h = Ok (r, cmp, h1) \<and> 0 < r \<and>
    8 * nat r < 8 * (4 + 16 * (2 * k - 1)) + nat inlen * (2 * k - 2) + 8"
proof -
  let ?cs = "alphabet input (nat inlen)" and ?T = "build_tree input (nat inlen) h" and ?n = "nat inlen"
  let ?ts = "2 * k - 1" let ?tb = "16 * nat (h_tree_size ?T)"
  let ?o = "move_bytes (put32 buf 0 (of_int (h_tree_size ?T))) 4 (h_tree ?T) 0 ?tb"
  have k: "k = length ?cs" using assms(2) alphabet_props(1,2) distinct_card by metis
  note b = build_tree_props(1) [OF assms(1) k] build_tree_props(2-4) [OF assms(1) k, where h = h]
  have eq: "bitno (?o, 4 + ?tb, 0) + ?n * (?ts - 1) = 8 * (4 + 16 * ?ts) + ?n * (2 * k - 2)"
    unfolding b(4) by (simp add: bitno_def numeral_2_eq_2)
  have "\<forall>c. \<exists>bs m. route ?T c (?ts - 1) bs m \<and> length bs \<le> ?ts - 1" using route_exists [OF b(3)] b(1) by simp
  then obtain bits leaf where "\<forall>c. route ?T c (?ts - 1) (bits c) (leaf c) \<and> length (bits c) \<le> ?ts - 1" by metis
  moreover have "?ts - 1 \<le> MAX_TREE_NODES" using b(3) by (auto simp: descending_def)
  moreover have "h_tree_size ?T - 1 = int (?ts - 1)" using b(1,4) by simp
  moreover have "clean (?o, 4 + ?tb, 0)" by (simp add: clean_def)
  moreover have "int (bitno (?o, 4 + ?tb, 0) + ?n * (?ts - 1)) \<le> 8 * maxlen"
  proof -
    have "8 * (4 + 16 * ?ts) + ?n * (2 * k - 2) \<le> 8 * ?n"
      by (rule order.trans [OF less_imp_le [OF assms(3)] mult_le_mono2 [OF diff_le_self]])
    then have "bitno (?o, 4 + ?tb, 0) + ?n * (?ts - 1) \<le> 8 * ?n" unfolding eq .
    then have "int (bitno (?o, 4 + ?tb, 0) + ?n * (?ts - 1)) \<le> int (8 * ?n)" by (rule of_nat_mono)
    also have "\<dots> \<le> 8 * maxlen" using assms(1,4) by simp
    finally show ?thesis .
  qed
  ultimately have "\<exists>q. encode_all ?T maxlen input 0 ?n (?o, 4 + ?tb, 0) = Ok (True, q) \<and> clean q \<and>
      bitno q \<le> bitno (?o, 4 + ?tb, 0) + ?n * (?ts - 1) \<and> fst (snd (?o, 4 + ?tb, 0 :: nat)) \<le> fst (snd q)"
    by (rule encode_all_fits)
  then obtain d i b where e: "encode_all ?T maxlen input 0 ?n (?o, 4 + ?tb, 0) = Ok (True, d, i, b)" "b < 8"
    "8 * i + b \<le> 8 * (4 + 16 * ?ts) + ?n * (2 * k - 2)" "4 + ?tb \<le> i"
    unfolding eq by (auto simp: clean_def bitno_def [of "(_, _, _)"])
  let ?r = "if b > 0 then i + 1 else i"
  have r: "8 * ?r < 8 * (4 + 16 * ?ts) + ?n * (2 * k - 2) + 8" using e(2,3) by auto
  then have lt1: "\<not> inlen \<le> int ?r" using assms(3) by (auto split: if_splits)
  moreover have "4 + ?tb \<le> ?r" using e(4) by auto
  ultimately have lt: "\<not> maxlen \<le> 4 + int ?tb" "?r > 0" using assms(4) by linarith+
  have "compress_huffman input inlen buf maxlen h = Ok (int ?r, d, ?T)"
    using e(1) lt1 lt(1) assms(1,4) by (simp add: compress_huffman_def Let_def)
  then show ?thesis using r lt(2) by auto
qed

lemma compress_returns:
  "\<exists>r cmp h1. compress_huffman input inlen buf maxlen h = Ok (r, cmp, h1) \<and> (r = - 1 \<or> 0 < r \<and> r < inlen)"
proof (cases "0 < inlen \<and> 0 < maxlen")
  case True
  let ?T = "build_tree input (nat inlen) h" let ?tb = "16 * nat (h_tree_size ?T)"
  let ?o = "move_bytes (put32 buf 0 (of_int (h_tree_size ?T))) 4 (h_tree ?T) 0 ?tb"
  have len: "0 < inlen" using True by simp
  note b = build_tree_props(1) [OF len refl, of input] build_tree_props(3,4) [OF len refl, where input = input and h = h]
  let ?ts = "2 * length (alphabet input (nat inlen)) - 1"
  have ts: "0 < ?ts" using b(1) by linarith
  obtain bits leaf where cd: "coder ?T ?ts bits leaf" using coder_exists [OF b(2) ts] .
  have "h_tree_size ?T - 1 = int (?ts - 1)" using b(3) ts by simp
  then obtain ok q where e: "encode_all ?T maxlen input 0 (nat inlen) (?o, 4 + ?tb, 0) = Ok (ok, q)"
    "ok \<longrightarrow> q = fold write_bit (concat (map (\<lambda>j. bits (input j)) [0..<0 + nat inlen])) (?o, 4 + ?tb, 0)"
    using encode_all_routes [of ?T "?ts - 1" bits leaf maxlen input 0 "nat inlen" "(?o, 4 + ?tb, 0)"] cd
    unfolding coder_def by blast
  obtain d i b where q: "q = (d, i, b)" by (cases q)
  have "4 + ?tb \<le> i" if ok
    using write_bits_props [of "(?o, 4 + ?tb, 0)" _ "(d, i, b)"] e(2) that q by (auto simp: clean_def)
  then show ?thesis using True e(1) q by (cases ok) (auto simp: compress_huffman_def Let_def)
qed (auto simp: compress_huffman_def)

text \<open>C34. \<^verbatim>\<open>compress_huffman\<close> is total: on every input it returns, with -1 or with a positive
  length below the length of the input; and it does succeed when it pays: with \<open>k\<close> distinct
  bytes in the input, whenever a tree of \<open>2 k - 1\<close> nodes and \<open>2 k - 2\<close> bits per byte are
  shorter than the input, which must fit the buffer.\<close>

theorem compress_total:
  "\<exists>r cmp h1. compress_huffman input inlen buf maxlen h = Ok (r, cmp, h1) \<and> (r = - 1 \<or> 0 < r \<and> r < inlen) \<and>
     (\<forall>k. k = card (input ` {..<nat inlen}) \<and> 0 < inlen \<and> inlen \<le> maxlen \<and>
          8 * (4 + 16 * (2 * k - 1)) + nat inlen * (2 * k - 2) < 8 * (nat inlen - 1) \<longrightarrow>
        8 * nat r < 8 * (4 + 16 * (2 * k - 1)) + nat inlen * (2 * k - 2) + 8 \<and> 0 < r)"
proof -
  obtain r cmp h1 where "compress_huffman input inlen buf maxlen h = Ok (r, cmp, h1)" "r = - 1 \<or> 0 < r \<and> r < inlen"
    using compress_returns by blast
  then show ?thesis using compress_fits [of inlen _ input maxlen buf h] by fastforce
qed

text \<open>A hundred bytes with two distinct values.\<close>

definition two_values :: bytes where
  "two_values i = (if i = 0 then 98 else 97)"

definition huff0 :: huff where
  "huff0 = \<lparr>h_tree = \<lambda>_. 0, h_heap = \<lambda>_. 0, h_heap_size = 0, h_tree_size = 0\<rparr>"

lemma two_values_card: "card (two_values ` {..<nat 100}) = 2"
proof -
  have "97 \<in> two_values ` {..<100}" by (rule image_eqI [of _ _ 1]) (simp_all add: two_values_def)
  moreover have "98 \<in> two_values ` {..<100}" by (rule image_eqI [of _ _ 0]) (simp_all add: two_values_def)
  ultimately have "two_values ` {..<nat 100} = {98, 97}" by (auto simp: two_values_def)
  then show ?thesis by simp
qed

theorem compress_total_witness:
  "\<exists>r cmp h1. compress_huffman two_values 100 (\<lambda>_. 0) 4096 huff0 = Ok (r, cmp, h1) \<and> 0 < r \<and> 8 * nat r < 624"
  using compress_total [of two_values 100 "\<lambda>_. 0" 4096 huff0] two_values_card by auto

text \<open>C5. Compression loses data: whenever \<^verbatim>\<open>compress_huffman\<close> reports success, feeding its
  output to \<^verbatim>\<open>decompress_huffman\<close> returns normally, but with another length than the input
  or with a byte that differs.  The coder picks its branch by comparing the character with the
  \<^verbatim>\<open>c\<close> field of the left child, so it never enters a left leaf with that leaf's own
  character; a file with one distinct byte decodes to nothing.\<close>

theorem huffman_lossy:
  assumes "compress_huffman input inlen buf0 maxlen h = Ok (r, cmp, h1)" and "0 < r"
  shows "\<exists>r2 d2 h2. decompress_huffman cmp r buf inlen g = Ok (r2, d2, h2) \<and>
    (r2 \<noteq> inlen \<or> (\<exists>i < nat inlen. d2 i \<noteq> input i))"
proof -
  let ?cs = "alphabet input (nat inlen)" let ?ts = "2 * length ?cs - 1"
  have len: "0 < inlen" "h1 = build_tree input (nat inlen) h"
    using assms by (auto simp: compress_huffman_def Let_def obind_Ok_iff split: if_splits)
  note b = build_tree_props(1) [OF len(1) refl, of input]
    build_tree_props(2,3) [OF len(1) refl, where input = input and h = h, folded len(2)]
  show ?thesis
  proof (cases "length ?cs = 1")
    case True
    then show ?thesis using lossy_one [OF assms, of ?cs] b(2) by force
  next
    case False
    then have "length ?cs < ?ts" using b(1) by linarith
    then show ?thesis using lossy_many [OF assms b(2,3)] by blast
  qed
qed

theorem huffman_lossy_witness:
  "\<exists>r cmp h1 r2 d2 h2. compress_huffman two_values 100 (\<lambda>_. 0) 4096 huff0 = Ok (r, cmp, h1) \<and> 0 < r \<and>
     decompress_huffman cmp r (\<lambda>_. 0) 100 huff0 = Ok (r2, d2, h2) \<and>
     (r2 \<noteq> 100 \<or> (\<exists>i < 100. d2 i \<noteq> two_values i))"
proof -
  obtain r cmp h1 where c: "compress_huffman two_values 100 (\<lambda>_. 0) 4096 huff0 = Ok (r, cmp, h1)" "0 < r"
    using compress_fits [of 100 2 two_values 4096 "\<lambda>_. 0" huff0] two_values_card by auto
  then show ?thesis using huffman_lossy [OF c, of "\<lambda>_. 0" huff0] by auto
qed

section \<open>Heap order\<close>

abbreviation parent :: "nat \<Rightarrow> nat" where "parent i \<equiv> (i - 1) div 2"

text \<open>Heap order, with one node that may be too small for its place (\<open>heap_up\<close>) or too big (\<open>heap_down\<close>).\<close>

definition is_heap :: "huff \<Rightarrow> bool" where
  "is_heap h \<longleftrightarrow> (\<forall>j. 0 < j \<and> j < h_heap_size h \<longrightarrow> heap_freq h (parent j) \<le> heap_freq h j)"

definition heap_up :: "nat \<Rightarrow> huff \<Rightarrow> bool" where
  "heap_up i h \<longleftrightarrow> (\<forall>j. 0 < j \<and> j < h_heap_size h \<longrightarrow>
     (j \<noteq> i \<longrightarrow> heap_freq h (parent j) \<le> heap_freq h j) \<and>
     (parent j = i \<and> 0 < i \<longrightarrow> heap_freq h (parent i) \<le> heap_freq h j))"

definition heap_down :: "nat \<Rightarrow> huff \<Rightarrow> bool" where
  "heap_down i h \<longleftrightarrow> (\<forall>j. 0 < j \<and> j < h_heap_size h \<longrightarrow>
     (parent j \<noteq> i \<longrightarrow> heap_freq h (parent j) \<le> heap_freq h j) \<and>
     (parent j = i \<and> 0 < i \<longrightarrow> heap_freq h (parent i) \<le> heap_freq h j))"

lemma heap_freq_swap:
  "heap_freq (swap_heap a b h) j = (if j = b then heap_freq h a else if j = a then heap_freq h b else heap_freq h j)"
  by (simp add: heap_freq_def swap_heap_def Let_def t_freq_def)

lemma heap_up_swap:
  assumes up: "heap_up i h" and i: "0 < i" "i < h_heap_size h" and less: "heap_freq h i < heap_freq h (parent i)"
  shows "heap_up (parent i) (swap_heap i (parent i) h)"
proof -
  have p: "parent i < i" using i(1) by (simp add: div_less_iff_less_mult)
  have f: "heap_freq h (parent j) \<le> heap_freq h j" if "0 < j" "j < h_heap_size h" "j \<noteq> i" for j
    using up that by (simp add: heap_up_def)
  have g: "heap_freq h (parent i) \<le> heap_freq h j" if "0 < j" "j < h_heap_size h" "parent j = i" for j
    using up that i(1) by (simp add: heap_up_def)
  show ?thesis
    unfolding heap_up_def swap_heap_size
  proof (intro allI impI conjI; elim conjE)
    fix j assume j: "0 < j" "j < h_heap_size h" "j \<noteq> parent i"
    have "parent j < j" using j(1) by (simp add: div_less_iff_less_mult)
    then show "heap_freq (swap_heap i (parent i) h) (parent j) \<le> heap_freq (swap_heap i (parent i) h) j"
      using f [OF j(1,2)] g [OF j(1,2)] less j p by (auto simp: heap_freq_swap)
  next
    fix j assume j: "0 < j" "j < h_heap_size h" "parent j = parent i" "0 < parent i"
    have "parent (parent i) < parent i" using j(4) by (simp add: div_less_iff_less_mult)
    moreover have "heap_freq h (parent (parent i)) \<le> heap_freq h (parent i)"
      using f [of "parent i"] j(4) p i(2) by simp
    moreover have "heap_freq h (parent i) \<le> heap_freq h j" if "j \<noteq> i" using f [OF j(1,2) that] j(3) by simp
    moreover have "parent j < j" using j(1) by (simp add: div_less_iff_less_mult)
    ultimately show "heap_freq (swap_heap i (parent i) h) (parent (parent i)) \<le> heap_freq (swap_heap i (parent i) h) j"
      using j(3) p less by (auto simp: heap_freq_swap)
  qed
qed

lemma sift_up_heap: "heap_up i h \<Longrightarrow> i < h_heap_size h \<Longrightarrow> is_heap (sift_up i h)"
proof (induction i h rule: sift_up.induct)
  case (1 i h)
  show ?case
  proof (cases "i > 0 \<and> heap_freq h (parent i) > heap_freq h i")
    case True
    have p: "parent i < h_heap_size h" using "1.prems"(2) by (simp add: less_le_trans)
    have "is_heap (sift_up (parent i) (swap_heap i (parent i) h))"
      using "1.IH" [OF True] heap_up_swap [OF "1.prems"(1)] True "1.prems"(2) p by simp
    then show ?thesis using True by (subst sift_up.simps) simp
  next
    case False
    then have "is_heap h" using "1.prems" by (auto simp: is_heap_def heap_up_def not_less)
    then show ?thesis using False by (subst sift_up.simps) auto
  qed
qed

lemma parent_iff: "0 < j \<Longrightarrow> parent j = i \<longleftrightarrow> j = 2 * i + 1 \<or> j = 2 * i + 2"
  by auto

lemma smallest_of_props:
  "heap_freq h (smallest_of i h) \<le> heap_freq h i"
  "0 < j \<Longrightarrow> j < h_heap_size h \<Longrightarrow> parent j = i \<Longrightarrow> heap_freq h (smallest_of i h) \<le> heap_freq h j"
  "smallest_of i h \<noteq> i \<Longrightarrow> parent (smallest_of i h) = i"
  unfolding parent_iff by (auto simp: smallest_of_def Let_def parent_iff)

lemma heap_down_swap:
  assumes dn: "heap_down i h" and ne: "smallest_of i h \<noteq> i"
  shows "heap_down (smallest_of i h) (swap_heap i (smallest_of i h) h)"
proof -
  let ?s = "smallest_of i h"
  have s: "i < ?s" "?s < h_heap_size h" "parent ?s = i"
    using smallest_of_bound [OF ne] smallest_of_props(3) [OF ne] by simp_all
  have f: "heap_freq h (parent j) \<le> heap_freq h j" if "0 < j" "j < h_heap_size h" "parent j \<noteq> i" for j
    using dn that by (simp add: heap_down_def)
  have g: "heap_freq h (parent i) \<le> heap_freq h j" if "0 < j" "j < h_heap_size h" "parent j = i" "0 < i" for j
    using dn that by (simp add: heap_down_def)
  show ?thesis
    unfolding heap_down_def swap_heap_size
  proof (intro allI impI conjI; elim conjE)
    fix j assume j: "0 < j" "j < h_heap_size h" "parent j \<noteq> ?s"
    have "parent j < j" using j(1) by (simp add: div_less_iff_less_mult)
    then show "heap_freq (swap_heap i ?s h) (parent j) \<le> heap_freq (swap_heap i ?s h) j"
      using f [OF j(1,2)] smallest_of_props(1) [of h i] smallest_of_props(2) [OF j(1,2), of i] g [OF _ s(2,3)] s j
      by (auto simp: heap_freq_swap)
  next
    fix j assume j: "0 < j" "j < h_heap_size h" "parent j = ?s" "0 < ?s"
    have "parent j < j" using j(1) by (simp add: div_less_iff_less_mult)
    then show "heap_freq (swap_heap i ?s h) (parent ?s) \<le> heap_freq (swap_heap i ?s h) j"
      using f [OF j(1,2)] j s by (auto simp: heap_freq_swap)
  qed
qed

lemma min_heapify_heap: "heap_down i h \<Longrightarrow> is_heap (min_heapify i h)"
proof (induction i h rule: min_heapify.induct)
  case (1 i h)
  show ?case
  proof (cases "smallest_of i h = i")
    case True
    then have "is_heap h"
      using "1.prems" smallest_of_props(2) [of _ h i] by (auto simp: is_heap_def heap_down_def)
    then show ?thesis using True by (subst min_heapify.simps) simp
  next
    case False
    then show ?thesis using "1.IH" [OF refl False heap_down_swap [OF "1.prems" False]]
      by (subst min_heapify.simps) (simp add: Let_def)
  qed
qed

lemma heap_root_least: "is_heap h \<Longrightarrow> j < h_heap_size h \<Longrightarrow> heap_freq h 0 \<le> heap_freq h j"
proof (induction j rule: less_induct)
  case (less j)
  show ?case
  proof (cases "j = 0")
    case False
    then have "parent j < j" by (simp add: div_less_iff_less_mult)
    then have "heap_freq h 0 \<le> heap_freq h (parent j)" using less.IH [of "parent j"] less.prems by simp
    also have "\<dots> \<le> heap_freq h j" using less.prems False by (simp add: is_heap_def)
    finally show ?thesis .
  qed simp
qed

lemma t_freq_upd [simp]: "t_freq (h\<lparr>h_heap := f, h_heap_size := n\<rparr>) = t_freq h" "t_freq (h\<lparr>h_heap_size := n, h_heap := f\<rparr>) = t_freq h"
  by (simp_all add: t_freq_def fun_eq_iff)

lemma extract_min_heap:
  assumes "is_heap h" "0 < h_heap_size h" "extract_min h = (m, h')"
  shows "is_heap h'"
proof -
  let ?h = "h\<lparr>h_heap_size := h_heap_size h - 1, h_heap := (h_heap h)(0 := h_heap h (h_heap_size h - 1))\<rparr>"
  have "heap_freq ?h j = heap_freq h j" if "0 < j" for j using that by (simp add: heap_freq_def)
  then have "heap_down 0 ?h" using assms(1) by (auto simp: heap_down_def is_heap_def)
  then show ?thesis using min_heapify_heap assms(2,3) by (auto simp: extract_min_def Let_def)
qed

lemma insert_heap_heap:
  assumes "is_heap h"
  shows "is_heap (insert_heap n h)"
proof (cases "h_heap_size h < MAX_HEAP_SIZE")
  case True
  let ?h = "h\<lparr>h_heap := (h_heap h)(h_heap_size h := n), h_heap_size := h_heap_size h + 1\<rparr>"
  have f: "heap_freq ?h j = heap_freq h j" if "j < h_heap_size h" for j using that by (simp add: heap_freq_def)
  have "parent j < h_heap_size h" if "j < h_heap_size h + 1" "0 < j" for j
    using that by (simp add: less_Suc_eq_le div_less_iff_less_mult)
  then have "heap_up (h_heap_size h) ?h" using assms f by (auto simp: heap_up_def is_heap_def)
  then show ?thesis using sift_up_heap [of "h_heap_size h" ?h] True by (simp add: insert_heap_def Let_def)
qed (simp add: insert_heap_def assms)

text \<open>C31. The node heap is a priority queue: \<^verbatim>\<open>insert_heap\<close> below the capacity adds the node and
  \<^verbatim>\<open>extract_min\<close> on a non-empty heap removes one of least frequency, and both keep the heap
  order.\<close>

theorem heap_priority_queue:
  assumes "is_heap h"
  shows "(h_heap_size h < MAX_HEAP_SIZE \<longrightarrow>
      is_heap (insert_heap n h) \<and> heap_ms (insert_heap n h) = add_mset n (heap_ms h)) \<and>
    (0 < h_heap_size h \<longrightarrow> (\<exists>k h'. extract_min h = (int k, h') \<and> is_heap h' \<and> k \<in># heap_ms h \<and>
      heap_ms h' = heap_ms h - {#k#} \<and> (\<forall>j \<in># heap_ms h. t_freq h k \<le> t_freq h j)))"
proof (intro conjI impI)
  assume "h_heap_size h < MAX_HEAP_SIZE"
  then show "is_heap (insert_heap n h)" "heap_ms (insert_heap n h) = add_mset n (heap_ms h)"
    using insert_heap_heap [OF assms] insert_heap_ms by simp_all
next
  assume ne: "0 < h_heap_size h"
  obtain m h' where e: "extract_min h = (m, h')" by (cases "extract_min h")
  have "\<forall>j \<in># heap_ms h. t_freq h (h_heap h 0) \<le> t_freq h j"
    using heap_root_least [OF assms] by (auto simp: heap_ms_def heap_freq_def)
  then show "\<exists>k h'. extract_min h = (int k, h') \<and> is_heap h' \<and> k \<in># heap_ms h \<and>
      heap_ms h' = heap_ms h - {#k#} \<and> (\<forall>j \<in># heap_ms h. t_freq h k \<le> t_freq h j)"
    using extract_min_ms [OF ne e] extract_min_heap [OF assms ne e] e by auto
qed

theorem heap_priority_queue_witness:
  "is_heap huff0 \<and> is_heap (insert_heap 7 huff0) \<and> heap_ms (insert_heap 7 huff0) = {#7#}"
proof -
  have "is_heap huff0" "heap_ms huff0 = {#}" by (simp_all add: is_heap_def huff0_def heap_ms_def)
  then show ?thesis using heap_priority_queue [of huff0 7] by (simp add: huff0_def MAX_HEAP_SIZE_def)
qed

section \<open>Untrusted input\<close>

text \<open>C36. \<^verbatim>\<open>decompress_huffman\<close> trusts the tree it reads from the file: a one-node tree whose
  child indices lie outside the array makes it read outside \<^verbatim>\<open>tree\<close>.\<close>

theorem decompress_untrusted:
  assumes "sint (get32 input 0) = 1" "20 < inlen" "0 < maxlen"
    and "\<not> node_ok (sint (get32 input 12))" "\<not> node_ok (sint (get32 input 16))"
    and "sint (get32 input 12) \<noteq> - 1"
  shows "decompress_huffman input inlen buf maxlen h = Fault"
proof -
  let ?h = "h\<lparr>h_tree_size := int 1, h_tree := move_bytes (h_tree h) 0 input 4 16\<rparr>"
  have "get32 (h_tree ?h) k = get32 input (4 + k)" if "k \<le> 12" for k
    using that by (intro get32_cong) (simp add: move_bytes_def add.assoc)
  from this [of 8] this [of 12]
  have lr: "t_left ?h 0 = sint (get32 input 12)" "t_right ?h 0 = sint (get32 input 16)"
    by (simp_all add: t_defs)
  have ok: "1 \<le> MAX_TREE_NODES" "0 < MAX_TREE_NODES" by (simp_all add: MAX_TREE_NODES_def)
  obtain x q where r: "read_bit input (20, 0) = (x, q)" by (cases "read_bit input (20, 0)")
  have "decode_walk ?h input (nat inlen) (int 0) (20, 0) =
      decode_walk ?h input (nat inlen) (if x then t_right ?h 0 else t_left ?h 0) q"
    using decode_walk_inner [of ?h 0 20 "nat inlen" 0 input x q] r lr assms ok by (simp add: is_leaf_def)
  also have "\<dots> = Fault" using lr assms(4,5) by (cases q) (simp add: decode_walk.simps)
  finally have "decode_all ?h input (nat inlen) (nat maxlen) (20, 0) buf 0 = Fault"
    using assms(2,3) by (subst decode_all.simps) simp
  then show ?thesis using decompress_eq [of inlen maxlen input 1 buf h] assms(1-3) ok by (simp add: Let_def)
qed

theorem decompress_untrusted_witness:
  "decompress_huffman (put32 (put32 (put32 (\<lambda>_. 0) 0 1) 12 9999) 16 9999) 64 (\<lambda>_. 0) 4096 huff0 = Fault"
  by (rule decompress_untrusted) (simp_all add: node_ok_def MAX_TREE_NODES_def)

end
