(* ===== verification/Xv6_Proc.thy ===== *)
theory Xv6_Proc
  imports Xv6_Vm Xv6_Lock
begin

text \<open>
  \<^verbatim>\<open>kernel/proc.c\<close> and \<^verbatim>\<open>kernel/proc.h\<close>: the process table, its operations, and the
  scheduler as a step relation of several CPUs.  \<^verbatim>\<open>fork\<close>, \<^verbatim>\<open>exit\<close> and \<^verbatim>\<open>userinit\<close>, which
  also need open files, are in a later theory.

  A process is an index into the table \<^verbatim>\<open>proc\<close>; \<open>k_me\<close> is what \<^verbatim>\<open>myproc()\<close> returns.
  A critical section under \<^verbatim>\<open>p->lock\<close>, \<^verbatim>\<open>pid_lock\<close> or \<^verbatim>\<open>wait_lock\<close> is one atomic step.  A
  function that sleeps returns \<open>Asleep\<close> with the local variables that are live at
  the call of \<^verbatim>\<open>sleep\<close>; it continues from there when the process runs again.
\<close>

section \<open>State\<close>

datatype procstate = UNUSED | USED | SLEEPING | RUNNABLE | RUNNING | ZOMBIE

text \<open>Sleep channels: the addresses the kernel sleeps on, one constructor per object.\<close>

datatype chan = No_chan | Proc_chan nat | Pipe_read u64 | Pipe_write u64 | Cons_chan | Uart_chan
  | Ticks_chan | Disk_chan | Buf_chan nat

datatype ('l, 'r) kret = Return 'r | Asleep 'l

text \<open>\<open>p_context\<close> is \<^verbatim>\<open>struct context\<close>: register 0 is \<^verbatim>\<open>ra\<close>, register 1 \<^verbatim>\<open>sp\<close>, 2 to 13 the
  callee-saved registers.\<close>

record proc =
  p_state :: procstate
  p_chan :: chan
  p_killed :: int
  p_xstate :: int
  p_pid :: int
  p_parent :: "nat option"
  p_kstack :: u64
  p_sz :: u64
  p_pagetable :: u64
  p_trapframe :: u64
  p_context :: "nat \<Rightarrow> u64"
  p_ofile :: "nat \<Rightarrow> nat option"
  p_cwd :: "nat option"
  p_name :: bytes

text \<open>The addresses of \<^verbatim>\<open>trampoline\<close> and \<^verbatim>\<open>forkret\<close> are those of the linked kernel.\<close>

record kst =
  k_proc :: "nat \<Rightarrow> proc"
  k_phys :: phys
  k_nextpid :: int
  k_initproc :: "nat option"
  k_me :: nat
  k_trampoline :: u64
  k_forkret :: u64

abbreviation me :: "kst \<Rightarrow> proc" where
  "me s \<equiv> k_proc s (k_me s)"

definition pset :: "nat \<Rightarrow> (proc \<Rightarrow> proc) \<Rightarrow> kst \<Rightarrow> kst" where
  "pset p f s = s\<lparr>k_proc := (k_proc s)(p := f (k_proc s p))\<rparr>"

lemma pset_simps [simp]:
  "k_proc (pset p f s) q = (if q = p then f (k_proc s p) else k_proc s q)"
  "k_phys (pset p f s) = k_phys s" "k_nextpid (pset p f s) = k_nextpid s" "k_me (pset p f s) = k_me s"
  "k_initproc (pset p f s) = k_initproc s" "k_trampoline (pset p f s) = k_trampoline s"
  "k_forkret (pset p f s) = k_forkret s"
  by (simp_all add: pset_def)

section \<open>Process table\<close>

definition procinit :: "kst \<Rightarrow> kst" where
  "procinit s = fold (\<lambda>p. pset p (\<lambda>q :: proc. q\<lparr>p_state := UNUSED, p_kstack := KSTACK p\<rparr>)) [0..<NPROC] s"

definition allocpid :: "kst \<Rightarrow> int \<times> kst" where
  "allocpid s = (k_nextpid s, s\<lparr>k_nextpid := k_nextpid s + 1\<rparr>)"

definition proc_pagetable :: "nat \<Rightarrow> kst \<Rightarrow> (u64 \<times> phys) outcome" where
  "proc_pagetable p s =
     (let (pagetable, ph) = uvmcreate (k_phys s)
      in if pagetable = 0 then Ok (0, ph)
         else obind (mappages pagetable TRAMPOLINE PGSIZE (k_trampoline s) (PTE_R OR PTE_X) ph) (\<lambda>(r, ph).
              if r < 0 then obind (uvmfree pagetable 0 ph) (\<lambda>ph. Ok (0, ph))
              else obind (mappages pagetable TRAPFRAME PGSIZE (p_trapframe (k_proc s p)) (PTE_R OR PTE_W) ph) (\<lambda>(r, ph).
                   if r < 0
                   then obind (uvmunmap pagetable TRAMPOLINE 1 False ph) (\<lambda>ph.
                        obind (uvmfree pagetable 0 ph) (\<lambda>ph. Ok (0, ph)))
                   else Ok (pagetable, ph))))"

definition proc_freepagetable :: "u64 \<Rightarrow> u64 \<Rightarrow> phys \<Rightarrow> phys outcome" where
  "proc_freepagetable pagetable sz ph =
     obind (uvmunmap pagetable TRAMPOLINE 1 False ph) (\<lambda>ph.
     obind (uvmunmap pagetable TRAPFRAME 1 False ph) (\<lambda>ph.
     uvmfree pagetable sz ph))"

definition freeproc :: "nat \<Rightarrow> kst \<Rightarrow> kst outcome" where
  "freeproc p s =
     (let q = k_proc s p
      in obind (if p_trapframe q \<noteq> 0 then kfree (p_trapframe q) (k_phys s) else Ok (k_phys s)) (\<lambda>ph.
         obind (if p_pagetable q \<noteq> 0 then proc_freepagetable (p_pagetable q) (p_sz q) ph else Ok ph) (\<lambda>ph.
         Ok (pset p (\<lambda>q. q\<lparr>p_trapframe := 0, p_pagetable := 0, p_sz := 0, p_pid := 0, p_parent := None,
                p_name := (p_name q)(0 := 0), p_chan := No_chan, p_killed := 0, p_xstate := 0,
                p_state := UNUSED\<rparr>) (s\<lparr>k_phys := ph\<rparr>)))))"

text \<open>\<^verbatim>\<open>allocproc\<close> returns the slot, or nothing when there is no free one or no memory.\<close>

definition allocproc :: "kst \<Rightarrow> (nat option \<times> kst) outcome" where
  "allocproc s =
     (case find (\<lambda>p. p_state (k_proc s p) = UNUSED) [0..<NPROC] of
        None \<Rightarrow> Ok (None, s)
      | Some p \<Rightarrow>
          let (pid, s) = allocpid s;
              s = pset p (\<lambda>q. q\<lparr>p_pid := pid, p_state := USED\<rparr>) s;
              (tf, ph) = kalloc (k_phys s);
              s = pset p (\<lambda>q. q\<lparr>p_trapframe := tf\<rparr>) (s\<lparr>k_phys := ph\<rparr>)
          in if tf = 0 then obind (freeproc p s) (\<lambda>s. Ok (None, s))
             else obind (proc_pagetable p s) (\<lambda>(pagetable, ph).
                  let s = pset p (\<lambda>q. q\<lparr>p_pagetable := pagetable\<rparr>) (s\<lparr>k_phys := ph\<rparr>)
                  in if pagetable = 0 then obind (freeproc p s) (\<lambda>s. Ok (None, s))
                     else Ok (Some p, pset p (\<lambda>q. q\<lparr>p_context := (\<lambda>_. 0)(0 := k_forkret s,
                                1 := p_kstack q + PGSIZE)\<rparr>) s)))"

definition growproc :: "int \<Rightarrow> kst \<Rightarrow> (int \<times> kst) outcome" where
  "growproc n s =
     (let p = me s; sz = p_sz p; grown = (\<lambda>sz ph. pset (k_me s) (\<lambda>q. q\<lparr>p_sz := sz\<rparr>) (s\<lparr>k_phys := ph\<rparr>))
      in if n > 0
         then obind (uvmalloc (p_pagetable p) sz (sz + of_int n) PTE_W (k_phys s)) (\<lambda>(sz, ph).
              if sz = 0 then Ok (- 1, s\<lparr>k_phys := ph\<rparr>) else Ok (0, grown sz ph))
         else if n < 0
         then obind (uvmdealloc (p_pagetable p) sz (sz + of_int n) (k_phys s)) (\<lambda>(sz, ph).
              Ok (0, grown sz ph))
         else Ok (0, grown sz (k_phys s)))"

section \<open>Sleep and wakeup\<close>

text \<open>\<^verbatim>\<open>sleep\<close> up to the switch to the scheduler, and the tidying up after the switch back.\<close>

definition sleep :: "chan \<Rightarrow> kst \<Rightarrow> kst" where
  "sleep c s = pset (k_me s) (\<lambda>q. q\<lparr>p_chan := c, p_state := SLEEPING\<rparr>) s"

definition awake :: "kst \<Rightarrow> kst" where
  "awake s = pset (k_me s) (\<lambda>q. q\<lparr>p_chan := No_chan\<rparr>) s"

definition wakeup_one :: "chan \<Rightarrow> nat \<Rightarrow> kst \<Rightarrow> kst" where
  "wakeup_one c p s =
     (if p \<noteq> k_me s \<and> p_state (k_proc s p) = SLEEPING \<and> p_chan (k_proc s p) = c
      then pset p (\<lambda>q. q\<lparr>p_state := RUNNABLE\<rparr>) s else s)"

definition wakeup :: "chan \<Rightarrow> kst \<Rightarrow> kst" where
  "wakeup c s = fold (wakeup_one c) [0..<NPROC] s"

definition kill :: "int \<Rightarrow> kst \<Rightarrow> int \<times> kst" where
  "kill pid s =
     (case find (\<lambda>p. p_pid (k_proc s p) = pid) [0..<NPROC] of
        None \<Rightarrow> (- 1, s)
      | Some p \<Rightarrow> (0, pset p (\<lambda>q. q\<lparr>p_killed := 1,
          p_state := (if p_state q = SLEEPING then RUNNABLE else p_state q)\<rparr>) s))"

definition setkilled :: "nat \<Rightarrow> kst \<Rightarrow> kst" where
  "setkilled p s = pset p (\<lambda>q. q\<lparr>p_killed := 1\<rparr>) s"

definition killed :: "nat \<Rightarrow> kst \<Rightarrow> int" where
  "killed p s = p_killed (k_proc s p)"

text \<open>The guards of \<^verbatim>\<open>sched\<close>; \<open>swtch\<close> is what the CPU goes through until it switches back.\<close>

definition sched :: "(cpu \<Rightarrow> cpu) \<Rightarrow> nat \<Rightarrow> cpu \<Rightarrow> spinlock \<Rightarrow> proc \<Rightarrow> cpu outcome" where
  "sched swtch hart c lk p =
     (if \<not> holding lk hart then Panic ''sched p->lock''
      else if c_noff c \<noteq> 1 then Panic ''sched locks''
      else if p_state p = RUNNING then Panic ''sched running''
      else if c_intr c then Panic ''sched interruptible''
      else let intena = c_intena c; c = swtch c in Ok (c\<lparr>c_intena := intena\<rparr>))"

definition yield :: "kst \<Rightarrow> kst" where
  "yield s = pset (k_me s) (\<lambda>q. q\<lparr>p_state := RUNNABLE\<rparr>) s"

section \<open>Exit and wait\<close>

definition reparent_one :: "nat \<Rightarrow> nat \<Rightarrow> kst \<Rightarrow> kst" where
  "reparent_one p pp s =
     (if p_parent (k_proc s pp) = Some p
      then wakeup (case k_initproc s of None \<Rightarrow> No_chan | Some i \<Rightarrow> Proc_chan i)
             (pset pp (\<lambda>q. q\<lparr>p_parent := k_initproc s\<rparr>) s)
      else s)"

definition reparent :: "nat \<Rightarrow> kst \<Rightarrow> kst" where
  "reparent p s = fold (reparent_one p) [0..<NPROC] s"

text \<open>The part of \<^verbatim>\<open>exit\<close> under \<^verbatim>\<open>wait_lock\<close>.\<close>

definition exit_proc :: "int \<Rightarrow> kst \<Rightarrow> kst" where
  "exit_proc status s =
     (let p = k_me s;
          s = reparent p s;
          s = wakeup (case p_parent (k_proc s p) of None \<Rightarrow> No_chan | Some i \<Rightarrow> Proc_chan i) s
      in pset p (\<lambda>q. q\<lparr>p_xstate := status, p_state := ZOMBIE\<rparr>) s)"

text \<open>One scan of \<^verbatim>\<open>wait\<close>: the value to return, if any, and whether there are children.\<close>

primrec wait_scan :: "nat list \<Rightarrow> u64 \<Rightarrow> bool \<Rightarrow> kst \<Rightarrow> (int option \<times> bool \<times> kst) outcome" where
  "wait_scan [] addr havekids s = Ok (None, havekids, s)"
| "wait_scan (pp # pps) addr havekids s =
     (if p_parent (k_proc s pp) = Some (k_me s)
      then if p_state (k_proc s pp) = ZOMBIE
           then let pid = p_pid (k_proc s pp)
                in obind (if addr \<noteq> 0
                          then copyout (p_pagetable (me s)) addr
                                 (put32 (\<lambda>_. 0) 0 (of_int (p_xstate (k_proc s pp)))) 4 (k_phys s)
                          else Ok (0, k_phys s)) (\<lambda>(r, ph).
                   let s = s\<lparr>k_phys := ph\<rparr>
                   in if r < 0 then Ok (Some (- 1), True, s)
                      else obind (freeproc pp s) (\<lambda>s. Ok (Some pid, True, s)))
           else wait_scan pps addr True s
      else wait_scan pps addr havekids s)"

definition wait :: "u64 \<Rightarrow> kst \<Rightarrow> ((unit, int) kret \<times> kst) outcome" where
  "wait addr s =
     obind (wait_scan [0..<NPROC] addr False s) (\<lambda>(r, havekids, s).
     case r of
       Some v \<Rightarrow> Ok (Return v, s)
     | None \<Rightarrow> if \<not> havekids \<or> killed (k_me s) s \<noteq> 0 then Ok (Return (- 1), s)
               else Ok (Asleep (), sleep (Proc_chan (k_me s)) s))"

section \<open>Copying to and from either space\<close>

definition either_copyout :: "bool \<Rightarrow> u64 \<Rightarrow> bytes \<Rightarrow> u64 \<Rightarrow> kst \<Rightarrow> (int \<times> kst) outcome" where
  "either_copyout user_dst dst src len s =
     (if user_dst
      then obind (copyout (p_pagetable (me s)) dst src len (k_phys s)) (\<lambda>(r, ph). Ok (r, s\<lparr>k_phys := ph\<rparr>))
      else Ok (0, s\<lparr>k_phys := set_mem (blit (ph_mem (k_phys s)) dst src (unat (ucast len :: u32))) (k_phys s)\<rparr>))"

definition either_copyin :: "bytes \<Rightarrow> bool \<Rightarrow> u64 \<Rightarrow> u64 \<Rightarrow> kst \<Rightarrow> (int \<times> bytes) outcome" where
  "either_copyin dst user_src src len s =
     (if user_src then copyin (p_pagetable (me s)) dst 0 src len (k_phys s)
      else Ok (0, \<lambda>i. if i < unat (ucast len :: u32) then ph_mem (k_phys s) (src + of_nat i) else dst i))"

section \<open>Process information\<close>

record procinfo =
  i_pid :: int
  i_ppid :: int
  i_state :: procstate
  i_sz :: u64
  i_name :: bytes

definition getprocsinfo :: "int \<Rightarrow> procinfo \<Rightarrow> kst \<Rightarrow> int \<times> procinfo" where
  "getprocsinfo pid info s =
     (case find (\<lambda>p. p_pid (k_proc s p) = pid) [0..<NPROC] of
        None \<Rightarrow> (- 1, info)
      | Some p \<Rightarrow> let q = k_proc s p
                  in (0, \<lparr>i_pid = p_pid q,
                          i_ppid = (case p_parent q of Some pp \<Rightarrow> p_pid (k_proc s pp) | None \<Rightarrow> 0),
                          i_state = p_state q, i_sz = p_sz q,
                          i_name = safestrcpy (i_name info) (p_name q) 16\<rparr>))"

fun state_name :: "procstate \<Rightarrow> string" where
  "state_name UNUSED = ''unused''"
| "state_name USED = ''used''"
| "state_name SLEEPING = ''sleep ''"
| "state_name RUNNABLE = ''runble''"
| "state_name RUNNING = ''run   ''"
| "state_name ZOMBIE = ''zombie''"

text \<open>The lines \<^verbatim>\<open>procdump\<close> prints: pid, state and name of every process in use.\<close>

definition procdump :: "kst \<Rightarrow> (int \<times> string \<times> bytes) list" where
  "procdump s =
     map (\<lambda>p. (p_pid (k_proc s p), state_name (p_state (k_proc s p)), p_name (k_proc s p)))
       (filter (\<lambda>p. p_state (k_proc s p) \<noteq> UNUSED) [0..<NPROC])"

section \<open>Effects on the table\<close>

lemma wakeup_one_simps [simp]:
  "k_me (wakeup_one c p s) = k_me s" "k_initproc (wakeup_one c p s) = k_initproc s"
  "k_nextpid (wakeup_one c p s) = k_nextpid s" "k_phys (wakeup_one c p s) = k_phys s"
  by (simp_all add: wakeup_one_def)

lemma fold_wakeup:
  "k_me (fold (wakeup_one c) ps s) = k_me s" "k_initproc (fold (wakeup_one c) ps s) = k_initproc s"
  "k_nextpid (fold (wakeup_one c) ps s) = k_nextpid s" "k_phys (fold (wakeup_one c) ps s) = k_phys s"
  "k_proc (fold (wakeup_one c) ps s) q =
     (if q \<in> set ps \<and> q \<noteq> k_me s \<and> p_state (k_proc s q) = SLEEPING \<and> p_chan (k_proc s q) = c
      then (k_proc s q)\<lparr>p_state := RUNNABLE\<rparr> else k_proc s q)"
  by (induction ps arbitrary: s) (simp_all add: wakeup_one_def)

lemma wakeup_simps [simp]:
  "k_me (wakeup c s) = k_me s" "k_initproc (wakeup c s) = k_initproc s"
  "k_nextpid (wakeup c s) = k_nextpid s" "k_phys (wakeup c s) = k_phys s"
  by (simp_all add: wakeup_def fold_wakeup)

lemma wakeup_proc:
  "k_proc (wakeup c s) q =
     (if q < NPROC \<and> q \<noteq> k_me s \<and> p_state (k_proc s q) = SLEEPING \<and> p_chan (k_proc s q) = c
      then (k_proc s q)\<lparr>p_state := RUNNABLE\<rparr> else k_proc s q)"
  by (simp add: wakeup_def fold_wakeup)

text \<open>No other process is left sleeping on a channel.\<close>

definition no_sleeper :: "chan \<Rightarrow> kst \<Rightarrow> bool" where
  "no_sleeper c s \<longleftrightarrow> (\<forall>q < NPROC. q \<noteq> k_me s \<longrightarrow> \<not> (p_state (k_proc s q) = SLEEPING \<and> p_chan (k_proc s q) = c))"

lemma no_sleeper_wakeup: "no_sleeper c (wakeup c s)"
  by (simp add: no_sleeper_def wakeup_proc)

lemma no_sleeper_sleep: "no_sleeper c s \<Longrightarrow> no_sleeper c (sleep d s)"
  by (simp add: no_sleeper_def sleep_def)

text \<open>
  What the later steps of a transition may change of a process that is neither created nor
  destroyed by it: it may become \<^const>\<open>RUNNABLE\<close> when it sleeps, or get a new parent.
\<close>

definition poked :: "proc \<Rightarrow> proc \<Rightarrow> bool" where
  "poked p q \<longleftrightarrow> p_pid q = p_pid p \<and> (p_state q = p_state p \<or> p_state p = SLEEPING \<and> p_state q = RUNNABLE)"

lemma poked_refl [simp]: "poked p p"
  by (simp add: poked_def)

lemma poked_trans: "poked p q \<Longrightarrow> poked q r \<Longrightarrow> poked p r"
  by (auto simp: poked_def)

lemma poked_wakeup: "poked (k_proc s q) (k_proc (wakeup c s) q)" "p_parent (k_proc (wakeup c s) q) = p_parent (k_proc s q)"
  by (simp_all add: wakeup_proc poked_def)

lemma reparent_one_simps:
  "k_me (reparent_one p pp s) = k_me s" "k_initproc (reparent_one p pp s) = k_initproc s"
  "k_nextpid (reparent_one p pp s) = k_nextpid s" "poked (k_proc s q) (k_proc (reparent_one p pp s) q)"
  "p_parent (k_proc (reparent_one p pp s) q) =
     (if q = pp \<and> p_parent (k_proc s q) = Some p then k_initproc s else p_parent (k_proc s q))"
  by (auto simp: reparent_one_def wakeup_proc poked_def)

lemma reparent_fold:
  "k_me (fold (reparent_one p) ps s) = k_me s" "k_initproc (fold (reparent_one p) ps s) = k_initproc s"
  "k_nextpid (fold (reparent_one p) ps s) = k_nextpid s"
  by (induction ps arbitrary: s) (simp_all add: reparent_one_simps)

lemma reparent_fold_poked: "poked (k_proc s q) (k_proc (fold (reparent_one p) ps s) q)"
proof (induction ps arbitrary: s)
  case (Cons pp ps)
  show ?case using poked_trans [OF reparent_one_simps(4) Cons] by simp
qed simp

lemma reparent_fold_parent:
  "distinct ps \<Longrightarrow> p_parent (k_proc (fold (reparent_one p) ps s) q) =
     (if q \<in> set ps \<and> p_parent (k_proc s q) = Some p then k_initproc s else p_parent (k_proc s q))"
  by (induction ps arbitrary: s) (auto simp: reparent_one_simps)

lemma reparent_simps:
  "k_me (reparent p s) = k_me s" "k_initproc (reparent p s) = k_initproc s" "k_nextpid (reparent p s) = k_nextpid s"
  "poked (k_proc s q) (k_proc (reparent p s) q)"
  "p_parent (k_proc (reparent p s) q) =
     (if q < NPROC \<and> p_parent (k_proc s q) = Some p then k_initproc s else p_parent (k_proc s q))"
  by (simp_all add: reparent_def reparent_fold reparent_fold_poked reparent_fold_parent)

definition dead :: "proc \<Rightarrow> proc" where
  "dead q = q\<lparr>p_trapframe := 0, p_pagetable := 0, p_sz := 0, p_pid := 0, p_parent := None,
     p_name := (p_name q)(0 := 0), p_chan := No_chan, p_killed := 0, p_xstate := 0, p_state := UNUSED\<rparr>"

definition reap :: "nat \<Rightarrow> (nat \<Rightarrow> proc) \<Rightarrow> nat \<Rightarrow> proc" where
  "reap p f = f(p := dead (f p))"

lemma freeproc_effect:
  "freeproc p s = Ok s' \<Longrightarrow> k_proc s' = reap p (k_proc s) \<and> k_me s' = k_me s \<and>
     k_nextpid s' = k_nextpid s \<and> k_initproc s' = k_initproc s"
  by (auto simp: freeproc_def reap_def dead_def Let_def pset_def split: if_splits)

lemma find_upt_Some: "find P [0..<n] = Some p \<Longrightarrow> p < n \<and> P p"
  by (auto simp: find_Some_iff)

lemma allocproc_effect:
  assumes "allocproc s = Ok (r, s')"
  shows "k_me s' = k_me s" "k_initproc s' = k_initproc s"
    "case r of
       None \<Rightarrow> (\<forall>q. k_proc s' q = k_proc s q \<or>
           q < NPROC \<and> p_state (k_proc s q) = UNUSED \<and> p_state (k_proc s' q) = UNUSED \<and>
           p_pid (k_proc s' q) = 0 \<and> p_parent (k_proc s' q) = None) \<and> k_nextpid s \<le> k_nextpid s'
     | Some p \<Rightarrow> p < NPROC \<and> p_state (k_proc s p) = UNUSED \<and> p_state (k_proc s' p) = USED \<and>
         p_pid (k_proc s' p) = k_nextpid s \<and> p_killed (k_proc s' p) = p_killed (k_proc s p) \<and>
         p_parent (k_proc s' p) = p_parent (k_proc s p) \<and>
         (\<forall>q. q \<noteq> p \<longrightarrow> k_proc s' q = k_proc s q) \<and> k_nextpid s' = k_nextpid s + 1"
proof -
  show "k_me s' = k_me s" "k_initproc s' = k_initproc s"
    using assms by (auto simp: allocproc_def allocpid_def Let_def dest!: freeproc_effect split: option.splits prod.splits if_splits)
  show "case r of
       None \<Rightarrow> (\<forall>q. k_proc s' q = k_proc s q \<or>
           q < NPROC \<and> p_state (k_proc s q) = UNUSED \<and> p_state (k_proc s' q) = UNUSED \<and>
           p_pid (k_proc s' q) = 0 \<and> p_parent (k_proc s' q) = None) \<and> k_nextpid s \<le> k_nextpid s'
     | Some p \<Rightarrow> p < NPROC \<and> p_state (k_proc s p) = UNUSED \<and> p_state (k_proc s' p) = USED \<and>
         p_pid (k_proc s' p) = k_nextpid s \<and> p_killed (k_proc s' p) = p_killed (k_proc s p) \<and>
         p_parent (k_proc s' p) = p_parent (k_proc s p) \<and>
         (\<forall>q. q \<noteq> p \<longrightarrow> k_proc s' q = k_proc s q) \<and> k_nextpid s' = k_nextpid s + 1"
    using assms
    by (auto simp: allocproc_def allocpid_def Let_def reap_def dead_def dest!: freeproc_effect find_upt_Some
        split: option.splits prod.splits if_splits)
qed

section \<open>Processors\<close>

definition NCPU :: nat where "NCPU = 8"

record sys =
  y_k :: kst
  y_run :: "nat \<Rightarrow> nat option"

text \<open>Process \<open>p\<close> runs on CPU \<open>c\<close>; the kernel state as it sees it.\<close>

definition on :: "nat \<Rightarrow> nat \<Rightarrow> sys \<Rightarrow> bool" where
  "on c p y \<longleftrightarrow> c < NCPU \<and> y_run y c = Some p"

abbreviation as_me :: "nat \<Rightarrow> sys \<Rightarrow> kst" where
  "as_me p y \<equiv> (y_k y)\<lparr>k_me := p\<rparr>"

text \<open>
  The scheduler picks a runnable process for an idle CPU; a running process yields, sleeps,
  wakes others up, kills, exits, waits for a child or creates one.  Each is one step, in any
  interleaving of the CPUs.
\<close>

inductive sys_step :: "sys \<Rightarrow> sys \<Rightarrow> bool" where
  pick: "c < NCPU \<Longrightarrow> y_run y c = None \<Longrightarrow> p < NPROC \<Longrightarrow> p_state (k_proc (y_k y) p) = RUNNABLE \<Longrightarrow>
    sys_step y \<lparr>y_k = pset p (\<lambda>q. q\<lparr>p_state := RUNNING\<rparr>) (y_k y), y_run = (y_run y)(c := Some p)\<rparr>"
| yields: "on c p y \<Longrightarrow> sys_step y \<lparr>y_k = yield (as_me p y), y_run = (y_run y)(c := None)\<rparr>"
| sleeps: "on c p y \<Longrightarrow> sys_step y \<lparr>y_k = sleep ch (as_me p y), y_run = (y_run y)(c := None)\<rparr>"
| resumes: "on c p y \<Longrightarrow> sys_step y \<lparr>y_k = awake (as_me p y), y_run = y_run y\<rparr>"
| wakes: "on c p y \<Longrightarrow> sys_step y \<lparr>y_k = wakeup ch (as_me p y), y_run = y_run y\<rparr>"
| kills: "on c p y \<Longrightarrow> sys_step y \<lparr>y_k = snd (kill pid (as_me p y)), y_run = y_run y\<rparr>"
| exits: "on c p y \<Longrightarrow> k_initproc (y_k y) \<noteq> Some p \<Longrightarrow>
    sys_step y \<lparr>y_k = exit_proc status (as_me p y), y_run = (y_run y)(c := None)\<rparr>"
| waits: "on c p y \<Longrightarrow> wait addr (as_me p y) = Ok (Return v, s) \<Longrightarrow> sys_step y \<lparr>y_k = s, y_run = y_run y\<rparr>"
| wait_sleeps: "on c p y \<Longrightarrow> wait addr (as_me p y) = Ok (Asleep (), s) \<Longrightarrow>
    sys_step y \<lparr>y_k = s, y_run = (y_run y)(c := None)\<rparr>"
| spawns: "on c p y \<Longrightarrow> allocproc (as_me p y) = Ok (Some np, s) \<Longrightarrow>
    sys_step y \<lparr>y_k = pset np (\<lambda>q. q\<lparr>p_parent := Some p, p_state := RUNNABLE\<rparr>) s, y_run = y_run y\<rparr>"
| spawn_fails: "on c p y \<Longrightarrow> allocproc (as_me p y) = Ok (None, s) \<Longrightarrow> sys_step y \<lparr>y_k = s, y_run = y_run y\<rparr>"

definition live :: "kst \<Rightarrow> nat \<Rightarrow> bool" where
  "live s p \<longleftrightarrow> p < NPROC \<and> p_state (k_proc s p) \<noteq> UNUSED \<and> p_state (k_proc s p) \<noteq> ZOMBIE"

text \<open>The invariant of the process table, and of the assignment of processes to CPUs.\<close>

definition table_inv :: "kst \<Rightarrow> bool" where
  "table_inv s \<longleftrightarrow> 0 < k_nextpid s \<and>
     (\<forall>p < NPROC. if p_state (k_proc s p) = UNUSED then p_pid (k_proc s p) = 0 \<and> p_parent (k_proc s p) = None
        else 0 < p_pid (k_proc s p) \<and> p_pid (k_proc s p) < k_nextpid s) \<and>
     (\<forall>p < NPROC. \<forall>q < NPROC. p_state (k_proc s p) \<noteq> UNUSED \<and> p_pid (k_proc s p) = p_pid (k_proc s q) \<longrightarrow> p = q) \<and>
     (\<forall>p < NPROC. \<forall>pp. p_parent (k_proc s p) = Some pp \<longrightarrow> live s pp) \<and>
     (\<forall>i. k_initproc s = Some i \<longrightarrow> live s i)"

definition run_inv :: "sys \<Rightarrow> bool" where
  "run_inv y \<longleftrightarrow> (\<forall>c p. on c p y \<longrightarrow> p < NPROC \<and> p_state (k_proc (y_k y) p) = RUNNING) \<and>
     (\<forall>c d p. on c p y \<and> on d p y \<longrightarrow> c = d) \<and>
     (\<forall>p < NPROC. p_state (k_proc (y_k y) p) = RUNNING \<longrightarrow> (\<exists>c. on c p y))"

subsection \<open>Processors and running processes\<close>

lemma run_invD:
  assumes "run_inv y"
  shows "on c p y \<Longrightarrow> p < NPROC" "on c p y \<Longrightarrow> p_state (k_proc (y_k y) p) = RUNNING"
    "on c p y \<Longrightarrow> on d p y \<Longrightarrow> c = d"
    "p < NPROC \<Longrightarrow> p_state (k_proc (y_k y) p) = RUNNING \<Longrightarrow> \<exists>c. on c p y"
  using assms unfolding run_inv_def by blast+

lemma run_invI:
  assumes "\<And>c p. on c p y \<Longrightarrow> p < NPROC \<and> p_state (k_proc (y_k y) p) = RUNNING"
    and "\<And>c d p. on c p y \<Longrightarrow> on d p y \<Longrightarrow> c = d"
    and "\<And>p. p < NPROC \<Longrightarrow> p_state (k_proc (y_k y) p) = RUNNING \<Longrightarrow> \<exists>c. on c p y"
  shows "run_inv y"
  using assms unfolding run_inv_def by blast

lemma on_simps:
  "on c p \<lparr>y_k = s, y_run = y_run y\<rparr> = on c p y"
  "on d q \<lparr>y_k = s, y_run = (y_run y)(c := None)\<rparr> = (on d q y \<and> d \<noteq> c)"
  "c < NCPU \<Longrightarrow> on d q \<lparr>y_k = s, y_run = (y_run y)(c := Some p)\<rparr> = (if d = c then q = p else on d q y)"
  by (auto simp: on_def)

lemma run_keep:
  assumes "run_inv y" "\<forall>q. (p_state (k_proc s q) = RUNNING) = (p_state (k_proc (y_k y) q) = RUNNING)"
  shows "run_inv \<lparr>y_k = s, y_run = y_run y\<rparr>"
  using assms by (simp add: run_inv_def on_simps)

lemma run_leave:
  assumes "run_inv y" "on c p y" "p_state (k_proc s p) \<noteq> RUNNING"
    and "\<forall>q. q \<noteq> p \<longrightarrow> (p_state (k_proc s q) = RUNNING) = (p_state (k_proc (y_k y) q) = RUNNING)"
  shows "run_inv \<lparr>y_k = s, y_run = (y_run y)(c := None)\<rparr>"
proof (rule run_invI, unfold on_simps sys.select_convs)
  note D = run_invD [OF assms(1)]
  fix d q assume "on d q y \<and> d \<noteq> c"
  moreover from this have "q \<noteq> p" using D(3) [OF assms(2)] by blast
  ultimately show "q < NPROC \<and> p_state (k_proc s q) = RUNNING" using D(1,2) assms(4) by blast
next
  fix d d' q assume "on d q y \<and> d \<noteq> c" "on d' q y \<and> d' \<noteq> c"
  then show "d = d'" using run_invD(3) [OF assms(1)] by blast
next
  fix q assume q: "q < NPROC" "p_state (k_proc s q) = RUNNING"
  then have "q \<noteq> p" using assms(3) by blast
  then have "p_state (k_proc (y_k y) q) = RUNNING" using assms(4) q(2) by blast
  then obtain d where "on d q y" using run_invD(4) [OF assms(1) q(1)] by blast
  then show "\<exists>d. on d q y \<and> d \<noteq> c" using assms(2) \<open>q \<noteq> p\<close> by (auto simp: on_def)
qed

lemma run_enter:
  assumes "run_inv y" "c < NCPU" "y_run y c = None" "p < NPROC" "p_state (k_proc (y_k y) p) = RUNNABLE"
  shows "run_inv \<lparr>y_k = pset p (\<lambda>q. q\<lparr>p_state := RUNNING\<rparr>) (y_k y), y_run = (y_run y)(c := Some p)\<rparr>"
proof (rule run_invI, unfold on_simps(3) [OF assms(2)] sys.select_convs)
  note D = run_invD [OF assms(1)]
  fix d q assume "if d = c then q = p else on d q y"
  then show "q < NPROC \<and> p_state (k_proc (pset p (\<lambda>q. q\<lparr>p_state := RUNNING\<rparr>) (y_k y)) q) = RUNNING"
    using D(1,2) assms(4) by (auto split: if_splits)
next
  have "q \<noteq> p" if "on d q y" for d q using run_invD(2) [OF assms(1) that] assms(5) by auto
  then show "d = d'" if "if d = c then q = p else on d q y" "if d' = c then q = p else on d' q y" for d d' q
    using that run_invD(3) [OF assms(1)] by metis
next
  fix q assume q: "q < NPROC" "p_state (k_proc (pset p (\<lambda>q. q\<lparr>p_state := RUNNING\<rparr>) (y_k y)) q) = RUNNING"
  show "\<exists>d. if d = c then q = p else on d q y"
  proof (cases "q = p")
    case False
    then obtain d where "on d q y" using run_invD(4) [OF assms(1) q(1)] q(2) by auto
    then show ?thesis using assms(3) by (intro exI [of _ d]) (auto simp: on_def)
  qed auto
qed

subsection \<open>The process table\<close>

text \<open>A transition that neither creates nor ends a process.\<close>

definition stable :: "kst \<Rightarrow> kst \<Rightarrow> bool" where
  "stable s s' \<longleftrightarrow> k_nextpid s' = k_nextpid s \<and> k_initproc s' = k_initproc s \<and>
     (\<forall>q. p_pid (k_proc s' q) = p_pid (k_proc s q) \<and>
        (p_state (k_proc s' q) = UNUSED) = (p_state (k_proc s q) = UNUSED) \<and>
        (p_state (k_proc s' q) = ZOMBIE) = (p_state (k_proc s q) = ZOMBIE) \<and>
        (p_parent (k_proc s' q) = p_parent (k_proc s q) \<or>
         p_parent (k_proc s' q) = k_initproc s \<and> p_parent (k_proc s q) \<noteq> None))"

lemma stable_live: "stable s s' \<Longrightarrow> live s' = live s"
  by (auto simp: stable_def live_def fun_eq_iff)

lemma table_inv_stable: "table_inv s \<Longrightarrow> stable s s' \<Longrightarrow> table_inv s'"
proof -
  assume inv: "table_inv s" and st: "stable s s'"
  have "\<forall>p < NPROC. \<forall>pp. p_parent (k_proc s' p) = Some pp \<longrightarrow> live s pp"
    using inv st unfolding table_inv_def stable_def by metis
  moreover have "p_state (k_proc s p) = UNUSED \<Longrightarrow> p < NPROC \<Longrightarrow> p_parent (k_proc s' p) = None" for p
    using inv st unfolding table_inv_def stable_def by metis
  ultimately show ?thesis using inv st stable_live [OF st] unfolding table_inv_def by (simp add: stable_def)
qed

lemma table_inv_me [simp]: "table_inv (s\<lparr>k_me := p\<rparr>) = table_inv s"
  by (simp add: table_inv_def live_def)

lemma table_inv_reap:
  assumes "table_inv s" "p_state (k_proc s pp) = ZOMBIE" "k_proc s' = reap pp (k_proc s)"
    "k_nextpid s' = k_nextpid s" "k_initproc s' = k_initproc s"
  shows "table_inv s'"
proof -
  have "live s' q" if "live s q" for q using that assms(2,3) by (auto simp: live_def reap_def)
  then show ?thesis using assms unfolding table_inv_def by (auto simp: reap_def dead_def)
qed

lemma wait_scan_effect:
  "wait_scan ps addr k s = Ok (v, k', s') \<Longrightarrow> k_me s' = k_me s \<and> k_nextpid s' = k_nextpid s \<and>
     k_initproc s' = k_initproc s \<and>
     (k_proc s' = k_proc s \<or>
      (\<exists>pp. p_state (k_proc s pp) = ZOMBIE \<and> k_proc s' = reap pp (k_proc s)))"
proof (induction ps arbitrary: k)
  case (Cons pp ps)
  show ?case
  proof (cases "p_parent (k_proc s pp) = Some (k_me s) \<and> p_state (k_proc s pp) = ZOMBIE")
    case True
    then show ?thesis using Cons.prems
      by (auto simp: Let_def split: if_splits dest!: freeproc_effect) blast+
  qed (use Cons in \<open>auto split: if_splits\<close>)
qed simp

lemma poked_state:
  assumes "poked p q"
  shows "(p_state q = RUNNING) = (p_state p = RUNNING)" "(p_state q = UNUSED) = (p_state p = UNUSED)"
    "(p_state q = ZOMBIE) = (p_state p = ZOMBIE)" "p_pid q = p_pid p"
  using assms by (auto simp: poked_def)

lemma wait_effect:
  assumes "wait addr s = Ok (r, s')"
  obtains t where "k_nextpid t = k_nextpid s" "k_initproc t = k_initproc s"
    "k_proc t = k_proc s \<or> (\<exists>pp. p_state (k_proc s pp) = ZOMBIE \<and> k_proc t = reap pp (k_proc s))"
    "case r of Return v \<Rightarrow> s' = t | Asleep _ \<Rightarrow> s' = sleep (Proc_chan (k_me s)) t" "k_me t = k_me s"
proof -
  obtain v k t where w: "wait_scan [0..<NPROC] addr False s = Ok (v, k, t)"
    and r: "(case v of Some v \<Rightarrow> Ok (Return v, t)
        | None \<Rightarrow> if \<not> k \<or> killed (k_me t) t \<noteq> 0 then Ok (Return (- 1), t)
                  else Ok (Asleep (), sleep (Proc_chan (k_me t)) t)) = Ok (r, s')"
    using assms by (auto simp: wait_def)
  note e = wait_scan_effect [OF w]
  have "case r of Return v \<Rightarrow> s' = t | Asleep _ \<Rightarrow> s' = sleep (Proc_chan (k_me s)) t"
    using r e by (auto split: option.splits if_splits)
  then show thesis using that [of t] e by blast
qed

lemma table_inv_wait:
  assumes "table_inv s" "wait addr s = Ok (r, s')" "live s (k_me s)"
  shows "table_inv s'" "\<forall>q. q \<noteq> k_me s \<longrightarrow> (p_state (k_proc s' q) = RUNNING) = (p_state (k_proc s q) = RUNNING)"
    "case r of Return _ \<Rightarrow> (p_state (k_proc s' (k_me s)) = RUNNING) = (p_state (me s) = RUNNING)
     | Asleep _ \<Rightarrow> p_state (k_proc s' (k_me s)) = SLEEPING"
proof -
  obtain t where t: "k_nextpid t = k_nextpid s" "k_initproc t = k_initproc s"
    "k_proc t = k_proc s \<or> (\<exists>pp. p_state (k_proc s pp) = ZOMBIE \<and> k_proc t = reap pp (k_proc s))"
    "case r of Return v \<Rightarrow> s' = t | Asleep _ \<Rightarrow> s' = sleep (Proc_chan (k_me s)) t" "k_me t = k_me s"
    by (rule wait_effect [OF assms(2)])
  have run: "(p_state (k_proc t q) = RUNNING) = (p_state (k_proc s q) = RUNNING)" for q
    using t(3) by (auto simp: reap_def dead_def split: if_splits)
  have lv: "live t (k_me s)" using assms(3) t(3) by (auto simp: live_def reap_def dead_def split: if_splits)
  have it: "table_inv t"
    using t(3)
  proof
    assume "k_proc t = k_proc s"
    then have "stable s t" using t(1,2) by (simp add: stable_def)
    then show ?thesis using table_inv_stable [OF assms(1)] by blast
  next
    assume "\<exists>pp. p_state (k_proc s pp) = ZOMBIE \<and> k_proc t = reap pp (k_proc s)"
    then show ?thesis using table_inv_reap [OF assms(1) _ _ t(1,2)] by blast
  qed
  have "stable t (sleep c t)" for c using lv t(5) by (simp add: stable_def sleep_def live_def)
  then show "table_inv s'" using it t(4) table_inv_stable by (cases r) auto
  show "\<forall>q. q \<noteq> k_me s \<longrightarrow> (p_state (k_proc s' q) = RUNNING) = (p_state (k_proc s q) = RUNNING)"
    using run t(4,5) by (cases r) (auto simp: sleep_def)
  show "case r of Return _ \<Rightarrow> (p_state (k_proc s' (k_me s)) = RUNNING) = (p_state (me s) = RUNNING)
     | Asleep _ \<Rightarrow> p_state (k_proc s' (k_me s)) = SLEEPING"
    using run t(4,5) by (cases r) (auto simp: sleep_def)
qed

lemma exit_effect:
  fixes s :: kst and status :: int
  defines "s' \<equiv> exit_proc status s"
  shows "k_nextpid s' = k_nextpid s" "k_initproc s' = k_initproc s"
    "q \<noteq> k_me s \<Longrightarrow> poked (k_proc s q) (k_proc s' q)"
    "p_state (k_proc s' (k_me s)) = ZOMBIE" "p_pid (k_proc s' (k_me s)) = p_pid (me s)"
    "p_parent (k_proc s' q) = (if q < NPROC \<and> p_parent (k_proc s q) = Some (k_me s) then k_initproc s else p_parent (k_proc s q))"
proof -
  let ?t = "reparent (k_me s) s"
  obtain c where s': "s' = pset (k_me s) (\<lambda>q. q\<lparr>p_xstate := status, p_state := ZOMBIE\<rparr>) (wakeup c ?t)"
    by (simp add: s'_def exit_proc_def Let_def)
  have pk: "poked (k_proc s q) (k_proc (wakeup c ?t) q)" for q
    using poked_trans [OF reparent_simps(4) poked_wakeup(1)] .
  show "k_nextpid s' = k_nextpid s" "k_initproc s' = k_initproc s" by (simp_all add: s' reparent_simps)
  show "poked (k_proc s q) (k_proc s' q)" if "q \<noteq> k_me s" using pk that by (simp add: s')
  show "p_state (k_proc s' (k_me s)) = ZOMBIE" by (simp add: s')
  show "p_pid (k_proc s' (k_me s)) = p_pid (me s)" using poked_state(4) [OF pk] by (simp add: s')
  show "p_parent (k_proc s' q) = (if q < NPROC \<and> p_parent (k_proc s q) = Some (k_me s) then k_initproc s else p_parent (k_proc s q))"
    by (simp add: s' poked_wakeup(2) reparent_simps)
qed

lemma table_inv_exit:
  assumes inv: "table_inv s" and "live s (k_me s)" "k_initproc s \<noteq> Some (k_me s)"
  shows "table_inv (exit_proc status s)"
proof -
  let ?s = "exit_proc status s"
  note e = exit_effect [where status = status and s = s]
  have st: "(p_state (k_proc ?s q) = UNUSED) = (p_state (k_proc s q) = UNUSED)" "p_pid (k_proc ?s q) = p_pid (k_proc s q)" for q
    using poked_state(2,4) [OF e(3)] e(4,5) assms(2) by (cases "q = k_me s"; simp add: live_def)+
  have lv: "live ?s q" if "live s q" "q \<noteq> k_me s" for q
    using that poked_state(2,3) [OF e(3)] by (simp add: live_def)
  have "live ?s pp" if "p < NPROC" "p_parent (k_proc ?s p) = Some pp" for p pp
  proof (cases "p_parent (k_proc s p) = Some (k_me s)")
    case True
    then have "k_initproc s = Some pp" using e(6) [of p] that by simp
    then show ?thesis using lv inv assms(3) by (auto simp: table_inv_def)
  next
    case False
    then have "p_parent (k_proc s p) = Some pp" using e(6) [of p] that by simp
    then show ?thesis using lv inv False that(1) by (auto simp: table_inv_def)
  qed
  moreover have "p_parent (k_proc ?s p) = None" if "p < NPROC" "p_state (k_proc s p) = UNUSED" for p
    using inv that e(6) [of p] by (auto simp: table_inv_def)
  moreover have "live ?s i" if "k_initproc s = Some i" for i using lv inv assms(3) that by (auto simp: table_inv_def)
  ultimately show ?thesis using inv st e(1,2) unfolding table_inv_def by simp
qed

lemma table_inv_spawn:
  assumes inv: "table_inv s" and "live s (k_me s)" and a: "allocproc s = Ok (Some np, t)"
  shows "table_inv (pset np (\<lambda>q. q\<lparr>p_parent := Some (k_me s), p_state := RUNNABLE\<rparr>) t)"
proof -
  let ?t = "pset np (\<lambda>q. q\<lparr>p_parent := Some (k_me s), p_state := RUNNABLE\<rparr>) t"
  note e = allocproc_effect [OF a, simplified]
  have lv: "live ?t q" if "live s q" for q using that e(3) by (auto simp: live_def)
  have old: "k_proc ?t q = k_proc s q" if "q \<noteq> np" for q using e(3) that by simp
  have new: "p_pid (k_proc ?t np) = k_nextpid s" "p_state (k_proc ?t np) = RUNNABLE"
    "p_parent (k_proc ?t np) = Some (k_me s)" using e(3) by simp_all
  have pid: "p_pid (k_proc s q) \<noteq> k_nextpid s" if "q < NPROC" for q
    using inv that unfolding table_inv_def by (metis less_irrefl)
  show ?thesis
    unfolding table_inv_def
  proof (intro conjI allI impI)
    show "0 < k_nextpid ?t" using inv e(3) by (simp add: table_inv_def)
    fix p assume p: "p < NPROC"
    show "if p_state (k_proc ?t p) = UNUSED then p_pid (k_proc ?t p) = 0 \<and> p_parent (k_proc ?t p) = None
        else 0 < p_pid (k_proc ?t p) \<and> p_pid (k_proc ?t p) < k_nextpid ?t"
      using inv p old new e(3) by (cases "p = np") (auto simp: table_inv_def)
    { fix q assume "q < NPROC" "p_state (k_proc ?t p) \<noteq> UNUSED \<and> p_pid (k_proc ?t p) = p_pid (k_proc ?t q)"
      then show "p = q"
        using inv p old new pid unfolding table_inv_def by (cases "p = np"; cases "q = np") metis+ }
    { fix pp assume "p_parent (k_proc ?t p) = Some pp"
      then show "live ?t pp" using inv p old new lv assms(2) by (cases "p = np") (auto simp: table_inv_def) }
  next
    fix i assume "k_initproc ?t = Some i"
    then show "live ?t i" using inv e(2) lv by (auto simp: table_inv_def)
  qed
qed

lemma table_inv_spawn_fails:
  assumes inv: "table_inv s" and a: "allocproc s = Ok (None, t)"
  shows "table_inv t" "\<forall>q. (p_state (k_proc t q) = RUNNING) = (p_state (k_proc s q) = RUNNING)"
proof -
  note e = allocproc_effect [OF a, simplified]
  have same: "p_state (k_proc t q) = p_state (k_proc s q) \<and> (q < NPROC \<longrightarrow> p_pid (k_proc t q) = p_pid (k_proc s q) \<and>
      p_parent (k_proc t q) = p_parent (k_proc s q))" for q
    using e(3) inv unfolding table_inv_def by metis
  then have "live t = live s" by (auto simp: live_def fun_eq_iff)
  then show "table_inv t" using inv same e(2,3) unfolding table_inv_def by (auto intro: less_le_trans)
  show "\<forall>q. (p_state (k_proc t q) = RUNNING) = (p_state (k_proc s q) = RUNNING)" using same by simp
qed

lemma kill_effect:
  "stable s (snd (kill pid s))" "(p_state (k_proc (snd (kill pid s)) q) = RUNNING) = (p_state (k_proc s q) = RUNNING)"
  by (auto simp: kill_def stable_def split: option.splits)

definition sys_inv :: "sys \<Rightarrow> bool" where
  "sys_inv y \<longleftrightarrow> run_inv y \<and> table_inv (y_k y)"

lemma sys_step_inv: "sys_step y y' \<Longrightarrow> sys_inv y \<Longrightarrow> sys_inv y'"
proof -
  assume step: "sys_step y y'" and inv: "sys_inv y"
  then have run: "run_inv y" and tab: "table_inv (y_k y)" by (simp_all add: sys_inv_def)
  have R: "p_state (k_proc (y_k y) p) = RUNNING" "p < NPROC" if "on c p y" for c p using run_invD(2,1) [OF run that] .
  have live: "live (as_me p y) (k_me (as_me p y))" if "on c p y" for c p using R [OF that] by (simp add: live_def)
  have tab': "table_inv (as_me p y)" for p using tab by simp
  show "sys_inv y'"
    using step
  proof cases
    case (pick c p)
    then have "stable (y_k y) (pset p (\<lambda>q. q\<lparr>p_state := RUNNING\<rparr>) (y_k y))" by (simp add: stable_def)
    then show ?thesis using run_enter [OF run pick(2-5)] table_inv_stable [OF tab] pick(1) by (simp add: sys_inv_def)
  next
    case (yields c p)
    then have "stable (as_me p y) (yield (as_me p y))" using R [OF yields(2)] by (simp add: stable_def yield_def)
    then show ?thesis using run_leave [OF run yields(2)] table_inv_stable [OF tab'] yields(1)
      by (simp add: sys_inv_def yield_def)
  next
    case (sleeps c p ch)
    then have "stable (as_me p y) (sleep ch (as_me p y))" using R [OF sleeps(2)] by (simp add: stable_def sleep_def)
    then show ?thesis using run_leave [OF run sleeps(2)] table_inv_stable [OF tab'] sleeps(1)
      by (simp add: sys_inv_def sleep_def)
  next
    case (resumes c p)
    then have "stable (as_me p y) (awake (as_me p y))" by (simp add: stable_def awake_def)
    then show ?thesis using run_keep [OF run, of "awake (as_me p y)"] table_inv_stable [OF tab'] resumes(1)
      by (simp add: sys_inv_def awake_def)
  next
    case (wakes c p ch)
    have "stable (as_me p y) (wakeup ch (as_me p y))" by (simp add: stable_def wakeup_proc)
    moreover have "run_inv \<lparr>y_k = wakeup ch (as_me p y), y_run = y_run y\<rparr>" by (rule run_keep [OF run]) (simp add: wakeup_proc)
    ultimately show ?thesis using table_inv_stable [OF tab'] wakes(1) by (simp add: sys_inv_def)
  next
    case (kills c p pid)
    have "run_inv \<lparr>y_k = snd (kill pid (as_me p y)), y_run = y_run y\<rparr>"
      by (rule run_keep [OF run]) (simp add: kill_effect(2))
    then show ?thesis using table_inv_stable [OF tab' kill_effect(1)] kills(1) by (simp add: sys_inv_def)
  next
    case (exits c p status)
    note e = exit_effect [where status = status and s = "as_me p y"]
    have "run_inv \<lparr>y_k = exit_proc status (as_me p y), y_run = (y_run y)(c := None)\<rparr>"
      using e(4) poked_state(1) [OF e(3)] by (intro run_leave [OF run exits(2)]) auto
    then show ?thesis using table_inv_exit [OF tab' live [OF exits(2)]] exits by (simp add: sys_inv_def)
  next
    case (waits c p addr v s)
    note w = table_inv_wait [OF tab' waits(3) live [OF waits(2)]]
    have "run_inv \<lparr>y_k = s, y_run = y_run y\<rparr>"
    proof (rule run_keep [OF run], rule allI)
      fix q show "(p_state (k_proc s q) = RUNNING) = (p_state (k_proc (y_k y) q) = RUNNING)"
        using w(2,3) by (cases "q = p") simp_all
    qed
    then show ?thesis using w(1) waits(1) by (simp add: sys_inv_def)
  next
    case (wait_sleeps c p addr s)
    note w = table_inv_wait [OF tab' wait_sleeps(3) live [OF wait_sleeps(2)]]
    have "run_inv \<lparr>y_k = s, y_run = (y_run y)(c := None)\<rparr>"
      using w(2,3) by (intro run_leave [OF run wait_sleeps(2)]) auto
    then show ?thesis using w(1) wait_sleeps(1) by (simp add: sys_inv_def)
  next
    case (spawns c p np s)
    note e = allocproc_effect [OF spawns(3), simplified]
    have "run_inv \<lparr>y_k = pset np (\<lambda>q. q\<lparr>p_parent := Some p, p_state := RUNNABLE\<rparr>) s, y_run = y_run y\<rparr>"
      using e(3) by (intro run_keep [OF run]) auto
    then show ?thesis using table_inv_spawn [OF tab' live [OF spawns(2)] spawns(3)] spawns(1) by (simp add: sys_inv_def)
  next
    case (spawn_fails c p s)
    note f = table_inv_spawn_fails [OF tab' spawn_fails(3)]
    have "run_inv \<lparr>y_k = s, y_run = y_run y\<rparr>" using f(2) by (intro run_keep [OF run]) simp
    then show ?thesis using f(1) spawn_fails(1) by (simp add: sys_inv_def)
  qed
qed

section \<open>Properties\<close>

text \<open>The system when the CPUs enter the scheduler: only the first process, made by \<^verbatim>\<open>userinit\<close>.\<close>

definition zero_proc :: proc where
  "zero_proc = \<lparr>p_state = UNUSED, p_chan = No_chan, p_killed = 0, p_xstate = 0, p_pid = 0, p_parent = None,
     p_kstack = 0, p_sz = 0, p_pagetable = 0, p_trapframe = 0, p_context = \<lambda>_. 0, p_ofile = \<lambda>_. None,
     p_cwd = None, p_name = \<lambda>_. 0\<rparr>"

definition boot_sys :: "phys \<Rightarrow> u64 \<Rightarrow> u64 \<Rightarrow> sys" where
  "boot_sys ph tramp fret =
     \<lparr>y_k = pset 0 (\<lambda>q. q\<lparr>p_pid := 1, p_state := RUNNABLE\<rparr>)
        (procinit \<lparr>k_proc = \<lambda>_. zero_proc, k_phys = ph, k_nextpid = 2, k_initproc = Some 0, k_me = 0,
           k_trampoline = tramp, k_forkret = fret\<rparr>),
      y_run = \<lambda>_. None\<rparr>"

lemma procinit_fold:
  "k_proc (fold (\<lambda>p. pset p (\<lambda>q :: proc. q\<lparr>p_state := UNUSED, p_kstack := KSTACK p\<rparr>)) ps s) q =
     (if q \<in> set ps then (k_proc s q)\<lparr>p_state := UNUSED, p_kstack := KSTACK q\<rparr> else k_proc s q)"
  "k_nextpid (fold (\<lambda>p. pset p (\<lambda>q :: proc. q\<lparr>p_state := UNUSED, p_kstack := KSTACK p\<rparr>)) ps s) = k_nextpid s"
  "k_initproc (fold (\<lambda>p. pset p (\<lambda>q :: proc. q\<lparr>p_state := UNUSED, p_kstack := KSTACK p\<rparr>)) ps s) = k_initproc s"
  "k_me (fold (\<lambda>p. pset p (\<lambda>q :: proc. q\<lparr>p_state := UNUSED, p_kstack := KSTACK p\<rparr>)) ps s) = k_me s"
  "k_phys (fold (\<lambda>p. pset p (\<lambda>q :: proc. q\<lparr>p_state := UNUSED, p_kstack := KSTACK p\<rparr>)) ps s) = k_phys s"
  by (induction ps arbitrary: s) auto

lemma boot_sys_inv: "sys_inv (boot_sys ph tramp fret)"
proof -
  have "0 < NPROC" by (simp add: NPROC_def)
  then show ?thesis
    by (auto simp: sys_inv_def run_inv_def on_def table_inv_def live_def boot_sys_def procinit_def procinit_fold zero_proc_def)
qed



text \<open>C37. \<^verbatim>\<open>kill(0)\<close> does not fail: free slots of the table have pid 0, so it marks the first free
  slot, and the next process created there is born killed, because \<^verbatim>\<open>allocproc\<close> does not clear
  the mark.\<close>

theorem kill_zero_poisons:
  assumes "table_inv s" and "\<exists>p < NPROC. p_state (k_proc s p) = UNUSED"
  shows "\<exists>p s'. kill 0 s = (0, s') \<and> p < NPROC \<and> p_state (k_proc s p) = UNUSED \<and> p_killed (k_proc s' p) = 1 \<and>
    (\<forall>np t. allocproc s' = Ok (Some np, t) \<longrightarrow> np = p \<and> p_killed (k_proc t np) = 1)"
proof -
  have "p_pid (k_proc s p) = 0 \<longleftrightarrow> p_state (k_proc s p) = UNUSED" if "p < NPROC" for p
    using assms(1) that unfolding table_inv_def by (metis less_irrefl)
  then have f: "find (\<lambda>p. p_pid (k_proc s p) = 0) [0..<NPROC] = find (\<lambda>p. p_state (k_proc s p) = UNUSED) [0..<NPROC]"
    by (intro find_cong) auto
  obtain p where p: "find (\<lambda>p. p_state (k_proc s p) = UNUSED) [0..<NPROC] = Some p"
    using assms(2) find_None_iff [of "\<lambda>p. p_state (k_proc s p) = UNUSED" "[0..<NPROC]"] by fastforce
  have unused: "p < NPROC" "p_state (k_proc s p) = UNUSED" using find_upt_Some [OF p] by simp_all
  let ?s = "pset p (\<lambda>q. q\<lparr>p_killed := 1, p_state := UNUSED\<rparr>) s"
  have k: "kill 0 s = (0, ?s)" using f p unused by (simp add: kill_def pset_def)
  have "(p_state (k_proc ?s q) = UNUSED) = (p_state (k_proc s q) = UNUSED)" for q using unused by simp
  then have "find (\<lambda>p. p_state (k_proc ?s p) = UNUSED) [0..<NPROC] = Some p" using p by (simp only:)
  then have "np = p" if "allocproc ?s = Ok (Some np, t)" for np t
    using that by (auto simp: allocproc_def Let_def simp del: pset_simps split: prod.splits if_splits)
  moreover have "p_killed (k_proc t np) = p_killed (k_proc ?s np)" if "allocproc ?s = Ok (Some np, t)" for np t
    using allocproc_effect(3) [OF that] by simp
  ultimately show ?thesis using k unused by (intro exI [of _ p] exI [of _ ?s]) simp
qed

theorem kill_zero_poisons_witness:
  "\<exists>p s'. kill 0 (y_k (boot_sys two_pages 0 0)) = (0, s') \<and> p < NPROC \<and>
     p_state (k_proc (y_k (boot_sys two_pages 0 0)) p) = UNUSED \<and> p_killed (k_proc s' p) = 1"
proof -
  let ?s = "y_k (boot_sys two_pages 0 0)"
  have "table_inv ?s" using boot_sys_inv by (simp add: sys_inv_def)
  moreover have "\<exists>p < NPROC. p_state (k_proc ?s p) = UNUSED"
    by (rule exI [of _ 1]) (simp add: boot_sys_def procinit_def procinit_fold NPROC_def)
  ultimately show ?thesis using kill_zero_poisons [of ?s] by blast
qed

end
