(* ===== verification/Xv6_Ring.thy ===== *)
theory Xv6_Ring
  imports Xv6_Prelude
begin

text \<open>
  Circular buffers with free-running indices, as pipes, the console and the UART driver use
  them: element \<open>i\<close> is stored at \<open>i mod n\<close>, the indices are machine words that wrap around,
  and the capacity divides their range.
\<close>

definition ring :: "nat \<Rightarrow> (nat \<Rightarrow> 'b) \<Rightarrow> 'a::len word \<Rightarrow> 'a word \<Rightarrow> 'b list" where
  "ring n d r w = map (\<lambda>k. d ((unat r + k) mod n)) [0..<unat (w - r)]"

lemma ring_length [simp]: "length (ring n d r w) = unat (w - r)"
  by (simp add: ring_def)

lemma ring_Nil_iff [simp]: "ring n d r w = [] \<longleftrightarrow> w = r"
  by (simp add: ring_def unat_eq_zero)

lemma unat_Suc_diff: "w \<noteq> r \<Longrightarrow> unat (w - r) = Suc (unat (w - (r + 1)))" for w r :: "'a::len word"
proof -
  assume "w \<noteq> r"
  then have "0 < unat (w - r)" by (simp add: unat_gt_0)
  moreover have "unat (w - r - 1) = unat (w - r) - 1" using \<open>w \<noteq> r\<close> by (intro unat_minus_one) simp
  moreover have "w - (r + 1) = w - r - 1" by simp
  ultimately show ?thesis by (simp only:)
qed

locale ring_buffer =
  fixes cap :: nat and zero :: "'a::len word"
  assumes cap_pos: "0 < cap" and cap_dvd: "cap dvd 2 ^ LENGTH('a)" and cap_less: "cap < 2 ^ LENGTH('a)"
begin

lemma unat_add_mod: "unat (r + of_nat k) mod cap = (unat r + k) mod cap" for r :: "'a word"
  using mod_mod_cancel [OF cap_dvd] by (simp add: unat_word_ariths unat_of_nat mod_simps)

lemma index_mod: "(unat r + unat (w - r)) mod cap = unat w mod cap" for r w :: "'a word"
  using unat_add_mod [of r "unat (w - r)"] by simp

lemma unat_grow: "unat (w - r) < cap \<Longrightarrow> unat (w + 1 - r) = Suc (unat (w - r))" for r w :: "'a word"
proof -
  assume "unat (w - r) < cap"
  then have "unat (w - r) + 1 < 2 ^ LENGTH('a)" using cap_less by linarith
  moreover have "w + 1 - r = (w - r) + 1" by simp
  ultimately show ?thesis by (simp only: unat_plus_simple) (simp add: unat_word_ariths)
qed

lemma enq: "unat (w - r) < cap \<Longrightarrow> ring cap (d(unat w mod cap := x)) r (w + 1) = ring cap d r w @ [x]"
  for r w :: "'a word"
proof -
  assume less: "unat (w - r) < cap"
  have "(unat r + k) mod cap \<noteq> unat w mod cap" if "k < unat (w - r)" for k
  proof
    assume "(unat r + k) mod cap = unat w mod cap"
    then have "(unat r + unat (w - r)) mod cap = (unat r + k) mod cap" by (simp only: index_mod)
    then have "cap dvd unat (w - r) - k" using that by (subst (asm) mod_eq_dvd_iff_nat) simp_all
    then show False using that less by (auto dest: dvd_imp_le)
  qed
  then show ?thesis using index_mod [of r w] by (simp add: ring_def unat_grow [OF less])
qed

lemma deq: "w \<noteq> r \<Longrightarrow> ring cap d r w = d (unat r mod cap) # ring cap d (r + 1) w" for r w :: "'a word"
proof -
  assume "w \<noteq> r"
  then have u: "unat (w - r) = Suc (unat (w - (r + 1)))" by (rule unat_Suc_diff)
  have "(unat (r + 1) + k) mod cap = (unat r + Suc k) mod cap" for k
    using unat_add_mod [of r 1] by (metis (no_types) Suc_eq_plus1 add.assoc add.commute mod_add_left_eq of_nat_1)
  then show ?thesis by (simp add: ring_def u upt_conv_Cons map_Suc_upt [symmetric] del: upt_Suc)
qed

lemma unenq: "w \<noteq> r \<Longrightarrow> ring cap d r (w - 1) = butlast (ring cap d r w)" for r w :: "'a word"
proof -
  assume "w \<noteq> r"
  then have "unat (w - r) = Suc (unat (w - 1 - r))"
    using unat_Suc_diff [of w r] by (simp add: algebra_simps)
  then show ?thesis by (simp add: ring_def)
qed

lemma last_ring: "w \<noteq> r \<Longrightarrow> last (ring cap d r w) = d (unat (w - 1) mod cap)" for r w :: "'a word"
proof -
  assume "w \<noteq> r"
  then have "unat (w - r) = Suc (unat (w - 1 - r))"
    using unat_Suc_diff [of w r] by (simp add: algebra_simps)
  then show ?thesis using index_mod [of r "w - 1"] by (simp add: ring_def)
qed

lemma ring_split:
  fixes r w e :: "'a word"
  assumes "unat (w - r) \<le> unat (e - r)"
  shows "unat (e - w) = unat (e - r) - unat (w - r)" "ring cap d r e = ring cap d r w @ ring cap d w e"
proof -
  have "e - w = (e - r) - (w - r)" by simp
  then show u: "unat (e - w) = unat (e - r) - unat (w - r)"
    using assms by (simp only: unat_sub word_le_nat_alt)
  have "(unat w + k) mod cap = (unat r + (unat (w - r) + k)) mod cap" for k
    using index_mod [of r w] by (metis add.assoc mod_add_left_eq)
  moreover have "[0..<unat (e - r)] = [0..<unat (w - r)] @ map (\<lambda>k. unat (w - r) + k) [0..<unat (e - w)]"
    using u assms upt_add_eq_append [of 0 "unat (w - r)" "unat (e - w)"] map_add_upt [of "unat (w - r)" "unat (e - w)"]
    by (simp add: add.commute)
  ultimately show "ring cap d r e = ring cap d r w @ ring cap d w e" by (simp add: ring_def)
qed

end

end
