(* ===== verification/Xv6_Pipe.thy ===== *)
theory Xv6_Pipe
  imports Xv6_Proc Xv6_Ring
begin

text \<open>
  \<^verbatim>\<open>kernel/pipe.c\<close>: reading, writing and closing a pipe.  A pipe lives at the page
  \<open>a\<close> it was allocated at, which also names its two sleep channels.  When a call sleeps it
  returns \<open>Asleep\<close> with its loop counter and continues from there.  \<^verbatim>\<open>pipealloc\<close>, which
  needs the file table, is in the theory of files.
\<close>

section \<open>Model\<close>

definition PIPESIZE :: nat where "PIPESIZE = 512"

record pipe =
  pi_data :: bytes
  pi_nread :: u32
  pi_nwrite :: u32
  pi_readopen :: bool
  pi_writeopen :: bool

definition pipeclose :: "u64 \<Rightarrow> bool \<Rightarrow> pipe \<Rightarrow> kst \<Rightarrow> (pipe \<times> kst) outcome" where
  "pipeclose a writable pi s =
     (let (pi, s) = (if writable then (pi\<lparr>pi_writeopen := False\<rparr>, wakeup (Pipe_read a) s)
                     else (pi\<lparr>pi_readopen := False\<rparr>, wakeup (Pipe_write a) s))
      in if \<not> pi_readopen pi \<and> \<not> pi_writeopen pi
         then obind (kfree a (k_phys s)) (\<lambda>ph. Ok (pi, s\<lparr>k_phys := ph\<rparr>))
         else Ok (pi, s))"

definition pipe_put :: "u8 \<Rightarrow> pipe \<Rightarrow> pipe" where
  "pipe_put ch pi = pi\<lparr>pi_data := (pi_data pi)(unat (pi_nwrite pi) mod PIPESIZE := ch), pi_nwrite := pi_nwrite pi + 1\<rparr>"

definition pipe_get :: "pipe \<Rightarrow> u8 \<times> pipe" where
  "pipe_get pi = (pi_data pi (unat (pi_nread pi) mod PIPESIZE), pi\<lparr>pi_nread := pi_nread pi + 1\<rparr>)"

text \<open>The loop of \<^verbatim>\<open>pipewrite\<close> from counter \<open>i\<close>; \<^verbatim>\<open>pipewrite\<close> starts it at 0.\<close>

function pipewrite_loop :: "u64 \<Rightarrow> u64 \<Rightarrow> int \<Rightarrow> int \<Rightarrow> pipe \<Rightarrow> kst \<Rightarrow> ((int, int) kret \<times> pipe \<times> kst) outcome" where
  "pipewrite_loop a addr n i pi s =
     (if i < n
      then if \<not> pi_readopen pi \<or> killed (k_me s) s \<noteq> 0 then Ok (Return (- 1), pi, s)
           else if pi_nwrite pi = pi_nread pi + of_nat PIPESIZE
           then Ok (Asleep i, pi, sleep (Pipe_write a) (wakeup (Pipe_read a) s))
           else obind (copyin (p_pagetable (me s)) (\<lambda>_. 0) 0 (addr + of_int i) 1 (k_phys s)) (\<lambda>(r, ch).
                if r = - 1 then Ok (Return i, pi, wakeup (Pipe_read a) s)
                else pipewrite_loop a addr n (i + 1) (pipe_put (ch 0) pi) s)
      else Ok (Return i, pi, wakeup (Pipe_read a) s))"
  by pat_completeness auto
termination
  by (relation "measure (\<lambda>(a, addr, n, i, pi, s). nat (n - i))") auto

declare pipewrite_loop.simps [simp del]

definition pipewrite :: "u64 \<Rightarrow> u64 \<Rightarrow> int \<Rightarrow> pipe \<Rightarrow> kst \<Rightarrow> ((int, int) kret \<times> pipe \<times> kst) outcome" where
  "pipewrite a addr n pi s = pipewrite_loop a addr n 0 pi s"

function piperead_loop :: "u64 \<Rightarrow> u64 \<Rightarrow> int \<Rightarrow> int \<Rightarrow> pipe \<Rightarrow> kst \<Rightarrow> (int \<times> pipe \<times> kst) outcome" where
  "piperead_loop a addr n i pi s =
     (if i < n \<and> pi_nread pi \<noteq> pi_nwrite pi
      then let (ch, pi) = pipe_get pi
           in obind (copyout (p_pagetable (me s)) (addr + of_int i) (\<lambda>_. ch) 1 (k_phys s)) (\<lambda>(r, ph).
              let s = s\<lparr>k_phys := ph\<rparr>
              in if r = - 1 then Ok (i, pi, wakeup (Pipe_write a) s)
                 else piperead_loop a addr n (i + 1) pi s)
      else Ok (i, pi, wakeup (Pipe_write a) s))"
  by pat_completeness auto
termination
  by (relation "measure (\<lambda>(a, addr, n, i, pi, s). nat (n - i))") auto

declare piperead_loop.simps [simp del]

definition piperead :: "u64 \<Rightarrow> u64 \<Rightarrow> int \<Rightarrow> pipe \<Rightarrow> kst \<Rightarrow> ((unit, int) kret \<times> pipe \<times> kst) outcome" where
  "piperead a addr n pi s =
     (if pi_nread pi = pi_nwrite pi \<and> pi_writeopen pi
      then if killed (k_me s) s \<noteq> 0 then Ok (Return (- 1), pi, s)
           else Ok (Asleep (), pi, sleep (Pipe_read a) s)
      else obind (piperead_loop a addr n 0 pi s) (\<lambda>(i, pi, s). Ok (Return i, pi, s)))"

section \<open>A bounded queue of bytes\<close>

interpretation pipe_ring: ring_buffer PIPESIZE "0 :: u32"
  by unfold_locales (simp_all add: PIPESIZE_def)

definition pipe_q :: "pipe \<Rightarrow> u8 list" where
  "pipe_q pi = ring PIPESIZE (pi_data pi) (pi_nread pi) (pi_nwrite pi)"

definition pipe_inv :: "pipe \<Rightarrow> bool" where
  "pipe_inv pi \<longleftrightarrow> length (pipe_q pi) \<le> PIPESIZE"

lemma pipe_full_iff: "pipe_inv pi \<Longrightarrow> pi_nwrite pi = pi_nread pi + of_nat PIPESIZE \<longleftrightarrow> length (pipe_q pi) = PIPESIZE"
proof -
  assume "pipe_inv pi"
  have "pi_nwrite pi = pi_nread pi + of_nat PIPESIZE \<longleftrightarrow> pi_nwrite pi - pi_nread pi = of_nat PIPESIZE"
    by (auto simp: algebra_simps)
  also have "\<dots> \<longleftrightarrow> length (pipe_q pi) = PIPESIZE"
    by (simp add: pipe_q_def word_unat_eq_iff unat_of_nat PIPESIZE_def)
  finally show ?thesis .
qed

lemma pipe_put_q:
  assumes "pipe_inv pi" "length (pipe_q pi) \<noteq> PIPESIZE"
  shows "pipe_q (pipe_put ch pi) = pipe_q pi @ [ch]" "pipe_inv (pipe_put ch pi)"
proof -
  have "unat (pi_nwrite pi - pi_nread pi) < PIPESIZE" using assms by (simp add: pipe_inv_def pipe_q_def)
  from pipe_ring.enq [OF this] show q: "pipe_q (pipe_put ch pi) = pipe_q pi @ [ch]"
    by (simp add: pipe_q_def pipe_put_def)
  show "pipe_inv (pipe_put ch pi)" using assms by (simp add: pipe_inv_def q)
qed

lemma pipe_get_q:
  assumes "pi_nread pi \<noteq> pi_nwrite pi" "pipe_get pi = (ch, pi')"
  shows "pipe_q pi = ch # pipe_q pi'"
  using pipe_ring.deq [of "pi_nwrite pi" "pi_nread pi"] assms by (auto simp: pipe_q_def pipe_get_def)

text \<open>The byte of the calling process at a user address, and writing a list of bytes there.\<close>

definition user_byte :: "u64 \<Rightarrow> u64 \<Rightarrow> phys \<Rightarrow> u8 option" where
  "user_byte pagetable va ph =
     (case copyin pagetable (\<lambda>_. 0) 0 va 1 ph of Ok (r, d) \<Rightarrow> if r = - 1 then None else Some (d 0) | _ \<Rightarrow> None)"

fun deliver :: "u64 \<Rightarrow> u64 \<Rightarrow> u8 list \<Rightarrow> phys \<Rightarrow> phys outcome" where
  "deliver pagetable va [] ph = Ok ph"
| "deliver pagetable va (x # xs) ph =
     obind (copyout pagetable va (\<lambda>_. x) 1 ph) (\<lambda>(r, ph).
     if r = 0 then deliver pagetable (va + 1) xs ph else Fault)"

lemma pipewrite_loop_spec:
  "pipe_inv pi \<Longrightarrow> \<exists>ret pi' s' xs. pipewrite_loop a addr n i pi s = Ok (ret, pi', s') \<and>
     pipe_q pi' = pipe_q pi @ xs \<and> pipe_inv pi' \<and> k_phys s' = k_phys s \<and>
     (\<forall>k < length xs. user_byte (p_pagetable (me s)) (addr + of_int (i + int k)) (k_phys s) = Some (xs ! k)) \<and>
     (case ret of Return r \<Rightarrow> r = i + int (length xs) \<and> no_sleeper (Pipe_read a) s' \<or>
          r = - 1 \<and> xs = [] \<and> (\<not> pi_readopen pi \<or> p_killed (me s) \<noteq> 0)
      | Asleep j \<Rightarrow> j = i + int (length xs) \<and> j < n \<and> length (pipe_q pi') = PIPESIZE \<and> no_sleeper (Pipe_read a) s')"
proof (induction a addr n i pi s rule: pipewrite_loop.induct)
  case (1 a addr n i pi s)
  obtain r ch where c: "copyin (p_pagetable (me s)) (\<lambda>_. 0) 0 (addr + of_int i) 1 (k_phys s) = Ok (r, ch)" "r = 0 \<or> r = - 1"
    using copyin_total by blast
  show ?case
  proof (cases "i < n \<and> pi_readopen pi \<and> killed (k_me s) s = 0 \<and> pi_nwrite pi \<noteq> pi_nread pi + of_nat PIPESIZE \<and> r = 0")
    case True
    then have ne: "length (pipe_q pi) \<noteq> PIPESIZE" using pipe_full_iff "1.prems" by blast
    note q = pipe_put_q [OF "1.prems" ne]
    obtain ret pi' s' xs where ih: "pipewrite_loop a addr n (i + 1) (pipe_put (ch 0) pi) s = Ok (ret, pi', s')"
      "pipe_q pi' = pipe_q (pipe_put (ch 0) pi) @ xs" "pipe_inv pi'" "k_phys s' = k_phys s"
      "\<forall>k < length xs. user_byte (p_pagetable (me s)) (addr + of_int (i + 1 + int k)) (k_phys s) = Some (xs ! k)"
      "case ret of Return r \<Rightarrow> r = i + 1 + int (length xs) \<and> no_sleeper (Pipe_read a) s' \<or>
           r = - 1 \<and> xs = [] \<and> (\<not> pi_readopen (pipe_put (ch 0) pi) \<or> p_killed (me s) \<noteq> 0)
       | Asleep j \<Rightarrow> j = i + 1 + int (length xs) \<and> j < n \<and> length (pipe_q pi') = PIPESIZE \<and> no_sleeper (Pipe_read a) s'"
      using "1.IH" [OF _ _ _ c(1) refl, of] True q(2) by auto
    have "user_byte (p_pagetable (me s)) (addr + of_int i) (k_phys s) = Some (ch 0)" using c(1) True by (simp add: user_byte_def)
    then have "\<forall>k < length (ch 0 # xs). user_byte (p_pagetable (me s)) (addr + of_int (i + int k)) (k_phys s) = Some ((ch 0 # xs) ! k)"
      using ih(5) by (auto simp: less_Suc_eq_0_disj add.assoc)
    moreover have "pipewrite_loop a addr n i pi s = Ok (ret, pi', s')"
      using True c(1) ih(1) by (subst pipewrite_loop.simps) simp
    moreover have "pi_readopen (pipe_put (ch 0) pi) = pi_readopen pi" by (simp add: pipe_put_def)
    ultimately show ?thesis
      using ih q(1) by (intro exI [of _ ret] exI [of _ pi'] exI [of _ s'] exI [of _ "ch 0 # xs"]) (use True in \<open>auto simp: killed_def split: kret.splits\<close>)
  next
    case False
    have k: "k_phys (sleep x t) = k_phys t" for x t by (simp add: sleep_def)
    show ?thesis
      using False c "1.prems" pipe_full_iff [OF "1.prems"]
      by (subst pipewrite_loop.simps) (auto simp: killed_def k no_sleeper_wakeup no_sleeper_sleep intro!: exI [of _ "[]"])
  qed
qed

lemma piperead_loop_spec:
  "\<exists>r pi' s' xs lost ph. piperead_loop a addr n i pi s = Ok (r, pi', s') \<and> pipe_q pi = xs @ lost @ pipe_q pi' \<and>
     r = i + int (length xs) \<and> r \<le> max i n \<and> no_sleeper (Pipe_write a) s' \<and>
     deliver (p_pagetable (me s)) (addr + of_int i) xs (k_phys s) = Ok ph \<and>
     (lost = [] \<and> k_phys s' = ph \<and> (r < n \<longrightarrow> pipe_q pi' = []) \<or>
      (\<exists>x. lost = [x] \<and> copyout (p_pagetable (me s)) (addr + of_int r) (\<lambda>_. x) 1 ph = Ok (- 1, k_phys s')))"
proof (induction a addr n i pi s rule: piperead_loop.induct)
  case (1 a addr n i pi s)
  obtain ch pi1 where g: "pipe_get pi = (ch, pi1)" by (cases "pipe_get pi")
  obtain r ph where c: "copyout (p_pagetable (me s)) (addr + of_int i) (\<lambda>_. ch) 1 (k_phys s) = Ok (r, ph)" "r = 0 \<or> r = - 1"
    using copyout_total by blast
  show ?case
  proof (cases "i < n \<and> pi_nread pi \<noteq> pi_nwrite pi")
    case True
    then have q: "pipe_q pi = ch # pipe_q pi1" using pipe_get_q [OF _ g] by blast
    show ?thesis
    proof (cases "r = 0")
      case ok: True
      let ?s = "s\<lparr>k_phys := ph\<rparr>"
      obtain r' pi' s' xs lost ph' where ih: "piperead_loop a addr n (i + 1) pi1 ?s = Ok (r', pi', s')"
        "pipe_q pi1 = xs @ lost @ pipe_q pi'" "r' = i + 1 + int (length xs)" "r' \<le> max (i + 1) n"
        "no_sleeper (Pipe_write a) s'"
        "deliver (p_pagetable (me s)) (addr + of_int (i + 1)) xs ph = Ok ph'"
        "lost = [] \<and> k_phys s' = ph' \<and> (r' < n \<longrightarrow> pipe_q pi' = []) \<or>
         (\<exists>x. lost = [x] \<and> copyout (p_pagetable (me s)) (addr + of_int r') (\<lambda>_. x) 1 ph' = Ok (- 1, k_phys s'))"
        using "1.IH" [OF True g [symmetric] refl c(1) refl refl] ok by auto
      have "piperead_loop a addr n i pi s = Ok (r', pi', s')"
        using True c(1) g ok ih(1) by (subst piperead_loop.simps) simp
      moreover have "deliver (p_pagetable (me s)) (addr + of_int i) (ch # xs) (k_phys s) = Ok ph'"
        using c(1) ok ih(6) by (simp add: add.assoc)
      ultimately show ?thesis
        using ih q True by (intro exI [of _ r'] exI [of _ pi'] exI [of _ s'] exI [of _ "ch # xs"] exI [of _ lost] exI [of _ ph']) auto
    next
      case False
      then have "piperead_loop a addr n i pi s = Ok (i, pi1, wakeup (Pipe_write a) (s\<lparr>k_phys := ph\<rparr>))"
        using True c g by (subst piperead_loop.simps) simp
      then show ?thesis
        using q c False by (intro exI [of _ i] exI [of _ pi1] exI [of _ "wakeup (Pipe_write a) (s\<lparr>k_phys := ph\<rparr>)"]
            exI [of _ "[]"] exI [of _ "[ch]"] exI [of _ "k_phys s"]) (auto simp: no_sleeper_wakeup)
    qed
  next
    case False
    then have "piperead_loop a addr n i pi s = Ok (i, pi, wakeup (Pipe_write a) s)"
      by (subst piperead_loop.simps) auto
    moreover have "i < n \<longrightarrow> pipe_q pi = []" using False by (auto simp: pipe_q_def)
    ultimately show ?thesis
      by (intro exI [of _ i] exI [of _ pi] exI [of _ "wakeup (Pipe_write a) s"] exI [of _ "[]"] exI [of _ "[]"]
          exI [of _ "k_phys s"]) (auto simp: no_sleeper_wakeup)
  qed
qed

section \<open>Properties\<close>


definition empty_pipe :: pipe where
  "empty_pipe = \<lparr>pi_data = \<lambda>_. 0, pi_nread = 0, pi_nwrite = 0, pi_readopen = True, pi_writeopen = True\<rparr>"


text \<open>C28. \<^verbatim>\<open>piperead\<close> takes from the front of the queue: it returns the number of bytes it stored
  at the caller's address, in order, and stops early only when the pipe is empty or the
  address is bad; in the latter case the byte it could not store is lost.  It sleeps exactly
  when the pipe is empty, a writer is open and the caller is not killed.\<close>

theorem piperead_dequeues:
  "\<exists>ret pi' s'. piperead a addr n pi s = Ok (ret, pi', s') \<and>
     (if pipe_q pi = [] \<and> pi_writeopen pi
      then pi' = pi \<and> ret = (if p_killed (me s) \<noteq> 0 then Return (- 1) else Asleep ())
      else \<exists>xs lost ph. ret = Return (int (length xs)) \<and> pipe_q pi = xs @ lost @ pipe_q pi' \<and>
        int (length xs) \<le> max 0 n \<and> no_sleeper (Pipe_write a) s' \<and>
        deliver (p_pagetable (me s)) addr xs (k_phys s) = Ok ph \<and>
        (lost = [] \<and> k_phys s' = ph \<and> (int (length xs) < n \<longrightarrow> pipe_q pi' = []) \<or>
         (\<exists>x. lost = [x] \<and>
            copyout (p_pagetable (me s)) (addr + of_nat (length xs)) (\<lambda>_. x) 1 ph = Ok (- 1, k_phys s'))))"
proof -
  have e: "pipe_q pi = [] \<longleftrightarrow> pi_nread pi = pi_nwrite pi" by (auto simp: pipe_q_def)
  show ?thesis
  proof (cases "pipe_q pi = [] \<and> pi_writeopen pi")
    case True
    then show ?thesis using e by (auto simp: piperead_def killed_def)
  next
    case False
    obtain r pi' s' xs lost ph where l: "piperead_loop a addr n 0 pi s = Ok (r, pi', s')" "pipe_q pi = xs @ lost @ pipe_q pi'"
      "r = int (length xs)" "r \<le> max 0 n" "no_sleeper (Pipe_write a) s'"
      "deliver (p_pagetable (me s)) addr xs (k_phys s) = Ok ph"
      "lost = [] \<and> k_phys s' = ph \<and> (r < n \<longrightarrow> pipe_q pi' = []) \<or>
       (\<exists>x. lost = [x] \<and> copyout (p_pagetable (me s)) (addr + of_int r) (\<lambda>_. x) 1 ph = Ok (- 1, k_phys s'))"
      using piperead_loop_spec [of a addr n 0 pi s] by auto
    have "piperead a addr n pi s = Ok (Return r, pi', s')" using False e l(1) by (auto simp: piperead_def)
    then show ?thesis
      unfolding if_not_P [OF False] using l
      by (intro exI [of _ "Return r"] exI [of _ pi'] exI [of _ s'] conjI exI [of _ xs] exI [of _ lost] exI [of _ ph]) simp_all
  qed
qed

theorem piperead_dequeues_witness:
  "\<exists>ret pi' s'. piperead 0x87fff000 0x1000 3 (pipe_put 65 empty_pipe\<lparr>pi_writeopen := False\<rparr>) (y_k (boot_sys two_pages 0 0)) = Ok (ret, pi', s') \<and>
     (\<exists>v. ret = Return v)"
proof -
  let ?pi = "pipe_put 65 empty_pipe\<lparr>pi_writeopen := False\<rparr>"
  show ?thesis using piperead_dequeues [of "0x87fff000" "0x1000" 3 ?pi "y_k (boot_sys two_pages 0 0)"] by auto
qed

end
