(* ===== verification/Xv6_Printf.thy ===== *)
theory Xv6_Printf
  imports Xv6_Prelude
begin

text \<open>
  Formatted output: \<^verbatim>\<open>kernel/printf.c\<close> and \<^verbatim>\<open>user/printf.c\<close>, and \<^verbatim>\<open>atoi\<close> of \<^verbatim>\<open>user/ulib.c\<close>.
  A format is the list of its characters before the NUL; the output is the list of
  characters handed to \<^verbatim>\<open>consputc\<close> or \<^verbatim>\<open>putc\<close>, in order.  A variable argument is a 64-bit
  register or a string; taking an argument that is not there, or of the other kind, is a
  \<^const>\<open>Fault\<close>, as is a number with more characters than the 16-byte buffer.
\<close>

section \<open>Numbers\<close>

abbreviation chr8 :: "char \<Rightarrow> u8" where
  "chr8 c \<equiv> of_char c"

text \<open>The digit loop of \<^verbatim>\<open>printint\<close>, least significant digit first.\<close>

function digit_loop :: "(nat \<Rightarrow> u8) \<Rightarrow> nat \<Rightarrow> nat \<Rightarrow> u8 list" where
  "digit_loop digits base x =
     digits (x mod base) # (if base \<le> 1 \<or> x div base = 0 then [] else digit_loop digits base (x div base))"
  by pat_completeness auto
termination
  by (relation "measure (\<lambda>(digits, base, x). x)") (auto simp: div_eq_0_iff)

declare digit_loop.simps [simp del]

definition k_digits :: "nat \<Rightarrow> u8" where
  "k_digits i = (if i < 10 then chr8 CHR ''0'' + of_nat i else chr8 CHR ''a'' + of_nat (i - 10))"

definition u_digits :: "nat \<Rightarrow> u8" where
  "u_digits i = (if i < 10 then chr8 CHR ''0'' + of_nat i else chr8 CHR ''A'' + of_nat (i - 10))"

definition print_buf :: "u8 list \<Rightarrow> u8 list outcome" where
  "print_buf buf = (if length buf > 16 then Fault else Ok (rev buf))"

definition k_printint :: "u64 \<Rightarrow> nat \<Rightarrow> bool \<Rightarrow> u8 list outcome" where
  "k_printint xx base sign =
     (let neg = sign \<and> sint xx < 0; x = (if neg then - xx else xx)
      in print_buf (digit_loop k_digits base (unat x) @ (if neg then [chr8 CHR ''-''] else [])))"

definition u_printint :: "u32 \<Rightarrow> nat \<Rightarrow> bool \<Rightarrow> u8 list outcome" where
  "u_printint xx base sign =
     (let neg = sign \<and> sint xx < 0; x = (if neg then - xx else xx)
      in print_buf (digit_loop u_digits base (unat x) @ (if neg then [chr8 CHR ''-''] else [])))"

primrec hex_digits :: "(nat \<Rightarrow> u8) \<Rightarrow> nat \<Rightarrow> u64 \<Rightarrow> u8 list" where
  "hex_digits digits 0 x = []"
| "hex_digits digits (Suc n) x = digits (unat (drop_bit 60 x)) # hex_digits digits n (push_bit 4 x)"

definition printptr :: "(nat \<Rightarrow> u8) \<Rightarrow> u64 \<Rightarrow> u8 list" where
  "printptr digits x = chr8 CHR ''0'' # chr8 CHR ''x'' # hex_digits digits 16 x"

section \<open>Formats\<close>

datatype arg = Val u64 | Str "u8 list option"

datatype spec = Num bool nat bool | Pointer | Text | Percent | Unknown

text \<open>What follows a percent sign, and how many further characters of the format it takes.
  A number is 64 bits wide or not, has a base and is signed or not.\<close>

definition spec_of :: "u8 \<Rightarrow> u8 \<Rightarrow> u8 \<Rightarrow> spec \<times> nat" where
  "spec_of c0 c1 c2 =
     (let l = chr8 CHR ''l''
      in if c0 = chr8 CHR ''d'' then (Num False 10 True, 0)
         else if c0 = l \<and> c1 = chr8 CHR ''d'' then (Num True 10 True, 1)
         else if c0 = l \<and> c1 = l \<and> c2 = chr8 CHR ''d'' then (Num True 10 True, 2)
         else if c0 = chr8 CHR ''u'' then (Num False 10 False, 0)
         else if c0 = l \<and> c1 = chr8 CHR ''u'' then (Num True 10 False, 1)
         else if c0 = l \<and> c1 = l \<and> c2 = chr8 CHR ''u'' then (Num True 10 False, 2)
         else if c0 = chr8 CHR ''x'' then (Num False 16 False, 0)
         else if c0 = l \<and> c1 = chr8 CHR ''x'' then (Num True 16 False, 1)
         else if c0 = l \<and> c1 = l \<and> c2 = chr8 CHR ''x'' then (Num True 16 False, 2)
         else if c0 = chr8 CHR ''p'' then (Pointer, 0)
         else if c0 = chr8 CHR ''s'' then (Text, 0)
         else if c0 = chr8 CHR ''%'' then (Percent, 0)
         else (Unknown, 0))"

definition char_at :: "u8 list \<Rightarrow> nat \<Rightarrow> u8" where
  "char_at fmt i = (if i < length fmt then fmt ! i else 0)"

definition null_text :: "u8 list" where
  "null_text = map of_char ''(null)''"

text \<open>The kernel's conversion of one argument; \<^verbatim>\<open>va_arg(ap, int)\<close> sign-extends the low half.\<close>

fun k_convert :: "spec \<Rightarrow> u8 \<Rightarrow> arg list \<Rightarrow> (u8 list \<times> arg list) outcome" where
  "k_convert (Num wide base sign) c0 (Val v # args) =
     obind (k_printint (if wide then v else scast (ucast v :: u32)) base sign) (\<lambda>out. Ok (out, args))"
| "k_convert Pointer c0 (Val v # args) = Ok (printptr k_digits v, args)"
| "k_convert Text c0 (Str s # args) = Ok (case s of None \<Rightarrow> null_text | Some t \<Rightarrow> t, args)"
| "k_convert Percent c0 args = Ok ([chr8 CHR ''%''], args)"
| "k_convert Unknown c0 args = Ok ([chr8 CHR ''%'', c0], args)"
| "k_convert _ c0 _ = Fault"

text \<open>The user library passes every number to \<^verbatim>\<open>printint\<close> as an \<^verbatim>\<open>int\<close>.\<close>

fun u_convert :: "spec \<Rightarrow> u8 \<Rightarrow> arg list \<Rightarrow> (u8 list \<times> arg list) outcome" where
  "u_convert (Num wide base sign) c0 (Val v # args) =
     obind (u_printint (ucast v) base sign) (\<lambda>out. Ok (out, args))"
| "u_convert Pointer c0 (Val v # args) = Ok (printptr u_digits v, args)"
| "u_convert Text c0 (Str s # args) = Ok (case s of None \<Rightarrow> null_text | Some t \<Rightarrow> t, args)"
| "u_convert Percent c0 args = Ok ([chr8 CHR ''%''], args)"
| "u_convert Unknown c0 args = Ok ([chr8 CHR ''%'', c0], args)"
| "u_convert _ c0 _ = Fault"

function k_printf :: "u8 list \<Rightarrow> arg list \<Rightarrow> u8 list outcome" where
  "k_printf [] args = Ok []"
| "k_printf (cx # fmt) args =
     (if cx \<noteq> chr8 CHR ''%'' then obind (k_printf fmt args) (\<lambda>out. Ok (cx # out))
      else case fmt of
        [] \<Rightarrow> Ok []
      | c0 # rest \<Rightarrow>
          let (sp, k) = spec_of c0 (char_at rest 0) (char_at rest 1)
          in obind (k_convert sp c0 args) (\<lambda>(out1, args).
             obind (k_printf (drop k rest) args) (\<lambda>out. Ok (out1 @ out))))"
  by pat_completeness auto
termination
  by (relation "measure (\<lambda>(fmt, args). length fmt)") auto

text \<open>\<^verbatim>\<open>vprintf\<close> of the user library; \<open>pct\<close> is its \<^verbatim>\<open>state\<close>.\<close>

function vprintf :: "bool \<Rightarrow> u8 list \<Rightarrow> arg list \<Rightarrow> u8 list outcome" where
  "vprintf pct [] args = Ok []"
| "vprintf pct (c0 # rest) args =
     (if \<not> pct
      then if c0 = chr8 CHR ''%'' then vprintf True rest args
           else obind (vprintf False rest args) (\<lambda>out. Ok (c0 # out))
      else let (sp, k) = spec_of c0 (char_at rest 0) (char_at rest 1)
           in obind (u_convert sp c0 args) (\<lambda>(out1, args).
              obind (vprintf False (drop k rest) args) (\<lambda>out. Ok (out1 @ out))))"
  by pat_completeness auto
termination
  by (relation "measure (\<lambda>(pct, fmt, args). length fmt)") auto

definition u_printf :: "u8 list \<Rightarrow> arg list \<Rightarrow> u8 list outcome" where
  "u_printf fmt args = vprintf False fmt args"

text \<open>What \<^verbatim>\<open>panic\<close> prints before it stops the machine.\<close>

definition panic_text :: "u8 list \<Rightarrow> u8 list outcome" where
  "panic_text s =
     obind (k_printf (map of_char ''panic: '') []) (\<lambda>a.
     obind (k_printf (map of_char ''%s'' @ [10]) [Str (Some s)]) (\<lambda>b. Ok (a @ b)))"

section \<open>Reading a number back\<close>

text \<open>\<^verbatim>\<open>atoi\<close>, with the wrap-around of a 32-bit \<^verbatim>\<open>int\<close>.\<close>

fun atoi_loop :: "u8 list \<Rightarrow> u32 \<Rightarrow> u32" where
  "atoi_loop [] n = n"
| "atoi_loop (c # cs) n =
     (if chr8 CHR ''0'' \<le> c \<and> c \<le> chr8 CHR ''9''
      then atoi_loop cs (n * 10 + ucast c - 48) else n)"

definition atoi :: "u8 list \<Rightarrow> int" where
  "atoi s = sint (atoi_loop s 0)"

section \<open>Properties\<close>

lemma digit_loop_small: "x < base \<Longrightarrow> digit_loop d base x = [d x]"
  by (subst digit_loop.simps) simp

lemma digit_loop_big: "1 < base \<Longrightarrow> base \<le> x \<Longrightarrow> digit_loop d base x = d (x mod base) # digit_loop d base (x div base)"
  by (subst digit_loop.simps) (simp add: div_eq_0_iff)

lemma digit_loop_length: "1 < base \<Longrightarrow> 0 < k \<Longrightarrow> length (digit_loop d base x) \<le> k \<longleftrightarrow> x < base ^ k"
proof (induction k arbitrary: x)
  case (Suc k)
  show ?case
  proof (cases "x < base")
    case True
    then have "x < base ^ Suc k" using Suc.prems(1) by (meson less_le_trans self_le_power less_imp_le zero_less_Suc)
    then show ?thesis using True by (simp add: digit_loop_small)
  next
    case False
    then have d: "digit_loop d base x = d (x mod base) # digit_loop d base (x div base)"
      using Suc.prems(1) by (simp add: digit_loop_big)
    show ?thesis
    proof (cases k)
      case 0
      then show ?thesis using False d by (simp add: digit_loop.simps [of d base "x div base"])
    next
      case (Suc j)
      then have "length (digit_loop d base (x div base)) \<le> k \<longleftrightarrow> x div base < base ^ k"
        using Suc.IH [of "x div base"] Suc.prems(1) by simp
      also have "\<dots> \<longleftrightarrow> x < base ^ Suc k" using Suc.prems(1) by (simp add: div_less_iff_less_mult mult.commute)
      finally show ?thesis using d by simp
    qed
  qed
qed simp

lemma u_digit_range:
  assumes "i < 10"
  shows "chr8 CHR ''0'' \<le> u_digits i \<and> u_digits i \<le> chr8 CHR ''9''" "ucast (u_digits i) = (48 + of_nat i :: u32)"
proof -
  have u: "unat (u_digits i) = 48 + i" using assms by (simp add: u_digits_def unat_word_ariths unat_of_nat)
  then show "chr8 CHR ''0'' \<le> u_digits i \<and> u_digits i \<le> chr8 CHR ''9''" using assms by (simp add: word_le_nat_alt)
  have "ucast (u_digits i) = (of_nat (unat (u_digits i)) :: u32)" by simp
  then show "ucast (u_digits i) = (48 + of_nat i :: u32)" by (simp only: u of_nat_add) simp
qed

lemma atoi_digits: "atoi_loop (rev (digit_loop u_digits 10 x) @ cs) 0 = atoi_loop cs (of_nat x)"
proof (induction x arbitrary: cs rule: less_induct)
  case (less x)
  show ?case
  proof (cases "x < 10")
    case True
    then show ?thesis using u_digit_range [OF True] by (simp add: digit_loop_small)
  next
    case False
    have m: "x mod 10 < 10" by simp
    have "of_nat (x div 10) * 10 + (48 + of_nat (x mod 10)) - 48 = (of_nat x :: u32)"
      by (metis (no_types) add.commute add_diff_cancel_left' add.left_commute div_mult_mod_eq of_nat_add of_nat_mult of_nat_numeral)
    then show ?thesis
      using False less.IH [of "x div 10" "u_digits (x mod 10) # cs"] u_digit_range [OF m]
      by (simp add: digit_loop_big)
  qed
qed

lemma print_buf_le: "length buf \<le> 16 \<Longrightarrow> print_buf buf = Ok (rev buf)"
  by (simp add: print_buf_def)

text \<open>C38. Numbers survive printing and reading back: what the user library's \<^verbatim>\<open>printf("%d")\<close>
  prints for a non-negative \<^verbatim>\<open>int\<close>, followed by any non-digit, \<^verbatim>\<open>atoi\<close> reads as that number.\<close>

theorem printf_atoi:
  assumes "x < 2 ^ 31" and "c < chr8 CHR ''0'' \<or> chr8 CHR ''9'' < c"
  shows "\<exists>s. u_printf (map of_char ''%d'') [Val (of_nat x)] = Ok s \<and> atoi (s @ c # cs) = int x"
proof -
  have "sint (of_nat x :: u32) = int x" using assms(1)
    by (simp add: signed_of_nat signed_take_bit_int_eq_self)
  moreover have "unat (of_nat x :: u32) = x" using assms(1) by (simp add: unat_of_nat)
  moreover have "length (digit_loop u_digits 10 x) \<le> 16" using assms(1) by (subst digit_loop_length) simp_all
  moreover have "ucast (of_nat x :: u64) = (of_nat x :: u32)"
    using assms(1) by (simp add: unsigned_of_nat take_bit_nat_eq_self)
  ultimately have "u_printf (map of_char ''%d'') [Val (of_nat x)] = Ok (rev (digit_loop u_digits 10 x))"
    by (simp add: u_printf_def spec_of_def u_printint_def print_buf_le)
  moreover have "atoi (rev (digit_loop u_digits 10 x) @ c # cs) = int x"
    using assms(2) \<open>sint (of_nat x :: u32) = int x\<close> unfolding atoi_def atoi_digits by (auto simp: not_le)
  ultimately show ?thesis by blast
qed

theorem printf_atoi_witness:
  "\<exists>s. u_printf (map of_char ''%d'') [Val 4096] = Ok s \<and> atoi (s @ [10]) = 4096"
  using printf_atoi [of 4096 10 "[]"] by simp

lemma k_printint_32: "\<exists>out. k_printint (scast (w :: u32)) 10 True = Ok out"
proof -
  let ?x = "scast w :: u64"
  have r: "- (2 ^ 31) \<le> sint w" "sint w < 2 ^ 31" using sint_range_size [of w] by (simp_all add: word_size)
  have x: "?x = of_int (sint w)" by simp
  have s: "sint ?x = sint w"
    unfolding x using r by (simp only: signed_of_int) (simp add: signed_take_bit_int_eq_self)
  have "(if sint ?x < 0 then - ?x else ?x) = of_int \<bar>sint w\<bar>" unfolding s using x by simp
  moreover have "unat (of_int \<bar>sint w\<bar> :: u64) = nat \<bar>sint w\<bar>"
    using r by (simp add: unsigned_of_int take_bit_int_eq_self)
  moreover have "length (digit_loop k_digits 10 (nat \<bar>sint w\<bar>)) \<le> 10"
    using r by (subst digit_loop_length) auto
  ultimately show ?thesis
    by (auto simp: k_printint_def print_buf_def Let_def)
qed


text \<open>The 64-bit conversions of the user library print the low 32 bits only.\<close>

lemma u_printf_truncates: "u_printf (map of_char ''%ld'') [Val v] = u_printf (map of_char ''%d'') [Val v]"
  by (simp add: u_printf_def spec_of_def char_at_def)

end
