(* ===== verification/Xv6_Console.thy ===== *)
theory Xv6_Console
  imports Xv6_Proc Xv6_Ring Xv6_Printf
begin

text \<open>
  \<^verbatim>\<open>kernel/uart.c\<close> and \<^verbatim>\<open>kernel/console.c\<close>: the serial driver and the line discipline.
  The device is what the driver sees of it: \<open>lsr n\<close> is the \<open>n\<close>-th value read from the line
  status register, a parameter of the operations that read it; \<open>u_in\<close> are the characters
  in the receive FIFO, and \<open>u_io\<close> records every write to a register.
\<close>

section \<open>UART\<close>

definition THR :: nat where "THR = 0"
definition IER :: nat where "IER = 1"
definition FCR :: nat where "FCR = 2"
definition LCR :: nat where "LCR = 3"
definition LSR_TX_IDLE :: u8 where "LSR_TX_IDLE = 0x20"
definition UART_TX_BUF_SIZE :: nat where "UART_TX_BUF_SIZE = 32"

record uart =
  u_buf :: bytes
  u_w :: u64
  u_r :: u64
  u_io :: "(nat \<times> u8) list"
  u_reads :: nat
  u_in :: "u8 list"

definition WriteReg :: "nat \<Rightarrow> u8 \<Rightarrow> uart \<Rightarrow> uart" where
  "WriteReg reg v u = u\<lparr>u_io := u_io u @ [(reg, v)]\<rparr>"

definition uartinit :: "uart \<Rightarrow> uart" where
  "uartinit u =
     (let u = WriteReg IER 0x00 u;
          u = WriteReg LCR 0x80 u;
          u = WriteReg 0 0x03 u;
          u = WriteReg 1 0x00 u;
          u = WriteReg LCR 0x03 u;
          u = WriteReg FCR 0x07 u
      in WriteReg IER 0x03 u)"

text \<open>The next value of the line status register, and whether it says the transmitter is idle.\<close>

definition read_lsr :: "(nat \<Rightarrow> u8) \<Rightarrow> uart \<Rightarrow> bool \<times> uart" where
  "read_lsr lsr u = (lsr (u_reads u) AND LSR_TX_IDLE \<noteq> 0, u\<lparr>u_reads := u_reads u + 1\<rparr>)"

function uartstart :: "(nat \<Rightarrow> u8) \<Rightarrow> uart \<Rightarrow> kst \<Rightarrow> uart \<times> kst" where
  "uartstart lsr u s =
     (if u_w u = u_r u then (u, s)
      else let (idle, u) = read_lsr lsr u
           in if \<not> idle then (u, s)
              else let c = u_buf u (unat (u_r u) mod UART_TX_BUF_SIZE);
                       u = u\<lparr>u_r := u_r u + 1\<rparr>;
                       s = wakeup Uart_chan s
                   in uartstart lsr (WriteReg THR c u) s)"
  by pat_completeness auto
termination
proof (relation "measure (\<lambda>(lsr, u, s). unat (u_w u - u_r u))", goal_cases)
  case (2 lsr u s x idle u1 c u2 s1)
  then have "u_w u \<noteq> u_r u" "u_w u1 = u_w u" "u_r u1 = u_r u" by (auto simp: read_lsr_def)
  then show ?case using 2 unat_Suc_diff [of "u_w u" "u_r u"] by (simp add: WriteReg_def)
qed simp

declare uartstart.simps [simp del]

definition uartputc :: "(nat \<Rightarrow> u8) \<Rightarrow> bool \<Rightarrow> u8 \<Rightarrow> uart \<Rightarrow> kst \<Rightarrow> ((unit, unit) kret \<times> uart \<times> kst) outcome" where
  "uartputc lsr panicked c u s =
     (if panicked then Diverge
      else if u_w u = u_r u + of_nat UART_TX_BUF_SIZE then Ok (Asleep (), u, sleep Uart_chan s)
      else let u = u\<lparr>u_buf := (u_buf u)(unat (u_w u) mod UART_TX_BUF_SIZE := c), u_w := u_w u + 1\<rparr>;
               (u, s) = uartstart lsr u s
           in Ok (Return (), u, s))"

text \<open>The polling loop of \<^verbatim>\<open>uartputc_sync\<close>: the number of the first read that finds the
  transmitter idle, if there is one.\<close>

partial_function (option) poll_idle :: "(nat \<Rightarrow> u8) \<Rightarrow> nat \<Rightarrow> nat option" where
  "poll_idle lsr n = (if lsr n AND LSR_TX_IDLE = 0 then poll_idle lsr (n + 1) else Some n)"

declare poll_idle.simps [code]

definition uartputc_sync :: "(nat \<Rightarrow> u8) \<Rightarrow> bool \<Rightarrow> u8 \<Rightarrow> uart \<Rightarrow> uart outcome" where
  "uartputc_sync lsr panicked c u =
     (if panicked then Diverge
      else case poll_idle lsr (u_reads u) of
        None \<Rightarrow> Diverge
      | Some n \<Rightarrow> Ok (WriteReg THR c (u\<lparr>u_reads := n + 1\<rparr>)))"

definition uartgetc :: "uart \<Rightarrow> int \<times> uart" where
  "uartgetc u = (case u_in u of [] \<Rightarrow> (- 1, u) | c # cs \<Rightarrow> (int (unat c), u\<lparr>u_in := cs\<rparr>))"

section \<open>Console\<close>

definition INPUT_BUF_SIZE :: nat where "INPUT_BUF_SIZE = 128"
definition BACKSPACE :: int where "BACKSPACE = 0x100"

record con =
  co_buf :: bytes
  co_r :: u32
  co_w :: u32
  co_e :: u32
  co_uart :: uart
  co_k :: kst
  co_panicked :: bool

abbreviation ctrl :: "char \<Rightarrow> int" where
  "ctrl c \<equiv> int (of_char c) - int (of_char CHR ''@'')"

primrec sync_all :: "(nat \<Rightarrow> u8) \<Rightarrow> bool \<Rightarrow> u8 list \<Rightarrow> uart \<Rightarrow> uart outcome" where
  "sync_all lsr panicked [] u = Ok u"
| "sync_all lsr panicked (c # cs) u = obind (uartputc_sync lsr panicked c u) (sync_all lsr panicked cs)"

definition consputc :: "(nat \<Rightarrow> u8) \<Rightarrow> bool \<Rightarrow> int \<Rightarrow> uart \<Rightarrow> uart outcome" where
  "consputc lsr panicked c u =
     (if c = BACKSPACE
      then obind (uartputc_sync lsr panicked 8 u) (\<lambda>u.
           obind (uartputc_sync lsr panicked 32 u) (uartputc_sync lsr panicked 8))
      else uartputc_sync lsr panicked (of_int c) u)"

text \<open>The loop of \<^verbatim>\<open>consolewrite\<close> from counter \<open>i\<close>.\<close>

function consolewrite_loop :: "(nat \<Rightarrow> u8) \<Rightarrow> bool \<Rightarrow> u64 \<Rightarrow> int \<Rightarrow> int \<Rightarrow> con \<Rightarrow> ((int, int) kret \<times> con) outcome" where
  "consolewrite_loop lsr user_src src n i k =
     (if i < n
      then obind (either_copyin (\<lambda>_. 0) user_src (src + of_int i) 1 (co_k k)) (\<lambda>(r, c).
           if r = - 1 then Ok (Return i, k)
           else obind (uartputc lsr (co_panicked k) (c 0) (co_uart k) (co_k k)) (\<lambda>(ret, u, s).
                let k = k\<lparr>co_uart := u, co_k := s\<rparr>
                in case ret of
                     Asleep _ \<Rightarrow> Ok (Asleep i, k)
                   | Return _ \<Rightarrow> consolewrite_loop lsr user_src src n (i + 1) k))
      else Ok (Return i, k))"
  by pat_completeness auto
termination
  by (relation "measure (\<lambda>(lsr, user_src, src, n, i, k). nat (n - i))") auto

declare consolewrite_loop.simps [simp del]

definition consolewrite :: "(nat \<Rightarrow> u8) \<Rightarrow> bool \<Rightarrow> u64 \<Rightarrow> int \<Rightarrow> con \<Rightarrow> ((int, int) kret \<times> con) outcome" where
  "consolewrite lsr user_src src n k = consolewrite_loop lsr user_src src n 0 k"

text \<open>The loop of \<^verbatim>\<open>consoleread\<close>; \<open>dst\<close> and \<open>n\<close> are live across the sleep.\<close>

function consoleread_loop :: "bool \<Rightarrow> int \<Rightarrow> u64 \<Rightarrow> int \<Rightarrow> con \<Rightarrow> ((u64 \<times> int, int) kret \<times> con) outcome" where
  "consoleread_loop user_dst target dst n k =
     (if n > 0
      then if co_r k = co_w k
           then if killed (k_me (co_k k)) (co_k k) \<noteq> 0 then Ok (Return (- 1), k)
                else Ok (Asleep (dst, n), k\<lparr>co_k := sleep Cons_chan (co_k k)\<rparr>)
           else let c = co_buf k (unat (co_r k) mod INPUT_BUF_SIZE);
                    k = k\<lparr>co_r := co_r k + 1\<rparr>
                in if int (unat c) = ctrl CHR ''D''
                   then Ok (Return (target - n), if n < target then k\<lparr>co_r := co_r k - 1\<rparr> else k)
                   else obind (either_copyout user_dst dst (\<lambda>_. c) 1 (co_k k)) (\<lambda>(r, s).
                        let k = k\<lparr>co_k := s\<rparr>
                        in if r = - 1 then Ok (Return (target - n), k)
                           else if c = 10 then Ok (Return (target - (n - 1)), k)
                           else consoleread_loop user_dst target (dst + 1) (n - 1) k)
      else Ok (Return (target - n), k))"
  by pat_completeness auto
termination
  by (relation "measure (\<lambda>(user_dst, target, dst, n, k). nat n)") auto

declare consoleread_loop.simps [simp del]

definition consoleread :: "bool \<Rightarrow> u64 \<Rightarrow> int \<Rightarrow> con \<Rightarrow> ((u64 \<times> int, int) kret \<times> con) outcome" where
  "consoleread user_dst dst n k = consoleread_loop user_dst n dst n k"

function kill_line :: "(nat \<Rightarrow> u8) \<Rightarrow> con \<Rightarrow> con outcome" where
  "kill_line lsr k =
     (if co_e k \<noteq> co_w k \<and> co_buf k (unat (co_e k - 1) mod INPUT_BUF_SIZE) \<noteq> 10
      then obind (consputc lsr (co_panicked k) BACKSPACE (co_uart k)) (\<lambda>u.
           kill_line lsr (k\<lparr>co_e := co_e k - 1, co_uart := u\<rparr>))
      else Ok k)"
  by pat_completeness auto
termination
proof (relation "measure (\<lambda>(lsr, k). unat (co_e k - co_w k))", goal_cases)
  case (2 lsr k u)
  then have "unat (co_e k - co_w k) = Suc (unat (co_e k - (co_w k + 1)))" by (intro unat_Suc_diff) simp
  moreover have "co_e k - 1 - co_w k = co_e k - (co_w k + 1)" by (simp add: algebra_simps)
  ultimately have "unat (co_e k - 1 - co_w k) < unat (co_e k - co_w k)" by (metis lessI)
  then show ?case by simp
qed simp

declare kill_line.simps [simp del]

text \<open>What \<^verbatim>\<open>procdump\<close> prints, through the kernel's \<^verbatim>\<open>printf\<close>.\<close>

primrec c_string :: "nat \<Rightarrow> bytes \<Rightarrow> nat \<Rightarrow> u8 list" where
  "c_string 0 d i = []"
| "c_string (Suc n) d i = (if d i = 0 then [] else d i # c_string n d (i + 1))"

primrec dump_lines :: "(int \<times> string \<times> bytes) list \<Rightarrow> u8 list outcome" where
  "dump_lines [] = Ok []"
| "dump_lines (l # ls) =
     obind (k_printf (map of_char ''%d %s %s'')
        [Val (of_int (fst l)), Str (Some (map of_char (fst (snd l)))), Str (Some (c_string 16 (snd (snd l)) 0))]) (\<lambda>out.
     obind (dump_lines ls) (\<lambda>rest. Ok (out @ [10] @ rest)))"

definition consoleintr :: "(nat \<Rightarrow> u8) \<Rightarrow> int \<Rightarrow> con \<Rightarrow> con outcome" where
  "consoleintr lsr c k =
     (if c = ctrl CHR ''P''
      then obind (dump_lines (procdump (co_k k))) (\<lambda>out.
           obind (sync_all lsr (co_panicked k) (10 # out) (co_uart k)) (\<lambda>u. Ok (k\<lparr>co_uart := u\<rparr>)))
      else if c = ctrl CHR ''U'' then kill_line lsr k
      else if c = ctrl CHR ''H'' \<or> c = 0x7f
      then if co_e k \<noteq> co_w k
           then obind (consputc lsr (co_panicked k) BACKSPACE (co_uart k)) (\<lambda>u.
                Ok (k\<lparr>co_e := co_e k - 1, co_uart := u\<rparr>))
           else Ok k
      else if c \<noteq> 0 \<and> unat (co_e k - co_r k) < INPUT_BUF_SIZE
      then let c = (if c = 13 then 10 else c)
           in obind (consputc lsr (co_panicked k) c (co_uart k)) (\<lambda>u.
              let k = k\<lparr>co_uart := u, co_buf := (co_buf k)(unat (co_e k) mod INPUT_BUF_SIZE := of_int c), co_e := co_e k + 1\<rparr>
              in if c = 10 \<or> c = ctrl CHR ''D'' \<or> unat (co_e k - co_r k) = INPUT_BUF_SIZE
                 then Ok (k\<lparr>co_w := co_e k, co_k := wakeup Cons_chan (co_k k)\<rparr>)
                 else Ok k)
      else Ok k)"

lemma uartputc_sync_in: "uartputc_sync lsr p c u = Ok u' \<Longrightarrow> u_in u' = u_in u"
  by (auto simp: uartputc_sync_def WriteReg_def split: if_splits option.splits)

lemma sync_all_in: "sync_all lsr p cs u = Ok u' \<Longrightarrow> u_in u' = u_in u"
  by (induction cs arbitrary: u) (auto simp: obind_Ok_iff dest!: uartputc_sync_in)

lemma consputc_in: "consputc lsr p c u = Ok u' \<Longrightarrow> u_in u' = u_in u"
  by (auto simp: consputc_def obind_Ok_iff dest!: uartputc_sync_in split: if_splits)

lemma kill_line_in: "kill_line lsr k = Ok k' \<Longrightarrow> u_in (co_uart k') = u_in (co_uart k)"
proof (induction lsr k arbitrary: k' rule: kill_line.induct)
  case (1 lsr k)
  note * = "1.prems" [unfolded kill_line.simps [of lsr k]]
  then show ?case using "1.IH" by (auto simp: obind_Ok_iff dest: consputc_in split: if_splits)
qed

lemma consoleintr_in: "consoleintr lsr c k = Ok k' \<Longrightarrow> u_in (co_uart k') = u_in (co_uart k)"
  by (auto simp: consoleintr_def Let_def obind_Ok_iff simp del: sync_all.simps
    dest!: kill_line_in consputc_in sync_all_in split: if_splits)

text \<open>The input loop of \<^verbatim>\<open>uartintr\<close>.\<close>

function intr_loop :: "(nat \<Rightarrow> u8) \<Rightarrow> con \<Rightarrow> con outcome" where
  "intr_loop lsr k =
     (let (c, u) = uartgetc (co_uart k)
      in if c = - 1 then Ok k else obind (consoleintr lsr c (k\<lparr>co_uart := u\<rparr>)) (intr_loop lsr))"
  by pat_completeness auto
termination
  by (relation "measure (\<lambda>(lsr, k). length (u_in (co_uart k)))")
    (auto simp: uartgetc_def dest!: consoleintr_in split: list.splits)

declare intr_loop.simps [simp del]

definition uartintr :: "(nat \<Rightarrow> u8) \<Rightarrow> con \<Rightarrow> con outcome" where
  "uartintr lsr k =
     obind (intr_loop lsr k) (\<lambda>k.
     let (u, s) = uartstart lsr (co_uart k) (co_k k)
     in Ok (k\<lparr>co_uart := u, co_k := s\<rparr>))"

definition consoleinit :: "con \<Rightarrow> con" where
  "consoleinit k = k\<lparr>co_uart := uartinit (co_uart k)\<rparr>"

section \<open>The transmit queue\<close>

interpretation uart_ring: ring_buffer UART_TX_BUF_SIZE "0 :: u64"
  by unfold_locales (simp_all add: UART_TX_BUF_SIZE_def)

definition uart_q :: "uart \<Rightarrow> u8 list" where
  "uart_q u = ring UART_TX_BUF_SIZE (u_buf u) (u_r u) (u_w u)"

text \<open>The bytes the driver has handed to the transmitter.\<close>

definition sent :: "uart \<Rightarrow> u8 list" where
  "sent u = map snd (filter (\<lambda>(reg, v). reg = THR) (u_io u))"

lemma sent_WriteReg [simp]: "sent (WriteReg reg v u) = sent u @ (if reg = THR then [v] else [])"
  by (simp add: sent_def WriteReg_def)

lemma uart_q_WriteReg [simp]: "uart_q (WriteReg reg v u) = uart_q u"
  by (simp add: uart_q_def WriteReg_def)

lemma read_lsr_keeps: "read_lsr lsr u = (i, u') \<Longrightarrow> uart_q u' = uart_q u \<and> sent u' = sent u \<and> u_w u' = u_w u \<and> u_r u' = u_r u \<and> u_buf u' = u_buf u"
  by (auto simp: read_lsr_def uart_q_def sent_def)

lemma uartstart_conserves:
  "uartstart lsr u s = (u', s') \<Longrightarrow> sent u' @ uart_q u' = sent u @ uart_q u \<and>
     length (uart_q u') \<le> length (uart_q u) \<and> u_in u' = u_in u \<and> (no_sleeper Uart_chan s \<longrightarrow> no_sleeper Uart_chan s') \<and>
     (length (uart_q u') < length (uart_q u) \<longrightarrow> no_sleeper Uart_chan s')"
proof (induction lsr u s rule: uartstart.induct)
  case (1 lsr u s)
  obtain i u1 where rd: "read_lsr lsr u = (i, u1)" by (cases "read_lsr lsr u")
  note keeps = read_lsr_keeps [OF rd]
  show ?case
  proof (cases "u_w u \<noteq> u_r u \<and> i")
    case True
    let ?c = "u_buf u1 (unat (u_r u1) mod UART_TX_BUF_SIZE)" and ?u = "u1\<lparr>u_r := u_r u1 + 1\<rparr>"
    have q: "uart_q u = ?c # uart_q ?u" using uart_ring.deq [of "u_w u" "u_r u"] True keeps by (simp add: uart_q_def)
    have n: "sent ?u = sent u" using keeps by (simp add: sent_def)
    have go: "uartstart lsr (WriteReg THR ?c ?u) (wakeup Uart_chan s) = (u', s')"
      using "1.prems" True rd by (subst (asm) uartstart.simps) simp
    have "u_in (WriteReg THR ?c ?u) = u_in u" using rd by (auto simp: read_lsr_def WriteReg_def)
    then show ?thesis using "1.IH" [OF _ refl rd [symmetric] _ refl refl refl go] True q n no_sleeper_wakeup [of Uart_chan s] by auto
  next
    case False
    then have "uart_q u' = uart_q u \<and> sent u' = sent u \<and> s' = s \<and> u_in u' = u_in u"
      using "1.prems" rd keeps by (subst (asm) uartstart.simps) (auto simp: read_lsr_def split: if_splits)
    then show ?thesis by simp
  qed
qed

lemma uart_full_iff: "u_w u = u_r u + of_nat UART_TX_BUF_SIZE \<longleftrightarrow> length (uart_q u) = UART_TX_BUF_SIZE"
proof -
  have "u_w u = u_r u + of_nat UART_TX_BUF_SIZE \<longleftrightarrow> u_w u - u_r u = of_nat UART_TX_BUF_SIZE"
    by (auto simp: algebra_simps)
  then show ?thesis by (simp add: uart_q_def word_unat_eq_iff unat_of_nat UART_TX_BUF_SIZE_def)
qed

section \<open>Waiting for the transmitter\<close>

text \<open>The transmitter becomes idle again and again.\<close>

definition responsive :: "(nat \<Rightarrow> u8) \<Rightarrow> bool" where
  "responsive lsr \<longleftrightarrow> (\<forall>n. \<exists>m \<ge> n. lsr m AND LSR_TX_IDLE \<noteq> 0)"

lemma poll_idle_returns: "n \<le> m \<Longrightarrow> lsr m AND LSR_TX_IDLE \<noteq> 0 \<Longrightarrow> \<exists>k. poll_idle lsr n = Some k"
proof (induction "m - n" arbitrary: n)
  case 0
  then show ?case by (subst poll_idle.simps) simp
next
  case (Suc d)
  then have "\<exists>k. poll_idle lsr (n + 1) = Some k" by simp
  then show ?case by (subst poll_idle.simps) simp
qed

lemma uartputc_sync_returns: "responsive lsr \<Longrightarrow> \<exists>u'. uartputc_sync lsr False c u = Ok u' \<and> sent u' = sent u @ [c]"
proof -
  assume "responsive lsr"
  then obtain m where "u_reads u \<le> m" "lsr m AND LSR_TX_IDLE \<noteq> 0" unfolding responsive_def by blast
  then obtain k where "poll_idle lsr (u_reads u) = Some k" using poll_idle_returns by blast
  then show ?thesis by (simp add: uartputc_sync_def) (simp add: sent_def)
qed

lemma sync_all_returns: "responsive lsr \<Longrightarrow> \<exists>u'. sync_all lsr False cs u = Ok u' \<and> sent u' = sent u @ cs"
proof (induction cs arbitrary: u)
  case (Cons c cs)
  obtain u1 where "uartputc_sync lsr False c u = Ok u1" "sent u1 = sent u @ [c]" using uartputc_sync_returns [OF Cons.prems] by blast
  then show ?case using Cons.IH [OF Cons.prems, of u1] by simp
qed simp

lemma consputc_returns:
  "responsive lsr \<Longrightarrow> \<exists>u'. consputc lsr False c u = Ok u' \<and> sent u' = sent u @ (if c = BACKSPACE then [8, 32, 8] else [of_int c])"
  using sync_all_returns [of lsr "[8, 32, 8]" u] uartputc_sync_returns [of lsr "of_int c" u]
  by (auto simp: consputc_def)

lemma kill_line_returns: "responsive lsr \<Longrightarrow> \<not> co_panicked k \<Longrightarrow> \<exists>k'. kill_line lsr k = Ok k'"
proof (induction lsr k rule: kill_line.induct)
  case (1 lsr k)
  obtain u where u: "consputc lsr False BACKSPACE (co_uart k) = Ok u" using consputc_returns [OF "1.prems"(1)] by blast
  show ?case
    using u "1.IH" "1.prems" by (subst kill_line.simps) auto
qed

lemma dump_lines_returns: "\<exists>out. dump_lines ls = Ok out"
proof (induction ls)
  case (Cons l ls)
  obtain out where "k_printint (scast (ucast (of_int (fst l) :: u64) :: u32)) 10 True = Ok out" using k_printint_32 by blast
  then show ?case using Cons by (auto simp: spec_of_def Let_def)
qed simp

lemma consoleintr_returns: "responsive lsr \<Longrightarrow> \<not> co_panicked k \<Longrightarrow> \<exists>k'. consoleintr lsr c k = Ok k'"
proof -
  assume r: "responsive lsr" and p: "\<not> co_panicked k"
  obtain out where out: "dump_lines (procdump (co_k k)) = Ok out" using dump_lines_returns by blast
  obtain u1 where "sync_all lsr False (10 # out) (co_uart k) = Ok u1" using sync_all_returns [OF r] by blast
  moreover obtain u2 where "consputc lsr False BACKSPACE (co_uart k) = Ok u2" using consputc_returns [OF r] by blast
  moreover obtain u3 where "consputc lsr False (if c = 13 then 10 else c) (co_uart k) = Ok u3" using consputc_returns [OF r] by blast
  ultimately show ?thesis using p kill_line_returns [OF r p] out by (auto simp: consoleintr_def Let_def simp del: sync_all.simps)
qed

section \<open>The line discipline\<close>

interpretation con_ring: ring_buffer INPUT_BUF_SIZE "0 :: u32"
  by unfold_locales (simp_all add: INPUT_BUF_SIZE_def)

text \<open>What the console holds: the input committed for readers, and the line being edited.\<close>

type_synonym con_abs = "u8 list \<times> u8 list"

definition con_abs :: "con \<Rightarrow> con_abs" where
  "con_abs k = (ring INPUT_BUF_SIZE (co_buf k) (co_r k) (co_w k), ring INPUT_BUF_SIZE (co_buf k) (co_w k) (co_e k))"

definition con_inv :: "con \<Rightarrow> bool" where
  "con_inv k \<longleftrightarrow> unat (co_w k - co_r k) \<le> unat (co_e k - co_r k) \<and> unat (co_e k - co_r k) \<le> INPUT_BUF_SIZE \<and>
     10 \<notin> set (snd (con_abs k))"

text \<open>One keystroke, on the two lists.\<close>

definition edit_step :: "int \<Rightarrow> con_abs \<Rightarrow> con_abs" where
  "edit_step c = (\<lambda>(cm, ed).
     if c = ctrl CHR ''P'' \<or> c = 0 then (cm, ed)
     else if c = ctrl CHR ''U'' then (cm, [])
     else if c = ctrl CHR ''H'' \<or> c = 0x7f then (cm, butlast ed)
     else if length cm + length ed < INPUT_BUF_SIZE
     then let x = (if c = 13 then 10 else of_int c); ed = ed @ [x]
          in if x = 10 \<or> x = 4 \<or> length cm + length ed = INPUT_BUF_SIZE then (cm @ ed, []) else (cm, ed)
     else (cm, ed))"

lemma con_inv_e:
  assumes "con_inv k"
  shows "unat (co_e k - co_r k) = length (fst (con_abs k)) + length (snd (con_abs k))"
    "ring INPUT_BUF_SIZE (co_buf k) (co_r k) (co_e k) = fst (con_abs k) @ snd (con_abs k)"
  using con_ring.ring_split [of "co_w k" "co_r k" "co_e k"] assms by (auto simp: con_inv_def con_abs_def)

lemma con_inv_kept [simp]:
  "con_abs (k\<lparr>co_uart := u\<rparr>) = con_abs k" "con_abs (k\<lparr>co_k := s\<rparr>) = con_abs k"
  "con_inv (k\<lparr>co_uart := u\<rparr>) = con_inv k" "con_inv (k\<lparr>co_k := s\<rparr>) = con_inv k"
  by (simp_all add: con_abs_def con_inv_def)

text \<open>Taking back the last character of the line being edited.\<close>

lemma unedit:
  assumes "con_inv k" "co_e k \<noteq> co_w k"
  shows "con_inv (k\<lparr>co_e := co_e k - 1\<rparr>)" "con_abs (k\<lparr>co_e := co_e k - 1\<rparr>) = (fst (con_abs k), butlast (snd (con_abs k)))"
proof -
  let ?k = "k\<lparr>co_e := co_e k - 1\<rparr>"
  show a: "con_abs ?k = (fst (con_abs k), butlast (snd (con_abs k)))"
    using con_ring.unenq [OF assms(2)] by (simp add: con_abs_def)
  have "unat (co_e k - co_w k) \<noteq> 0" using assms(2) by (simp add: unat_eq_zero)
  then have lt: "unat (co_w k - co_r k) < unat (co_e k - co_r k)"
    using con_inv_e(1) [OF assms(1)] by (simp add: con_abs_def)
  then have "co_e k \<noteq> co_r k" by auto
  then have "unat (co_e k - co_r k) = Suc (unat (co_e k - 1 - co_r k))"
    using unat_Suc_diff [of "co_e k" "co_r k"] by (simp add: algebra_simps)
  then show "con_inv ?k" using assms(1) lt a by (auto simp: con_inv_def dest: in_set_butlastD)
qed

lemma kill_line_spec:
  "con_inv k \<Longrightarrow> kill_line lsr k = Ok k' \<Longrightarrow> con_inv k' \<and> con_abs k' = (fst (con_abs k), []) \<and> co_k k' = co_k k \<and> co_panicked k' = co_panicked k"
proof (induction lsr k arbitrary: k' rule: kill_line.induct)
  case (1 lsr k)
  show ?case
  proof (cases "co_e k = co_w k")
    case True
    then show ?thesis using "1.prems" by (simp add: kill_line.simps [of lsr k] con_abs_def)
  next
    case False
    have "co_buf k (unat (co_e k - 1) mod INPUT_BUF_SIZE) = last (snd (con_abs k))"
      using con_ring.last_ring [OF False, of "co_buf k"] by (simp add: con_abs_def)
    moreover have "snd (con_abs k) \<noteq> []" using False by (simp add: con_abs_def)
    ultimately have ne: "co_buf k (unat (co_e k - 1) mod INPUT_BUF_SIZE) \<noteq> 10"
      using "1.prems"(1) unfolding con_inv_def by (metis last_in_set)
    then obtain u where u: "consputc lsr (co_panicked k) BACKSPACE (co_uart k) = Ok u"
      "kill_line lsr (k\<lparr>co_e := co_e k - 1, co_uart := u\<rparr>) = Ok k'"
      using "1.prems"(2) False by (auto simp: kill_line.simps [of lsr k] obind_Ok_iff)
    have "con_inv (k\<lparr>co_e := co_e k - 1, co_uart := u\<rparr>)"
      using unedit(1) [OF "1.prems"(1) False] con_inv_kept(3) by metis
    from "1.IH" [OF _ u(1) this u(2)] False ne show ?thesis
      using unedit(2) [OF "1.prems"(1) False] by simp
  qed
qed

lemma type_char:
  fixes c :: u8 and u :: uart
  assumes "con_inv k" "unat (co_e k - co_r k) < INPUT_BUF_SIZE"
  defines "k1 \<equiv> k\<lparr>co_uart := u, co_buf := (co_buf k)(unat (co_e k) mod INPUT_BUF_SIZE := c), co_e := co_e k + 1\<rparr>"
  shows "con_abs k1 = (fst (con_abs k), snd (con_abs k) @ [c])" "unat (co_e k1 - co_r k1) = Suc (unat (co_e k - co_r k))"
    "c \<noteq> 10 \<Longrightarrow> con_inv k1"
    "con_abs (k1\<lparr>co_w := co_e k1, co_k := s\<rparr>) = (fst (con_abs k) @ snd (con_abs k) @ [c], [])"
    "con_inv (k1\<lparr>co_w := co_e k1, co_k := s\<rparr>)"
proof -
  let ?d = "(co_buf k)(unat (co_e k) mod INPUT_BUF_SIZE := c)"
  have s: "unat (co_w k - co_r k) \<le> unat (co_e k - co_r k)" using assms(1) by (simp add: con_inv_def)
  have le: "unat (co_e k - co_w k) < INPUT_BUF_SIZE" using con_ring.ring_split(1) [OF s] assms(2) by simp
  show u: "unat (co_e k1 - co_r k1) = Suc (unat (co_e k - co_r k))"
    using con_ring.unat_grow [OF assms(2)] by (simp add: k1_def)
  have all: "ring INPUT_BUF_SIZE ?d (co_r k) (co_e k + 1) = fst (con_abs k) @ snd (con_abs k) @ [c]"
    using con_ring.enq [OF assms(2), of "co_buf k" c] con_inv_e(2) [OF assms(1)] by simp
  have ed: "ring INPUT_BUF_SIZE ?d (co_w k) (co_e k + 1) = snd (con_abs k) @ [c]"
    using con_ring.enq [OF le, of "co_buf k" c] by (simp add: con_abs_def)
  have "unat (co_w k - co_r k) \<le> unat (co_e k + 1 - co_r k)" using s u by (simp add: k1_def)
  from con_ring.ring_split(2) [OF this, of ?d] have "ring INPUT_BUF_SIZE ?d (co_r k) (co_w k) = fst (con_abs k)"
    using all ed by simp
  then show a: "con_abs k1 = (fst (con_abs k), snd (con_abs k) @ [c])" using ed by (simp add: con_abs_def k1_def)
  show "con_inv k1" if "c \<noteq> 10" using that s u assms(1,2) a by (auto simp: con_inv_def k1_def)
  show b: "con_abs (k1\<lparr>co_w := co_e k1, co_k := s\<rparr>) = (fst (con_abs k) @ snd (con_abs k) @ [c], [])"
    using all by (simp add: con_abs_def k1_def)
  show "con_inv (k1\<lparr>co_w := co_e k1, co_k := s\<rparr>)" using u assms(2) b by (auto simp: con_inv_def k1_def)
qed

lemma consoleintr_spec:
  assumes inv: "con_inv k" and ok: "consoleintr lsr c k = Ok k'" and c: "0 \<le> c" "c < 256"
  shows "con_inv k'" "con_abs k' = edit_step c (con_abs k)" "co_panicked k' = co_panicked k"
    "fst (con_abs k') \<noteq> fst (con_abs k) \<longrightarrow> no_sleeper Cons_chan (co_k k')"
proof -
  have n: "unat (co_e k - co_r k) = length (fst (con_abs k)) + length (snd (con_abs k))" by (rule con_inv_e(1) [OF inv])
  have e: "co_e k = co_w k \<longleftrightarrow> snd (con_abs k) = []" by (auto simp: con_abs_def)
  consider (p) "c = 16 \<or> c = 0" | (u) "c = 21" | (h) "c = 8 \<or> c = 127"
    | (t) "c \<noteq> 16" "c \<noteq> 0" "c \<noteq> 21" "c \<noteq> 8" "c \<noteq> 127" "unat (co_e k - co_r k) < INPUT_BUF_SIZE"
    | (f) "c \<noteq> 16" "c \<noteq> 0" "c \<noteq> 21" "c \<noteq> 8" "c \<noteq> 127" "\<not> unat (co_e k - co_r k) < INPUT_BUF_SIZE" by blast
  then have "con_inv k' \<and> con_abs k' = edit_step c (con_abs k) \<and> co_panicked k' = co_panicked k \<and>
    (fst (con_abs k') \<noteq> fst (con_abs k) \<longrightarrow> no_sleeper Cons_chan (co_k k'))"
  proof cases
    case p
    then show ?thesis using inv ok by (auto simp: consoleintr_def edit_step_def obind_Ok_iff split: prod.splits)
  next
    case u
    then show ?thesis using kill_line_spec [OF inv, of lsr k'] ok by (auto simp: consoleintr_def edit_step_def split: prod.splits)
  next
    case h
    then show ?thesis using unedit [OF inv] inv ok e
      by (cases "co_e k = co_w k") (auto simp: consoleintr_def edit_step_def obind_Ok_iff split: prod.splits if_splits)
  next
    case t
    let ?x = "if c = 13 then 10 else c"
    obtain v where "consputc lsr (co_panicked k) ?x (co_uart k) = Ok v"
      using ok t by (auto simp: consoleintr_def Let_def obind_Ok_iff)
    note v = this
    note tc = type_char [OF inv t(6), where u = v and c = "of_int ?x"]
    let ?k = "k\<lparr>co_uart := v, co_buf := (co_buf k)(unat (co_e k) mod INPUT_BUF_SIZE := of_int ?x), co_e := co_e k + 1\<rparr>"
    have m: "unat (of_int ?x :: u8) = nat ?x" using c by (simp add: unsigned_of_int take_bit_int_eq_self)
    have w: "(of_int ?x :: u8) = 10 \<longleftrightarrow> ?x = 10" "(of_int ?x :: u8) = 4 \<longleftrightarrow> ?x = 4"
      using c by (simp_all add: word_unat_eq_iff m nat_eq_iff)
    let ?commit = "?x = 10 \<or> ?x = 4 \<or> Suc (unat (co_e k - co_r k)) = INPUT_BUF_SIZE"
    have k': "k' = (if ?commit then ?k\<lparr>co_w := co_e ?k, co_k := wakeup Cons_chan (co_k k)\<rparr> else ?k)"
      using ok t v tc(2) by (auto simp: consoleintr_def Let_def split: if_splits)
    have es: "edit_step c (con_abs k) = (if ?commit then (fst (con_abs k) @ snd (con_abs k) @ [of_int ?x], []) else (fst (con_abs k), snd (con_abs k) @ [of_int ?x]))"
      using t n w by (auto simp: edit_step_def Let_def split: prod.splits)
    show ?thesis
    proof (cases ?commit)
      case True
      then show ?thesis using k' es tc(4,5) no_sleeper_wakeup by simp
    next
      case False
      then show ?thesis using k' es tc(1,3) w by simp
    qed
  next
    case f
    then show ?thesis using inv ok n by (auto simp: consoleintr_def edit_step_def split: prod.splits)
  qed
  then show "con_inv k'" "con_abs k' = edit_step c (con_abs k)" "co_panicked k' = co_panicked k"
    "fst (con_abs k') \<noteq> fst (con_abs k) \<longrightarrow> no_sleeper Cons_chan (co_k k')" by blast+
qed

lemma intr_loop_spec:
  "con_inv k \<Longrightarrow> responsive lsr \<Longrightarrow> \<not> co_panicked k \<Longrightarrow> \<exists>k'. intr_loop lsr k = Ok k' \<and> con_inv k' \<and> u_in (co_uart k') = [] \<and>
     con_abs k' = fold (\<lambda>c. edit_step (int (unat c))) (u_in (co_uart k)) (con_abs k)"
proof (induction "u_in (co_uart k)" arbitrary: k)
  case Nil
  then show ?case by (subst intr_loop.simps) (simp add: uartgetc_def)
next
  case (Cons c cs)
  let ?k = "k\<lparr>co_uart := (co_uart k)\<lparr>u_in := cs\<rparr>\<rparr>"
  have p: "\<not> co_panicked ?k" and inv: "con_inv ?k" using Cons.prems by simp_all
  obtain k1 where k1: "consoleintr lsr (int (unat c)) ?k = Ok k1" using consoleintr_returns [OF Cons.prems(2) p] by blast
  have "int (unat c) < 256" using unsigned_less [of c] by simp
  note s = consoleintr_spec(1-3) [OF inv k1 of_nat_0_le_iff this]
  have i: "u_in (co_uart k1) = cs" using consoleintr_in [OF k1] by simp
  have "0 \<le> uint c" by simp
  then have "uint c \<noteq> - 1" by linarith
  then have "intr_loop lsr k = intr_loop lsr k1"
    using k1 Cons.hyps(2) [symmetric] by (subst intr_loop.simps) (simp add: uartgetc_def)
  moreover have "\<not> co_panicked k1" using s(3) Cons.prems(3) by simp
  ultimately show ?case using Cons.hyps(1) [OF i [symmetric] s(1) Cons.prems(2)] i s(2) Cons.hyps(2) [symmetric]
    by simp
qed

section \<open>Properties\<close>

text \<open>C26. The console's ring buffer and its three indices implement a line editor on two lists, the
  committed input and the line being edited: every keystroke acts as \<^const>\<open>edit_step\<close> says, the
  two together never exceed \<^verbatim>\<open>INPUT_BUF_SIZE\<close>, and when input is committed no reader stays asleep.\<close>

theorem console_line_discipline:
  assumes "con_inv k" "consoleintr lsr c k = Ok k'" "0 \<le> c" "c < 256"
  shows "con_inv k' \<and> con_abs k' = edit_step c (con_abs k) \<and>
    length (fst (con_abs k')) + length (snd (con_abs k')) \<le> INPUT_BUF_SIZE \<and>
    (fst (con_abs k') = fst (con_abs k) \<or> no_sleeper Cons_chan (co_k k'))"
proof (intro conjI)
  note s = consoleintr_spec [OF assms]
  show "con_inv k'" "con_abs k' = edit_step c (con_abs k)" by (fact s)+
  show "length (fst (con_abs k')) + length (snd (con_abs k')) \<le> INPUT_BUF_SIZE"
    using con_inv_e(1) [OF s(1)] s(1) by (simp add: con_inv_def)
  show "fst (con_abs k') = fst (con_abs k) \<or> no_sleeper Cons_chan (co_k k')" using s(4) by blast
qed

definition boot_con :: "u8 list \<Rightarrow> con" where
  "boot_con cs = consoleinit \<lparr>co_buf = \<lambda>_. 0, co_r = 0, co_w = 0, co_e = 0,
     co_uart = \<lparr>u_buf = \<lambda>_. 0, u_w = 0, u_r = 0, u_io = [], u_reads = 0, u_in = cs\<rparr>,
     co_k = y_k (boot_sys two_pages 0 0), co_panicked = False\<rparr>"

lemma boot_con_inv: "con_inv (boot_con cs)" "con_abs (boot_con cs) = ([], [])" "\<not> co_panicked (boot_con cs)"
  "u_in (co_uart (boot_con cs)) = cs"
  by (simp_all add: boot_con_def con_inv_def con_abs_def consoleinit_def ring_def uartinit_def WriteReg_def Let_def)

lemma always_idle: "responsive (\<lambda>_. LSR_TX_IDLE)"
  by (auto simp: responsive_def LSR_TX_IDLE_def)

theorem console_line_discipline_witness:
  "\<exists>k'. consoleintr (\<lambda>_. LSR_TX_IDLE) 104 (boot_con []) = Ok k' \<and> con_abs k' = ([], [104])"
proof -
  obtain k' where "consoleintr (\<lambda>_. LSR_TX_IDLE) 104 (boot_con []) = Ok k'"
    using consoleintr_returns [OF always_idle boot_con_inv(3)] by blast
  then show ?thesis
    using console_line_discipline [OF boot_con_inv(1), of "\<lambda>_. LSR_TX_IDLE" 104 "[]" k']
    by (simp add: boot_con_inv(2) edit_step_def INPUT_BUF_SIZE_def)
qed

text \<open>C29. As long as the transmitter becomes idle again and again, the UART interrupt handler returns:
  it takes every pending character out of the receiver and applies each to the line being
  edited, in the order of arrival.\<close>

theorem uartintr_drains:
  assumes "con_inv k" "responsive lsr" "\<not> co_panicked k"
  shows "\<exists>k'. uartintr lsr k = Ok k' \<and> u_in (co_uart k') = [] \<and> con_inv k' \<and>
    con_abs k' = fold (\<lambda>c. edit_step (int (unat c))) (u_in (co_uart k)) (con_abs k)"
proof -
  obtain k1 where k1: "intr_loop lsr k = Ok k1" "con_inv k1" "u_in (co_uart k1) = []"
    "con_abs k1 = fold (\<lambda>c. edit_step (int (unat c))) (u_in (co_uart k)) (con_abs k)"
    using intr_loop_spec [OF assms] by blast
  obtain u s where u: "uartstart lsr (co_uart k1) (co_k k1) = (u, s)" by (cases "uartstart lsr (co_uart k1) (co_k k1)")
  then have "u_in u = []" using uartstart_conserves k1(3) by simp
  moreover have "con_abs (k1\<lparr>co_uart := u, co_k := s\<rparr>) = con_abs k1" "con_inv (k1\<lparr>co_uart := u, co_k := s\<rparr>) = con_inv k1"
    by (simp_all add: con_abs_def con_inv_def)
  ultimately show ?thesis using k1 u by (intro exI [of _ "k1\<lparr>co_uart := u, co_k := s\<rparr>"]) (simp add: uartintr_def)
qed

theorem uartintr_drains_witness:
  "\<exists>k'. uartintr (\<lambda>_. LSR_TX_IDLE) (boot_con [104, 120, 127, 105, 13]) = Ok k' \<and> con_abs k' = ([104, 105, 10], [])"
  using uartintr_drains [OF boot_con_inv(1) always_idle boot_con_inv(3), of "[104, 120, 127, 105, 13]"]
  by (auto simp: boot_con_inv edit_step_def INPUT_BUF_SIZE_def)

text \<open>The UART driver neither loses, duplicates nor reorders output: after \<^verbatim>\<open>uartputc\<close> the bytes
  given to the transmitter followed by those in the ring are those before it followed by the
  new byte, the ring holds at most \<^verbatim>\<open>UART_TX_BUF_SIZE\<close> bytes, and the caller sleeps exactly
  when the ring is full.\<close>

theorem uartputc_conserves:
  assumes "length (uart_q u) \<le> UART_TX_BUF_SIZE"
  shows "\<exists>ret u' s'. uartputc lsr False c u s = Ok (ret, u', s') \<and> length (uart_q u') \<le> UART_TX_BUF_SIZE \<and>
    (if length (uart_q u) = UART_TX_BUF_SIZE then ret = Asleep () \<and> u' = u \<and> s' = sleep Uart_chan s
     else ret = Return () \<and> sent u' @ uart_q u' = sent u @ uart_q u @ [c])"
proof (cases "length (uart_q u) = UART_TX_BUF_SIZE")
  case True
  then show ?thesis using uart_full_iff by (simp add: uartputc_def)
next
  case False
  let ?u = "u\<lparr>u_buf := (u_buf u)(unat (u_w u) mod UART_TX_BUF_SIZE := c), u_w := u_w u + 1\<rparr>"
  have "unat (u_w u - u_r u) < UART_TX_BUF_SIZE" using False assms by (simp add: uart_q_def)
  from uart_ring.enq [OF this] have q: "uart_q ?u = uart_q u @ [c]" by (simp add: uart_q_def)
  obtain u' s' where go: "uartstart lsr ?u s = (u', s')" by (cases "uartstart lsr ?u s")
  have "sent ?u = sent u" by (simp add: sent_def)
  then show ?thesis
    using uartstart_conserves [OF go] go q False assms uart_full_iff [of u] by (auto simp: uartputc_def)
qed

theorem uartputc_conserves_witness:
  "\<exists>ret u' s'. uartputc (\<lambda>_. 0) False 65 (co_uart (boot_con [])) (co_k (boot_con [])) = Ok (ret, u', s') \<and>
     sent u' @ uart_q u' = sent (co_uart (boot_con [])) @ [65]"
proof -
  have "uart_q (co_uart (boot_con [])) = []"
    by (simp add: boot_con_def consoleinit_def uartinit_def uart_q_def WriteReg_def Let_def)
  then show ?thesis
    using uartputc_conserves [of "co_uart (boot_con [])" "\<lambda>_. 0" 65 "co_k (boot_con [])"] by (auto simp: UART_TX_BUF_SIZE_def)
qed

end
