(* ===== verification/Xv6_Fs.thy ===== *)
theory Xv6_Fs
  imports Xv6_Log Xv6_Proc Xv6_Huffman Xv6_String
begin

text \<open>
  \<^verbatim>\<open>kernel/fs.c\<close>: block allocation, inodes, file contents (with the transparent compression of
  this repository), directories and path names.  The state is that of the log and buffer
  cache, the table of in-memory inodes, the processes and physical memory, the static
  variables of \<^verbatim>\<open>readi\<close> and those of the Huffman coder.  Inodes are indices into the table.
\<close>

section \<open>State\<close>

definition NINODE :: nat where "NINODE = 50"
definition ROOTINO :: u32 where "ROOTINO = 1"
definition FSMAGIC :: u32 where "FSMAGIC = 0x10203040"
definition NDIRECT :: nat where "NDIRECT = 12"
definition NINDIRECT :: nat where "NINDIRECT = BSIZE div 4"
definition MAXFILE :: nat where "MAXFILE = NDIRECT + NINDIRECT"
definition IPB :: nat where "IPB = BSIZE div 64"
definition BPB :: nat where "BPB = BSIZE * 8"
definition DIRSIZ :: nat where "DIRSIZ = 14"
definition T_DIR :: u16 where "T_DIR = 1"
definition T_FILE :: u16 where "T_FILE = 2"
definition T_DEVICE :: u16 where "T_DEVICE = 3"
definition COMPRESSION_MAGIC :: u32 where "COMPRESSION_MAGIC = 0x436F6D70"

record superblock =
  sb_magic :: u32
  sb_size :: u32
  sb_nblocks :: u32
  sb_ninodes :: u32
  sb_nlog :: u32
  sb_logstart :: u32
  sb_inodestart :: u32
  sb_bmapstart :: u32

record inode =
  i_dev :: u32
  i_inum :: u32
  i_ref :: int
  i_lock :: sleeplock
  i_valid :: bool
  i_type :: u16
  i_major :: u16
  i_minor :: u16
  i_nlink :: u16
  i_size :: u32
  i_addrs :: "nat \<Rightarrow> u32"

record fs =
  f_log :: log
  f_sb :: superblock
  f_inode :: "nat \<Rightarrow> inode"
  f_k :: kst
  f_huff :: huff
  f_cbuf :: u64
  f_cinum :: u32
  f_clen :: u32

definition IBLOCK :: "u32 \<Rightarrow> superblock \<Rightarrow> u32" where
  "IBLOCK i sb = of_nat (unat i div IPB) + sb_inodestart sb"

definition BBLOCK :: "nat \<Rightarrow> superblock \<Rightarrow> u32" where
  "BBLOCK b sb = of_nat (b div BPB) + sb_bmapstart sb"

definition iset :: "nat \<Rightarrow> (inode \<Rightarrow> inode) \<Rightarrow> fs \<Rightarrow> fs" where
  "iset i g s = s\<lparr>f_inode := (f_inode s)(i := g (f_inode s i))\<rparr>"

definition set_phys :: "phys \<Rightarrow> fs \<Rightarrow> fs" where
  "set_phys ph s = s\<lparr>f_k := (f_k s)\<lparr>k_phys := ph\<rparr>\<rparr>"

abbreviation f_bio :: "fs \<Rightarrow> bio" where
  "f_bio s \<equiv> lg_bio (f_log s)"

abbreviation f_phys :: "fs \<Rightarrow> phys" where
  "f_phys s \<equiv> k_phys (f_k s)"

text \<open>The buffer cache and the log, as parts of the state.\<close>

definition set_bio :: "bio \<Rightarrow> fs \<Rightarrow> fs" where
  "set_bio c s = s\<lparr>f_log := (f_log s)\<lparr>lg_bio := c\<rparr>\<rparr>"

definition fs_bread :: "u32 \<Rightarrow> u32 \<Rightarrow> fs \<Rightarrow> (nat \<times> fs) outcome" where
  "fs_bread dev n s = obind (bread dev n (f_bio s)) (\<lambda>(b, c). Ok (b, set_bio c s))"

definition fs_brelse :: "nat \<Rightarrow> fs \<Rightarrow> fs outcome" where
  "fs_brelse b s = obind (brelse b (f_bio s)) (\<lambda>c. Ok (set_bio c s))"

definition fs_log_write :: "nat \<Rightarrow> fs \<Rightarrow> fs outcome" where
  "fs_log_write b s = obind (log_write b (f_log s)) (\<lambda>lg. Ok (s\<lparr>f_log := lg\<rparr>))"

abbreviation fs_data :: "nat \<Rightarrow> fs \<Rightarrow> bytes" where
  "fs_data b s \<equiv> bdata b (f_bio s)"

definition fs_set :: "nat \<Rightarrow> bytes \<Rightarrow> fs \<Rightarrow> fs" where
  "fs_set b d s = set_bio (set_data b d (f_bio s)) s"

text \<open>Change a buffer, log it and release it.\<close>

definition fs_update :: "nat \<Rightarrow> bytes \<Rightarrow> fs \<Rightarrow> fs outcome" where
  "fs_update b d s = obind (fs_log_write b (fs_set b d s)) (fs_brelse b)"

section \<open>Blocks\<close>

definition get_sb :: "bytes \<Rightarrow> superblock" where
  "get_sb d = \<lparr>sb_magic = get32 d 0, sb_size = get32 d 4, sb_nblocks = get32 d 8, sb_ninodes = get32 d 12,
     sb_nlog = get32 d 16, sb_logstart = get32 d 20, sb_inodestart = get32 d 24, sb_bmapstart = get32 d 28\<rparr>"

definition readsb :: "u32 \<Rightarrow> fs \<Rightarrow> fs outcome" where
  "readsb dev s =
     obind (fs_bread dev 1 s) (\<lambda>(bp, s). fs_brelse bp (s\<lparr>f_sb := get_sb (fs_data bp s)\<rparr>))"

definition fsinit :: "u32 \<Rightarrow> fs \<Rightarrow> fs outcome" where
  "fsinit dev s =
     obind (readsb dev s) (\<lambda>s.
     if sb_magic (f_sb s) \<noteq> FSMAGIC then Panic ''invalid file system''
     else obind (initlog dev (sb_logstart (f_sb s)) (sb_nlog (f_sb s)) (f_log s)) (\<lambda>lg.
          Ok (s\<lparr>f_log := lg\<rparr>)))"

definition bzero :: "u32 \<Rightarrow> u32 \<Rightarrow> fs \<Rightarrow> fs outcome" where
  "bzero dev bno s =
     obind (fs_bread dev bno s) (\<lambda>(bp, s). fs_update bp (copy_block (fs_data bp s) (\<lambda>_. 0)) s)"

definition free_bit :: "bytes \<Rightarrow> nat \<Rightarrow> bool" where
  "free_bit d bi \<longleftrightarrow> d (bi div 8) AND push_bit (bi mod 8) 1 = 0"

function balloc_loop :: "u32 \<Rightarrow> superblock \<Rightarrow> nat \<Rightarrow> fs \<Rightarrow> (u32 \<times> fs) outcome" where
  "balloc_loop dev sb b s =
     (if b < unat (sb_size sb)
      then obind (fs_bread dev (BBLOCK b sb) s) (\<lambda>(bp, s).
           let d = fs_data bp s
           in case find (free_bit d) [0..<min BPB (unat (sb_size sb) - b)] of
                Some bi \<Rightarrow>
                  obind (fs_update bp (d(bi div 8 := d (bi div 8) OR push_bit (bi mod 8) 1)) s) (\<lambda>s.
                  obind (bzero dev (of_nat (b + bi)) s) (\<lambda>s. Ok (of_nat (b + bi), s)))
              | None \<Rightarrow> obind (fs_brelse bp s) (balloc_loop dev sb (b + BPB)))
      else Ok (0, s))"
  by pat_completeness auto
termination
  by (relation "measure (\<lambda>(dev, sb, b, s). unat (sb_size sb) - b)") (auto simp: BPB_def BSIZE_def)

declare balloc_loop.simps [simp del]

definition balloc :: "u32 \<Rightarrow> fs \<Rightarrow> (u32 \<times> fs) outcome" where
  "balloc dev s = balloc_loop dev (f_sb s) 0 s"

definition bfree :: "u32 \<Rightarrow> u32 \<Rightarrow> fs \<Rightarrow> fs outcome" where
  "bfree dev b s =
     obind (fs_bread dev (BBLOCK (unat b) (f_sb s)) s) (\<lambda>(bp, s).
     let bi = unat b mod BPB; d = fs_data bp s
     in if free_bit d bi then Panic ''freeing free block''
        else fs_update bp (d(bi div 8 := d (bi div 8) AND NOT (push_bit (bi mod 8) 1))) s)"

section \<open>Inodes\<close>

definition iinit :: "fs \<Rightarrow> fs" where
  "iinit s = fold (\<lambda>i. iset i (\<lambda>ip. ip\<lparr>i_lock := initsleeplock (i_lock ip) ''inode''\<rparr>)) [0..<NINODE] s"

text \<open>\<^verbatim>\<open>struct dinode\<close>: \<^verbatim>\<open>type\<close> at 0, \<^verbatim>\<open>major\<close> at 2, \<^verbatim>\<open>minor\<close> at 4, \<^verbatim>\<open>nlink\<close> at 6, \<^verbatim>\<open>size\<close> at 8, \<^verbatim>\<open>addrs\<close> from 12.\<close>

definition dinode_at :: "u32 \<Rightarrow> nat" where
  "dinode_at inum = 64 * (unat inum mod IPB)"

primrec put_addrs :: "(nat \<Rightarrow> u32) \<Rightarrow> nat \<Rightarrow> nat \<Rightarrow> bytes \<Rightarrow> bytes" where
  "put_addrs a k 0 d = d"
| "put_addrs a k (Suc n) d = put32 (put_addrs a k n d) (k + 4 * n) (a n)"

definition put_dinode :: "inode \<Rightarrow> nat \<Rightarrow> bytes \<Rightarrow> bytes" where
  "put_dinode ip k d =
     put_addrs (i_addrs ip) (k + 12) (NDIRECT + 1)
       (put32 (put16 (put16 (put16 (put16 d k (i_type ip)) (k + 2) (i_major ip)) (k + 4) (i_minor ip))
          (k + 6) (i_nlink ip)) (k + 8) (i_size ip))"

definition get_dinode :: "bytes \<Rightarrow> nat \<Rightarrow> inode \<Rightarrow> inode" where
  "get_dinode d k ip =
     ip\<lparr>i_type := get16 d k, i_major := get16 d (k + 2), i_minor := get16 d (k + 4), i_nlink := get16 d (k + 6),
        i_size := get32 d (k + 8),
        i_addrs := (\<lambda>n. if n \<le> NDIRECT then get32 d (k + 12 + 4 * n) else i_addrs ip n)\<rparr>"

definition iget :: "u32 \<Rightarrow> u32 \<Rightarrow> fs \<Rightarrow> (nat \<times> fs) outcome" where
  "iget dev inum s =
     (case find (\<lambda>i. i_ref (f_inode s i) > 0 \<and> i_dev (f_inode s i) = dev \<and> i_inum (f_inode s i) = inum) [0..<NINODE] of
        Some i \<Rightarrow> Ok (i, iset i (\<lambda>ip. ip\<lparr>i_ref := i_ref ip + 1\<rparr>) s)
      | None \<Rightarrow>
          (case find (\<lambda>i. i_ref (f_inode s i) = 0) [0..<NINODE] of
             None \<Rightarrow> Panic ''iget: no inodes''
           | Some i \<Rightarrow> Ok (i, iset i (\<lambda>ip. ip\<lparr>i_dev := dev, i_inum := inum, i_ref := 1, i_valid := False\<rparr>) s)))"

text \<open>The search of \<^verbatim>\<open>ialloc\<close> from \<open>inum\<close>; inode 0 stands for \<^verbatim>\<open>NULL\<close>, so the result is an option.\<close>

function ialloc_loop :: "u32 \<Rightarrow> u16 \<Rightarrow> superblock \<Rightarrow> nat \<Rightarrow> fs \<Rightarrow> (nat option \<times> fs) outcome" where
  "ialloc_loop dev type sb inum s =
     (if inum < unat (sb_ninodes sb)
      then obind (fs_bread dev (IBLOCK (of_nat inum) sb) s) (\<lambda>(bp, s).
           let d = fs_data bp s; k = dinode_at (of_nat inum)
           in if get16 d k = 0
              then obind (fs_update bp (put16 (\<lambda>i. if k \<le> i \<and> i < k + 64 then 0 else d i) k type) s) (\<lambda>s.
                   obind (iget dev (of_nat inum) s) (\<lambda>(ip, s). Ok (Some ip, s)))
              else obind (fs_brelse bp s) (ialloc_loop dev type sb (inum + 1)))
      else Ok (None, s))"
  by pat_completeness auto
termination
  by (relation "measure (\<lambda>(dev, type, sb, inum, s). unat (sb_ninodes sb) - inum)") auto

declare ialloc_loop.simps [simp del]

definition ialloc :: "u32 \<Rightarrow> u16 \<Rightarrow> fs \<Rightarrow> (nat option \<times> fs) outcome" where
  "ialloc dev type s = ialloc_loop dev type (f_sb s) 1 s"

definition iupdate :: "nat \<Rightarrow> fs \<Rightarrow> fs outcome" where
  "iupdate i s =
     (let ip = f_inode s i
      in obind (fs_bread (i_dev ip) (IBLOCK (i_inum ip) (f_sb s)) s) (\<lambda>(bp, s).
         fs_update bp (put_dinode ip (dinode_at (i_inum ip)) (fs_data bp s)) s))"

definition idup :: "nat \<Rightarrow> fs \<Rightarrow> nat \<times> fs" where
  "idup i s = (i, iset i (\<lambda>ip. ip\<lparr>i_ref := i_ref ip + 1\<rparr>) s)"

definition ilock :: "nat \<Rightarrow> fs \<Rightarrow> fs outcome" where
  "ilock i s =
     (if i_ref (f_inode s i) < 1 then Panic ''ilock''
      else obind (acquiresleep (bc_pid (f_bio s)) (i_lock (f_inode s i))) (\<lambda>lk.
           let s = iset i (\<lambda>ip. ip\<lparr>i_lock := lk\<rparr>) s; ip = f_inode s i
           in if i_valid ip then Ok s
              else obind (fs_bread (i_dev ip) (IBLOCK (i_inum ip) (f_sb s)) s) (\<lambda>(bp, s).
                   let s = iset i (get_dinode (fs_data bp s) (dinode_at (i_inum ip))) s
                   in obind (fs_brelse bp s) (\<lambda>s.
                      let s = iset i (\<lambda>ip. ip\<lparr>i_valid := True\<rparr>) s
                      in if i_type (f_inode s i) = 0 then Panic ''ilock: no type'' else Ok s))))"

definition iunlock :: "nat \<Rightarrow> fs \<Rightarrow> fs outcome" where
  "iunlock i s =
     (if \<not> holdingsleep (bc_pid (f_bio s)) (i_lock (f_inode s i)) \<or> i_ref (f_inode s i) < 1 then Panic ''iunlock''
      else Ok (iset i (\<lambda>ip. ip\<lparr>i_lock := releasesleep (i_lock ip)\<rparr>) s))"

section \<open>Contents\<close>

definition bmap :: "nat \<Rightarrow> nat \<Rightarrow> fs \<Rightarrow> (u32 \<times> fs) outcome" where
  "bmap i bn s =
     (let ip = f_inode s i;
          set = (\<lambda>k a. iset i (\<lambda>ip. ip\<lparr>i_addrs := (i_addrs ip)(k := a)\<rparr>))
      in if bn < NDIRECT
         then if i_addrs ip bn = 0
              then obind (balloc (i_dev ip) s) (\<lambda>(addr, s).
                   if addr = 0 then Ok (0, s) else Ok (addr, set bn addr s))
              else Ok (i_addrs ip bn, s)
         else let bn = bn - NDIRECT
              in if bn < NINDIRECT
                 then obind (if i_addrs ip NDIRECT = 0
                             then obind (balloc (i_dev ip) s) (\<lambda>(addr, s).
                                  Ok (addr, if addr = 0 then s else set NDIRECT addr s))
                             else Ok (i_addrs ip NDIRECT, s)) (\<lambda>(addr, s).
                      if addr = 0 then Ok (0, s)
                      else obind (fs_bread (i_dev ip) addr s) (\<lambda>(bp, s).
                           let addr = get32 (fs_data bp s) (4 * bn)
                           in if addr = 0
                              then obind (balloc (i_dev ip) s) (\<lambda>(addr, s).
                                   if addr \<noteq> 0
                                   then obind (fs_update bp (put32 (fs_data bp s) (4 * bn) addr) s) (\<lambda>s. Ok (addr, s))
                                   else obind (fs_brelse bp s) (\<lambda>s. Ok (addr, s)))
                              else obind (fs_brelse bp s) (\<lambda>s. Ok (addr, s))))
                 else Panic ''bmap: out of range'')"

text \<open>The two loops of \<^verbatim>\<open>itrunc\<close>.\<close>

primrec trunc_direct :: "nat \<Rightarrow> nat list \<Rightarrow> fs \<Rightarrow> fs outcome" where
  "trunc_direct i [] s = Ok s"
| "trunc_direct i (k # ks) s =
     (if i_addrs (f_inode s i) k \<noteq> 0
      then obind (bfree (i_dev (f_inode s i)) (i_addrs (f_inode s i) k) s) (\<lambda>s.
           trunc_direct i ks (iset i (\<lambda>ip. ip\<lparr>i_addrs := (i_addrs ip)(k := 0)\<rparr>) s))
      else trunc_direct i ks s)"

primrec trunc_indirect :: "u32 \<Rightarrow> nat \<Rightarrow> nat list \<Rightarrow> fs \<Rightarrow> fs outcome" where
  "trunc_indirect dev bp [] s = Ok s"
| "trunc_indirect dev bp (j # js) s =
     (let a = get32 (fs_data bp s) (4 * j)
      in if a \<noteq> 0 then obind (bfree dev a s) (trunc_indirect dev bp js) else trunc_indirect dev bp js s)"

definition itrunc :: "nat \<Rightarrow> fs \<Rightarrow> fs outcome" where
  "itrunc i s =
     obind (trunc_direct i [0..<NDIRECT] s) (\<lambda>s.
     obind (if i_addrs (f_inode s i) NDIRECT \<noteq> 0
            then obind (fs_bread (i_dev (f_inode s i)) (i_addrs (f_inode s i) NDIRECT) s) (\<lambda>(bp, s).
                 obind (trunc_indirect (i_dev (f_inode s i)) bp [0..<NINDIRECT] s) (\<lambda>s.
                 obind (fs_brelse bp s) (\<lambda>s.
                 obind (bfree (i_dev (f_inode s i)) (i_addrs (f_inode s i) NDIRECT) s) (\<lambda>s.
                 Ok (iset i (\<lambda>ip. ip\<lparr>i_addrs := (i_addrs ip)(NDIRECT := 0)\<rparr>) s)))))
            else Ok s) (\<lambda>s.
     iupdate i (iset i (\<lambda>ip. ip\<lparr>i_size := 0\<rparr>) s)))"

definition iput :: "nat \<Rightarrow> fs \<Rightarrow> fs outcome" where
  "iput i s =
     (let ip = f_inode s i
      in obind (if i_ref ip = 1 \<and> i_valid ip \<and> i_nlink ip = 0
                then obind (acquiresleep (bc_pid (f_bio s)) (i_lock ip)) (\<lambda>lk.
                     obind (itrunc i (iset i (\<lambda>ip. ip\<lparr>i_lock := lk\<rparr>) s)) (\<lambda>s.
                     obind (iupdate i (iset i (\<lambda>ip. ip\<lparr>i_type := 0\<rparr>) s)) (\<lambda>s.
                     Ok (iset i (\<lambda>ip. ip\<lparr>i_valid := False, i_lock := releasesleep (i_lock ip)\<rparr>) s))))
                else Ok s) (\<lambda>s.
         Ok (iset i (\<lambda>ip. ip\<lparr>i_ref := i_ref ip - 1\<rparr>) s)))"

definition iunlockput :: "nat \<Rightarrow> fs \<Rightarrow> fs outcome" where
  "iunlockput i s = obind (iunlock i s) (iput i)"

record stat =
  st_dev :: u32
  st_ino :: u32
  st_type :: u16
  st_nlink :: u16
  st_size :: u64

definition stati :: "inode \<Rightarrow> stat" where
  "stati ip = \<lparr>st_dev = i_dev ip, st_ino = i_inum ip, st_type = i_type ip, st_nlink = i_nlink ip, st_size = ucast (i_size ip)\<rparr>"

section \<open>Reading\<close>

text \<open>
  Where \<^verbatim>\<open>readi\<close> stores and \<^verbatim>\<open>writei\<close> fetches: a user address, a kernel address of physical
  memory, or an offset in a kernel object, which the call takes and returns.
\<close>

datatype place = User u64 | Phys u64 | Object nat

fun advance :: "place \<Rightarrow> nat \<Rightarrow> place" where
  "advance (User a) n = User (a + of_nat n)"
| "advance (Phys a) n = Phys (a + of_nat n)"
| "advance (Object k) n = Object (k + n)"

fun copy_to :: "place \<Rightarrow> bytes \<Rightarrow> nat \<Rightarrow> bytes \<Rightarrow> fs \<Rightarrow> (int \<times> bytes \<times> fs) outcome" where
  "copy_to (User a) src n obj s = obind (either_copyout True a src (of_nat n) (f_k s)) (\<lambda>(r, k). Ok (r, obj, s\<lparr>f_k := k\<rparr>))"
| "copy_to (Phys a) src n obj s = obind (either_copyout False a src (of_nat n) (f_k s)) (\<lambda>(r, k). Ok (r, obj, s\<lparr>f_k := k\<rparr>))"
| "copy_to (Object j) src n obj s = Ok (0, move_bytes obj j src 0 n, s)"

fun copy_from :: "bytes \<Rightarrow> place \<Rightarrow> nat \<Rightarrow> bytes \<Rightarrow> fs \<Rightarrow> (int \<times> bytes) outcome" where
  "copy_from dst (User a) n obj s = either_copyin dst True a (of_nat n) (f_k s)"
| "copy_from dst (Phys a) n obj s = either_copyin dst False a (of_nat n) (f_k s)"
| "copy_from dst (Object j) n obj s = Ok (0, move_bytes dst 0 obj j n)"

text \<open>The data block of \<^verbatim>\<open>off\<close>: \<^verbatim>\<open>bread(ip->dev, bmap(ip, off / BSIZE))\<close>.\<close>

definition bread_at :: "nat \<Rightarrow> nat \<Rightarrow> fs \<Rightarrow> (nat \<times> fs) outcome" where
  "bread_at i off s = obind (bmap i (off div BSIZE) s) (\<lambda>(addr, s). fs_bread (i_dev (f_inode s i)) addr s)"

definition span :: "nat \<Rightarrow> nat \<Rightarrow> nat" where
  "span n off = min n (BSIZE - off mod BSIZE)"

lemma span_pos: "0 < n \<Longrightarrow> 0 < span n off"
  by (simp add: span_def BSIZE_def)

lemma span_less [simp]: "tot < n \<Longrightarrow> n - (tot + span (n - tot) off) < n - tot"
  using span_pos [of "n - tot" off] by linarith

text \<open>The loop of an uncompressed read; \<open>off\<close> and \<open>dst\<close> are those of the call.\<close>

function readi_loop :: "nat \<Rightarrow> place \<Rightarrow> nat \<Rightarrow> nat \<Rightarrow> nat \<Rightarrow> bytes \<Rightarrow> fs \<Rightarrow> (int \<times> bytes \<times> fs) outcome" where
  "readi_loop i dst off n tot obj s =
     (if tot < n
      then obind (bread_at i (off + tot) s) (\<lambda>(bp, s).
           let m = span (n - tot) (off + tot)
           in obind (copy_to (advance dst tot) (\<lambda>k. fs_data bp s ((off + tot) mod BSIZE + k)) m obj s) (\<lambda>(r, obj, s).
              obind (fs_brelse bp s) (\<lambda>s.
              if r = - 1 then Ok (- 1, obj, s) else readi_loop i dst off n (tot + m) obj s)))
      else Ok (int tot, obj, s))"
  by pat_completeness auto
termination
  by (relation "measure (\<lambda>(i, dst, off, n, tot, obj, s). n - tot)") auto

declare readi_loop.simps [simp del]

text \<open>Collecting the compressed data in \<^verbatim>\<open>comp_buf\<close>, a page: a longer copy runs past it.\<close>

definition PAGE :: nat where "PAGE = 4096"

function gather :: "nat \<Rightarrow> nat \<Rightarrow> nat \<Rightarrow> bytes \<Rightarrow> fs \<Rightarrow> (bytes \<times> fs) outcome" where
  "gather i comp_size tot comp_buf s =
     (if tot < comp_size
      then obind (bread_at i (tot + 16) s) (\<lambda>(bp, s).
           let m = span (comp_size - tot) (tot + 16)
           in if tot + m > PAGE then Fault
              else let comp_buf = move_bytes comp_buf tot (fs_data bp s) ((tot + 16) mod BSIZE) m
                   in obind (fs_brelse bp s) (\<lambda>s. gather i comp_size (tot + m) comp_buf s))
      else Ok (comp_buf, s))"
  by pat_completeness auto
termination
  by (relation "measure (\<lambda>(i, comp_size, tot, comp_buf, s). comp_size - tot)") auto

declare gather.simps [simp del]

definition fs_kfree :: "u64 \<Rightarrow> fs \<Rightarrow> fs outcome" where
  "fs_kfree pa s = obind (kfree pa (f_phys s)) (\<lambda>ph. Ok (set_phys ph s))"

definition fs_kalloc :: "fs \<Rightarrow> u64 \<times> fs" where
  "fs_kalloc s = (let (pa, ph) = kalloc (f_phys s) in (pa, set_phys ph s))"

text \<open>Filling the cache of \<^verbatim>\<open>readi\<close>: 0, or -1 when memory or the data fail.\<close>

definition fill_cache :: "nat \<Rightarrow> u32 \<Rightarrow> fs \<Rightarrow> (int \<times> fs) outcome" where
  "fill_cache i len s =
     obind (if f_cbuf s \<noteq> 0 then obind (fs_kfree (f_cbuf s) s) (\<lambda>s. Ok (s\<lparr>f_cbuf := 0\<rparr>)) else Ok s) (\<lambda>s.
     let (comp_buf, s) = fs_kalloc s; (cbuf, s) = fs_kalloc s; s = s\<lparr>f_cbuf := cbuf\<rparr>
     in if comp_buf = 0 \<or> cbuf = 0
        then obind (if comp_buf \<noteq> 0 then fs_kfree comp_buf s else Ok s) (\<lambda>s. Ok (- 1, s\<lparr>f_cbuf := 0\<rparr>))
        else let comp_size = i_size (f_inode s i) - 16
             in obind (gather i (unat comp_size) 0 (view (ph_mem (f_phys s)) comp_buf) s) (\<lambda>(input, s).
                obind (decompress_huffman input (sint comp_size) (view (ph_mem (f_phys s)) cbuf) (sint len) (f_huff s)) (\<lambda>(r, output, h).
                if r > int PAGE then Fault
                else let s = set_phys (set_mem (blit (ph_mem (f_phys s)) cbuf output PAGE) (f_phys s)) (s\<lparr>f_huff := h\<rparr>)
                     in obind (fs_kfree comp_buf s) (\<lambda>s.
                        if r < 0
                        then obind (fs_kfree cbuf s) (\<lambda>s. Ok (- 1, s\<lparr>f_cbuf := 0\<rparr>))
                        else Ok (0, s\<lparr>f_cinum := i_inum (f_inode s i), f_clen := len\<rparr>)))))"

definition readi_cached :: "nat \<Rightarrow> place \<Rightarrow> u32 \<Rightarrow> u32 \<Rightarrow> u32 \<Rightarrow> bytes \<Rightarrow> fs \<Rightarrow> (int \<times> bytes \<times> fs) outcome" where
  "readi_cached i dst off n len obj s =
     obind (if f_cbuf s = 0 \<or> f_cinum s \<noteq> i_inum (f_inode s i) then fill_cache i len s else Ok (0, s)) (\<lambda>(r, s).
     if r = - 1 then Ok (- 1, obj, s)
     else if off \<ge> f_clen s then Ok (0, obj, s)
     else let n = (if off + n > f_clen s then f_clen s - off else n)
          in obind (copy_to dst (view (ph_mem (f_phys s)) (f_cbuf s + ucast off)) (unat n) obj s) (\<lambda>(r, obj, s).
             Ok (if r = - 1 then - 1 else sint n, obj, s)))"

definition readi :: "nat \<Rightarrow> place \<Rightarrow> u32 \<Rightarrow> u32 \<Rightarrow> bytes \<Rightarrow> fs \<Rightarrow> (int \<times> bytes \<times> fs) outcome" where
  "readi i dst off n obj s =
     (let ip = f_inode s i
      in if off > i_size ip \<or> off + n < off then Ok (0, obj, s)
         else let n = (if off + n > i_size ip then i_size ip - off else n)
              in if i_type ip = T_FILE
                 then obind (bread_at i 0 s) (\<lambda>(bp, s).
                      let ch_compressed = get32 (fs_data bp s) 4; ch_length = get32 (fs_data bp s) 8
                      in obind (fs_brelse bp s) (\<lambda>s.
                         if ch_compressed = 1 then readi_cached i dst off n ch_length obj s
                         else readi_loop i dst (unat off) (unat n) 0 obj s))
                 else readi_loop i dst (unat off) (unat n) 0 obj s)"

section \<open>Writing\<close>

text \<open>The loop of an uncompressed write: the bytes written.\<close>

function writei_loop :: "nat \<Rightarrow> place \<Rightarrow> nat \<Rightarrow> nat \<Rightarrow> nat \<Rightarrow> bytes \<Rightarrow> fs \<Rightarrow> (nat \<times> fs) outcome" where
  "writei_loop i src off n tot obj s =
     (if tot < n
      then obind (bread_at i (off + tot) s) (\<lambda>(bp, s).
           let m = span (n - tot) (off + tot); bo = (off + tot) mod BSIZE; d = fs_data bp s
           in obind (copy_from (\<lambda>k. d (bo + k)) (advance src tot) m obj s) (\<lambda>(r, x).
              let s = fs_set bp (move_bytes d bo x 0 m) s
              in if r = - 1 then obind (fs_brelse bp s) (\<lambda>s. Ok (tot, s))
                 else obind (fs_log_write bp s) (\<lambda>s.
                      obind (fs_brelse bp s) (writei_loop i src off n (tot + m) obj))))
      else Ok (tot, s))"
  by pat_completeness auto
termination
  by (relation "measure (\<lambda>(i, src, off, n, tot, obj, s). n - tot)") auto

declare writei_loop.simps [simp del]

definition writei_plain :: "nat \<Rightarrow> place \<Rightarrow> nat \<Rightarrow> nat \<Rightarrow> bytes \<Rightarrow> fs \<Rightarrow> (int \<times> fs) outcome" where
  "writei_plain i src off n obj s =
     obind (writei_loop i src off n 0 obj s) (\<lambda>(tot, s).
     let s = (if off + tot > unat (i_size (f_inode s i)) then iset i (\<lambda>ip. ip\<lparr>i_size := of_nat (off + tot)\<rparr>) s else s)
     in obind (iupdate i s) (\<lambda>s. Ok (int tot, s)))"

text \<open>The 16 bytes of a \<^verbatim>\<open>struct compression_header\<close> and the compressed data, in one block.\<close>

definition put_header :: "u32 \<Rightarrow> u32 \<Rightarrow> bytes \<Rightarrow> bytes" where
  "put_header len tree_size d = put32 (put32 (put32 (put32 d 0 COMPRESSION_MAGIC) 4 1) 8 len) 12 tree_size"

definition write_compressed :: "nat \<Rightarrow> u32 \<Rightarrow> int \<Rightarrow> bytes \<Rightarrow> fs \<Rightarrow> fs outcome" where
  "write_compressed i n comp_size comp_buf s =
     obind (bread_at i 0 s) (\<lambda>(bp, s).
     if 16 + nat comp_size > BSIZE then Fault
     else obind (fs_update bp (move_bytes (put_header n (of_int comp_size) (fs_data bp s)) 16 comp_buf 0 (nat comp_size)) s) (\<lambda>s.
          iupdate i (iset i (\<lambda>ip. ip\<lparr>i_size := of_int comp_size + 16\<rparr>) s)))"

text \<open>Copying the data to \<^verbatim>\<open>temp_buf\<close>, a page.\<close>

definition copy_temp :: "bytes \<Rightarrow> place \<Rightarrow> nat \<Rightarrow> bytes \<Rightarrow> fs \<Rightarrow> (int \<times> bytes) outcome" where
  "copy_temp temp_buf src n obj s =
     (if n \<le> PAGE then copy_from temp_buf src n obj s
      else obind (copy_from temp_buf src (PAGE + 1) obj s) (\<lambda>(r, x). if r = - 1 then Ok (r, x) else Fault))"

text \<open>
  The attempt to compress: whether the write is complete.  What the two pages hold is not
  written back to memory, because both are freed on every path.
\<close>

definition try_compress :: "nat \<Rightarrow> u32 \<Rightarrow> u64 \<Rightarrow> bytes \<Rightarrow> fs \<Rightarrow> (bool \<times> fs) outcome" where
  "try_compress i n temp_buf input s =
     (let (comp_buf, s) = fs_kalloc s
      in if comp_buf = 0 then Ok (False, s)
         else obind (compress_huffman input (sint n) (view (ph_mem (f_phys s)) comp_buf) (int PAGE) (f_huff s)) (\<lambda>(comp_size, output, h).
              let s = s\<lparr>f_huff := h\<rparr>
              in if comp_size > 0 \<and> comp_size < int (unat n)
                 then obind (write_compressed i n comp_size output s) (\<lambda>s.
                      obind (fs_kfree temp_buf s) (\<lambda>s.
                      obind (fs_kfree comp_buf s) (\<lambda>s. Ok (True, s))))
                 else obind (fs_kfree comp_buf s) (\<lambda>s. Ok (False, s))))"

definition writei :: "nat \<Rightarrow> place \<Rightarrow> u32 \<Rightarrow> u32 \<Rightarrow> bytes \<Rightarrow> fs \<Rightarrow> (int \<times> fs) outcome" where
  "writei i src off n obj s =
     (let ip = f_inode s i
      in if off > i_size ip \<or> off + n < off then Ok (- 1, s)
         else if unat (off + n) > MAXFILE * BSIZE then Ok (- 1, s)
         else if i_type ip = T_FILE \<and> off = 0
         then let (temp_buf, s) = fs_kalloc s
              in if temp_buf = 0 then Ok (- 1, s)
                 else obind (copy_temp (view (ph_mem (f_phys s)) temp_buf) src (unat n) obj s) (\<lambda>(r, input).
                      if r = - 1 then obind (fs_kfree temp_buf s) (\<lambda>s. Ok (- 1, s))
                      else obind (if unat n > 16 then try_compress i n temp_buf input s else Ok (False, s)) (\<lambda>(complete, s).
                           if complete then Ok (sint n, s)
                           else obind (fs_kfree temp_buf s) (writei_plain i src 0 (unat n) obj)))
         else writei_plain i src (unat off) (unat n) obj s)"

section \<open>Directories\<close>

text \<open>\<^verbatim>\<open>struct dirent\<close> has \<^verbatim>\<open>inum\<close> at 0 and \<^verbatim>\<open>name\<close> at 2.\<close>

definition namecmp :: "bytes \<Rightarrow> bytes \<Rightarrow> int" where
  "namecmp s t = strncmp s t DIRSIZ"

text \<open>The loop of \<^verbatim>\<open>dirlookup\<close>, over the directory size at its start: the entry and its offset.\<close>

function dirlookup_loop :: "nat \<Rightarrow> bytes \<Rightarrow> nat \<Rightarrow> nat \<Rightarrow> fs \<Rightarrow> ((u32 \<times> nat) option \<times> fs) outcome" where
  "dirlookup_loop dp name sz off s =
     (if off < sz
      then obind (readi dp (Object 0) (of_nat off) 16 (\<lambda>_. 0) s) (\<lambda>(r, de, s).
           if r \<noteq> 16 then Panic ''dirlookup read''
           else if get16 de 0 = 0 then dirlookup_loop dp name sz (off + 16) s
           else if namecmp name (\<lambda>k. de (2 + k)) = 0 then Ok (Some (ucast (get16 de 0), off), s)
           else dirlookup_loop dp name sz (off + 16) s)
      else Ok (None, s))"
  by pat_completeness auto
termination
  by (relation "measure (\<lambda>(dp, name, sz, off, s). sz - off)") auto

declare dirlookup_loop.simps [simp del]

definition dirlookup :: "nat \<Rightarrow> bytes \<Rightarrow> fs \<Rightarrow> ((nat \<times> nat) option \<times> fs) outcome" where
  "dirlookup dp name s =
     (if i_type (f_inode s dp) \<noteq> T_DIR then Panic ''dirlookup not DIR''
      else obind (dirlookup_loop dp name (unat (i_size (f_inode s dp))) 0 s) (\<lambda>(r, s).
           case r of
             None \<Rightarrow> Ok (None, s)
           | Some (inum, off) \<Rightarrow> obind (iget (i_dev (f_inode s dp)) inum s) (\<lambda>(i, s). Ok (Some (i, off), s))))"

text \<open>The search of \<^verbatim>\<open>dirlink\<close> for a free entry.\<close>

function free_entry :: "nat \<Rightarrow> nat \<Rightarrow> nat \<Rightarrow> fs \<Rightarrow> (nat \<times> fs) outcome" where
  "free_entry dp sz off s =
     (if off < sz
      then obind (readi dp (Object 0) (of_nat off) 16 (\<lambda>_. 0) s) (\<lambda>(r, de, s).
           if r \<noteq> 16 then Panic ''dirlink read''
           else if get16 de 0 = 0 then Ok (off, s)
           else free_entry dp sz (off + 16) s)
      else Ok (off, s))"
  by pat_completeness auto
termination
  by (relation "measure (\<lambda>(dp, sz, off, s). sz - off)") auto

declare free_entry.simps [simp del]

definition dirent :: "bytes \<Rightarrow> u32 \<Rightarrow> bytes" where
  "dirent name inum =
     (let n = strncpy (\<lambda>_. 0) name (int DIRSIZ)
      in put16 (\<lambda>i. if 2 \<le> i then n (i - 2) else 0) 0 (ucast inum))"

definition dirlink :: "nat \<Rightarrow> bytes \<Rightarrow> u32 \<Rightarrow> fs \<Rightarrow> (int \<times> fs) outcome" where
  "dirlink dp name inum s =
     obind (dirlookup dp name s) (\<lambda>(r, s).
     case r of
       Some (ip, _) \<Rightarrow> obind (iput ip s) (\<lambda>s. Ok (- 1, s))
     | None \<Rightarrow>
         obind (free_entry dp (unat (i_size (f_inode s dp))) 0 s) (\<lambda>(off, s).
         obind (writei dp (Object 0) (of_nat off) 16 (dirent name inum) s) (\<lambda>(r, s).
         Ok (if r \<noteq> 16 then - 1 else 0, s))))"

section \<open>Paths\<close>

text \<open>A path is the list of its characters before the NUL.\<close>

abbreviation slash :: u8 where "slash \<equiv> 47"

definition skipelem :: "u8 list \<Rightarrow> bytes \<Rightarrow> (u8 list \<times> bytes) option" where
  "skipelem path name =
     (let path = dropWhile (\<lambda>c. c = slash) path
      in if path = [] then None
         else let s = takeWhile (\<lambda>c. c \<noteq> slash) path;
                  path = dropWhile (\<lambda>c. c \<noteq> slash) path;
                  len = length s;
                  name = (if len \<ge> DIRSIZ then (\<lambda>k. if k < DIRSIZ then s ! k else name k)
                          else (\<lambda>k. if k < len then s ! k else name k)(len := 0))
              in Some (dropWhile (\<lambda>c. c = slash) path, name))"

lemma skipelem_shorter: "skipelem path name = Some (rest, name') \<Longrightarrow> length rest < length path"
proof -
  let ?p = "dropWhile (\<lambda>c. c = slash) path"
  assume "skipelem path name = Some (rest, name')"
  then have ne: "?p \<noteq> []" and rest: "rest = dropWhile (\<lambda>c. c = slash) (dropWhile (\<lambda>c. c \<noteq> slash) ?p)"
    by (auto simp: skipelem_def Let_def split: if_splits)
  have "hd ?p \<noteq> slash" using hd_dropWhile [OF ne] by simp
  then have "length (dropWhile (\<lambda>c. c \<noteq> slash) ?p) < length ?p"
    using ne by (cases ?p) (auto intro: le_imp_less_Suc length_dropWhile_le)
  also have "\<dots> \<le> length path" by (rule length_dropWhile_le)
  finally show ?thesis using rest length_dropWhile_le le_less_trans by blast
qed

text \<open>The loop of \<^verbatim>\<open>namex\<close>: the inode, and the last element in \<open>name\<close>.\<close>

function namex_loop :: "u8 list \<Rightarrow> bool \<Rightarrow> bytes \<Rightarrow> nat \<Rightarrow> fs \<Rightarrow> (nat option \<times> bytes \<times> fs) outcome" where
  "namex_loop path nameiparent name ip s =
     (case skipelem path name of
        None \<Rightarrow> if nameiparent then obind (iput ip s) (\<lambda>s. Ok (None, name, s)) else Ok (Some ip, name, s)
      | Some (path, name) \<Rightarrow>
          obind (ilock ip s) (\<lambda>s.
          if i_type (f_inode s ip) \<noteq> T_DIR then obind (iunlockput ip s) (\<lambda>s. Ok (None, name, s))
          else if nameiparent \<and> path = [] then obind (iunlock ip s) (\<lambda>s. Ok (Some ip, name, s))
          else obind (dirlookup ip name s) (\<lambda>(r, s).
               case r of
                 None \<Rightarrow> obind (iunlockput ip s) (\<lambda>s. Ok (None, name, s))
               | Some (next, _) \<Rightarrow> obind (iunlockput ip s) (\<lambda>s. namex_loop path nameiparent name next s))))"
  by pat_completeness auto
termination
  by (relation "measure (\<lambda>(path, nameiparent, name, ip, s). length path)") (auto dest: skipelem_shorter)

declare namex_loop.simps [simp del]

definition namex :: "u8 list \<Rightarrow> bool \<Rightarrow> bytes \<Rightarrow> fs \<Rightarrow> (nat option \<times> bytes \<times> fs) outcome" where
  "namex path nameiparent name s =
     (if path \<noteq> [] \<and> hd path = slash
      then obind (iget ROOTDEV ROOTINO s) (\<lambda>(ip, s). namex_loop path nameiparent name ip s)
      else case p_cwd (me (f_k s)) of
             None \<Rightarrow> Fault
           | Some cwd \<Rightarrow> let (ip, s) = idup cwd s in namex_loop path nameiparent name ip s)"

definition namei :: "u8 list \<Rightarrow> fs \<Rightarrow> (nat option \<times> fs) outcome" where
  "namei path s = obind (namex path False (\<lambda>_. 0) s) (\<lambda>(ip, name, s). Ok (ip, s))"

definition nameiparent :: "u8 list \<Rightarrow> bytes \<Rightarrow> fs \<Rightarrow> (nat option \<times> bytes \<times> fs) outcome" where
  "nameiparent path name s = namex path True name s"

end
