(* ===== verification/Xv6_Sysproc.thy ===== *)
theory Xv6_Sysproc
  imports Xv6_Proc Xv6_String
begin

text \<open>
  Fetching system call arguments (\<^verbatim>\<open>kernel/syscall.c\<close>), the system calls of
  \<^verbatim>\<open>kernel/sysproc.c\<close> that do not involve files, and the clock of \<^verbatim>\<open>kernel/trap.c\<close>.  A system
  call returns the value it leaves in \<^verbatim>\<open>a0\<close>; the trap frame is read from the page that
  holds it.
\<close>

section \<open>Arguments\<close>

text \<open>Offsets of \<^verbatim>\<open>a0\<close> and \<^verbatim>\<open>a7\<close> in \<^verbatim>\<open>struct trapframe\<close>.\<close>

definition tf_a0 :: u64 where "tf_a0 = 112"
definition tf_a7 :: u64 where "tf_a7 = 168"

definition argraw :: "int \<Rightarrow> kst \<Rightarrow> u64 outcome" where
  "argraw n s =
     (if 0 \<le> n \<and> n \<le> 5 then Ok (ld (k_phys s) (p_trapframe (me s) + tf_a0 + 8 * of_int n))
      else Panic ''argraw'')"

definition argint :: "int \<Rightarrow> kst \<Rightarrow> int outcome" where
  "argint n s = obind (argraw n s) (\<lambda>v. Ok (sint (ucast v :: u32)))"

definition argaddr :: "int \<Rightarrow> kst \<Rightarrow> u64 outcome" where
  "argaddr n s = argraw n s"

definition fetchaddr :: "u64 \<Rightarrow> u64 \<Rightarrow> kst \<Rightarrow> (int \<times> u64) outcome" where
  "fetchaddr addr ip s =
     (let p = me s
      in if addr \<ge> p_sz p \<or> addr + 8 > p_sz p then Ok (- 1, ip)
         else obind (copyin (p_pagetable p) (put64 (\<lambda>_. 0) 0 ip) 0 addr 8 (k_phys s)) (\<lambda>(r, d).
              Ok (if r \<noteq> 0 then - 1 else 0, get64 d 0)))"

definition fetchstr :: "u64 \<Rightarrow> bytes \<Rightarrow> int \<Rightarrow> kst \<Rightarrow> (int \<times> bytes) outcome" where
  "fetchstr addr buf mx s =
     obind (copyinstr (p_pagetable (me s)) buf 0 addr (of_int mx) (k_phys s)) (\<lambda>(r, buf).
     if r < 0 then Ok (- 1, buf)
     else case strlen buf of None \<Rightarrow> Fault | Some n \<Rightarrow> Ok (int n, buf))"

definition argstr :: "int \<Rightarrow> bytes \<Rightarrow> int \<Rightarrow> kst \<Rightarrow> (int \<times> bytes) outcome" where
  "argstr n buf mx s = obind (argaddr n s) (\<lambda>addr. fetchstr addr buf mx s)"

section \<open>Processes and memory\<close>

definition sys_getpid :: "kst \<Rightarrow> u64" where
  "sys_getpid s = of_int (p_pid (me s))"

definition sys_wait :: "kst \<Rightarrow> ((unit, u64) kret \<times> kst) outcome" where
  "sys_wait s =
     obind (argaddr 0 s) (\<lambda>p.
     obind (wait p s) (\<lambda>(r, s).
     Ok (case r of Return v \<Rightarrow> Return (of_int v) | Asleep u \<Rightarrow> Asleep u, s)))"

definition sys_sbrk :: "kst \<Rightarrow> (u64 \<times> kst) outcome" where
  "sys_sbrk s =
     obind (argint 0 s) (\<lambda>n.
     let addr = p_sz (me s)
     in obind (growproc n s) (\<lambda>(r, s). Ok (if r < 0 then - 1 else addr, s)))"

definition sys_kill :: "kst \<Rightarrow> (u64 \<times> kst) outcome" where
  "sys_kill s = obind (argint 0 s) (\<lambda>pid. let (r, s) = kill pid s in Ok (of_int r, s))"

section \<open>Time\<close>

text \<open>The loop of \<^verbatim>\<open>sys_sleep\<close>; \<open>n\<close> and \<open>ticks0\<close> are live across the sleep.\<close>

definition sys_sleep_loop :: "u32 \<Rightarrow> int \<Rightarrow> u32 \<Rightarrow> kst \<Rightarrow> (int \<times> u32, u64) kret \<times> kst" where
  "sys_sleep_loop ticks n ticks0 s =
     (if ticks - ticks0 < of_int n
      then if killed (k_me s) s \<noteq> 0 then (Return (- 1), s) else (Asleep (n, ticks0), sleep Ticks_chan s)
      else (Return 0, s))"

definition sys_sleep :: "u32 \<Rightarrow> kst \<Rightarrow> ((int \<times> u32, u64) kret \<times> kst) outcome" where
  "sys_sleep ticks s =
     obind (argint 0 s) (\<lambda>n.
     let n = (if n < 0 then 0 else n); ticks0 = ticks
     in Ok (sys_sleep_loop ticks n ticks0 s))"

definition sys_uptime :: "u32 \<Rightarrow> u64" where
  "sys_uptime ticks = ucast ticks"

text \<open>\<^verbatim>\<open>clockintr\<close> on a given CPU: the new \<^verbatim>\<open>ticks\<close>, the state and the next timer deadline.\<close>

definition clockintr :: "nat \<Rightarrow> u64 \<Rightarrow> u32 \<Rightarrow> kst \<Rightarrow> u32 \<times> kst \<times> u64" where
  "clockintr cpuid time ticks s =
     (let (ticks, s) = (if cpuid = 0 then (ticks + 1, wakeup Ticks_chan s) else (ticks, s))
      in (ticks, s, time + 1000000))"

section \<open>Process information\<close>

fun state_no :: "procstate \<Rightarrow> u32" where
  "state_no UNUSED = 0" | "state_no USED = 1" | "state_no SLEEPING = 2"
| "state_no RUNNABLE = 3" | "state_no RUNNING = 4" | "state_no ZOMBIE = 5"

text \<open>The bytes of a \<^verbatim>\<open>struct procinfo\<close>: \<^verbatim>\<open>pid\<close> at 0, \<^verbatim>\<open>ppid\<close> at 4, \<^verbatim>\<open>state\<close> at 8, \<^verbatim>\<open>sz\<close> at 16,
  \<^verbatim>\<open>name\<close> at 24.  The local variable starts as \<open>junk\<close>.\<close>

definition fill_pi :: "bytes \<Rightarrow> proc \<Rightarrow> bytes" where
  "fill_pi junk p =
     (let d = put32 junk 0 (of_int (p_pid p));
          d = put32 d 8 (state_no (p_state p));
          d = put64 d 16 (p_sz p);
          name = safestrcpy (\<lambda>i. d (24 + i)) (p_name p) 16
      in (\<lambda>i. if 24 \<le> i \<and> i < 40 then name (i - 24) else d i))"

definition sizeof_procinfo :: nat where "sizeof_procinfo = 40"

definition lookup_pid :: "int \<Rightarrow> kst \<Rightarrow> nat option" where
  "lookup_pid pid s = find (\<lambda>p. p_pid (k_proc s p) = pid) [0..<NPROC]"

definition sys_getmemusage :: "kst \<Rightarrow> u64 outcome" where
  "sys_getmemusage s =
     obind (argint 0 s) (\<lambda>pid.
     Ok (case lookup_pid pid s of Some p \<Rightarrow> p_sz (k_proc s p) | None \<Rightarrow> - 1))"

primrec ps_loop :: "(nat \<Rightarrow> bytes) \<Rightarrow> u64 \<Rightarrow> int \<Rightarrow> nat list \<Rightarrow> int \<Rightarrow> kst \<Rightarrow> (u64 \<times> kst) outcome" where
  "ps_loop junk u_procinfo mx [] count s = Ok (of_int count, s)"
| "ps_loop junk u_procinfo mx (p # ps) count s =
     (if count < mx
      then if p_state (k_proc s p) \<noteq> UNUSED
           then obind (copyout (p_pagetable (me s)) (u_procinfo + of_int count * of_nat sizeof_procinfo)
                         (fill_pi (junk p) (k_proc s p)) (of_nat sizeof_procinfo) (k_phys s)) (\<lambda>(r, ph).
                if r < 0 then Ok (- 1, s\<lparr>k_phys := ph\<rparr>)
                else ps_loop junk u_procinfo mx ps (count + 1) (s\<lparr>k_phys := ph\<rparr>))
           else ps_loop junk u_procinfo mx ps count s
      else Ok (of_int count, s))"

definition sys_ps :: "(nat \<Rightarrow> bytes) \<Rightarrow> kst \<Rightarrow> (u64 \<times> kst) outcome" where
  "sys_ps junk s =
     obind (argaddr 0 s) (\<lambda>u_procinfo.
     obind (argint 1 s) (\<lambda>mx. ps_loop junk u_procinfo mx [0..<NPROC] 0 s))"

definition sys_pinfo :: "bytes \<Rightarrow> kst \<Rightarrow> (u64 \<times> kst) outcome" where
  "sys_pinfo junk s =
     obind (argint 0 s) (\<lambda>pid.
     obind (argaddr 1 s) (\<lambda>uaddr.
     case lookup_pid pid s of
       None \<Rightarrow> Ok (- 1, s)
     | Some p \<Rightarrow>
         let q = k_proc s p;
             ppid = (case p_parent q of Some pp \<Rightarrow> p_pid (k_proc s pp) | None \<Rightarrow> - 1)
         in obind (copyout (p_pagetable (me s)) uaddr (fill_pi (put32 junk 4 (of_int ppid)) q)
                     (of_nat sizeof_procinfo) (k_phys s)) (\<lambda>(r, ph).
            Ok (if r < 0 then - 1 else 0, s\<lparr>k_phys := ph\<rparr>))))"

definition sys_getidlepid :: "kst \<Rightarrow> u64" where
  "sys_getidlepid s =
     (case find (\<lambda>p. p_state (k_proc s p) = SLEEPING) [0..<NPROC] of
        Some p \<Rightarrow> of_int (p_pid (k_proc s p)) | None \<Rightarrow> - 1)"

text \<open>The loop that fills \<^verbatim>\<open>temp_pids\<close>.\<close>

primrec active_pids :: "kst \<Rightarrow> int \<Rightarrow> nat list \<Rightarrow> int \<Rightarrow> bytes \<Rightarrow> int \<times> bytes" where
  "active_pids s max_count [] count temp_pids = (count, temp_pids)"
| "active_pids s max_count (p # ps) count temp_pids =
     (if p_state (k_proc s p) \<in> {RUNNING, RUNNABLE, SLEEPING} \<and> count < max_count
      then active_pids s max_count ps (count + 1) (put32 temp_pids (4 * nat count) (of_int (p_pid (k_proc s p))))
      else active_pids s max_count ps count temp_pids)"

definition sys_getactiveprocesses :: "bytes \<Rightarrow> kst \<Rightarrow> (u64 \<times> kst) outcome" where
  "sys_getactiveprocesses junk s =
     obind (argint 0 s) (\<lambda>max_count.
     obind (argaddr 1 s) (\<lambda>pids_addr.
     let (count, temp_pids) = active_pids s max_count [0..<NPROC] 0 junk
     in obind (copyout (p_pagetable (me s)) pids_addr temp_pids (of_int count * 4) (k_phys s)) (\<lambda>(r, ph).
        Ok (if r < 0 then - 1 else of_int count, s\<lparr>k_phys := ph\<rparr>))))"

section \<open>Properties\<close>

text \<open>
  What happens to a process asleep in \<^verbatim>\<open>sys_sleep\<close> while the clock of CPU 0 ticks under some
  other process \<open>q\<close>: after each tick, if it has become runnable, it is scheduled and
  resumes its loop.
\<close>

primrec sleep_run :: "nat \<Rightarrow> nat \<Rightarrow> u32 \<Rightarrow> (int \<times> u32, u64) kret \<times> kst \<Rightarrow> (int \<times> u32, u64) kret" where
  "sleep_run q 0 ticks r = fst r"
| "sleep_run q (Suc k) ticks r =
     (case fst r of
        Return v \<Rightarrow> Return v
      | Asleep (n, ticks0) \<Rightarrow>
          let p = k_me (snd r);
              (ticks, s, _) = clockintr 0 0 ticks ((snd r)\<lparr>k_me := q\<rparr>)
          in if p_state (k_proc s p) = RUNNABLE
             then sleep_run q k ticks
                    (sys_sleep_loop ticks n ticks0 (awake (pset p (\<lambda>x. x\<lparr>p_state := RUNNING\<rparr>) (s\<lparr>k_me := p\<rparr>))))
             else fst r)"

lemma ticks_passed: "int k < 2 ^ 32 \<Longrightarrow> 0 \<le> n \<Longrightarrow> n < 2 ^ 31 \<Longrightarrow> (t + of_nat k - t < (of_int n :: u32)) = (int k < n)"
  by (simp add: word_less_nat_alt unat_of_nat unsigned_of_int take_bit_int_eq_self take_bit_nat_eq_self nat_less_iff zless_nat_eq_int_zless)

lemma sleep_run_asleep:
  assumes "0 \<le> n" "n < 2 ^ 31" "q \<noteq> p" "p < NPROC"
  shows "int j \<le> n \<Longrightarrow> int k + int j \<le> n \<Longrightarrow> p_killed (k_proc s p) = 0 \<Longrightarrow> k_me s = p \<Longrightarrow>
    sleep_run q k (t + of_nat j) (sys_sleep_loop (t + of_nat j) n t s) = (if int j + int k < n then Asleep (n, t) else Return 0)"
proof (induction k arbitrary: j s)
  case 0
  then show ?case using ticks_passed [of j n t] assms by (auto simp: sys_sleep_loop_def killed_def)
next
  case (Suc k)
  then have j: "int j < n" by simp
  then have l: "sys_sleep_loop (t + of_nat j) n t s = (Asleep (n, t), sleep Ticks_chan s)"
    using ticks_passed [of j n t] assms Suc.prems by (simp add: sys_sleep_loop_def killed_def)
  let ?s1 = "wakeup Ticks_chan ((sleep Ticks_chan s)\<lparr>k_me := q\<rparr>)"
  let ?s2 = "awake (pset p (\<lambda>x. x\<lparr>p_state := RUNNING\<rparr>) (?s1\<lparr>k_me := p\<rparr>))"
  have r: "p_state (k_proc ?s1 p) = RUNNABLE" "p_killed (k_proc ?s2 p) = 0" "k_me ?s2 = p"
    using assms Suc.prems by (simp_all add: wakeup_proc sleep_def awake_def)
  have "sleep_run q (Suc k) (t + of_nat j) (sys_sleep_loop (t + of_nat j) n t s) =
      sleep_run q k (t + of_nat (Suc j)) (sys_sleep_loop (t + of_nat (Suc j)) n t ?s2)"
    unfolding l using r(1) Suc.prems(4) by (simp add: clockintr_def sleep_def ac_simps)
  then show ?case using Suc.IH [OF _ _ r(2,3), of "Suc j"] Suc.prems j by simp
qed

text \<open>C20. \<^verbatim>\<open>sleep(n)\<close> sleeps for exactly \<open>n\<close> clock ticks, whatever the value of the wrapping tick
  counter: unless killed, the caller is still asleep after fewer than \<open>n\<close> ticks and has
  returned 0 after \<open>n\<close> ticks.\<close>

theorem sys_sleep_wakes:
  assumes "argint 0 s = Ok n" "p_killed (me s) = 0" "k_me s < NPROC" "q \<noteq> k_me s"
  shows "\<exists>r. sys_sleep ticks s = Ok r \<and>
    (\<forall>k < nat n. sleep_run q k ticks r = Asleep (n, ticks)) \<and> sleep_run q (nat n) ticks r = Return 0"
proof -
  let ?n = "if n < 0 then 0 else n"
  obtain v :: u32 where "n = sint v" using assms(1) by (auto simp: argint_def obind_Ok_iff)
  then have n: "n < 2 ^ 31" using sint_range_size [of v] by (simp add: word_size)
  note run = sleep_run_asleep [of ?n q "k_me s", where j = 0 and s = s and t = ticks, simplified]
  have "sys_sleep ticks s = Ok (sys_sleep_loop ticks ?n ticks s)" using assms(1) by (simp add: sys_sleep_def)
  then show ?thesis using run n assms(2-4) by (auto simp: nat_le_iff)
qed

text \<open>A process whose first two argument registers hold \<open>v\<close> and \<open>w\<close>.\<close>

definition calling :: "u64 \<Rightarrow> u64 \<Rightarrow> kst" where
  "calling v w = y_k (boot_sys (st (tf_a0 + 8) w (st tf_a0 v two_pages)) 0 0)"

lemma calling_simps:
  "k_me (calling v w) = 0" "p_killed (k_proc (calling v w) 0) = 0" "argraw 0 (calling v w) = Ok v" "argraw 1 (calling v w) = Ok w"
proof -
  have "load64 (store64 m (tf_a0 + 8) w) tf_a0 = load64 m tf_a0" for m
  proof (rule load64_cong)
    fix i :: nat assume "i < 8"
    then have "i \<in> {0, 1, 2, 3, 4, 5, 6, 7}" by auto
    then show "store64 m (tf_a0 + 8) w (tf_a0 + of_nat i) = m (tf_a0 + of_nat i)" by (auto simp: store64_def)
  qed
  then show "k_me (calling v w) = 0" "p_killed (k_proc (calling v w) 0) = 0" "argraw 0 (calling v w) = Ok v" "argraw 1 (calling v w) = Ok w"
    by (simp_all add: calling_def boot_sys_def argraw_def procinit_def procinit_fold zero_proc_def NPROC_def set_mem_def del: upt_Suc)
qed

theorem sys_sleep_wakes_witness:
  "\<exists>r. sys_sleep 0xffffffff (calling 2 0) = Ok r \<and> sleep_run 1 1 0xffffffff r = Asleep (2, 0xffffffff) \<and>
     sleep_run 1 2 0xffffffff r = Return 0"
proof -
  have "argint 0 (calling 2 0) = Ok 2" by (simp add: argint_def calling_simps)
  then obtain r where "sys_sleep 0xffffffff (calling 2 0) = Ok r"
    "\<forall>k < 2. sleep_run 1 k 0xffffffff r = Asleep (2, 0xffffffff)" "sleep_run 1 2 0xffffffff r = Return 0"
    using sys_sleep_wakes [of "calling 2 0" 2 1 "0xffffffff"] by (auto simp: calling_simps NPROC_def)
  then show ?thesis by (intro exI [of _ r]) (simp del: sleep_run.simps One_nat_def)
qed

text \<open>The processes \<^verbatim>\<open>sys_ps\<close> reports.\<close>

definition in_use :: "kst \<Rightarrow> nat list" where
  "in_use s = filter (\<lambda>p. p_state (k_proc s p) \<noteq> UNUSED) [0..<NPROC]"

text \<open>Storing one record after another at a user address.\<close>

primrec put_records :: "u64 \<Rightarrow> u64 \<Rightarrow> bytes list \<Rightarrow> phys \<Rightarrow> phys \<Rightarrow> bool" where
  "put_records pagetable va [] ph ph' \<longleftrightarrow> ph' = ph"
| "put_records pagetable va (d # ds) ph ph' \<longleftrightarrow>
     (\<exists>ph1. copyout pagetable va d (of_nat sizeof_procinfo) ph = Ok (0, ph1) \<and>
        put_records pagetable (va + of_nat sizeof_procinfo) ds ph1 ph')"

lemma ps_loop_spec:
  assumes "0 \<le> count"
  shows "\<exists>v s'. ps_loop junk a mx ps count s = Ok (v, s') \<and> k_proc s' = k_proc s \<and>
    (v = - 1 \<or> (\<exists>qs. qs = take (nat (mx - count)) (filter (\<lambda>p. p_state (k_proc s p) \<noteq> UNUSED) ps) \<and>
       v = of_int (count + int (length qs)) \<and>
       put_records (p_pagetable (me s)) (a + of_int count * of_nat sizeof_procinfo)
         (map (\<lambda>p. fill_pi (junk p) (k_proc s p)) qs) (k_phys s) (k_phys s')))"
  using assms
proof (induction ps arbitrary: count s)
  case Nil
  then show ?case by simp
next
  case (Cons p ps)
  let ?a = "a + of_int count * of_nat sizeof_procinfo" and ?d = "fill_pi (junk p) (k_proc s p)"
  obtain r ph where c: "copyout (p_pagetable (me s)) ?a ?d (of_nat sizeof_procinfo) (k_phys s) = Ok (r, ph)" "r = 0 \<or> r = - 1"
    using copyout_total by blast
  consider (stop) "\<not> count < mx" | (skip) "count < mx" "p_state (k_proc s p) = UNUSED"
    | (bad) "count < mx" "p_state (k_proc s p) \<noteq> UNUSED" "r = - 1" | (ok) "count < mx" "p_state (k_proc s p) \<noteq> UNUSED" "r = 0"
    using c(2) by blast
  then show ?case
  proof cases
    case ok
    let ?s = "s\<lparr>k_phys := ph\<rparr>"
    obtain v s' where ih: "ps_loop junk a mx ps (count + 1) ?s = Ok (v, s')" "k_proc s' = k_proc s"
      "v = - 1 \<or> (\<exists>qs. qs = take (nat (mx - (count + 1))) (filter (\<lambda>p. p_state (k_proc s p) \<noteq> UNUSED) ps) \<and>
       v = of_int (count + 1 + int (length qs)) \<and>
       put_records (p_pagetable (me s)) (a + of_int (count + 1) * of_nat sizeof_procinfo)
         (map (\<lambda>p. fill_pi (junk p) (k_proc s p)) qs) ph (k_phys s'))"
      using Cons.IH [of "count + 1" ?s] Cons.prems by auto
    have n: "nat (mx - count) = Suc (nat (mx - (count + 1)))" using ok(1) by simp
    have a: "a + of_int (count + 1) * of_nat sizeof_procinfo = ?a + of_nat sizeof_procinfo" by (simp add: algebra_simps)
    show ?thesis using ih c(1) ok by (auto simp: n algebra_simps)
  next
    case bad
    then show ?thesis using c(1) by simp
  qed (use Cons.IH Cons.prems in \<open>simp_all\<close>)
qed



text \<open>A free slot has pid 0, so \<^verbatim>\<open>getmemusage(0)\<close> finds one and reports a size instead of failing.\<close>

lemma getmemusage_free_slot:
  assumes "table_inv s" "argint 0 s = Ok 0" "p < NPROC" "p_state (k_proc s p) = UNUSED"
  shows "\<exists>q < NPROC. p_state (k_proc s q) = UNUSED \<and> sys_getmemusage s = Ok (p_sz (k_proc s q))"
proof -
  have "p_pid (k_proc s p) = 0" using assms(1,3,4) unfolding table_inv_def by (metis (full_types))
  then obtain q where q: "lookup_pid 0 s = Some q"
    using assms(3) by (cases "lookup_pid 0 s") (auto simp: lookup_pid_def find_None_iff simp del: upt_Suc)
  then have "q < NPROC" "p_pid (k_proc s q) = 0" by (auto simp: lookup_pid_def find_Some_iff)
  note q = q this
  then have "p_state (k_proc s q) = UNUSED" using assms(1) unfolding table_inv_def by (metis (full_types) less_irrefl)
  then show ?thesis using q assms(2) by (auto simp: sys_getmemusage_def)
qed

end
