(* ===== verification/Xv6_File.thy ===== *)
theory Xv6_File
  imports Xv6_Fs Xv6_Pipe Xv6_Console Xv6_Sysproc
begin

text \<open>
  Open files (\<^verbatim>\<open>kernel/file.c\<close>), the creation of pipes, and the operations on processes that
  involve files: \<^verbatim>\<open>userinit\<close>, \<^verbatim>\<open>fork\<close> and \<^verbatim>\<open>exit\<close>.  The state is that of the whole kernel:
  the file system, the file table, the pipes by address, the console and the tick counter.
\<close>

section \<open>State\<close>

definition NFILE :: nat where "NFILE = 100"
definition NOFILE :: nat where "NOFILE = 16"
definition NDEV :: nat where "NDEV = 10"
definition CONSOLE :: nat where "CONSOLE = 1"

datatype fdtype = FD_NONE | FD_PIPE | FD_INODE | FD_DEVICE

record ofile =
  fl_type :: fdtype
  fl_ref :: int
  fl_readable :: bool
  fl_writable :: bool
  fl_pipe :: u64
  fl_ip :: nat
  fl_off :: u32
  fl_major :: u16

text \<open>The console carries its own copy of the processes; \<open>use_con\<close> keeps the two in step.\<close>

record kern =
  n_fs :: fs
  n_file :: "nat \<Rightarrow> ofile"
  n_pipe :: "u64 \<Rightarrow> pipe"
  n_con :: con
  n_ticks :: u32

abbreviation n_k :: "kern \<Rightarrow> kst" where
  "n_k x \<equiv> f_k (n_fs x)"

definition set_k :: "kst \<Rightarrow> kern \<Rightarrow> kern" where
  "set_k s x = x\<lparr>n_fs := (n_fs x)\<lparr>f_k := s\<rparr>\<rparr>"

definition fset :: "nat \<Rightarrow> (ofile \<Rightarrow> ofile) \<Rightarrow> kern \<Rightarrow> kern" where
  "fset f g x = x\<lparr>n_file := (n_file x)(f := g (n_file x f))\<rparr>"

definition use_fs :: "(fs \<Rightarrow> fs outcome) \<Rightarrow> kern \<Rightarrow> kern outcome" where
  "use_fs g x = obind (g (n_fs x)) (\<lambda>s. Ok (x\<lparr>n_fs := s\<rparr>))"

definition use_con :: "(con \<Rightarrow> ('a \<times> con) outcome) \<Rightarrow> kern \<Rightarrow> ('a \<times> kern) outcome" where
  "use_con g x = obind (g ((n_con x)\<lparr>co_k := n_k x\<rparr>)) (\<lambda>(r, c). Ok (r, set_k (co_k c) (x\<lparr>n_con := c\<rparr>)))"

definition fs_begin_op :: "fs \<Rightarrow> fs outcome" where
  "fs_begin_op s = obind (begin_op (f_log s)) (\<lambda>lg. Ok (s\<lparr>f_log := lg\<rparr>))"

definition fs_end_op :: "fs \<Rightarrow> fs outcome" where
  "fs_end_op s = obind (end_op (f_log s)) (\<lambda>lg. Ok (s\<lparr>f_log := lg\<rparr>))"

section \<open>The file table\<close>

definition filealloc :: "kern \<Rightarrow> nat option \<times> kern" where
  "filealloc x =
     (case find (\<lambda>f. fl_ref (n_file x f) = 0) [0..<NFILE] of
        None \<Rightarrow> (None, x)
      | Some f \<Rightarrow> (Some f, fset f (\<lambda>v. v\<lparr>fl_ref := 1\<rparr>) x))"

definition filedup :: "nat \<Rightarrow> kern \<Rightarrow> (nat \<times> kern) outcome" where
  "filedup f x =
     (if fl_ref (n_file x f) < 1 then Panic ''filedup''
      else Ok (f, fset f (\<lambda>v. v\<lparr>fl_ref := fl_ref v + 1\<rparr>) x))"

definition fileclose :: "nat \<Rightarrow> kern \<Rightarrow> kern outcome" where
  "fileclose f x =
     (if fl_ref (n_file x f) < 1 then Panic ''fileclose''
      else if fl_ref (n_file x f) - 1 > 0 then Ok (fset f (\<lambda>v. v\<lparr>fl_ref := fl_ref v - 1\<rparr>) x)
      else let ff = n_file x f; x = fset f (\<lambda>v. v\<lparr>fl_ref := 0, fl_type := FD_NONE\<rparr>) x
           in case fl_type ff of
                FD_PIPE \<Rightarrow>
                  obind (pipeclose (fl_pipe ff) (fl_writable ff) (n_pipe x (fl_pipe ff)) (n_k x)) (\<lambda>(pi, s).
                  Ok (set_k s (x\<lparr>n_pipe := (n_pipe x)(fl_pipe ff := pi)\<rparr>)))
              | FD_NONE \<Rightarrow> Ok x
              | _ \<Rightarrow> use_fs (\<lambda>s. obind (fs_begin_op s) (\<lambda>s. obind (iput (fl_ip ff) s) fs_end_op)) x)"

text \<open>\<^verbatim>\<open>struct stat\<close>: \<^verbatim>\<open>dev\<close> at 0, \<^verbatim>\<open>ino\<close> at 4, \<^verbatim>\<open>type\<close> at 8, \<^verbatim>\<open>nlink\<close> at 10, \<^verbatim>\<open>size\<close> at 16; \<open>junk\<close> is
  what the local variable held before.\<close>

definition stat_bytes :: "bytes \<Rightarrow> stat \<Rightarrow> bytes" where
  "stat_bytes junk v =
     put64 (put16 (put16 (put32 (put32 junk 0 (st_dev v)) 4 (st_ino v)) 8 (st_type v)) 10 (st_nlink v)) 16 (st_size v)"

definition filestat :: "bytes \<Rightarrow> nat \<Rightarrow> u64 \<Rightarrow> kern \<Rightarrow> (int \<times> kern) outcome" where
  "filestat junk f addr x =
     (if fl_type (n_file x f) = FD_INODE \<or> fl_type (n_file x f) = FD_DEVICE
      then let ip = fl_ip (n_file x f)
           in obind (use_fs (ilock ip) x) (\<lambda>x.
              let v = stati (f_inode (n_fs x) ip)
              in obind (use_fs (iunlock ip) x) (\<lambda>x.
                 obind (copyout (p_pagetable (me (n_k x))) addr (stat_bytes junk v) 24 (k_phys (n_k x))) (\<lambda>(r, ph).
                 Ok (if r < 0 then - 1 else 0, set_k ((n_k x)\<lparr>k_phys := ph\<rparr>) x))))
      else Ok (- 1, x))"

text \<open>What a process asleep in \<^verbatim>\<open>read\<close> or \<^verbatim>\<open>write\<close> waits for, with its live variables.\<close>

datatype io_wait = Piperead | Pipewrite int | Consoleread u64 int | Consolewrite int

definition fileread :: "nat \<Rightarrow> u64 \<Rightarrow> int \<Rightarrow> kern \<Rightarrow> ((io_wait, int) kret \<times> kern) outcome" where
  "fileread f addr n x =
     (let ff = n_file x f
      in if \<not> fl_readable ff then Ok (Return (- 1), x)
         else case fl_type ff of
           FD_PIPE \<Rightarrow>
             obind (piperead (fl_pipe ff) addr n (n_pipe x (fl_pipe ff)) (n_k x)) (\<lambda>(r, pi, s).
             Ok (case r of Return v \<Rightarrow> Return v | Asleep _ \<Rightarrow> Asleep Piperead,
                 set_k s (x\<lparr>n_pipe := (n_pipe x)(fl_pipe ff := pi)\<rparr>)))
         | FD_DEVICE \<Rightarrow>
             if sint (fl_major ff) < 0 \<or> sint (fl_major ff) \<ge> int NDEV \<or> fl_major ff \<noteq> of_nat CONSOLE then Ok (Return (- 1), x)
             else obind (use_con (consoleread True addr n) x) (\<lambda>(r, x).
                  Ok (case r of Return v \<Rightarrow> Return v | Asleep (d, k) \<Rightarrow> Asleep (Consoleread d k), x))
         | FD_INODE \<Rightarrow>
             obind (use_fs (ilock (fl_ip ff)) x) (\<lambda>x.
             obind (readi (fl_ip ff) (User addr) (fl_off ff) (of_int n) (\<lambda>_. 0) (n_fs x)) (\<lambda>(r, _, s).
             let x = x\<lparr>n_fs := s\<rparr>; x = (if r > 0 then fset f (\<lambda>v. v\<lparr>fl_off := fl_off v + of_int r\<rparr>) x else x)
             in obind (use_fs (iunlock (fl_ip ff)) x) (\<lambda>x. Ok (Return r, x))))
         | FD_NONE \<Rightarrow> Panic ''fileread'')"

text \<open>The loop that writes a file a few blocks at a time.\<close>

definition write_max :: int where
  "write_max = ((int MAXOPBLOCKS - 1 - 1 - 2) div 2) * int BSIZE"

function filewrite_loop :: "nat \<Rightarrow> u64 \<Rightarrow> int \<Rightarrow> int \<Rightarrow> kern \<Rightarrow> (int \<times> kern) outcome" where
  "filewrite_loop f addr n i x =
     (if i < n
      then let n1 = (if n - i > write_max then write_max else n - i); ip = fl_ip (n_file x f)
           in obind (use_fs fs_begin_op x) (\<lambda>x.
              obind (use_fs (ilock ip) x) (\<lambda>x.
              obind (writei ip (User (addr + of_int i)) (fl_off (n_file x f)) (of_int n1) (\<lambda>_. 0) (n_fs x)) (\<lambda>(r, s).
              let x = x\<lparr>n_fs := s\<rparr>; x = (if r > 0 then fset f (\<lambda>v. v\<lparr>fl_off := fl_off v + of_int r\<rparr>) x else x)
              in obind (use_fs (iunlock ip) x) (\<lambda>x.
                 obind (use_fs fs_end_op x) (\<lambda>x.
                 if r \<noteq> n1 then Ok (i, x) else filewrite_loop f addr n (i + r) x)))))
      else Ok (i, x))"
  by pat_completeness auto
termination
  by (relation "measure (\<lambda>(f, addr, n, i, x). nat (n - i))") (auto simp: write_max_def MAXOPBLOCKS_def BSIZE_def)

declare filewrite_loop.simps [simp del]

definition filewrite :: "(nat \<Rightarrow> u8) \<Rightarrow> nat \<Rightarrow> u64 \<Rightarrow> int \<Rightarrow> kern \<Rightarrow> ((io_wait, int) kret \<times> kern) outcome" where
  "filewrite lsr f addr n x =
     (let ff = n_file x f
      in if \<not> fl_writable ff then Ok (Return (- 1), x)
         else case fl_type ff of
           FD_PIPE \<Rightarrow>
             obind (pipewrite (fl_pipe ff) addr n (n_pipe x (fl_pipe ff)) (n_k x)) (\<lambda>(r, pi, s).
             Ok (case r of Return v \<Rightarrow> Return v | Asleep i \<Rightarrow> Asleep (Pipewrite i),
                 set_k s (x\<lparr>n_pipe := (n_pipe x)(fl_pipe ff := pi)\<rparr>)))
         | FD_DEVICE \<Rightarrow>
             if sint (fl_major ff) < 0 \<or> sint (fl_major ff) \<ge> int NDEV \<or> fl_major ff \<noteq> of_nat CONSOLE then Ok (Return (- 1), x)
             else obind (use_con (consolewrite lsr True addr n) x) (\<lambda>(r, x).
                  Ok (case r of Return v \<Rightarrow> Return v | Asleep i \<Rightarrow> Asleep (Consolewrite i), x))
         | FD_INODE \<Rightarrow>
             obind (filewrite_loop f addr n 0 x) (\<lambda>(i, x). Ok (Return (if i = n then n else - 1), x))
         | FD_NONE \<Rightarrow> Panic ''filewrite'')"

section \<open>Pipes\<close>

definition pipealloc :: "kern \<Rightarrow> ((nat \<times> nat) option \<times> kern) outcome" where
  "pipealloc x =
     (case filealloc x of
        (None, x) \<Rightarrow> Ok (None, x)
      | (Some f0, x) \<Rightarrow>
          (case filealloc x of
             (None, x) \<Rightarrow> obind (fileclose f0 x) (\<lambda>x. Ok (None, x))
           | (Some f1, x) \<Rightarrow>
               let (pi, ph) = kalloc (k_phys (n_k x)); x = set_k ((n_k x)\<lparr>k_phys := ph\<rparr>) x
               in if pi = 0 then obind (fileclose f0 x) (\<lambda>x. obind (fileclose f1 x) (\<lambda>x. Ok (None, x)))
                  else let x = x\<lparr>n_pipe := (n_pipe x)(pi := \<lparr>pi_data = \<lambda>_. 5, pi_nread = 0, pi_nwrite = 0,
                                   pi_readopen = True, pi_writeopen = True\<rparr>)\<rparr>;
                           x = fset f0 (\<lambda>v. v\<lparr>fl_type := FD_PIPE, fl_readable := True, fl_writable := False, fl_pipe := pi\<rparr>) x;
                           x = fset f1 (\<lambda>v. v\<lparr>fl_type := FD_PIPE, fl_readable := False, fl_writable := True, fl_pipe := pi\<rparr>) x
                       in Ok (Some (f0, f1), x)))"

section \<open>Processes\<close>

definition tf_epc :: u64 where "tf_epc = 24"
definition tf_sp :: u64 where "tf_sp = 48"

text \<open>A C string as an object.\<close>

definition cstring :: "u8 list \<Rightarrow> bytes" where
  "cstring xs = (\<lambda>i. if i < length xs then xs ! i else 0)"

definition userinit :: "bytes \<Rightarrow> u32 \<Rightarrow> kern \<Rightarrow> kern outcome" where
  "userinit initcode sz x =
     obind (allocproc (n_k x)) (\<lambda>(r, s).
     case r of
       None \<Rightarrow> Fault
     | Some p \<Rightarrow>
         let s = s\<lparr>k_initproc := Some p\<rparr>
         in obind (uvmfirst (p_pagetable (k_proc s p)) initcode sz (k_phys s)) (\<lambda>ph.
            let tf = p_trapframe (k_proc s p);
                s = s\<lparr>k_phys := st (tf + tf_sp) PGSIZE (st (tf + tf_epc) 0 ph)\<rparr>;
                s = pset p (\<lambda>q. q\<lparr>p_sz := PGSIZE, p_name := safestrcpy (p_name q) (cstring (map of_char ''initcode'')) 16\<rparr>) s
            in obind (namei [slash] (n_fs (set_k s x))) (\<lambda>(ip, fs).
               let x = x\<lparr>n_fs := fs\<rparr>
               in Ok (set_k (pset p (\<lambda>q. q\<lparr>p_cwd := ip, p_state := RUNNABLE\<rparr>) (n_k x)) x))))"

text \<open>Duplicating the open files of \<^verbatim>\<open>p\<close> for \<^verbatim>\<open>np\<close>.\<close>

primrec dup_files :: "nat list \<Rightarrow> nat \<Rightarrow> nat \<Rightarrow> kern \<Rightarrow> kern outcome" where
  "dup_files [] p np x = Ok x"
| "dup_files (i # is) p np x =
     (case p_ofile (k_proc (n_k x) p) i of
        None \<Rightarrow> dup_files is p np x
      | Some f \<Rightarrow>
          obind (filedup f x) (\<lambda>(f, x).
          dup_files is p np (set_k (pset np (\<lambda>q. q\<lparr>p_ofile := (p_ofile q)(i := Some f)\<rparr>) (n_k x)) x)))"

definition sizeof_trapframe :: nat where "sizeof_trapframe = 288"

definition fork :: "kern \<Rightarrow> (int \<times> kern) outcome" where
  "fork x =
     obind (allocproc (n_k x)) (\<lambda>(r, s).
     case r of
       None \<Rightarrow> Ok (- 1, set_k s x)
     | Some np \<Rightarrow>
         let p = k_me s
         in obind (uvmcopy (p_pagetable (k_proc s p)) (p_pagetable (k_proc s np)) (p_sz (k_proc s p)) (k_phys s)) (\<lambda>(r, ph).
            let s = s\<lparr>k_phys := ph\<rparr>
            in if r < 0 then obind (freeproc np s) (\<lambda>s. Ok (- 1, set_k s x))
               else let tf = p_trapframe (k_proc s np);
                        m = blit (ph_mem ph) tf (view (ph_mem ph) (p_trapframe (k_proc s p))) sizeof_trapframe;
                        s = s\<lparr>k_phys := st (tf + tf_a0) 0 (set_mem m ph)\<rparr>;
                        s = pset np (\<lambda>q. q\<lparr>p_sz := p_sz (k_proc s p)\<rparr>) s
                    in obind (dup_files [0..<NOFILE] p np (set_k s x)) (\<lambda>x.
                       case p_cwd (k_proc (n_k x) p) of
                         None \<Rightarrow> Fault
                       | Some cwd \<Rightarrow>
                           let (ip, fs) = idup cwd (n_fs x);
                               x = x\<lparr>n_fs := fs\<rparr>;
                               s = pset np (\<lambda>q. q\<lparr>p_cwd := Some ip,
                                     p_name := safestrcpy (p_name q) (p_name (k_proc (n_k x) p)) 16\<rparr>) (n_k x);
                               pid = p_pid (k_proc s np);
                               s = pset np (\<lambda>q. q\<lparr>p_parent := Some p, p_state := RUNNABLE\<rparr>) s
                           in Ok (pid, set_k s x))))"

text \<open>Closing every open file.\<close>

primrec close_files :: "nat list \<Rightarrow> kern \<Rightarrow> kern outcome" where
  "close_files [] x = Ok x"
| "close_files (fd # fds) x =
     (case p_ofile (me (n_k x)) fd of
        None \<Rightarrow> close_files fds x
      | Some f \<Rightarrow>
          obind (fileclose f x) (\<lambda>x.
          close_files fds (set_k (pset (k_me (n_k x)) (\<lambda>q. q\<lparr>p_ofile := (p_ofile q)(fd := None)\<rparr>) (n_k x)) x)))"

text \<open>\<^verbatim>\<open>exit\<close> up to its last switch to the scheduler.\<close>

definition exit :: "int \<Rightarrow> kern \<Rightarrow> kern outcome" where
  "exit status x =
     (if k_initproc (n_k x) = Some (k_me (n_k x)) then Panic ''init exiting''
      else obind (close_files [0..<NOFILE] x) (\<lambda>x.
           obind (use_fs (\<lambda>s.
             obind (fs_begin_op s) (\<lambda>s.
             obind (case p_cwd (me (f_k s)) of None \<Rightarrow> Fault | Some cwd \<Rightarrow> iput cwd s) fs_end_op)) x) (\<lambda>x.
           let s = pset (k_me (n_k x)) (\<lambda>q. q\<lparr>p_cwd := None\<rparr>) (n_k x)
           in Ok (set_k (exit_proc status s) x))))"

text \<open>\<^verbatim>\<open>forkret\<close> before it returns to user space; \<open>first\<close> is its static variable.\<close>

definition forkret :: "bool \<Rightarrow> kern \<Rightarrow> (bool \<times> kern) outcome" where
  "forkret first x = (if first then obind (use_fs (fsinit ROOTDEV) x) (\<lambda>x. Ok (False, x)) else Ok (first, x))"

end
