(* ===== verification/Xv6_Sysfile.thy ===== *)
theory Xv6_Sysfile
  imports Xv6_File
begin

text \<open>
  The file system calls of \<^verbatim>\<open>kernel/sysfile.c\<close> and \<^verbatim>\<open>exec\<close> of \<^verbatim>\<open>kernel/exec.c\<close>.  Where the source
  jumps to a label, the code at the label is a definition of its own.
\<close>

section \<open>Descriptors\<close>

definition MAXPATH :: int where "MAXPATH = 128"
definition MAXARG :: nat where "MAXARG = 32"
definition O_RDONLY :: u32 where "O_RDONLY = 0"
definition O_WRONLY :: u32 where "O_WRONLY = 1"
definition O_RDWR :: u32 where "O_RDWR = 2"
definition O_CREATE :: u32 where "O_CREATE = 0x200"
definition O_TRUNC :: u32 where "O_TRUNC = 0x400"

definition argfd :: "int \<Rightarrow> kst \<Rightarrow> (nat \<times> nat) option outcome" where
  "argfd n s =
     obind (argint n s) (\<lambda>fd.
     Ok (if fd < 0 \<or> fd \<ge> int NOFILE then None
         else case p_ofile (me s) (nat fd) of None \<Rightarrow> None | Some f \<Rightarrow> Some (nat fd, f)))"

definition fdalloc :: "nat \<Rightarrow> kern \<Rightarrow> nat option \<times> kern" where
  "fdalloc f x =
     (case find (\<lambda>fd. p_ofile (me (n_k x)) fd = None) [0..<NOFILE] of
        None \<Rightarrow> (None, x)
      | Some fd \<Rightarrow> (Some fd, set_k (pset (k_me (n_k x)) (\<lambda>q. q\<lparr>p_ofile := (p_ofile q)(fd := Some f)\<rparr>) (n_k x)) x))"

definition clear_fd :: "nat \<Rightarrow> kern \<Rightarrow> kern" where
  "clear_fd fd x = set_k (pset (k_me (n_k x)) (\<lambda>q. q\<lparr>p_ofile := (p_ofile q)(fd := None)\<rparr>) (n_k x)) x"

definition sys_dup :: "kern \<Rightarrow> (u64 \<times> kern) outcome" where
  "sys_dup x =
     obind (argfd 0 (n_k x)) (\<lambda>r.
     case r of
       None \<Rightarrow> Ok (- 1, x)
     | Some (_, f) \<Rightarrow>
         (case fdalloc f x of
            (None, x) \<Rightarrow> Ok (- 1, x)
          | (Some fd, x) \<Rightarrow> obind (filedup f x) (\<lambda>(_, x). Ok (of_nat fd, x))))"

definition sys_read :: "kern \<Rightarrow> ((io_wait, u64) kret \<times> kern) outcome" where
  "sys_read x =
     obind (argaddr 1 (n_k x)) (\<lambda>p.
     obind (argint 2 (n_k x)) (\<lambda>n.
     obind (argfd 0 (n_k x)) (\<lambda>r.
     case r of
       None \<Rightarrow> Ok (Return (- 1), x)
     | Some (_, f) \<Rightarrow>
         obind (fileread f p n x) (\<lambda>(r, x).
         Ok (case r of Return v \<Rightarrow> Return (of_int v) | Asleep w \<Rightarrow> Asleep w, x)))))"

definition sys_write :: "(nat \<Rightarrow> u8) \<Rightarrow> kern \<Rightarrow> ((io_wait, u64) kret \<times> kern) outcome" where
  "sys_write lsr x =
     obind (argaddr 1 (n_k x)) (\<lambda>p.
     obind (argint 2 (n_k x)) (\<lambda>n.
     obind (argfd 0 (n_k x)) (\<lambda>r.
     case r of
       None \<Rightarrow> Ok (Return (- 1), x)
     | Some (_, f) \<Rightarrow>
         obind (filewrite lsr f p n x) (\<lambda>(r, x).
         Ok (case r of Return v \<Rightarrow> Return (of_int v) | Asleep w \<Rightarrow> Asleep w, x)))))"

definition sys_close :: "kern \<Rightarrow> (u64 \<times> kern) outcome" where
  "sys_close x =
     obind (argfd 0 (n_k x)) (\<lambda>r.
     case r of
       None \<Rightarrow> Ok (- 1, x)
     | Some (fd, f) \<Rightarrow> obind (fileclose f (clear_fd fd x)) (\<lambda>x. Ok (0, x)))"

definition sys_fstat :: "bytes \<Rightarrow> kern \<Rightarrow> (u64 \<times> kern) outcome" where
  "sys_fstat junk x =
     obind (argaddr 1 (n_k x)) (\<lambda>addr.
     obind (argfd 0 (n_k x)) (\<lambda>r.
     case r of
       None \<Rightarrow> Ok (- 1, x)
     | Some (_, f) \<Rightarrow> obind (filestat junk f addr x) (\<lambda>(r, x). Ok (of_int r, x))))"

section \<open>Names\<close>

text \<open>A path argument: the characters before the NUL, or nothing.\<close>

definition argpath :: "int \<Rightarrow> fs \<Rightarrow> u8 list option outcome" where
  "argpath n s = obind (argstr n (\<lambda>_. 0) MAXPATH (f_k s)) (\<lambda>(r, path).
     Ok (if r < 0 then None else Some (cstrn (nat MAXPATH) path)))"

definition fs_fail :: "fs \<Rightarrow> (u64 \<times> fs) outcome" where
  "fs_fail s = obind (fs_end_op s) (\<lambda>s. Ok (- 1, s))"

definition add_nlink :: "nat \<Rightarrow> u16 \<Rightarrow> fs \<Rightarrow> fs outcome" where
  "add_nlink i k s = iupdate i (iset i (\<lambda>ip. ip\<lparr>i_nlink := i_nlink ip + k\<rparr>) s)"

text \<open>The label \<^verbatim>\<open>bad\<close> of \<^verbatim>\<open>sys_link\<close>.\<close>

definition link_bad :: "nat \<Rightarrow> fs \<Rightarrow> (u64 \<times> fs) outcome" where
  "link_bad ip s =
     obind (ilock ip s) (\<lambda>s.
     obind (add_nlink ip (- 1) s) (\<lambda>s.
     obind (iunlockput ip s) fs_fail))"

definition sys_link :: "fs \<Rightarrow> (u64 \<times> fs) outcome" where
  "sys_link s =
     obind (argpath 0 s) (\<lambda>old. case old of None \<Rightarrow> Ok (- 1, s) | Some old \<Rightarrow>
     obind (argpath 1 s) (\<lambda>new. case new of None \<Rightarrow> Ok (- 1, s) | Some new \<Rightarrow>
     obind (fs_begin_op s) (\<lambda>s.
     obind (namei old s) (\<lambda>(ip, s). case ip of None \<Rightarrow> fs_fail s | Some ip \<Rightarrow>
     obind (ilock ip s) (\<lambda>s.
     if i_type (f_inode s ip) = T_DIR then obind (iunlockput ip s) fs_fail
     else obind (add_nlink ip 1 s) (\<lambda>s.
          obind (iunlock ip s) (\<lambda>s.
          obind (nameiparent new (\<lambda>_. 0) s) (\<lambda>(dp, name, s). case dp of None \<Rightarrow> link_bad ip s | Some dp \<Rightarrow>
          obind (ilock dp s) (\<lambda>s.
          if i_dev (f_inode s dp) \<noteq> i_dev (f_inode s ip) then obind (iunlockput dp s) (link_bad ip)
          else obind (dirlink dp name (i_inum (f_inode s ip)) s) (\<lambda>(r, s).
               if r < 0 then obind (iunlockput dp s) (link_bad ip)
               else obind (iunlockput dp s) (\<lambda>s.
                    obind (iput ip s) (\<lambda>s.
                    obind (fs_end_op s) (\<lambda>s. Ok (0, s))))))))))))))"

function isdirempty_loop :: "nat \<Rightarrow> nat \<Rightarrow> nat \<Rightarrow> fs \<Rightarrow> (bool \<times> fs) outcome" where
  "isdirempty_loop dp sz off s =
     (if off < sz
      then obind (readi dp (Object 0) (of_nat off) 16 (\<lambda>_. 0) s) (\<lambda>(r, de, s).
           if r \<noteq> 16 then Panic ''isdirempty: readi''
           else if get16 de 0 \<noteq> 0 then Ok (False, s)
           else isdirempty_loop dp sz (off + 16) s)
      else Ok (True, s))"
  by pat_completeness auto
termination
  by (relation "measure (\<lambda>(dp, sz, off, s). sz - off)") auto

declare isdirempty_loop.simps [simp del]

definition isdirempty :: "nat \<Rightarrow> fs \<Rightarrow> (bool \<times> fs) outcome" where
  "isdirempty dp s = isdirempty_loop dp (unat (i_size (f_inode s dp))) 32 s"

text \<open>The label \<^verbatim>\<open>bad\<close> of \<^verbatim>\<open>sys_unlink\<close>, and what follows the checks.\<close>

definition unlink_bad :: "nat \<Rightarrow> fs \<Rightarrow> (u64 \<times> fs) outcome" where
  "unlink_bad dp s = obind (iunlockput dp s) fs_fail"

definition unlink_entry :: "nat \<Rightarrow> nat \<Rightarrow> nat \<Rightarrow> fs \<Rightarrow> (u64 \<times> fs) outcome" where
  "unlink_entry dp ip off s =
     obind (writei dp (Object 0) (of_nat off) 16 (\<lambda>_. 0) s) (\<lambda>(r, s).
     if r \<noteq> 16 then Panic ''unlink: writei''
     else obind (if i_type (f_inode s ip) = T_DIR then add_nlink dp (- 1) s else Ok s) (\<lambda>s.
          obind (iunlockput dp s) (\<lambda>s.
          obind (add_nlink ip (- 1) s) (\<lambda>s.
          obind (iunlockput ip s) (\<lambda>s.
          obind (fs_end_op s) (\<lambda>s. Ok (0, s)))))))"

definition sys_unlink :: "fs \<Rightarrow> (u64 \<times> fs) outcome" where
  "sys_unlink s =
     obind (argpath 0 s) (\<lambda>path. case path of None \<Rightarrow> Ok (- 1, s) | Some path \<Rightarrow>
     obind (fs_begin_op s) (\<lambda>s.
     obind (nameiparent path (\<lambda>_. 0) s) (\<lambda>(dp, name, s). case dp of None \<Rightarrow> fs_fail s | Some dp \<Rightarrow>
     obind (ilock dp s) (\<lambda>s.
     if namecmp name (cstring [46]) = 0 \<or> namecmp name (cstring [46, 46]) = 0 then unlink_bad dp s
     else obind (dirlookup dp name s) (\<lambda>(r, s). case r of None \<Rightarrow> unlink_bad dp s | Some (ip, off) \<Rightarrow>
          obind (ilock ip s) (\<lambda>s.
          if sint (i_nlink (f_inode s ip)) < 1 then Panic ''unlink: nlink < 1''
          else obind (if i_type (f_inode s ip) = T_DIR then isdirempty ip s else Ok (True, s)) (\<lambda>(removable, s).
               if \<not> removable then obind (iunlockput ip s) (unlink_bad dp)
               else unlink_entry dp ip off s)))))))"

text \<open>The label \<^verbatim>\<open>fail\<close> of \<^verbatim>\<open>create\<close>, and the three parts of making a new inode.\<close>

definition create_fail :: "nat \<Rightarrow> nat \<Rightarrow> fs \<Rightarrow> (nat option \<times> fs) outcome" where
  "create_fail ip dp s =
     obind (iupdate ip (iset ip (\<lambda>v. v\<lparr>i_nlink := 0\<rparr>) s)) (\<lambda>s.
     obind (iunlockput ip s) (\<lambda>s.
     obind (iunlockput dp s) (\<lambda>s. Ok (None, s))))"

definition link_dots :: "nat \<Rightarrow> nat \<Rightarrow> fs \<Rightarrow> (bool \<times> fs) outcome" where
  "link_dots ip dp s =
     obind (dirlink ip (cstring [46]) (i_inum (f_inode s ip)) s) (\<lambda>(r, s).
     if r < 0 then Ok (False, s)
     else obind (dirlink ip (cstring [46, 46]) (i_inum (f_inode s dp)) s) (\<lambda>(r, s). Ok (\<not> r < 0, s)))"

definition create_new :: "nat \<Rightarrow> bytes \<Rightarrow> u16 \<Rightarrow> u16 \<Rightarrow> u16 \<Rightarrow> nat \<Rightarrow> fs \<Rightarrow> (nat option \<times> fs) outcome" where
  "create_new dp name type major minor ip s =
     obind (ilock ip s) (\<lambda>s.
     obind (iupdate ip (iset ip (\<lambda>v. v\<lparr>i_major := major, i_minor := minor, i_nlink := 1\<rparr>) s)) (\<lambda>s.
     obind (if type = T_DIR then link_dots ip dp s else Ok (True, s)) (\<lambda>(linked, s).
     if \<not> linked then create_fail ip dp s
     else obind (dirlink dp name (i_inum (f_inode s ip)) s) (\<lambda>(r, s).
          if r < 0 then create_fail ip dp s
          else obind (if type = T_DIR then add_nlink dp 1 s else Ok s) (\<lambda>s.
               obind (iunlockput dp s) (\<lambda>s. Ok (Some ip, s)))))))"

definition create :: "u8 list \<Rightarrow> u16 \<Rightarrow> u16 \<Rightarrow> u16 \<Rightarrow> fs \<Rightarrow> (nat option \<times> fs) outcome" where
  "create path type major minor s =
     obind (nameiparent path (\<lambda>_. 0) s) (\<lambda>(dp, name, s). case dp of None \<Rightarrow> Ok (None, s) | Some dp \<Rightarrow>
     obind (ilock dp s) (\<lambda>s.
     obind (dirlookup dp name s) (\<lambda>(r, s).
     case r of
       Some (ip, _) \<Rightarrow>
         obind (iunlockput dp s) (\<lambda>s.
         obind (ilock ip s) (\<lambda>s.
         if type = T_FILE \<and> (i_type (f_inode s ip) = T_FILE \<or> i_type (f_inode s ip) = T_DEVICE) then Ok (Some ip, s)
         else obind (iunlockput ip s) (\<lambda>s. Ok (None, s))))
     | None \<Rightarrow>
         obind (ialloc (i_dev (f_inode s dp)) type s) (\<lambda>(ip, s).
         case ip of
           None \<Rightarrow> obind (iunlockput dp s) (\<lambda>s. Ok (None, s))
         | Some ip \<Rightarrow> create_new dp name type major minor ip s))))"

text \<open>\<^verbatim>\<open>sys_open\<close> up to the locked inode.\<close>

definition open_inode :: "u8 list \<Rightarrow> u32 \<Rightarrow> fs \<Rightarrow> (nat option \<times> fs) outcome" where
  "open_inode path omode s =
     (if omode AND O_CREATE \<noteq> 0 then create path T_FILE 0 0 s
      else obind (namei path s) (\<lambda>(ip, s). case ip of None \<Rightarrow> Ok (None, s) | Some ip \<Rightarrow>
           obind (ilock ip s) (\<lambda>s.
           if i_type (f_inode s ip) = T_DIR \<and> omode \<noteq> O_RDONLY then obind (iunlockput ip s) (\<lambda>s. Ok (None, s))
           else Ok (Some ip, s))))"

definition open_fail :: "nat \<Rightarrow> kern \<Rightarrow> (u64 \<times> kern) outcome" where
  "open_fail ip x = obind (use_fs (\<lambda>s. obind (iunlockput ip s) fs_end_op) x) (\<lambda>x. Ok (- 1, x))"

definition sys_open :: "kern \<Rightarrow> (u64 \<times> kern) outcome" where
  "sys_open x =
     obind (argint 1 (n_k x)) (\<lambda>omode.
     let omode = of_int omode
     in obind (argpath 0 (n_fs x)) (\<lambda>path. case path of None \<Rightarrow> Ok (- 1, x) | Some path \<Rightarrow>
        obind (use_fs fs_begin_op x) (\<lambda>x.
        obind (open_inode path omode (n_fs x)) (\<lambda>(ip, s).
        let x = x\<lparr>n_fs := s\<rparr>
        in case ip of
             None \<Rightarrow> obind (use_fs fs_end_op x) (\<lambda>x. Ok (- 1, x))
           | Some ip \<Rightarrow>
               let v = f_inode s ip
               in if i_type v = T_DEVICE \<and> (sint (i_major v) < 0 \<or> sint (i_major v) \<ge> int NDEV) then open_fail ip x
                  else case filealloc x of
                    (None, x) \<Rightarrow> open_fail ip x
                  | (Some f, x) \<Rightarrow>
                      (case fdalloc f x of
                         (None, x) \<Rightarrow> obind (fileclose f x) (open_fail ip)
                       | (Some fd, x) \<Rightarrow>
                           let x = fset f (\<lambda>w. if i_type v = T_DEVICE then w\<lparr>fl_type := FD_DEVICE, fl_major := i_major v\<rparr>
                                               else w\<lparr>fl_type := FD_INODE, fl_off := 0\<rparr>) x;
                               x = fset f (\<lambda>w. w\<lparr>fl_ip := ip, fl_readable := (omode AND O_WRONLY = 0),
                                     fl_writable := (omode AND O_WRONLY \<noteq> 0 \<or> omode AND O_RDWR \<noteq> 0)\<rparr>) x
                           in obind (use_fs (\<lambda>s.
                                obind (if omode AND O_TRUNC \<noteq> 0 \<and> i_type (f_inode s ip) = T_FILE then itrunc ip s else Ok s) (\<lambda>s.
                                obind (iunlock ip s) fs_end_op)) x) (\<lambda>x. Ok (of_nat fd, x)))))))"

definition sys_mkdir :: "fs \<Rightarrow> (u64 \<times> fs) outcome" where
  "sys_mkdir s =
     obind (fs_begin_op s) (\<lambda>s.
     obind (argpath 0 s) (\<lambda>path. case path of None \<Rightarrow> fs_fail s | Some path \<Rightarrow>
     obind (create path T_DIR 0 0 s) (\<lambda>(ip, s). case ip of None \<Rightarrow> fs_fail s | Some ip \<Rightarrow>
     obind (iunlockput ip s) (\<lambda>s. obind (fs_end_op s) (\<lambda>s. Ok (0, s))))))"

definition sys_mknod :: "fs \<Rightarrow> (u64 \<times> fs) outcome" where
  "sys_mknod s =
     obind (fs_begin_op s) (\<lambda>s.
     obind (argint 1 (f_k s)) (\<lambda>major.
     obind (argint 2 (f_k s)) (\<lambda>minor.
     obind (argpath 0 s) (\<lambda>path. case path of None \<Rightarrow> fs_fail s | Some path \<Rightarrow>
     obind (create path T_DEVICE (of_int major) (of_int minor) s) (\<lambda>(ip, s). case ip of None \<Rightarrow> fs_fail s | Some ip \<Rightarrow>
     obind (iunlockput ip s) (\<lambda>s. obind (fs_end_op s) (\<lambda>s. Ok (0, s))))))))"

definition sys_chdir :: "fs \<Rightarrow> (u64 \<times> fs) outcome" where
  "sys_chdir s =
     obind (fs_begin_op s) (\<lambda>s.
     obind (argpath 0 s) (\<lambda>path. case path of None \<Rightarrow> fs_fail s | Some path \<Rightarrow>
     obind (namei path s) (\<lambda>(ip, s). case ip of None \<Rightarrow> fs_fail s | Some ip \<Rightarrow>
     obind (ilock ip s) (\<lambda>s.
     if i_type (f_inode s ip) \<noteq> T_DIR then obind (iunlockput ip s) fs_fail
     else obind (iunlock ip s) (\<lambda>s.
          obind (case p_cwd (me (f_k s)) of None \<Rightarrow> Fault | Some cwd \<Rightarrow> iput cwd s) (\<lambda>s.
          obind (fs_end_op s) (\<lambda>s.
          Ok (0, s\<lparr>f_k := pset (k_me (f_k s)) (\<lambda>q. q\<lparr>p_cwd := Some ip\<rparr>) (f_k s)\<rparr>))))))))"

definition sys_pipe :: "kern \<Rightarrow> (u64 \<times> kern) outcome" where
  "sys_pipe x =
     obind (argaddr 0 (n_k x)) (\<lambda>fdarray.
     obind (pipealloc x) (\<lambda>(r, x). case r of None \<Rightarrow> Ok (- 1, x) | Some (rfile, wfile) \<Rightarrow>
     let close = (\<lambda>x. obind (fileclose rfile x) (\<lambda>x. obind (fileclose wfile x) (\<lambda>x. Ok (- 1, x))));
         put = (\<lambda>addr v x. obind (copyout (p_pagetable (me (n_k x))) addr (put32 (\<lambda>_. 0) 0 (of_nat v)) 4 (k_phys (n_k x)))
                  (\<lambda>(r, ph). Ok (r, set_k ((n_k x)\<lparr>k_phys := ph\<rparr>) x)))
     in case fdalloc rfile x of
          (None, x) \<Rightarrow> close x
        | (Some fd0, x) \<Rightarrow>
            (case fdalloc wfile x of
               (None, x) \<Rightarrow> close (clear_fd fd0 x)
             | (Some fd1, x) \<Rightarrow>
                 obind (put fdarray fd0 x) (\<lambda>(r, x).
                 obind (if r < 0 then Ok (r, x) else put (fdarray + 4) fd1 x) (\<lambda>(r, x).
                 if r < 0 then close (clear_fd fd1 (clear_fd fd0 x)) else Ok (0, x))))))"

section \<open>exec\<close>

definition ELF_MAGIC :: u32 where "ELF_MAGIC = 0x464C457F"
definition ELF_PROG_LOAD :: u32 where "ELF_PROG_LOAD = 1"
definition USERSTACK :: u64 where "USERSTACK = 1"

definition flags2perm :: "u32 \<Rightarrow> u64" where
  "flags2perm flags =
     (let perm = (if flags AND 1 \<noteq> 0 then PTE_X else 0)
      in if flags AND 2 \<noteq> 0 then perm OR PTE_W else perm)"

text \<open>The loop of \<^verbatim>\<open>loadseg\<close> from page offset \<open>i\<close>.\<close>

function loadseg_loop :: "u64 \<Rightarrow> u64 \<Rightarrow> nat \<Rightarrow> u32 \<Rightarrow> nat \<Rightarrow> nat \<Rightarrow> fs \<Rightarrow> (int \<times> fs) outcome" where
  "loadseg_loop pagetable va ip offset sz i s =
     (if i < sz
      then obind (walkaddr pagetable (va + of_nat i) (f_phys s)) (\<lambda>pa.
           if pa = 0 then Panic ''loadseg: address should exist''
           else let n = min (sz - i) PAGE
                in obind (readi ip (Phys pa) (offset + of_nat i) (of_nat n) (\<lambda>_. 0) s) (\<lambda>(r, _, s).
                   if r \<noteq> int n then Ok (- 1, s) else loadseg_loop pagetable va ip offset sz (i + PAGE) s))
      else Ok (0, s))"
  by pat_completeness auto
termination
  by (relation "measure (\<lambda>(pagetable, va, ip, offset, sz, i, s). sz - i)") (auto simp: PAGE_def)

declare loadseg_loop.simps [simp del]

definition loadseg :: "u64 \<Rightarrow> u64 \<Rightarrow> nat \<Rightarrow> u32 \<Rightarrow> u32 \<Rightarrow> fs \<Rightarrow> (int \<times> fs) outcome" where
  "loadseg pagetable va ip offset sz s = loadseg_loop pagetable va ip offset (unat sz) 0 s"

text \<open>One program header of \<^verbatim>\<open>exec\<close>: the new size, or nothing where it goes to \<^verbatim>\<open>bad\<close>.  Fields of
  \<^verbatim>\<open>struct proghdr\<close>: \<^verbatim>\<open>type\<close> at 0, \<^verbatim>\<open>flags\<close> at 4, \<^verbatim>\<open>off\<close> at 8, \<^verbatim>\<open>vaddr\<close> at 16, \<^verbatim>\<open>filesz\<close> at 32, \<^verbatim>\<open>memsz\<close> at 40.\<close>

definition load_segment :: "nat \<Rightarrow> u64 \<Rightarrow> bytes \<Rightarrow> u64 \<Rightarrow> fs \<Rightarrow> (bool \<times> u64 \<times> fs) outcome" where
  "load_segment ip pagetable ph sz s =
     (let vaddr = get64 ph 16; filesz = get64 ph 32; memsz = get64 ph 40
      in if get32 ph 0 \<noteq> ELF_PROG_LOAD then Ok (True, sz, s)
         else if memsz < filesz \<or> vaddr + memsz < vaddr \<or> vaddr mod PGSIZE \<noteq> 0 then Ok (False, sz, s)
         else obind (uvmalloc pagetable sz (vaddr + memsz) (flags2perm (get32 ph 4)) (f_phys s)) (\<lambda>(sz1, mem).
              let s = set_phys mem s
              in if sz1 = 0 then Ok (False, sz, s)
                 else obind (loadseg pagetable vaddr ip (ucast (get64 ph 8)) (ucast filesz) s) (\<lambda>(r, s).
                      Ok (\<not> r < 0, sz1, s))))"

primrec load_segments :: "nat \<Rightarrow> nat \<Rightarrow> u32 \<Rightarrow> u64 \<Rightarrow> u64 \<Rightarrow> fs \<Rightarrow> (bool \<times> u64 \<times> fs) outcome" where
  "load_segments 0 ip off pagetable sz s = Ok (True, sz, s)"
| "load_segments (Suc k) ip off pagetable sz s =
     obind (readi ip (Object 0) off 56 (\<lambda>_. 0) s) (\<lambda>(r, ph, s).
     if r \<noteq> 56 then Ok (False, sz, s)
     else obind (load_segment ip pagetable ph sz s) (\<lambda>(ok, sz, s).
          if ok then load_segments k ip (off + 56) pagetable sz s else Ok (False, sz, s)))"

text \<open>The label \<^verbatim>\<open>bad\<close>.\<close>

definition exec_bad :: "u64 \<Rightarrow> u64 \<Rightarrow> nat option \<Rightarrow> fs \<Rightarrow> (int \<times> fs) outcome" where
  "exec_bad pagetable sz ip s =
     obind (if pagetable \<noteq> 0 then obind (proc_freepagetable pagetable sz (f_phys s)) (\<lambda>mem. Ok (set_phys mem s)) else Ok s) (\<lambda>s.
     case ip of
       None \<Rightarrow> Ok (- 1, s)
     | Some ip \<Rightarrow> obind (iunlockput ip s) (\<lambda>s. obind (fs_end_op s) (\<lambda>s. Ok (- 1, s))))"

text \<open>Pushing the argument strings: the stack pointers in order, or nothing.\<close>

primrec push_args :: "u64 \<Rightarrow> u64 \<Rightarrow> u64 list \<Rightarrow> u64 list \<Rightarrow> u64 \<Rightarrow> fs \<Rightarrow> (bool \<times> u64 list \<times> u64 \<times> fs) outcome" where
  "push_args pagetable stackbase [] ustack sp s = Ok (True, ustack, sp, s)"
| "push_args pagetable stackbase (a # as) ustack sp s =
     (if length ustack \<ge> MAXARG then Ok (False, ustack, sp, s)
      else case strlen (view (ph_mem (f_phys s)) a) of
        None \<Rightarrow> Fault
      | Some n \<Rightarrow>
          let sp = sp - of_nat (n + 1); sp = sp - sp mod 16
          in if sp < stackbase then Ok (False, ustack, sp, s)
             else obind (copyout pagetable sp (view (ph_mem (f_phys s)) a) (of_nat (n + 1)) (f_phys s)) (\<lambda>(r, mem).
                  let s = set_phys mem s
                  in if r < 0 then Ok (False, ustack, sp, s)
                     else push_args pagetable stackbase as (ustack @ [sp]) sp s))"

definition ustack_bytes :: "u64 list \<Rightarrow> bytes" where
  "ustack_bytes us = (\<lambda>i. put64 (\<lambda>_. 0) 0 (us ! (i div 8)) (i mod 8))"

definition last_elem :: "u8 list \<Rightarrow> u8 list" where
  "last_elem path = rev (takeWhile (\<lambda>c. c \<noteq> slash) (rev path))"

text \<open>From the stack to the end, once the inode has been released.\<close>

definition exec_image :: "u8 list \<Rightarrow> u64 list \<Rightarrow> u64 \<Rightarrow> u64 \<Rightarrow> u64 \<Rightarrow> fs \<Rightarrow> (int \<times> fs) outcome" where
  "exec_image path argv entry pagetable sz s =
     (let p = k_me (f_k s); oldsz = p_sz (me (f_k s)); sz = PGROUNDUP sz
      in obind (uvmalloc pagetable sz (sz + (USERSTACK + 1) * PGSIZE) PTE_W (f_phys s)) (\<lambda>(sz1, mem).
         let s = set_phys mem s
         in if sz1 = 0 then exec_bad pagetable sz None s
            else obind (uvmclear pagetable (sz1 - (USERSTACK + 1) * PGSIZE) (f_phys s)) (\<lambda>mem.
                 obind (push_args pagetable (sz1 - USERSTACK * PGSIZE) argv [] sz1 (set_phys mem s)) (\<lambda>(ok, ustack, sp, s).
                 if \<not> ok then exec_bad pagetable sz1 None s
                 else let argc = length ustack;
                          sp = sp - of_nat ((argc + 1) * 8); sp = sp - sp mod 16
                      in if argc \<ge> MAXARG then Fault
                         else if sp < sz1 - USERSTACK * PGSIZE then exec_bad pagetable sz1 None s
                         else obind (copyout pagetable sp (ustack_bytes (ustack @ [0])) (of_nat ((argc + 1) * 8)) (f_phys s)) (\<lambda>(r, mem).
                              let s = set_phys mem s
                              in if r < 0 then exec_bad pagetable sz1 None s
                                 else let q = k_proc (f_k s) p; tf = p_trapframe q;
                                          mem = st (tf + tf_sp) sp (st (tf + tf_epc) entry (st (tf + tf_a0 + 8) sp (f_phys s)));
                                          k = pset p (\<lambda>q. q\<lparr>p_name := safestrcpy (p_name q) (cstring (last_elem path)) 16,
                                                p_pagetable := pagetable, p_sz := sz1\<rparr>) (f_k (set_phys mem s))
                                      in obind (proc_freepagetable (p_pagetable q) oldsz (k_phys k)) (\<lambda>mem.
                                         Ok (int argc, set_phys mem (s\<lparr>f_k := k\<rparr>))))))))"

text \<open>\<^verbatim>\<open>struct elfhdr\<close> has \<^verbatim>\<open>magic\<close> at 0, \<^verbatim>\<open>entry\<close> at 24, \<^verbatim>\<open>phoff\<close> at 32, \<^verbatim>\<open>phnum\<close> at 56.\<close>

definition exec :: "u8 list \<Rightarrow> u64 list \<Rightarrow> fs \<Rightarrow> (int \<times> fs) outcome" where
  "exec path argv s =
     obind (fs_begin_op s) (\<lambda>s.
     obind (namei path s) (\<lambda>(ip, s). case ip of None \<Rightarrow> obind (fs_end_op s) (\<lambda>s. Ok (- 1, s)) | Some ip \<Rightarrow>
     obind (ilock ip s) (\<lambda>s.
     obind (readi ip (Object 0) 0 64 (\<lambda>_. 0) s) (\<lambda>(r, elf, s).
     if r \<noteq> 64 \<or> get32 elf 0 \<noteq> ELF_MAGIC then exec_bad 0 0 (Some ip) s
     else obind (proc_pagetable (k_me (f_k s)) (f_k s)) (\<lambda>(pagetable, mem).
          let s = set_phys mem s
          in if pagetable = 0 then exec_bad 0 0 (Some ip) s
             else obind (load_segments (unat (get16 elf 56)) ip (ucast (get64 elf 32)) pagetable 0 s) (\<lambda>(ok, sz, s).
                  if \<not> ok then exec_bad pagetable sz (Some ip) s
                  else obind (iunlockput ip s) (\<lambda>s.
                       obind (fs_end_op s) (\<lambda>s. exec_image path argv (get64 elf 24) pagetable sz s))))))))"

text \<open>The loop of \<^verbatim>\<open>sys_exec\<close>: whether all arguments were fetched, and their pages.\<close>

primrec fetch_argv :: "nat \<Rightarrow> u64 \<Rightarrow> u64 list \<Rightarrow> fs \<Rightarrow> (bool \<times> u64 list \<times> fs) outcome" where
  "fetch_argv 0 uargv argv s = Ok (False, argv, s)"
| "fetch_argv (Suc k) uargv argv s =
     obind (fetchaddr (uargv + 8 * of_nat (length argv)) 0 (f_k s)) (\<lambda>(r, uarg).
     if r < 0 then Ok (False, argv, s)
     else if uarg = 0 then Ok (True, argv, s)
     else let (pa, s) = fs_kalloc s
          in if pa = 0 then Ok (False, argv, s)
             else obind (fetchstr uarg (view (ph_mem (f_phys s)) pa) (int PAGE) (f_k s)) (\<lambda>(r, buf).
                  let s = set_phys (set_mem (blit (ph_mem (f_phys s)) pa buf PAGE) (f_phys s)) s
                  in if r < 0 then Ok (False, argv @ [pa], s) else fetch_argv k uargv (argv @ [pa]) s))"

primrec free_argv :: "u64 list \<Rightarrow> fs \<Rightarrow> fs outcome" where
  "free_argv [] s = Ok s"
| "free_argv (a # as) s = obind (fs_kfree a s) (free_argv as)"

definition sys_exec :: "fs \<Rightarrow> (u64 \<times> fs) outcome" where
  "sys_exec s =
     obind (argaddr 1 (f_k s)) (\<lambda>uargv.
     obind (argpath 0 s) (\<lambda>path. case path of None \<Rightarrow> Ok (- 1, s) | Some path \<Rightarrow>
     obind (fetch_argv MAXARG uargv [] s) (\<lambda>(ok, argv, s).
     if ok then obind (exec path argv s) (\<lambda>(ret, s). obind (free_argv argv s) (\<lambda>s. Ok (of_int ret, s)))
     else obind (free_argv argv s) (\<lambda>s. Ok (- 1, s)))))"

end
