(* ===== verification/Xv6_Trap.thy ===== *)
theory Xv6_Trap
  imports Xv6_Sysfile
begin

text \<open>
  System call dispatch (\<^verbatim>\<open>kernel/syscall.c\<close>), traps and interrupts (\<^verbatim>\<open>kernel/trap.c\<close>,
  \<^verbatim>\<open>kernel/plic.c\<close>) and the machine-mode start-up (\<^verbatim>\<open>kernel/start.c\<close>), over the control and
  status registers of one hart.
\<close>

section \<open>Registers of a hart\<close>

record hart =
  h_mstatus :: u64
  h_mepc :: u64
  h_satp :: u64
  h_medeleg :: u64
  h_mideleg :: u64
  h_sie :: u64
  h_mie :: u64
  h_pmpaddr0 :: u64
  h_pmpcfg0 :: u64
  h_menvcfg :: u64
  h_mcounteren :: u64
  h_time :: u64
  h_stimecmp :: u64
  h_mhartid :: u64
  h_tp :: u64
  h_sstatus :: u64
  h_sepc :: u64
  h_scause :: u64
  h_stval :: u64
  h_stvec :: u64

definition SSTATUS_SPP :: u64 where "SSTATUS_SPP = push_bit 8 1"
definition SSTATUS_SPIE :: u64 where "SSTATUS_SPIE = push_bit 5 1"
definition SSTATUS_SIE :: u64 where "SSTATUS_SIE = push_bit 1 1"
definition SIE_SEIE :: u64 where "SIE_SEIE = push_bit 9 1"
definition SIE_STIE :: u64 where "SIE_STIE = push_bit 5 1"
definition SIE_SSIE :: u64 where "SIE_SSIE = push_bit 1 1"
definition MIE_STIE :: u64 where "MIE_STIE = push_bit 5 1"
definition MSTATUS_MPP_MASK :: u64 where "MSTATUS_MPP_MASK = push_bit 11 3"
definition MSTATUS_MPP_S :: u64 where "MSTATUS_MPP_S = push_bit 11 1"
definition SATP_SV39 :: u64 where "SATP_SV39 = push_bit 60 8"

definition MAKE_SATP :: "u64 \<Rightarrow> u64" where
  "MAKE_SATP pagetable = SATP_SV39 OR drop_bit 12 pagetable"

definition intr_on :: "hart \<Rightarrow> hart" where
  "intr_on h = h\<lparr>h_sstatus := h_sstatus h OR SSTATUS_SIE\<rparr>"

definition intr_off :: "hart \<Rightarrow> hart" where
  "intr_off h = h\<lparr>h_sstatus := h_sstatus h AND NOT SSTATUS_SIE\<rparr>"

definition intr_get :: "hart \<Rightarrow> bool" where
  "intr_get h \<longleftrightarrow> h_sstatus h AND SSTATUS_SIE \<noteq> 0"

definition cpuid :: "hart \<Rightarrow> nat" where
  "cpuid h = unat (h_tp h)"

section \<open>Start-up\<close>

definition timerinit :: "hart \<Rightarrow> hart" where
  "timerinit h =
     (let h = h\<lparr>h_mie := h_mie h OR MIE_STIE\<rparr>;
          h = h\<lparr>h_menvcfg := h_menvcfg h OR push_bit 63 1\<rparr>;
          h = h\<lparr>h_mcounteren := h_mcounteren h OR 2\<rparr>
      in h\<lparr>h_stimecmp := h_time h + 1000000\<rparr>)"

text \<open>\<^verbatim>\<open>start\<close> up to its \<^verbatim>\<open>mret\<close>; \<open>main\<close> is the address of \<^verbatim>\<open>main\<close>.\<close>

definition start :: "u64 \<Rightarrow> hart \<Rightarrow> hart" where
  "start main h =
     (let x = h_mstatus h;
          x = x AND NOT MSTATUS_MPP_MASK;
          x = x OR MSTATUS_MPP_S;
          h = h\<lparr>h_mstatus := x\<rparr>;
          h = h\<lparr>h_mepc := main\<rparr>;
          h = h\<lparr>h_satp := 0\<rparr>;
          h = h\<lparr>h_medeleg := 0xffff\<rparr>;
          h = h\<lparr>h_mideleg := 0xffff\<rparr>;
          h = h\<lparr>h_sie := h_sie h OR SIE_SEIE OR SIE_STIE OR SIE_SSIE\<rparr>;
          h = h\<lparr>h_pmpaddr0 := 0x3fffffffffffff\<rparr>;
          h = h\<lparr>h_pmpcfg0 := 0xf\<rparr>;
          h = timerinit h
      in h\<lparr>h_tp := h_mhartid h\<rparr>)"

section \<open>Interrupt controller\<close>

definition UART0_IRQ :: nat where "UART0_IRQ = 10"
definition VIRTIO0_IRQ :: nat where "VIRTIO0_IRQ = 1"

text \<open>The registers of the PLIC the kernel writes, and the claims and completions of interrupts.\<close>

record plic =
  pl_priority :: "nat \<Rightarrow> u32"
  pl_senable :: "nat \<Rightarrow> u32"
  pl_spriority :: "nat \<Rightarrow> u32"
  pl_pending :: "nat list"
  pl_served :: "nat list"

definition plicinit :: "plic \<Rightarrow> plic" where
  "plicinit c = c\<lparr>pl_priority := (pl_priority c)(UART0_IRQ := 1, VIRTIO0_IRQ := 1)\<rparr>"

definition plicinithart :: "nat \<Rightarrow> plic \<Rightarrow> plic" where
  "plicinithart hart c =
     c\<lparr>pl_senable := (pl_senable c)(hart := push_bit UART0_IRQ 1 OR push_bit VIRTIO0_IRQ 1),
       pl_spriority := (pl_spriority c)(hart := 0)\<rparr>"

text \<open>Reading the claim register takes the next pending interrupt, or 0.\<close>

definition plic_claim :: "plic \<Rightarrow> nat \<times> plic" where
  "plic_claim c = (case pl_pending c of [] \<Rightarrow> (0, c) | irq # is \<Rightarrow> (irq, c\<lparr>pl_pending := is\<rparr>))"

definition plic_complete :: "nat \<Rightarrow> plic \<Rightarrow> plic" where
  "plic_complete irq c = c\<lparr>pl_served := pl_served c @ [irq]\<rparr>"

section \<open>System calls\<close>

text \<open>Where a process sleeps inside a system call, and how a call ends: with a value for \<^verbatim>\<open>a0\<close>,
  asleep, or never.\<close>

datatype asleep = In_wait | In_sleep int u32 | In_io io_wait

datatype sysret = Done u64 | Waits asleep | Gone

definition with_k :: "(kst \<Rightarrow> (u64 \<times> kst) outcome) \<Rightarrow> kern \<Rightarrow> (sysret \<times> kern) outcome" where
  "with_k g x = obind (g (n_k x)) (\<lambda>(v, s). Ok (Done v, set_k s x))"

definition with_fs :: "(fs \<Rightarrow> (u64 \<times> fs) outcome) \<Rightarrow> kern \<Rightarrow> (sysret \<times> kern) outcome" where
  "with_fs g x = obind (g (n_fs x)) (\<lambda>(v, s). Ok (Done v, x\<lparr>n_fs := s\<rparr>))"

definition with_kern :: "(kern \<Rightarrow> (u64 \<times> kern) outcome) \<Rightarrow> kern \<Rightarrow> (sysret \<times> kern) outcome" where
  "with_kern g x = obind (g x) (\<lambda>(v, x). Ok (Done v, x))"

definition with_io :: "(kern \<Rightarrow> ((io_wait, u64) kret \<times> kern) outcome) \<Rightarrow> kern \<Rightarrow> (sysret \<times> kern) outcome" where
  "with_io g x = obind (g x) (\<lambda>(r, x). Ok (case r of Return v \<Rightarrow> Done v | Asleep w \<Rightarrow> Waits (In_io w), x))"

definition sys_exit :: "kern \<Rightarrow> (sysret \<times> kern) outcome" where
  "sys_exit x = obind (argint 0 (n_k x)) (\<lambda>n. obind (exit n x) (\<lambda>x. Ok (Gone, x)))"

definition sys_fork :: "kern \<Rightarrow> (u64 \<times> kern) outcome" where
  "sys_fork x = obind (fork x) (\<lambda>(pid, x). Ok (of_int pid, x))"

text \<open>The table \<^verbatim>\<open>syscalls\<close>, by the numbers of \<^verbatim>\<open>kernel/syscall.h\<close>.  \<open>lsr\<close> is the UART's status
  register over time and \<open>junk\<close> what uninitialised local variables hold.\<close>

definition syscalls :: "(nat \<Rightarrow> u8) \<Rightarrow> (nat \<Rightarrow> bytes) \<Rightarrow> (kern \<Rightarrow> (sysret \<times> kern) outcome) list" where
  "syscalls lsr junk =
     [with_kern sys_fork,
      sys_exit,
      (\<lambda>x. obind (sys_wait (n_k x)) (\<lambda>(r, s). Ok (case r of Return v \<Rightarrow> Done v | Asleep _ \<Rightarrow> Waits In_wait, set_k s x))),
      with_kern sys_pipe,
      with_io sys_read,
      with_k sys_kill,
      with_fs sys_exec,
      with_kern (sys_fstat (junk 0)),
      with_fs sys_chdir,
      with_kern sys_dup,
      (\<lambda>x. Ok (Done (sys_getpid (n_k x)), x)),
      with_k sys_sbrk,
      (\<lambda>x. obind (sys_sleep (n_ticks x) (n_k x)) (\<lambda>(r, s).
         Ok (case r of Return v \<Rightarrow> Done v | Asleep (n, ticks0) \<Rightarrow> Waits (In_sleep n ticks0), set_k s x))),
      (\<lambda>x. Ok (Done (sys_uptime (n_ticks x)), x)),
      with_kern sys_open,
      with_io (sys_write lsr),
      with_fs sys_mknod,
      with_fs sys_unlink,
      with_fs sys_link,
      with_fs sys_mkdir,
      with_kern sys_close,
      (\<lambda>x. obind (sys_getmemusage (n_k x)) (\<lambda>v. Ok (Done v, x))),
      with_k (sys_ps junk),
      with_k (sys_pinfo (junk 0)),
      (\<lambda>x. Ok (Done (sys_getidlepid (n_k x)), x)),
      with_k (sys_getactiveprocesses (junk 0))]"

definition set_a0 :: "u64 \<Rightarrow> kern \<Rightarrow> kern" where
  "set_a0 v x = set_k ((n_k x)\<lparr>k_phys := st (p_trapframe (me (n_k x)) + tf_a0) v (k_phys (n_k x))\<rparr>) x"

definition syscall :: "(nat \<Rightarrow> u8) \<Rightarrow> (nat \<Rightarrow> bytes) \<Rightarrow> kern \<Rightarrow> (sysret \<times> kern) outcome" where
  "syscall lsr junk x =
     (let num = sint (ucast (ld (k_phys (n_k x)) (p_trapframe (me (n_k x)) + tf_a7)) :: u32)
      in if num > 0 \<and> num < int (length (syscalls lsr junk)) + 1
         then obind ((syscalls lsr junk ! nat (num - 1)) x) (\<lambda>(r, x).
              Ok (r, case r of Done v \<Rightarrow> set_a0 v x | _ \<Rightarrow> x))
         else Ok (Done (- 1), set_a0 (- 1) x))"

section \<open>Traps\<close>

text \<open>The disk interrupt has no effect here: the disk driver of this model completes its transfers
  before it returns.\<close>

definition devintr :: "(nat \<Rightarrow> u8) \<Rightarrow> hart \<Rightarrow> plic \<Rightarrow> kern \<Rightarrow> (int \<times> hart \<times> plic \<times> kern) outcome" where
  "devintr lsr h c x =
     (if h_scause h = 0x8000000000000009
      then let (irq, c) = plic_claim c
           in obind (if irq = UART0_IRQ then obind (use_con (\<lambda>k. obind (uartintr lsr k) (\<lambda>k. Ok ((), k))) x) (\<lambda>(_, x). Ok x)
                     else Ok x) (\<lambda>x.
              Ok (1, h, if irq \<noteq> 0 then plic_complete irq c else c, x))
      else if h_scause h = 0x8000000000000005
      then let (ticks, s, stimecmp) = clockintr (cpuid h) (h_time h) (n_ticks x) (n_k x)
           in Ok (2, h\<lparr>h_stimecmp := stimecmp\<rparr>, c, set_k s (x\<lparr>n_ticks := ticks\<rparr>))
      else Ok (0, h, c, x))"

text \<open>How \<^verbatim>\<open>usertrap\<close> ends: it goes on to \<^verbatim>\<open>usertrapret\<close>, at once or after having yielded the CPU, or the
  process sleeps in the kernel, or it has exited.\<close>

datatype trapret = To_user | Yielded | Sleeps asleep | Exits

definition set_epc :: "u64 \<Rightarrow> kern \<Rightarrow> kern" where
  "set_epc v x = set_k ((n_k x)\<lparr>k_phys := st (p_trapframe (me (n_k x)) + tf_epc) v (k_phys (n_k x))\<rparr>) x"

definition usertrap_end :: "int \<Rightarrow> kern \<Rightarrow> (trapret \<times> kern) outcome" where
  "usertrap_end which_dev x =
     (if killed (k_me (n_k x)) (n_k x) \<noteq> 0 then obind (exit (- 1) x) (\<lambda>x. Ok (Exits, x))
      else if which_dev = 2 then Ok (Yielded, set_k (yield (n_k x)) x)
      else Ok (To_user, x))"

definition usertrap :: "u64 \<Rightarrow> (nat \<Rightarrow> u8) \<Rightarrow> (nat \<Rightarrow> bytes) \<Rightarrow> hart \<Rightarrow> plic \<Rightarrow> kern \<Rightarrow> (trapret \<times> hart \<times> plic \<times> kern) outcome" where
  "usertrap kernelvec lsr junk h c x =
     (if h_sstatus h AND SSTATUS_SPP \<noteq> 0 then Panic ''usertrap: not from user mode''
      else let h = h\<lparr>h_stvec := kernelvec\<rparr>; x = set_epc (h_sepc h) x; p = k_me (n_k x)
           in if h_scause h = 8
              then if killed p (n_k x) \<noteq> 0 then obind (exit (- 1) x) (\<lambda>x. Ok (Exits, h, c, x))
                   else let x = set_epc (h_sepc h + 4) x; h = intr_on h
                        in obind (syscall lsr junk x) (\<lambda>(r, x).
                           case r of
                             Done _ \<Rightarrow> obind (usertrap_end 0 x) (\<lambda>(t, x). Ok (t, h, c, x))
                           | Waits w \<Rightarrow> Ok (Sleeps w, h, c, x)
                           | Gone \<Rightarrow> Ok (Exits, h, c, x))
              else obind (devintr lsr h c x) (\<lambda>(which_dev, h, c, x).
                   let x = (if which_dev = 0 then set_k (setkilled p (n_k x)) x else x)
                   in obind (usertrap_end which_dev x) (\<lambda>(t, x). Ok (t, h, c, x))))"

text \<open>\<^verbatim>\<open>usertrapret\<close> up to the jump to \<^verbatim>\<open>userret\<close>, with the value of \<^verbatim>\<open>satp\<close> it passes; the parameters
  are the addresses of the trampoline code and of \<^verbatim>\<open>usertrap\<close>.\<close>

definition usertrapret :: "u64 \<Rightarrow> u64 \<Rightarrow> u64 \<Rightarrow> hart \<Rightarrow> kern \<Rightarrow> u64 \<times> hart \<times> kern" where
  "usertrapret uservec trampoline usertrap_addr h x =
     (let h = intr_off h;
          h = h\<lparr>h_stvec := TRAMPOLINE + (uservec - trampoline)\<rparr>;
          p = me (n_k x); tf = p_trapframe p;
          ph = st (tf + 0) (h_satp h) (k_phys (n_k x));
          ph = st (tf + 8) (p_kstack p + PGSIZE) ph;
          ph = st (tf + 16) usertrap_addr ph;
          ph = st (tf + 32) (h_tp h) ph;
          h = h\<lparr>h_sstatus := h_sstatus h AND NOT SSTATUS_SPP OR SSTATUS_SPIE\<rparr>;
          h = h\<lparr>h_sepc := ld ph (tf + tf_epc)\<rparr>
      in (MAKE_SATP (p_pagetable p), h, set_k ((n_k x)\<lparr>k_phys := ph\<rparr>) x))"

text \<open>\<^verbatim>\<open>kerneltrap\<close>; \<open>running\<close> says whether a process runs on this CPU.\<close>

definition kerneltrap :: "(nat \<Rightarrow> u8) \<Rightarrow> bool \<Rightarrow> hart \<Rightarrow> plic \<Rightarrow> kern \<Rightarrow> (hart \<times> plic \<times> kern) outcome" where
  "kerneltrap lsr running h c x =
     (let sepc = h_sepc h; sstatus = h_sstatus h
      in if sstatus AND SSTATUS_SPP = 0 then Panic ''kerneltrap: not from supervisor mode''
         else if intr_get h then Panic ''kerneltrap: interrupts enabled''
         else obind (devintr lsr h c x) (\<lambda>(which_dev, h, c, x).
              if which_dev = 0 then Panic ''kerneltrap''
              else let x = (if which_dev = 2 \<and> running then set_k (yield (n_k x)) x else x)
                   in Ok (h\<lparr>h_sepc := sepc, h_sstatus := sstatus\<rparr>, c, x)))"

end
