(* ===== verification/Xv6_FsTx.thy ===== *)
theory Xv6_FsTx
  imports Xv6_Fs
begin

text \<open>
  The file system operations over the contents of the disk blocks.  \<open>content s\<close> is what a
  reader of each block sees; inside a transaction the operations of \<^verbatim>\<open>fs.c\<close> are functions on
  it.  The first sections lift the laws of the log to this view; the later ones show what
  block allocation, inodes, files and directories do to it.
\<close>

section \<open>Transactions\<close>

definition content :: "fs \<Rightarrow> u32 \<Rightarrow> bytes" where
  "content s = buf_cont (f_bio s)"

text \<open>A process that holds the blocks \<open>X\<close> and can still log \<open>k\<close> new ones; only readers, with
  \<open>k = 0\<close>, may be outside a transaction.\<close>

definition in_tx :: "u32 set \<Rightarrow> nat \<Rightarrow> fs \<Rightarrow> bool" where
  "in_tx X k s \<longleftrightarrow> txn (f_log s) X {} \<and> finite X \<and> (k = 0 \<or> 1 \<le> lg_outstanding (f_log s)) \<and>
     lg_n (f_log s) + int k < lg_size (f_log s)"

text \<open>Blocks outside the log.\<close>

definition home :: "fs \<Rightarrow> u32 set" where
  "home s = - log_area (lg_start (f_log s)) (log_cap (f_log s))"

definition holds :: "fs \<Rightarrow> u32 \<Rightarrow> nat \<Rightarrow> bool" where
  "holds s n b \<longleftrightarrow> handle (f_bio s) n b"

text \<open>Everything but the log and the cache is the same.\<close>

definition same_rest :: "fs \<Rightarrow> fs \<Rightarrow> bool" where
  "same_rest s t \<longleftrightarrow> f_sb t = f_sb s \<and> f_inode t = f_inode s \<and> f_k t = f_k s \<and> f_huff t = f_huff s \<and>
     f_cbuf t = f_cbuf s \<and> f_cinum t = f_cinum s \<and> f_clen t = f_clen s \<and> home t = home s"

lemma same_rest_refl [simp]: "same_rest s s"
  by (simp add: same_rest_def)

lemma same_rest_trans [trans]: "same_rest s t \<Longrightarrow> same_rest t u \<Longrightarrow> same_rest s u"
  by (simp add: same_rest_def)

lemma same_restD:
  assumes "same_rest s t"
  shows "f_sb t = f_sb s" "f_inode t = f_inode s" "f_k t = f_k s" "f_huff t = f_huff s" "home t = home s"
    "f_cbuf t = f_cbuf s" "f_cinum t = f_cinum s" "f_clen t = f_clen s"
  using assms by (simp_all add: same_rest_def)

lemma in_tx_weaken: "in_tx X k s \<Longrightarrow> j \<le> k \<Longrightarrow> in_tx X j s"
  by (auto simp: in_tx_def)

lemma holds_data: "in_tx X k s \<Longrightarrow> holds s n b \<Longrightarrow> blk (fs_data b s) = content s n"
  using handle_cont [of "f_bio s" n b] handle_uniq by (auto simp: in_tx_def txn_def holds_def content_def)

lemma holds_byte: "in_tx X k s \<Longrightarrow> holds s n b \<Longrightarrow> j < BSIZE \<Longrightarrow> fs_data b s j = content s n j"
  using fun_cong [OF holds_data, of X k s n b j] by (simp add: blk_def)

lemma card_logged: "0 \<le> lg_n lg \<Longrightarrow> int (card (logged lg)) \<le> lg_n lg"
  unfolding logged_def using card_image_le [of "{..<nat (lg_n lg)}" "lg_block lg"] by simp

lemma tx_bread:
  assumes t: "in_tx X k s" and n: "n \<notin> X" "card X \<le> k"
  obtains b s' where "fs_bread ROOTDEV n s = Ok (b, s')" "in_tx (insert n X) k s'" "holds s' n b"
    "content s' = content s" "same_rest s s'" "\<forall>m c. m \<noteq> n \<longrightarrow> holds s' m c = holds s m c"
proof -
  let ?lg = "f_log s"
  have L: "0 \<le> lg_n ?lg" "lg_n ?lg + int k < lg_size ?lg" "lg_size ?lg \<le> int LOGSIZE" "txn ?lg X {}" "finite X"
    using t by (auto simp: in_tx_def txn_def)
  have "card (logged ?lg \<union> X) \<le> card (logged ?lg) + card X" by (rule card_Un_le)
  then have "n \<in> logged ?lg \<or> card (logged ?lg \<union> X) < NBUF"
    using card_logged [OF L(1)] L(2,3) n(2) by (simp add: LOGSIZE_def NBUF_def)
  then obtain b c where r: "bread ROOTDEV n (f_bio s) = Ok (b, c)" "handle c n b" "txn (?lg\<lparr>lg_bio := c\<rparr>) (insert n X) {}"
    "blk (bdata b c) = buf_cont (f_bio s) n" "buf_cont c = buf_cont (f_bio s)" "d_disk c = d_disk (f_bio s)"
    "\<forall>m d. m \<noteq> n \<longrightarrow> handle c m d = handle (f_bio s) m d"
    by (rule txn_bread [OF L(4) n(1)])
  let ?s = "set_bio c s"
  have "same_rest s ?s" by (simp add: same_rest_def home_def set_bio_def)
  moreover have "in_tx (insert n X) k ?s" using t r(3) L by (simp add: in_tx_def set_bio_def)
  ultimately show thesis using that [of b ?s] r by (simp add: fs_bread_def holds_def content_def set_bio_def)
qed

lemma tx_bread0:
  assumes "in_tx {} k s"
  obtains b s' where "fs_bread ROOTDEV n s = Ok (b, s')" "in_tx {n} k s'" "holds s' n b" "content s' = content s" "same_rest s s'"
  by (rule tx_bread [OF assms, of n]) auto

lemma tx_brelse:
  assumes t: "in_tx X k s" and n: "n \<in> X" and h: "holds s n b"
  obtains s' where "fs_brelse b s = Ok s'" "in_tx (X - {n}) k s'" "content s' = content s" "same_rest s s'"
    "\<forall>m c. m \<noteq> n \<longrightarrow> holds s' m c = holds s m c"
proof -
  let ?lg = "f_log s"
  have L: "txn ?lg X {}" "handle (lg_bio ?lg) n b" using t h by (auto simp: in_tx_def holds_def)
  obtain c where r: "brelse b (lg_bio ?lg) = Ok c" "txn (?lg\<lparr>lg_bio := c\<rparr>) (X - {n}) {}"
    "buf_cont c = buf_cont (lg_bio ?lg)" "\<forall>m d. m \<noteq> n \<longrightarrow> handle c m d = handle (lg_bio ?lg) m d"
    using txn_brelse [OF L(1) n _ L(2)] by blast
  let ?s = "set_bio c s"
  have "same_rest s ?s" by (simp add: same_rest_def home_def set_bio_def)
  moreover have "in_tx (X - {n}) k ?s" using t r(2) by (simp add: in_tx_def set_bio_def)
  ultimately show thesis using that [of ?s] r by (simp add: fs_brelse_def holds_def content_def set_bio_def)
qed

lemma tx_brelse0:
  assumes "in_tx {n} k s" "holds s n b"
  obtains s' where "fs_brelse b s = Ok s'" "in_tx {} k s'" "content s' = content s" "same_rest s s'"
  by (rule tx_brelse [OF assms(1) singletonI assms(2)]) auto

lemma tx_set_log:
  assumes t: "in_tx X (Suc k) s" and n: "n \<in> X" "n \<in> home s" and h: "holds s n b"
  obtains s' where "fs_log_write b (fs_set b d s) = Ok s'" "in_tx X k s'" "content s' = (content s)(n := blk d)"
    "same_rest s s'" "\<forall>m c. holds s m c \<longrightarrow> holds s' m c"
proof -
  let ?lg = "f_log s" and ?l1 = "(f_log s)\<lparr>lg_bio := set_data b d (f_bio s)\<rparr>"
  have L: "txn ?lg X {}" "handle (lg_bio ?lg) n b" "bio_inv (lg_bio ?lg)" using t h by (auto simp: in_tx_def holds_def txn_def)
  note st = txn_set [OF L(1) n(1) L(2), of d]
  have hs: "handle (set_data b d (f_bio s)) m c" if "handle (f_bio s) m c" for m c
    using set_data_spec(2) [OF L(3,2), of d] set_data_spec(4) [OF L(3,2), where d = d] that handle_same [OF L(3,2), of c] by (cases "m = n") auto
  obtain lg where r: "log_write b ?l1 = Ok lg" "txn lg X ({n} - {n})" "lg_n lg = lg_n ?l1 + (if n \<in> logged ?l1 then 0 else 1)"
    "lg_size lg = lg_size ?l1" "lg_start lg = lg_start ?l1" "lg_outstanding lg = lg_outstanding ?l1"
    "buf_cont (lg_bio lg) = buf_cont (lg_bio ?l1)" "\<forall>m c. handle (lg_bio ?l1) m c \<longrightarrow> handle (lg_bio lg) m c"
    by (rule txn_log_write [OF st(1) n(1), of b]) (use t n hs L(2) in \<open>auto simp: in_tx_def home_def\<close>)
  let ?s = "s\<lparr>f_log := lg\<rparr>"
  have "same_rest s ?s" using r by (simp add: same_rest_def home_def)
  moreover have "in_tx X k ?s" using t r by (auto simp: in_tx_def)
  moreover have "content ?s = (content s)(n := blk d)" using r(7) st(2) by (simp add: content_def)
  moreover have "\<forall>m c. holds s m c \<longrightarrow> holds ?s m c" using hs r(8) by (simp add: holds_def)
  ultimately show thesis using that [of ?s] r(1) by (simp add: fs_log_write_def fs_set_def set_bio_def)
qed

lemma tx_update:
  assumes t: "in_tx X (Suc k) s" and n: "n \<in> X" "n \<in> home s" and h: "holds s n b"
  obtains s' where "fs_update b d s = Ok s'" "in_tx (X - {n}) k s'" "content s' = (content s)(n := blk d)"
    "same_rest s s'" "\<forall>m c. m \<noteq> n \<longrightarrow> holds s m c \<longrightarrow> holds s' m c"
proof -
  obtain s1 where 1: "fs_log_write b (fs_set b d s) = Ok s1" "in_tx X k s1" "content s1 = (content s)(n := blk d)"
    "same_rest s s1" "\<forall>m c. holds s m c \<longrightarrow> holds s1 m c"
    by (rule tx_set_log [OF t n h])
  obtain s2 where 2: "fs_brelse b s1 = Ok s2" "in_tx (X - {n}) k s2" "content s2 = content s1" "same_rest s1 s2"
    "\<forall>m c. m \<noteq> n \<longrightarrow> holds s2 m c = holds s1 m c"
    using tx_brelse [OF 1(2) n(1)] 1(5) h by blast
  show thesis using that [of s2] 1 2 same_rest_trans [OF 1(4) 2(4)] by (simp add: fs_update_def)
qed

lemma tx_update0:
  assumes "in_tx {n} (Suc k) s" "n \<in> home s" "holds s n b"
  obtains s' where "fs_update b d s = Ok s'" "in_tx {} k s'" "content s' = (content s)(n := blk d)" "same_rest s s'"
  by (rule tx_update [OF assms(1) singletonI assms(2,3)]) auto

section \<open>Block allocation\<close>

text \<open>The free map, on the contents of the bitmap blocks.\<close>

definition used :: "superblock \<Rightarrow> (u32 \<Rightarrow> bytes) \<Rightarrow> nat \<Rightarrow> bool" where
  "used sb C b \<longleftrightarrow> \<not> free_bit (C (BBLOCK b sb)) (b mod BPB)"

definition set_used :: "superblock \<Rightarrow> nat \<Rightarrow> (u32 \<Rightarrow> bytes) \<Rightarrow> u32 \<Rightarrow> bytes" where
  "set_used sb b C =
     (let d = C (BBLOCK b sb); j = b mod BPB
      in C(BBLOCK b sb := d(j div 8 := d (j div 8) OR push_bit (j mod 8) 1)))"

text \<open>The bitmap lies outside the log, and so do the free blocks, none of which is a bitmap block.\<close>

definition bitmap_ok :: "fs \<Rightarrow> bool" where
  "bitmap_ok s \<longleftrightarrow> (\<forall>b < unat (sb_size (f_sb s)). BBLOCK b (f_sb s) \<in> home s \<and>
     (used (f_sb s) (content s) b \<or> of_nat b \<in> home s \<and>
        (\<forall>c < unat (sb_size (f_sb s)). of_nat b \<noteq> BBLOCK c (f_sb s))))"

text \<open>The first free block from \<open>b\<close> on.\<close>

definition first_free :: "superblock \<Rightarrow> (u32 \<Rightarrow> bytes) \<Rightarrow> nat \<Rightarrow> nat option" where
  "first_free sb C b = find (\<lambda>c. \<not> used sb C c) [b..<unat (sb_size sb)]"

lemma upt_split: "i \<le> j \<Longrightarrow> j \<le> n \<Longrightarrow> [i..<n] = [i..<j] @ [j..<n]"
  using upt_add_eq_append [of i j "n - j"] by simp

lemma find_append: "find P (xs @ ys) = (case find P xs of None \<Rightarrow> find P ys | Some x \<Rightarrow> Some x)"
  by (induction xs) auto

lemma find_map: "find P (map f xs) = map_option f (find (P \<circ> f) xs)"
  by (induction xs) auto

lemma blk_upd: "j < BSIZE \<Longrightarrow> blk (d(j := v)) = (blk d)(j := v)"
  by (auto simp: blk_def)

lemma blk_content: "in_tx X k s \<Longrightarrow> blk (content s n) = content s n"
  using cont_canon [of "f_bio s" n] by (simp add: in_tx_def txn_def content_def)

lemma blk_zero [simp]: "blk (\<lambda>_. 0) = (\<lambda>_. 0)"
  by (simp add: blk_def fun_eq_iff)

lemma bit_byte: "j < BPB \<Longrightarrow> j div 8 < BSIZE"
  by (simp add: BPB_def BSIZE_def)

lemma bitmap_block:
  assumes "BPB dvd b" "bi < BPB"
  shows "BBLOCK (b + bi) sb = BBLOCK b sb" "(b + bi) mod BPB = bi"
  using assms by (auto simp: BBLOCK_def dvd_def)

lemma find_bits:
  assumes t: "in_tx X k s" and h: "holds s (BBLOCK b sb) bp" and b: "BPB dvd b" and m: "m \<le> BPB"
  shows "find (free_bit (fs_data bp s)) [0..<m] = map_option (\<lambda>c. c - b) (find (\<lambda>c. \<not> used sb (content s) c) [b..<b + m])"
proof -
  have "find (\<lambda>c. \<not> used sb (content s) c) (map (\<lambda>i. b + i) [0..<m]) = map_option (\<lambda>i. b + i) (find ((\<lambda>c. \<not> used sb (content s) c) \<circ> (\<lambda>i. b + i)) [0..<m])"
    by (rule find_map)
  moreover have "find ((\<lambda>c. \<not> used sb (content s) c) \<circ> (\<lambda>i. b + i)) [0..<m] = find (free_bit (fs_data bp s)) [0..<m]"
    using holds_byte [OF t h bit_byte] m bitmap_block [OF b] by (intro find_cong) (auto simp: used_def free_bit_def)
  moreover have "map (\<lambda>i. b + i) [0..<m] = [b..<b + m]" using map_add_upt [of b m] by (simp add: add.commute)
  ultimately show ?thesis by (simp add: option.map_comp comp_def option.map_ident)
qed

text \<open>A step that changes nothing but block contents and keeps the buffers of \<open>X\<close> held.\<close>

definition keeps :: "u32 set \<Rightarrow> fs \<Rightarrow> fs \<Rightarrow> bool" where
  "keeps X s t \<longleftrightarrow> same_rest s t \<and> (\<forall>m c. m \<in> X \<longrightarrow> holds s m c \<longrightarrow> holds t m c)"

lemma keeps_refl [simp]: "keeps X s s"
  by (simp add: keeps_def)

lemma keeps_trans [trans]: "keeps X s t \<Longrightarrow> keeps X t u \<Longrightarrow> keeps X s u"
  using same_rest_trans by (simp add: keeps_def) blast

lemma keepsD: "keeps X s t \<Longrightarrow> same_rest s t" "keeps X s t \<Longrightarrow> m \<in> X \<Longrightarrow> holds s m c \<Longrightarrow> holds t m c"
  by (auto simp: keeps_def)

lemma keeps_empty [simp]: "keeps {} s t = same_rest s t"
  by (simp add: keeps_def)

lemma keepsI:
  "same_rest s t \<Longrightarrow> \<forall>m c. m \<noteq> n \<longrightarrow> holds s m c \<longrightarrow> holds t m c \<Longrightarrow> n \<notin> X \<Longrightarrow> keeps X s t"
  unfolding keeps_def by metis

lemma tx_bread_keeps:
  assumes "in_tx X k s" "n \<notin> X" "card X \<le> k"
  obtains b s' where "fs_bread ROOTDEV n s = Ok (b, s')" "in_tx (insert n X) k s'" "holds s' n b" "content s' = content s" "keeps X s s'"
proof (rule tx_bread [OF assms])
  fix b s'
  assume "fs_bread ROOTDEV n s = Ok (b, s')" "in_tx (insert n X) k s'" "holds s' n b" "content s' = content s" "same_rest s s'"
    "\<forall>m c. m \<noteq> n \<longrightarrow> holds s' m c = holds s m c"
  then show thesis using that [of b s'] keepsI [of s s' n X] assms(2) by simp
qed

lemma tx_brelse_keeps:
  assumes t: "in_tx (insert n X) k s" "n \<notin> X" "holds s n b"
  obtains s' where "fs_brelse b s = Ok s'" "in_tx X k s'" "content s' = content s" "keeps X s s'"
proof -
  have X: "insert n X - {n} = X" using t(2) by simp
  show thesis
  proof (rule tx_brelse [OF t(1) insertI1 t(3)])
    fix s'
    assume "fs_brelse b s = Ok s'" "in_tx (insert n X - {n}) k s'" "content s' = content s" "same_rest s s'"
      "\<forall>m c. m \<noteq> n \<longrightarrow> holds s' m c = holds s m c"
    then show thesis using that [of s'] keepsI [of s s' n X] t(2) X by simp
  qed
qed

lemma tx_update_keeps:
  assumes t: "in_tx (insert n X) (Suc k) s" "n \<notin> X" "n \<in> home s" "holds s n b"
  obtains s' where "fs_update b d s = Ok s'" "in_tx X k s'" "content s' = (content s)(n := blk d)" "keeps X s s'"
proof -
  have X: "insert n X - {n} = X" using t(2) by simp
  show thesis
  proof (rule tx_update [OF t(1) insertI1 t(3,4)])
    fix s'
    assume "fs_update b d s = Ok s'" "in_tx (insert n X - {n}) k s'" "content s' = (content s)(n := blk d)"
      "same_rest s s'" "\<forall>m c. m \<noteq> n \<longrightarrow> holds s m c \<longrightarrow> holds s' m c"
    then show thesis using that [of s'] keepsI [of s s' n X] t(2) X by simp
  qed
qed

lemma bzero_spec:
  assumes t: "in_tx X (Suc k) s" and n: "n \<in> home s" "n \<notin> X" "card X \<le> k"
  obtains s' where "bzero ROOTDEV n s = Ok s'" "in_tx X k s'" "content s' = (content s)(n := (\<lambda>_. 0))" "keeps X s s'"
proof -
  obtain b s1 where 1: "fs_bread ROOTDEV n s = Ok (b, s1)" "in_tx (insert n X) (Suc k) s1" "holds s1 n b" "content s1 = content s" "keeps X s s1"
    by (rule tx_bread_keeps [OF t n(2)]) (use n(3) in simp)
  have "n \<in> home s1" using n same_restD(5) [OF keepsD(1) [OF 1(5)]] by simp
  then obtain s2 where 2: "fs_update b (copy_block (fs_data b s1) (\<lambda>_. 0)) s1 = Ok s2" "in_tx X k s2"
    "content s2 = (content s1)(n := blk (copy_block (fs_data b s1) (\<lambda>_. 0)))" "keeps X s1 s2"
    by (rule tx_update_keeps [OF 1(2) n(2) _ 1(3)])
  show thesis using that [of s2] 1 2 keeps_trans [OF 1(5) 2(4)] by (simp add: bzero_def)
qed

text \<open>The held blocks are neither bitmap blocks nor free.\<close>

definition clear_of :: "u32 set \<Rightarrow> fs \<Rightarrow> bool" where
  "clear_of X s \<longleftrightarrow> (\<forall>b < unat (sb_size (f_sb s)). BBLOCK b (f_sb s) \<notin> X \<and> (used (f_sb s) (content s) b \<or> of_nat b \<notin> X))"

lemma clear_of_empty [simp]: "clear_of {} s"
  by (simp add: clear_of_def)

lemma balloc_loop_spec:
  assumes "in_tx X (k + 2) s" "bitmap_ok s" "clear_of X s" "card X \<le> k" "BPB dvd b" "f_sb s = sb"
  shows "\<exists>a s'. balloc_loop ROOTDEV sb b s = Ok (a, s') \<and> keeps X s s' \<and> in_tx X k s' \<and>
    (case first_free sb (content s) b of
       None \<Rightarrow> a = 0 \<and> content s' = content s
     | Some c \<Rightarrow> a = of_nat c \<and> content s' = (set_used sb c (content s))(of_nat c := (\<lambda>_. 0)))"
  using assms
proof (induction ROOTDEV sb b s rule: balloc_loop.induct)
  case (1 sb b s)
  note t = "1.prems"(1) and ok = "1.prems"(2) and cl = "1.prems"(3) and X = "1.prems"(4) and b = "1.prems"(5) and sb = "1.prems"(6)
  let ?n = "unat (sb_size sb)" and ?m = "min BPB (unat (sb_size sb) - b)" and ?B = "BBLOCK b sb"
  show ?case
  proof (cases "b < ?n")
    case False
    then show ?thesis using in_tx_weaken [OF t] by (subst balloc_loop.simps) (simp add: first_free_def)
  next
    case True
    have B: "?B \<notin> X" using cl True sb by (simp add: clear_of_def)
    obtain bp s1 where r: "fs_bread ROOTDEV ?B s = Ok (bp, s1)" "in_tx (insert ?B X) (k + 2) s1" "holds s1 ?B bp" "content s1 = content s" "keeps X s s1"
      by (rule tx_bread_keeps [OF t B]) (use X in simp)
    have fb: "find (free_bit (fs_data bp s1)) [0..<?m] = map_option (\<lambda>c. c - b) (find (\<lambda>c. \<not> used sb (content s) c) [b..<b + ?m])"
      using find_bits [OF r(2,3) b, of ?m] r(4) by simp
    have "b + ?m \<le> ?n" using True by simp
    then have "[b..<?n] = [b..<b + ?m] @ [b + ?m..<?n]" by (intro upt_split) simp_all
    then have ff: "first_free sb (content s) b = (case find (\<lambda>c. \<not> used sb (content s) c) [b..<b + ?m] of
        None \<Rightarrow> first_free sb (content s) (b + ?m) | Some x \<Rightarrow> Some x)"
      by (simp only: first_free_def find_append)
    show ?thesis
    proof (cases "find (\<lambda>c. \<not> used sb (content s) c) [b..<b + ?m]")
      case None
      obtain s2 where e: "fs_brelse bp s1 = Ok s2" "in_tx X (k + 2) s2" "content s2 = content s1" "keeps X s1 s2"
        by (rule tx_brelse_keeps [OF r(2) B r(3)])
      have rest: "keeps X s s2" using keeps_trans [OF r(5) e(4)] .
      note D = same_restD [OF keepsD(1) [OF rest]]
      have ok2: "bitmap_ok s2" "clear_of X s2" using ok cl e(3) r(4) D by (simp_all add: bitmap_ok_def clear_of_def)
      have "first_free sb (content s) (b + ?m) = first_free sb (content s) (b + BPB)" using True by (auto simp: first_free_def min_def)
      then have fs: "first_free sb (content s) b = first_free sb (content s2) (b + BPB)" using ff None e(3) r(4) by simp
      obtain a s' where ih: "balloc_loop ROOTDEV sb (b + BPB) s2 = Ok (a, s')" "keeps X s2 s'" "in_tx X k s'"
        "case first_free sb (content s2) (b + BPB) of None \<Rightarrow> a = 0 \<and> content s' = content s2
         | Some c \<Rightarrow> a = of_nat c \<and> content s' = (set_used sb c (content s2))(of_nat c := (\<lambda>_. 0))"
        using "1.hyps" [OF True r(1) _ refl _ e(1,2) ok2 X] b sb D(1) fb None by fastforce
      have "balloc_loop ROOTDEV sb b s = Ok (a, s')" using True r(1) fb None e(1) ih(1) by (subst balloc_loop.simps) simp
      then show ?thesis
        using ih(3) ih(4) [unfolded e(3) r(4)] fs [unfolded e(3) r(4)] keeps_trans [OF rest ih(2)] by simp
    next
      case (Some c)
      then have c: "b \<le> c" "c < b + ?m" "\<not> used sb (content s) c" by (auto simp: find_Some_iff)
      then have cb: "c - b < BPB" "c < ?n" "b + (c - b) = c" by auto
      note bb = bitmap_block [OF b cb(1), unfolded cb(3)]
      let ?d = "fs_data bp s1" and ?j = "c - b"
      let ?e = "?d(?j div 8 := ?d (?j div 8) OR push_bit (?j mod 8) 1)"
      have hm: "?B \<in> home s1" "of_nat c \<in> home s" "of_nat c \<notin> X"
        using ok cl c cb True sb same_restD(5) [OF keepsD(1) [OF r(5)]] by (auto simp: bitmap_ok_def clear_of_def)
      obtain s2 where u: "fs_update bp ?e s1 = Ok s2" "in_tx X (Suc k) s2" "content s2 = (content s1)(?B := blk ?e)" "keeps X s1 s2"
        by (rule tx_update_keeps [OF _ B hm(1) r(3)]) (use r(2) in simp)
      have rest: "keeps X s s2" using keeps_trans [OF r(5) u(4)] .
      obtain s3 where z: "bzero ROOTDEV (of_nat c) s2 = Ok s3" "in_tx X k s3" "content s3 = (content s2)(of_nat c := (\<lambda>_. 0))" "keeps X s2 s3"
        by (rule bzero_spec [OF u(2) _ hm(3) X]) (use hm(2) same_restD(5) [OF keepsD(1) [OF rest]] in simp)
      have "blk ?e = (content s ?B)(?j div 8 := content s ?B (?j div 8) OR push_bit (?j mod 8) 1)"
        using holds_data [OF r(2,3)] holds_byte [OF r(2,3) bit_byte [OF cb(1)]] bit_byte [OF cb(1)] r(4) by (simp add: blk_upd)
      then have cs: "content s3 = (set_used sb c (content s))(of_nat c := (\<lambda>_. 0))"
        using z(3) u(3) r(4) bb by (simp add: set_used_def Let_def)
      have "balloc_loop ROOTDEV sb b s = Ok (of_nat c, s3)"
        using True r(1) fb Some u(1) z(1) cb(3) by (subst balloc_loop.simps) (simp add: Let_def)
      then show ?thesis using cs z(2) keeps_trans [OF rest z(4)] ff Some by simp
    qed
  qed
qed

lemma balloc_spec:
  assumes "in_tx X (k + 2) s" "bitmap_ok s" "clear_of X s" "card X \<le> k"
  obtains a s' where "balloc ROOTDEV s = Ok (a, s')" "keeps X s s'" "in_tx X k s'"
    "case first_free (f_sb s) (content s) 0 of
       None \<Rightarrow> a = 0 \<and> content s' = content s
     | Some c \<Rightarrow> a = of_nat c \<and> content s' = (set_used (f_sb s) c (content s))(of_nat c := (\<lambda>_. 0))"
  using balloc_loop_spec [OF assms, of 0 "f_sb s"] by (auto simp: balloc_def)

section \<open>Inodes\<close>

text \<open>The fields of an on-disk inode.\<close>

lemma put_addrs_other: "k + 2 \<le> a \<Longrightarrow> get16 (put_addrs f a n d) k = get16 d k" "k + 4 \<le> a \<Longrightarrow> get32 (put_addrs f a n d) k = get32 d k"
  by (induction n) (simp_all add: add.assoc)

lemma put_addrs_get: "j < n \<Longrightarrow> get32 (put_addrs f a n d) (a + 4 * j) = f j"
  by (induction n) (auto simp: less_Suc_eq)

lemma put_addrs_outside: "i < a \<or> a + 4 * n \<le> i \<Longrightarrow> put_addrs f a n d i = d i"
  by (induction n) (auto simp: put32_def)

lemma put_dinode_outside: "i < k \<or> k + 64 \<le> i \<Longrightarrow> put_dinode ip k d i = d i"
  by (auto simp: put_dinode_def put_addrs_outside put32_def put16_def NDIRECT_def)

lemma dinode_roundtrip: "get_dinode (put_dinode ip k d) k jp = ip\<lparr>i_dev := i_dev jp, i_inum := i_inum jp, i_ref := i_ref jp,
    i_lock := i_lock jp, i_valid := i_valid jp, i_addrs := (\<lambda>n. if n \<le> NDIRECT then i_addrs ip n else i_addrs jp n)\<rparr>"
proof -
  have a: "get32 (put_dinode ip k d) (k + 12 + 4 * n) = i_addrs ip n" if "n \<le> NDIRECT" for n
    unfolding put_dinode_def using that by (intro put_addrs_get) simp
  have f: "get16 (put_dinode ip k d) k = i_type ip" "get16 (put_dinode ip k d) (k + 2) = i_major ip"
    "get16 (put_dinode ip k d) (k + 4) = i_minor ip" "get16 (put_dinode ip k d) (k + 6) = i_nlink ip"
    "get32 (put_dinode ip k d) (k + 8) = i_size ip"
    by (simp_all add: put_dinode_def put_addrs_other del: put_addrs.simps)
  show ?thesis unfolding get_dinode_def f by (rule inode.equality) (simp_all add: a fun_eq_iff)
qed

lemma get_dinode_cong: "(\<And>i. k \<le> i \<Longrightarrow> i < k + 64 \<Longrightarrow> d i = e i) \<Longrightarrow> get_dinode d k ip = get_dinode e k ip"
proof -
  assume eq: "\<And>i. k \<le> i \<Longrightarrow> i < k + 64 \<Longrightarrow> d i = e i"
  have g16: "get16 d (k + j) = get16 e (k + j)" if "j + 2 \<le> 64" for j using eq that by (simp add: get16_def)
  have g32: "get32 d (k + j) = get32 e (k + j)" if "j + 4 \<le> 64" for j using eq that by (simp add: get32_def)
  have "get32 d (k + 12 + 4 * n) = get32 e (k + 12 + 4 * n)" if "n \<le> NDIRECT" for n
    using g32 [of "12 + 4 * n"] that by (simp add: NDIRECT_def add.assoc)
  then show ?thesis using g16 [of 0] g16 [of 2] g16 [of 4] g16 [of 6] g32 [of 8] by (simp add: get_dinode_def cong: if_cong)
qed

lemma put_addrs_inside: "a \<le> i \<Longrightarrow> i < a + 4 * n \<Longrightarrow> put_addrs f a n d i = put_addrs f a n e i"
  by (induction n) (auto simp: put32_def)

lemma put_dinode_inside: "k \<le> i \<Longrightarrow> i < k + 64 \<Longrightarrow> put_dinode ip k d i = put_dinode ip k e i"
proof -
  assume i: "k \<le> i" "i < k + 64"
  show ?thesis
  proof (cases "k + 12 \<le> i")
    case True
    then show ?thesis unfolding put_dinode_def using i by (intro put_addrs_inside) (auto simp: NDIRECT_def)
  next
    case False
    define j where "j = i - k"
    then have j: "i = k + j" "j < 12" using False i by auto
    from j(2) have "j = 0 \<or> j = 1 \<or> j = 2 \<or> j = 3 \<or> j = 4 \<or> j = 5 \<or> j = 6 \<or> j = 7 \<or> j = 8 \<or> j = 9 \<or> j = 10 \<or> j = 11"
      by presburger
    then show ?thesis by (auto simp: j(1) put_dinode_def put_addrs_outside put32_def put16_def simp del: put_addrs.simps)
  qed
qed

lemma blk_put_dinode: "k + 64 \<le> BSIZE \<Longrightarrow> blk (put_dinode ip k d) = put_dinode ip k (blk d)"
proof
  fix i assume k: "k + 64 \<le> BSIZE"
  show "blk (put_dinode ip k d) i = put_dinode ip k (blk d) i"
    using k put_dinode_inside [of k i ip d "blk d"] put_dinode_outside [of i k ip d] put_dinode_outside [of i k ip "blk d"]
    by (cases "k \<le> i \<and> i < k + 64") (auto simp: blk_def)
qed

lemma dinode_fits: "dinode_at inum + 64 \<le> BSIZE"
proof -
  have "unat inum mod IPB \<le> 15" by (simp add: IPB_def BSIZE_def Suc_leI less_Suc_eq_le [symmetric])
  then show ?thesis by (simp add: dinode_at_def BSIZE_def)
qed

lemma dinode_disjoint:
  assumes "inum \<noteq> m" "IBLOCK m sb = IBLOCK inum sb"
  shows "dinode_at m + 64 \<le> dinode_at inum \<or> dinode_at inum + 64 \<le> dinode_at m"
proof -
  have lt: "unat n div IPB < 2 ^ 32" for n :: u32
    by (rule le_less_trans [OF div_le_dividend]) (use unsigned_less [where 'a = nat, of n] in simp)
  have "(of_nat (unat m div IPB) :: u32) = of_nat (unat inum div IPB)" using assms(2) by (simp add: IBLOCK_def)
  then have "unat m div IPB = unat inum div IPB"
    using of_nat32_eq_iff [OF lt lt] by simp
  then have "unat m mod IPB \<noteq> unat inum mod IPB" using assms(1) by (metis div_mult_mod_eq word_unat_eq_iff)
  then show ?thesis by (simp add: dinode_at_def) linarith
qed

lemma iupdate_spec:
  assumes t: "in_tx {} (Suc k) s" and ip: "i_dev (f_inode s i) = ROOTDEV" "IBLOCK (i_inum (f_inode s i)) (f_sb s) \<in> home s"
  obtains s' where "iupdate i s = Ok s'" "in_tx {} k s'" "same_rest s s'"
    "content s' = (content s)(IBLOCK (i_inum (f_inode s i)) (f_sb s) :=
       put_dinode (f_inode s i) (dinode_at (i_inum (f_inode s i))) (content s (IBLOCK (i_inum (f_inode s i)) (f_sb s))))"
proof -
  let ?ip = "f_inode s i" let ?n = "IBLOCK (i_inum ?ip) (f_sb s)" and ?k = "dinode_at (i_inum ?ip)"
  obtain b s1 where 1: "fs_bread ROOTDEV ?n s = Ok (b, s1)" "in_tx {?n} (Suc k) s1" "holds s1 ?n b" "content s1 = content s" "same_rest s s1"
    by (rule tx_bread0 [OF t])
  obtain s2 where 2: "fs_update b (put_dinode ?ip ?k (fs_data b s1)) s1 = Ok s2" "in_tx {} k s2"
    "content s2 = (content s1)(?n := blk (put_dinode ?ip ?k (fs_data b s1)))" "same_rest s1 s2"
    by (rule tx_update0 [OF 1(2) _ 1(3)]) (use ip(2) same_restD(5) [OF 1(5)] in simp)
  have "blk (put_dinode ?ip ?k (fs_data b s1)) = put_dinode ?ip ?k (content s ?n)"
    using blk_put_dinode [OF dinode_fits] holds_data [OF 1(2,3)] 1(4) by simp
  then show thesis using that [of s2] 1 2 ip(1) same_rest_trans [OF 1(5) 2(4)] by (simp add: iupdate_def Let_def)
qed

end
