(* ===== verification/Xv6_FsFile.thy ===== *)
theory Xv6_FsFile
  imports Xv6_FsTx
begin

text \<open>
  Files as byte sequences.  The blocks of a well-formed disk are the log, the inode blocks,
  the bitmap and the data blocks; the slots of an inode name distinct allocated data blocks.
  On such a disk \<^verbatim>\<open>balloc\<close> and \<^verbatim>\<open>bfree\<close> are insertion into and deletion from the set of
  allocated blocks, \<^verbatim>\<open>bmap\<close> extends the file by a zeroed block, and \<^verbatim>\<open>readi\<close> and \<^verbatim>\<open>writei\<close>
  read and overwrite a list of bytes.
\<close>

section \<open>The free map\<close>

lemma unat_of_nat32: "x < 2 ^ 32 \<Longrightarrow> unat (of_nat x :: u32) = x"
  by (simp add: unat_of_nat take_bit_nat_eq_self)

lemma free_bit_iff: "free_bit d bi \<longleftrightarrow> \<not> bit (d (bi div 8)) (bi mod 8)"
  by (simp add: free_bit_def push_bit_eq_mult and_exp_eq_0_iff_not_bit)

lemma BBLOCK_eq_iff:
  assumes "b < 2 ^ 32" "c < 2 ^ 32"
  shows "BBLOCK b sb = BBLOCK c sb \<longleftrightarrow> b div BPB = c div BPB"
proof -
  have "b div BPB < 2 ^ 32" "c div BPB < 2 ^ 32" using assms by (simp_all add: le_less_trans [OF div_le_dividend])
  then show ?thesis using of_nat32_eq_iff by (simp add: BBLOCK_def)
qed

lemma same_bit: "a div BPB = c div BPB \<Longrightarrow> (a mod BPB) div 8 = (c mod BPB) div 8 \<Longrightarrow> a mod BPB mod 8 = c mod BPB mod 8 \<Longrightarrow> a = c"
  by (metis div_mult_mod_eq)

lemma bit_or_byte: "n < 8 \<Longrightarrow> bit (x OR 2 ^ m :: u8) n \<longleftrightarrow> bit x n \<or> n = m"
  by (auto simp: bit_or_iff bit_exp_iff)

lemma bit_andnot_byte: "n < 8 \<Longrightarrow> bit (x AND NOT (2 ^ m) :: u8) n \<longleftrightarrow> bit x n \<and> n \<noteq> m"
  by (auto simp: bit_and_iff bit_not_iff bit_exp_iff)

text \<open>The bit of a block cleared, as \<^verbatim>\<open>bfree\<close> does.\<close>

definition set_free :: "superblock \<Rightarrow> nat \<Rightarrow> (u32 \<Rightarrow> bytes) \<Rightarrow> u32 \<Rightarrow> bytes" where
  "set_free sb b C =
     (let d = C (BBLOCK b sb); j = b mod BPB
      in C(BBLOCK b sb := d(j div 8 := d (j div 8) AND NOT (push_bit (j mod 8) 1))))"

lemma used_set_used:
  assumes "b < 2 ^ 32" "c < 2 ^ 32"
  shows "used sb (set_used sb b C) c \<longleftrightarrow> c = b \<or> used sb C c"
  using BBLOCK_eq_iff [OF assms, of sb] same_bit [of c b]
  by (auto simp: used_def set_used_def free_bit_iff bit_or_byte Let_def)

lemma used_set_free:
  assumes "b < 2 ^ 32" "c < 2 ^ 32"
  shows "used sb (set_free sb b C) c \<longleftrightarrow> c \<noteq> b \<and> used sb C c"
  using BBLOCK_eq_iff [OF assms, of sb] same_bit [of c b]
  by (auto simp: used_def set_free_def free_bit_iff bit_andnot_byte Let_def)

text \<open>The blocks of metadata: the bitmap and the inodes.\<close>

definition bitmap_blocks :: "superblock \<Rightarrow> u32 set" where
  "bitmap_blocks sb = {BBLOCK b sb | b. b < unat (sb_size sb)}"

definition inode_blocks :: "superblock \<Rightarrow> u32 set" where
  "inode_blocks sb = {IBLOCK m sb | m. m < sb_ninodes sb}"

definition layout_ok :: "fs \<Rightarrow> bool" where
  "layout_ok s \<longleftrightarrow> 0 < unat (sb_size (f_sb s)) \<and> bitmap_blocks (f_sb s) \<subseteq> home s \<and> inode_blocks (f_sb s) \<subseteq> home s \<and>
     bitmap_blocks (f_sb s) \<inter> inode_blocks (f_sb s) = {} \<and> used (f_sb s) (content s) 0 \<and>
     (\<forall>b < unat (sb_size (f_sb s)). \<not> used (f_sb s) (content s) b \<longrightarrow>
        of_nat b \<in> home s - bitmap_blocks (f_sb s) - inode_blocks (f_sb s))"

text \<open>An allocated block for data.\<close>

definition data_block :: "fs \<Rightarrow> u32 \<Rightarrow> bool" where
  "data_block s a \<longleftrightarrow> a \<noteq> 0 \<and> a \<in> home s - bitmap_blocks (f_sb s) - inode_blocks (f_sb s) \<and> unat a < unat (sb_size (f_sb s)) \<and>
     used (f_sb s) (content s) (unat a)"

definition nfree :: "fs \<Rightarrow> nat" where
  "nfree s = card {b. b < unat (sb_size (f_sb s)) \<and> \<not> used (f_sb s) (content s) b}"

lemma layout_ok_bitmap: "layout_ok s \<Longrightarrow> bitmap_ok s"
  by (auto simp: layout_ok_def bitmap_ok_def bitmap_blocks_def)

lemma data_blocks_clear: "\<forall>x\<in>X. data_block s x \<Longrightarrow> clear_of X s"
  using unat32_less [of "sb_size (f_sb s)"]
  by (auto simp: clear_of_def data_block_def bitmap_blocks_def unat_of_nat take_bit_nat_eq_self_iff)

text \<open>Contents outside the bitmap.\<close>

lemma set_used_other: "a \<notin> bitmap_blocks sb \<Longrightarrow> b < unat (sb_size sb) \<Longrightarrow> set_used sb b C a = C a"
  by (auto simp: set_used_def bitmap_blocks_def Let_def)

lemma used_upd: "a \<notin> bitmap_blocks sb \<Longrightarrow> b < unat (sb_size sb) \<Longrightarrow> used sb (C(a := d)) b = used sb C b"
  by (auto simp: used_def bitmap_blocks_def)

lemma nfree_pos: "0 < nfree s \<Longrightarrow> \<exists>c. first_free (f_sb s) (content s) 0 = Some c"
proof -
  assume "0 < nfree s"
  then have "{b. b < unat (sb_size (f_sb s)) \<and> \<not> used (f_sb s) (content s) b} \<noteq> {}" by (auto simp: nfree_def card_gt_0_iff)
  then have "first_free (f_sb s) (content s) 0 \<noteq> None" by (auto simp: first_free_def find_None_iff)
  then show ?thesis by blast
qed

lemma first_freeD:
  assumes "first_free sb C 0 = Some c"
  shows "c < unat (sb_size sb)" "\<not> used sb C c" "\<forall>b < c. used sb C b" "unat (of_nat c :: u32) = c" "c < 2 ^ 32"
proof -
  from assms obtain i where i: "i < unat (sb_size sb)" "c = i" "\<not> used sb C c" "\<forall>j<i. used sb C j"
    unfolding first_free_def find_Some_iff by auto
  then show "c < unat (sb_size sb)" "\<not> used sb C c" "\<forall>b < c. used sb C b" by auto
  then show "c < 2 ^ 32" using unat32_less [of "sb_size sb"] by simp
  then show "unat (of_nat c :: u32) = c" by (simp add: unat_of_nat)
qed

text \<open>
  A step that may change block contents and the in-memory inodes; and one that keeps the disk
  well formed, all allocated blocks, the inodes on disk and the data outside \<open>A\<close>.
\<close>

definition same_env :: "fs \<Rightarrow> fs \<Rightarrow> bool" where
  "same_env s t \<longleftrightarrow> f_sb t = f_sb s \<and> f_k t = f_k s \<and> f_huff t = f_huff s \<and>
     f_cbuf t = f_cbuf s \<and> f_cinum t = f_cinum s \<and> f_clen t = f_clen s \<and> home t = home s"

definition grows :: "u32 set \<Rightarrow> fs \<Rightarrow> fs \<Rightarrow> bool" where
  "grows A s t \<longleftrightarrow> layout_ok t \<and> (\<forall>b. data_block s b \<longrightarrow> data_block t b \<and> (b \<notin> A \<longrightarrow> content t b = content s b)) \<and>
     (\<forall>b\<in>inode_blocks (f_sb s). content t b = content s b)"

lemma same_env_refl [simp]: "same_env s s"
  by (simp add: same_env_def)

lemma same_env_trans [trans]: "same_env s t \<Longrightarrow> same_env t u \<Longrightarrow> same_env s u"
  by (simp add: same_env_def)

lemma same_rest_env: "same_rest s t \<Longrightarrow> same_env s t"
  by (simp add: same_env_def same_rest_def)

lemma same_envD:
  assumes "same_env s t"
  shows "f_sb t = f_sb s" "f_k t = f_k s" "home t = home s"
  using assms by (simp_all add: same_env_def)

lemma grows_trans: "grows A s t \<Longrightarrow> grows B t u \<Longrightarrow> f_sb t = f_sb s \<Longrightarrow> A \<union> B \<subseteq> D \<Longrightarrow> grows D s u"
  unfolding grows_def by (metis UnCI subset_iff)

lemma grows_mono: "grows A s t \<Longrightarrow> A \<subseteq> B \<Longrightarrow> grows B s t"
  by (auto simp: grows_def)

lemma data_block_cong:
  assumes "f_sb t = f_sb s" "home t = home s" "content t = content s"
  shows "data_block t b = data_block s b" "layout_ok t = layout_ok s" "nfree t = nfree s"
  using assms by (simp_all add: data_block_def layout_ok_def nfree_def)

lemma grows_same:
  "layout_ok s \<Longrightarrow> f_sb t = f_sb s \<Longrightarrow> home t = home s \<Longrightarrow> content t = content s \<Longrightarrow> grows A s t"
  using data_block_cong [of t s] by (simp add: grows_def)

text \<open>Allocation.\<close>

lemma balloc_used:
  assumes d: "layout_ok s" and c: "first_free (f_sb s) (content s) 0 = Some c" and b: "b < unat (sb_size (f_sb s))"
  shows "used (f_sb s) ((set_used (f_sb s) c (content s))(of_nat c := z)) b \<longleftrightarrow> b = c \<or> used (f_sb s) (content s) b"
proof -
  have "of_nat c \<notin> bitmap_blocks (f_sb s)" using d first_freeD [OF c] by (auto simp: layout_ok_def)
  moreover have "b < 2 ^ 32" using b unat32_less [of "sb_size (f_sb s)"] by simp
  ultimately show ?thesis using used_set_used first_freeD(5) [OF c] used_upd [OF _ b] by simp
qed

lemma balloc_ok:
  assumes t: "in_tx X (k + 2) s" and d: "layout_ok s" and X: "\<forall>x\<in>X. data_block s x" "card X \<le> k" and f: "0 < nfree s"
  obtains a s' where "balloc ROOTDEV s = Ok (a, s')" "keeps X s s'" "in_tx X k s'" "grows {} s s'" "data_block s' a"
    "\<not> data_block s a" "content s' a = (\<lambda>_. 0)" "nfree s = Suc (nfree s')" "\<forall>b. data_block s' b \<longleftrightarrow> b = a \<or> data_block s b"
proof -
  obtain c where c: "first_free (f_sb s) (content s) 0 = Some c" using nfree_pos [OF f] by blast
  note F = first_freeD [OF c]
  let ?a = "of_nat c :: u32" and ?sb = "f_sb s"
  let ?C = "(set_used ?sb c (content s))(?a := (\<lambda>_. 0))"
  obtain a s' where r: "balloc ROOTDEV s = Ok (a, s')" "keeps X s s'" "in_tx X k s'"
    "case first_free ?sb (content s) 0 of None \<Rightarrow> a = 0 \<and> content s' = content s
     | Some c \<Rightarrow> a = of_nat c \<and> content s' = (set_used ?sb c (content s))(of_nat c := (\<lambda>_. 0))"
    by (rule balloc_spec [OF t layout_ok_bitmap [OF d] data_blocks_clear [OF X(1)] X(2)])
  then have ac: "a = ?a" "content s' = ?C" using c by simp_all
  have sb: "f_sb s' = ?sb" "home s' = home s" using same_restD [OF keepsD(1) [OF r(2)]] by auto
  have u: "used ?sb ?C b \<longleftrightarrow> b = c \<or> used ?sb (content s) b" if "b < unat (sb_size ?sb)" for b
    using balloc_used [OF d c that] .
  have a: "?a \<in> home s - bitmap_blocks ?sb - inode_blocks ?sb" using d F(1,2) by (simp add: layout_ok_def)
  have c0: "c \<noteq> 0" using d F(2) by (auto simp: layout_ok_def)
  have nd: "\<not> data_block s ?a" using F by (simp add: data_block_def)
  have da: "data_block s' ?a" using a F u [OF F(1)] c0 sb ac(2) by (auto simp: data_block_def word_unat_eq_iff)
  have di: "data_block s' b \<longleftrightarrow> b = ?a \<or> data_block s b" for b
    using da u sb ac(2) F(4) by (cases "b = ?a") (auto simp: data_block_def word_unat_eq_iff)
  have dk: "layout_ok s'" using d u sb ac(2) c0 F(1) by (auto simp: layout_ok_def)
  have keep: "data_block s' b \<and> content s' b = content s b" if b: "data_block s b" for b
  proof -
    have "b \<noteq> ?a" using b nd by auto
    then show ?thesis using b u sb ac(2) set_used_other [OF _ F(1)] by (auto simp: data_block_def)
  qed
  have ino: "content s' b = content s b" if "b \<in> inode_blocks ?sb" for b
  proof -
    have "b \<notin> bitmap_blocks ?sb" using that d by (auto simp: layout_ok_def)
    then show ?thesis using that a ac(2) set_used_other [OF _ F(1)] by auto
  qed
  have "{b. b < unat (sb_size ?sb) \<and> \<not> used ?sb (content s) b} = insert c {b. b < unat (sb_size ?sb) \<and> \<not> used ?sb ?C b}"
    using u F(1,2) by auto
  then have "nfree s = Suc (nfree s')" using u F(1) by (simp add: nfree_def sb ac(2))
  then show thesis using that [of a s'] r(1-3) ac da nd dk keep ino di by (simp add: grows_def)
qed

text \<open>Changing an inode in memory changes no block.\<close>

lemma iset_simps [simp]:
  "content (iset i g s) = content s" "in_tx X k (iset i g s) = in_tx X k s" "home (iset i g s) = home s"
  "holds (iset i g s) = holds s" "f_sb (iset i g s) = f_sb s" "f_k (iset i g s) = f_k s"
  "f_inode (iset i g s) = (f_inode s)(i := g (f_inode s i))" "f_log (iset i g s) = f_log s"
  by (simp_all add: iset_def content_def in_tx_def home_def holds_def fun_eq_iff)

lemma iset_blocks [simp]:
  "data_block (iset i g s) = data_block s" "layout_ok (iset i g s) = layout_ok s" "nfree (iset i g s) = nfree s"
  using data_block_cong [of "iset i g s" s] by (auto simp only: iset_simps)

lemma iset_env [simp]: "same_env s (iset i g t) = same_env s t" "grows A s (iset i g t) = grows A s t"
  "same_env (iset i g s) t = same_env s t" "grows A (iset i g s) t = grows A s t"
  by (simp_all add: same_env_def grows_def) (simp_all add: iset_def)

text \<open>Writing a data block.\<close>

lemma grows_write:
  assumes l: "layout_ok s" and b: "data_block s b" and t: "content t = (content s)(b := d)" "f_sb t = f_sb s" "home t = home s"
  shows "grows {b} s t" "nfree t = nfree s" "data_block t a = data_block s a" "layout_ok t"
proof -
  have u: "used (f_sb s) (content t) c = used (f_sb s) (content s) c" if "c < unat (sb_size (f_sb s))" for c
    using used_upd [OF _ that] b t(1) by (simp add: data_block_def)
  have z: "0 < unat (sb_size (f_sb s))" using b by (auto simp: data_block_def)
  show l': "layout_ok t" using l u z t by (auto simp: layout_ok_def)
  have db: "data_block t a = data_block s a" for a using u t by (auto simp: data_block_def)
  then show "data_block t a = data_block s a" .
  have "b \<notin> inode_blocks (f_sb s)" using b by (simp add: data_block_def)
  then show "grows {b} s t" unfolding grows_def using l' db t(1) by (simp add: fun_upd_apply)
  have "{b. b < unat (sb_size (f_sb s)) \<and> \<not> used (f_sb s) (content t) b} = {b. b < unat (sb_size (f_sb s)) \<and> \<not> used (f_sb s) (content s) b}"
    using u by auto
  then show "nfree t = nfree s" by (simp add: nfree_def t(2))
qed

text \<open>Freeing.\<close>

lemma bfree_ok:
  assumes t: "in_tx {} (Suc k) s" and l: "layout_ok s" and a: "data_block s a"
  obtains s' where "bfree ROOTDEV a s = Ok s'" "in_tx {} k s'" "same_rest s s'" "layout_ok s'"
    "\<forall>b. data_block s' b \<longleftrightarrow> data_block s b \<and> b \<noteq> a" "\<forall>b. b \<notin> bitmap_blocks (f_sb s) \<longrightarrow> content s' b = content s b"
    "nfree s' = Suc (nfree s)"
proof -
  let ?sb = "f_sb s" let ?B = "BBLOCK (unat a) ?sb" and ?j = "unat a mod BPB"
  have az: "unat a < unat (sb_size ?sb)" "used ?sb (content s) (unat a)" "a \<in> home s - bitmap_blocks ?sb - inode_blocks ?sb" "a \<noteq> 0"
    using a by (auto simp: data_block_def)
  have B: "?B \<in> bitmap_blocks ?sb" "?B \<in> home s" using az(1) l by (auto simp: bitmap_blocks_def layout_ok_def)
  obtain bp s1 where 1: "fs_bread ROOTDEV ?B s = Ok (bp, s1)" "in_tx {?B} (Suc k) s1" "holds s1 ?B bp" "content s1 = content s" "same_rest s s1"
    by (rule tx_bread0 [OF t])
  note E1 = same_restD [OF 1(5)]
  let ?d = "fs_data bp s1"
  let ?e = "?d(?j div 8 := ?d (?j div 8) AND NOT (push_bit (?j mod 8) 1))"
  have jb: "?j div 8 < BSIZE" by (rule bit_byte) (simp add: BPB_def BSIZE_def)
  have db: "?d (?j div 8) = content s ?B (?j div 8)" using holds_byte [OF 1(2,3) jb] 1(4) by simp
  have nf: "\<not> free_bit ?d ?j" using az(2) db by (simp add: used_def free_bit_def)
  obtain s2 where 2: "fs_update bp ?e s1 = Ok s2" "in_tx {} k s2" "content s2 = (content s1)(?B := blk ?e)" "same_rest s1 s2"
    by (rule tx_update0 [OF 1(2) _ 1(3)]) (use B(2) E1(5) in simp)
  have D: "same_rest s s2" by (rule same_rest_trans [OF 1(5) 2(4)])
  note E = same_restD [OF D]
  have c: "content s2 = set_free ?sb (unat a) (content s)"
    using 2(3) 1(4) holds_data [OF 1(2,3)] db jb by (simp add: set_free_def Let_def blk_upd)
  have u: "used ?sb (content s2) b \<longleftrightarrow> b \<noteq> unat a \<and> used ?sb (content s) b" if "b < unat (sb_size ?sb)" for b
    unfolding c by (rule used_set_free) (use that az(1) unat32_less [of "sb_size ?sb"] in simp_all)
  have o: "content s2 b = content s b" if "b \<notin> bitmap_blocks ?sb" for b
  proof -
    have "b \<noteq> ?B" using that B(1) by blast
    then show ?thesis by (simp add: c set_free_def Let_def)
  qed
  have a0: "unat a \<noteq> 0" using az(4) by (simp add: unat_eq_0)
  have "layout_ok s2" using l u az E a0 by (auto simp: layout_ok_def)
  moreover have "data_block s2 b \<longleftrightarrow> data_block s b \<and> b \<noteq> a" for b using u E by (auto simp: data_block_def word_unat_eq_iff)
  moreover have "nfree s2 = Suc (nfree s)"
  proof -
    have "{b. b < unat (sb_size ?sb) \<and> \<not> used ?sb (content s2) b} = insert (unat a) {b. b < unat (sb_size ?sb) \<and> \<not> used ?sb (content s) b}"
      using u az(1) by auto
    then show ?thesis using az(2) by (simp add: nfree_def E(1))
  qed
  moreover have "bfree ROOTDEV a s = Ok s2" using 1(1) nf 2(1) by (simp add: bfree_def Let_def)
  ultimately show thesis using that 2(2) D o by blast
qed

section \<open>The blocks of a file\<close>

text \<open>
  The slots of an inode: the 12 direct addresses, the indirect block and its entries.  Data
  block \<open>bn\<close> of the file is in slot \<open>bn\<close>, or past the indirect block in slot \<open>bn + 1\<close>.
\<close>

definition NSLOT :: nat where "NSLOT = MAXFILE + 1"

definition slot :: "inode \<Rightarrow> (u32 \<Rightarrow> bytes) \<Rightarrow> nat \<Rightarrow> u32" where
  "slot ip C j =
     (if j \<le> NDIRECT then i_addrs ip j
      else if i_addrs ip NDIRECT = 0 then 0 else get32 (C (i_addrs ip NDIRECT)) (4 * (j - NDIRECT - 1)))"

definition dslot :: "nat \<Rightarrow> nat" where
  "dslot bn = (if bn < NDIRECT then bn else bn + 1)"

definition dblock :: "fs \<Rightarrow> nat \<Rightarrow> nat \<Rightarrow> u32" where
  "dblock s i bn = slot (f_inode s i) (content s) (dslot bn)"

definition slots_ok :: "fs \<Rightarrow> (nat \<Rightarrow> u32) \<Rightarrow> bool" where
  "slots_ok s f \<longleftrightarrow> (\<forall>j < NSLOT. f j \<noteq> 0 \<longrightarrow> data_block s (f j)) \<and> (\<forall>j < NSLOT. \<forall>k < NSLOT. f j = f k \<longrightarrow> f j = 0 \<or> j = k)"

definition blocks_ok :: "fs \<Rightarrow> nat \<Rightarrow> bool" where
  "blocks_ok s i \<longleftrightarrow> i_dev (f_inode s i) = ROOTDEV \<and> slots_ok s (slot (f_inode s i) (content s))"

definition file_byte :: "fs \<Rightarrow> nat \<Rightarrow> nat \<Rightarrow> u8" where
  "file_byte s i p = (let a = dblock s i (p div BSIZE) in if a = 0 then 0 else content s a (p mod BSIZE))"

definition own :: "fs \<Rightarrow> nat \<Rightarrow> u32 set" where
  "own s i = slot (f_inode s i) (content s) ` {..<NSLOT}"

lemma file_cong:
  assumes "f_inode t = f_inode s" "content t = content s"
  shows "dblock t = dblock s" "file_byte t = file_byte s" "own t = own s"
proof -
  show d: "dblock t = dblock s" by (intro ext) (simp add: dblock_def assms)
  show "file_byte t = file_byte s" by (intro ext) (simp add: file_byte_def Let_def d assms)
  show "own t = own s" by (intro ext) (simp add: own_def assms)
qed

lemma NDIRECT_less [simp]: "NDIRECT < NSLOT"
  by (simp add: NSLOT_def MAXFILE_def)

lemma dslot_simps [simp]: "dslot bn \<noteq> NDIRECT" "dslot bn < NSLOT \<longleftrightarrow> bn < MAXFILE" "dslot a = dslot b \<longleftrightarrow> a = b"
  by (auto simp: dslot_def NSLOT_def MAXFILE_def NDIRECT_def)

lemma get32_zero [simp]: "get32 (\<lambda>_. 0) k = 0"
  by (simp add: get32_def)

lemma slots_okD:
  assumes "slots_ok s f" "j < NSLOT"
  shows "f j \<noteq> 0 \<Longrightarrow> data_block s (f j)" "k < NSLOT \<Longrightarrow> f j = f k \<Longrightarrow> f j \<noteq> 0 \<Longrightarrow> j = k"
  using assms unfolding slots_ok_def by blast+

lemma slot_direct [simp]: "j \<le> NDIRECT \<Longrightarrow> slot ip C j = i_addrs ip j"
  by (simp add: slot_def)

lemma blocks_ok_indirect: "blocks_ok s i \<Longrightarrow> i_addrs (f_inode s i) NDIRECT \<noteq> 0 \<Longrightarrow> data_block s (i_addrs (f_inode s i) NDIRECT)"
  using slots_okD(1) [OF _ NDIRECT_less] by (fastforce simp: blocks_ok_def)

lemma slots_ok_upd:
  assumes f: "slots_ok s f" and t: "\<And>b. data_block s b \<Longrightarrow> data_block t b" and a: "data_block t a" "\<not> data_block s a"
    and g: "\<And>j. j < NSLOT \<Longrightarrow> g j = (f(j0 := a)) j"
  shows "slots_ok t g"
proof -
  have "a \<noteq> 0" using a(1) by (simp add: data_block_def)
  moreover have "f j \<noteq> a" if "j < NSLOT" "f j \<noteq> 0" for j using f a(2) that by (auto simp: slots_ok_def)
  ultimately show ?thesis using f t a(1) g unfolding slots_ok_def fun_upd_apply by metis
qed

lemma new_slot:
  assumes t: "in_tx {} (k + 2) s" and l: "layout_ok s" and b: "blocks_ok s i" and j: "j \<le> NDIRECT" "i_addrs (f_inode s i) j = 0" and f: "0 < nfree s"
  obtains a s1 s' where "balloc ROOTDEV s = Ok (a, s1)" "s' = iset i (\<lambda>ip. ip\<lparr>i_addrs := (i_addrs ip)(j := a)\<rparr>) s1" "in_tx {} k s'"
    "same_env s s'" "f_inode s' = (f_inode s)(i := (f_inode s i)\<lparr>i_addrs := (i_addrs (f_inode s i))(j := a)\<rparr>)" "grows {} s s'" "blocks_ok s' i"
    "\<forall>m < NSLOT. slot (f_inode s' i) (content s') m = ((slot (f_inode s i) (content s))(j := a)) m"
    "a \<noteq> 0" "\<not> data_block s a" "content s' a = (\<lambda>_. 0)" "nfree s = Suc (nfree s')"
proof -
  let ?ip = "f_inode s i"
  obtain a s1 where r: "balloc ROOTDEV s = Ok (a, s1)" "keeps {} s s1" "in_tx {} k s1" "grows {} s s1" "data_block s1 a"
    "\<not> data_block s a" "content s1 a = (\<lambda>_. 0)" "nfree s = Suc (nfree s1)" "\<forall>b. data_block s1 b \<longleftrightarrow> b = a \<or> data_block s b"
    by (rule balloc_ok [OF t l _ _ f]) simp_all
  let ?s = "iset i (\<lambda>ip. ip\<lparr>i_addrs := (i_addrs ip)(j := a)\<rparr>) s1"
  have D: "same_rest s s1" using keepsD(1) [OF r(2)] .
  note E = same_restD [OF D]
  have a0: "a \<noteq> 0" using r(5) by (simp add: data_block_def)
  have ind: "content s1 (i_addrs ?ip NDIRECT) = content s (i_addrs ?ip NDIRECT)" if "i_addrs ?ip NDIRECT \<noteq> 0"
    using blocks_ok_indirect [OF b that] r(4) by (simp add: grows_def)
  have sl: "slot (f_inode ?s i) (content ?s) m = ((slot ?ip (content s))(j := a)) m" for m
    using j ind r(7) a0 E(2) by (auto simp: slot_def)
  have "slots_ok s1 (slot (f_inode ?s i) (content ?s))"
    by (rule slots_ok_upd [of s "slot ?ip (content s)" s1 a _ j]) (use b r(4-6) sl in \<open>auto simp: blocks_ok_def grows_def\<close>)
  then have "blocks_ok ?s i" using b E(2) by (simp add: blocks_ok_def slots_ok_def)
  then show thesis using that [OF r(1) refl] r E(2) sl a0 same_rest_env [OF D] by simp
qed

lemma blk_put32: "k + 4 \<le> BSIZE \<Longrightarrow> blk (put32 d k v) = put32 (blk d) k v"
  by (auto simp: blk_def put32_def fun_eq_iff)

lemma new_entry:
  assumes t: "in_tx {} (k + 3) s" and l: "layout_ok s" and b: "blocks_ok s i" and f: "0 < nfree s"
    and ind: "i_addrs (f_inode s i) NDIRECT \<noteq> 0" "e < NINDIRECT" "slot (f_inode s i) (content s) (NDIRECT + 1 + e) = 0"
  obtains bp s1 a s2 s' where "fs_bread ROOTDEV (i_addrs (f_inode s i) NDIRECT) s = Ok (bp, s1)" "get32 (fs_data bp s1) (4 * e) = 0"
    "balloc ROOTDEV s1 = Ok (a, s2)" "fs_update bp (put32 (fs_data bp s2) (4 * e) a) s2 = Ok s'" "in_tx {} k s'" "same_rest s s'"
    "grows {i_addrs (f_inode s i) NDIRECT} s s'" "blocks_ok s' i" 
    "\<forall>m < NSLOT. slot (f_inode s' i) (content s') m = ((slot (f_inode s i) (content s))(NDIRECT + 1 + e := a)) m"
    "a \<noteq> 0" "\<not> data_block s a" "content s' a = (\<lambda>_. 0)" "nfree s = Suc (nfree s')"
proof -
  let ?ip = "f_inode s i" let ?n = "i_addrs ?ip NDIRECT"
  have dn: "data_block s ?n" by (rule blocks_ok_indirect [OF b ind(1)])
  obtain bp s1 where 1: "fs_bread ROOTDEV ?n s = Ok (bp, s1)" "in_tx {?n} (k + 3) s1" "holds s1 ?n bp" "content s1 = content s" "same_rest s s1"
    by (rule tx_bread0 [OF t])
  note E1 = same_restD [OF 1(5)]
  note C1 = data_block_cong [OF E1(1,5) 1(4)]
  have t1: "in_tx {?n} (Suc k + 2) s1" using 1(2) by (simp add: eval_nat_numeral)
  obtain a s2 where 2: "balloc ROOTDEV s1 = Ok (a, s2)" "keeps {?n} s1 s2" "in_tx {?n} (Suc k) s2" "grows {} s1 s2" "data_block s2 a"
    "\<not> data_block s1 a" "content s2 a = (\<lambda>_. 0)" "nfree s1 = Suc (nfree s2)" "\<forall>b. data_block s2 b \<longleftrightarrow> b = a \<or> data_block s1 b"
    by (rule balloc_ok [OF t1]) (use dn l f C1 in simp_all)
  have h2: "holds s2 ?n bp" using keepsD(2) [OF 2(2) _ 1(3)] by simp
  have D2: "same_rest s s2" using same_rest_trans [OF 1(5) keepsD(1) [OF 2(2)]] .
  note E2 = same_restD [OF D2]
  have hm: "?n \<in> home s2" using dn E2 by (simp add: data_block_def)
  let ?d = "put32 (fs_data bp s2) (4 * e) a"
  obtain s3 where 3: "fs_update bp ?d s2 = Ok s3" "in_tx {} k s3" "content s3 = (content s2)(?n := blk ?d)" "same_rest s2 s3"
    by (rule tx_update0 [OF 2(3) hm h2])
  have D3: "same_rest s s3" using same_rest_trans [OF D2 3(4)] .
  note E3 = same_restD [OF D3]
  have e4: "4 * e + 4 \<le> BSIZE" using ind(2) by (simp add: NINDIRECT_def BSIZE_def)
  have c2: "content s2 b = content s b" "data_block s2 b" if "data_block s b" for b
    using 2(4) that C1(1) 1(4) by (simp_all add: grows_def)
  have bd: "blk ?d = put32 (content s ?n) (4 * e) a"
    using blk_put32 [OF e4] holds_data [OF 2(3) h2] c2(1) [OF dn] by simp
  have g2: "grows {} s s2" using 2(4) C1 1(4) E1 by (simp add: grows_def)
  have l2: "layout_ok s2" using g2 by (simp add: grows_def)
  note W = grows_write [OF l2 c2(2) [OF dn] 3(3) same_restD(1) [OF 3(4)] same_restD(5) [OF 3(4)]]
  have g3: "grows {?n} s s3" by (rule grows_trans [OF g2 W(1) E2(1)]) simp
  have nd: "\<not> data_block s a" using 2(6) C1(1) by simp
  then have a0: "a \<noteq> 0" "a \<noteq> ?n" "\<not> data_block s a" using 2(5) dn by (auto simp: data_block_def [of s2])
  have z: "get32 (fs_data bp s1) (4 * e) = 0"
    using ind(1,3) get32_blk [OF e4, of "fs_data bp s1"] holds_data [OF 1(2,3)] 1(4) by (simp add: slot_def)
  have sl: "slot (f_inode s3 i) (content s3) m = ((slot ?ip (content s))(NDIRECT + 1 + e := a)) m" if "m < NSLOT" for m
  proof (cases "m \<le> NDIRECT")
    case False
    then have "get32 (put32 (content s ?n) (4 * e) a) (4 * (m - NDIRECT - 1)) = (if m - NDIRECT - 1 = e then a else get32 (content s ?n) (4 * (m - NDIRECT - 1)))"
      by (cases "m - NDIRECT - 1 < e") (auto intro!: get32_put32_other)
    then show ?thesis using False ind(1) E3(2) 3(3) bd by (auto simp: slot_def)
  qed (use E3(2) in simp)
  have "slots_ok s3 (slot (f_inode s3 i) (content s3))"
    by (rule slots_ok_upd [of s "slot ?ip (content s)" s3 a _ "NDIRECT + 1 + e"])
       (use b sl a0 g3 2(5) W(3) in \<open>auto simp: blocks_ok_def grows_def\<close>)
  then have "blocks_ok s3 i" using b E3(2) by (simp add: blocks_ok_def)
  then show thesis
    using that [OF 1(1) z 2(1) 3(1,2) D3 g3] sl a0 3(3) 2(7) 2(8) C1(3) W(2) by simp
qed

text \<open>\<^verbatim>\<open>bmap\<close> of a block that the file has.\<close>

lemma bmap_mapped:
  assumes t: "in_tx {} k s" and d: "i_dev (f_inode s i) = ROOTDEV" and bn: "bn < MAXFILE" "dblock s i bn \<noteq> 0"
  obtains s' where "bmap i bn s = Ok (dblock s i bn, s')" "in_tx {} k s'" "content s' = content s" "same_rest s s'"
proof (cases "bn < NDIRECT")
  case True
  then show thesis using that [of s] bn t by (simp add: bmap_def dblock_def dslot_def slot_def)
next
  case False
  let ?n = "i_addrs (f_inode s i) NDIRECT" and ?e = "bn - NDIRECT"
  have e: "?e < NINDIRECT" "4 * ?e + 4 \<le> BSIZE" using False bn(1) by (auto simp: MAXFILE_def NINDIRECT_def BSIZE_def)
  have n: "?n \<noteq> 0" "dblock s i bn = get32 (content s ?n) (4 * ?e)" using False bn(2) by (auto simp: dblock_def dslot_def slot_def split: if_splits)
  obtain bp s1 where 1: "fs_bread ROOTDEV ?n s = Ok (bp, s1)" "in_tx {?n} k s1" "holds s1 ?n bp" "content s1 = content s" "same_rest s s1"
    by (rule tx_bread0 [OF t])
  obtain s2 where 2: "fs_brelse bp s1 = Ok s2" "in_tx {} k s2" "content s2 = content s1" "same_rest s1 s2"
    by (rule tx_brelse0 [OF 1(2,3)])
  have "get32 (fs_data bp s1) (4 * ?e) = dblock s i bn"
    using get32_blk [OF e(2), of "fs_data bp s1"] holds_data [OF 1(2,3)] 1(4) n(2) by simp
  then show thesis using that [of s2] False e n(1) d 1(1,4) 2 bn(2) same_rest_trans [OF 1(5) 2(4)] by (simp add: bmap_def Let_def)
qed

text \<open>What \<^verbatim>\<open>bmap\<close> does in general: the file gains at most the block asked for, zeroed.\<close>

definition bmapped :: "nat \<Rightarrow> nat \<Rightarrow> u32 \<Rightarrow> fs \<Rightarrow> fs \<Rightarrow> bool" where
  "bmapped i bn a s t \<longleftrightarrow> same_env s t \<and> (\<exists>A. f_inode t = (f_inode s)(i := (f_inode s i)\<lparr>i_addrs := A\<rparr>)) \<and>
     grows {i_addrs (f_inode s i) NDIRECT} s t \<and> blocks_ok t i \<and> a \<noteq> 0 \<and> dblock t i bn = a \<and>
     (\<forall>m < MAXFILE. m \<noteq> bn \<longrightarrow> dblock t i m = dblock s i m) \<and>
     (if dblock s i bn = 0 then \<not> data_block s a \<and> content t a = (\<lambda>_. 0) else a = dblock s i bn) \<and> nfree s \<le> nfree t + 2 \<and>
     (\<forall>b \<in> own t i. data_block s b \<longrightarrow> b \<in> own s i)"

lemma own_upd:
  assumes "\<forall>m < NSLOT. slot (f_inode t i) (content t) m = ((slot (f_inode s i) (content s))(j := a)) m" "\<not> data_block s a"
  shows "\<forall>b \<in> own t i. data_block s b \<longrightarrow> b \<in> own s i"
  using assms by (auto simp: own_def split: if_splits)

lemma bmap_direct:
  assumes t: "in_tx {} (k + 2) s" and l: "layout_ok s" and b: "blocks_ok s i" and f: "0 < nfree s"
    and bn: "bn < NDIRECT" "dblock s i bn = 0"
  obtains a s' where "bmap i bn s = Ok (a, s')" "in_tx {} k s'" "bmapped i bn a s s'"
proof -
  have j: "bn \<le> NDIRECT" "i_addrs (f_inode s i) bn = 0" "bn < MAXFILE" using bn by (auto simp: dblock_def dslot_def MAXFILE_def)
  obtain a s1 s' where r: "balloc ROOTDEV s = Ok (a, s1)" "s' = iset i (\<lambda>ip. ip\<lparr>i_addrs := (i_addrs ip)(bn := a)\<rparr>) s1" "in_tx {} k s'"
    "same_env s s'" "f_inode s' = (f_inode s)(i := (f_inode s i)\<lparr>i_addrs := (i_addrs (f_inode s i))(bn := a)\<rparr>)" "grows {} s s'" "blocks_ok s' i"
    "\<forall>m < NSLOT. slot (f_inode s' i) (content s') m = ((slot (f_inode s i) (content s))(bn := a)) m"
    "a \<noteq> 0" "\<not> data_block s a" "content s' a = (\<lambda>_. 0)" "nfree s = Suc (nfree s')"
    by (rule new_slot [OF t l b j(1,2) f])
  have db: "dblock s' i m = (if m = bn then a else dblock s i m)" if "m < MAXFILE" for m
  proof -
    have "dslot m = bn \<longleftrightarrow> m = bn" using bn(1) by (auto simp: dslot_def)
    then show ?thesis using r(8) that by (simp add: dblock_def)
  qed
  have "bmapped i bn a s s'"
    unfolding bmapped_def using r(4,5,7,9-12) db j(3) bn(2) grows_mono [OF r(6)] own_upd [OF r(8,10)] by auto
  moreover have "bmap i bn s = Ok (a, s')" using bn j(2) b r(1,2,9) by (simp add: bmap_def blocks_ok_def)
  ultimately show thesis using that r(3) by blast
qed

lemma bmap_entry:
  assumes t: "in_tx {} (k + 3) s" and l: "layout_ok s" and b: "blocks_ok s i" and f: "0 < nfree s"
    and bn: "NDIRECT \<le> bn" "bn < MAXFILE" "dblock s i bn = 0" "i_addrs (f_inode s i) NDIRECT \<noteq> 0"
  obtains a s' where "bmap i bn s = Ok (a, s')" "in_tx {} k s'" "bmapped i bn a s s'" "nfree s = Suc (nfree s')" "f_inode s' = f_inode s"
proof -
  let ?n = "i_addrs (f_inode s i) NDIRECT" and ?e = "bn - NDIRECT"
  have e: "?e < NINDIRECT" "dslot bn = NDIRECT + 1 + ?e" using bn(1,2) by (auto simp: MAXFILE_def dslot_def)
  have "slot (f_inode s i) (content s) (NDIRECT + 1 + ?e) = 0" using bn(3) e(2) by (simp add: dblock_def)
  then obtain bp s1 a s2 s' where r: "fs_bread ROOTDEV ?n s = Ok (bp, s1)" "get32 (fs_data bp s1) (4 * ?e) = 0"
    "balloc ROOTDEV s1 = Ok (a, s2)" "fs_update bp (put32 (fs_data bp s2) (4 * ?e) a) s2 = Ok s'" "in_tx {} k s'" "same_rest s s'"
    "grows {?n} s s'" "blocks_ok s' i" 
    "\<forall>m < NSLOT. slot (f_inode s' i) (content s') m = ((slot (f_inode s i) (content s))(NDIRECT + 1 + ?e := a)) m"
    "a \<noteq> 0" "\<not> data_block s a" "content s' a = (\<lambda>_. 0)" "nfree s = Suc (nfree s')"
    by (rule new_entry [OF t l b f bn(4) e(1)])
  have db: "dblock s' i m = (if m = bn then a else dblock s i m)" if "m < MAXFILE" for m
  proof -
    have "dslot m = NDIRECT + 1 + ?e \<longleftrightarrow> m = bn" using e(2) [symmetric] by simp
    then show ?thesis using r(9) that by (simp add: dblock_def)
  qed
  have "\<exists>A. f_inode s' = (f_inode s)(i := (f_inode s i)\<lparr>i_addrs := A\<rparr>)"
    by (rule exI [of _ "i_addrs (f_inode s i)"]) (use same_restD(2) [OF r(6)] in simp)
  then have "bmapped i bn a s s'"
    unfolding bmapped_def using same_rest_env [OF r(6)] r(7,8,10-13) db bn(2,3) own_upd [OF r(9,11)] by simp
  moreover have "bmap i bn s = Ok (a, s')"
    using bn(1,4) e(1) b r(1-4,10) by (simp add: bmap_def blocks_ok_def Let_def)
  ultimately show thesis using that r(5,13) same_restD(2) [OF r(6)] by blast
qed

lemma bmap_indirect:
  assumes t: "in_tx {} (k + 5) s" and l: "layout_ok s" and b: "blocks_ok s i" and f: "2 \<le> nfree s"
    and bn: "NDIRECT \<le> bn" "bn < MAXFILE" "i_addrs (f_inode s i) NDIRECT = 0"
  obtains a s' where "bmap i bn s = Ok (a, s')" "in_tx {} k s'" "bmapped i bn a s s'"
proof -
  have t': "in_tx {} (k + 3 + 2) s" and f': "0 < nfree s" using t f by (simp_all add: add.commute)
  obtain n s1 s2 where r: "balloc ROOTDEV s = Ok (n, s1)" "s2 = iset i (\<lambda>ip. ip\<lparr>i_addrs := (i_addrs ip)(NDIRECT := n)\<rparr>) s1" "in_tx {} (k + 3) s2"
    "same_env s s2" "f_inode s2 = (f_inode s)(i := (f_inode s i)\<lparr>i_addrs := (i_addrs (f_inode s i))(NDIRECT := n)\<rparr>)" "grows {} s s2" "blocks_ok s2 i"
    "\<forall>m < NSLOT. slot (f_inode s2 i) (content s2) m = ((slot (f_inode s i) (content s))(NDIRECT := n)) m"
    "n \<noteq> 0" "\<not> data_block s n" "content s2 n = (\<lambda>_. 0)" "nfree s = Suc (nfree s2)"
    by (rule new_slot [OF t' l b order_refl bn(3) f'])
  have db: "dblock s2 i m = dblock s i m" if "m < MAXFILE" for m using r(8) that by (simp add: dblock_def)
  have z: "dblock s i bn = 0" using bn by (simp add: dblock_def dslot_def slot_def)
  have 2: "layout_ok s2" "0 < nfree s2" "dblock s2 i bn = 0" "i_addrs (f_inode s2 i) NDIRECT \<noteq> 0"
    using r f z db bn(2) by (auto simp: grows_def)
  obtain a s' where e: "bmap i bn s2 = Ok (a, s')" "in_tx {} k s'" "bmapped i bn a s2 s'" "nfree s2 = Suc (nfree s')" "f_inode s' = f_inode s2"
    by (rule bmap_entry [OF r(3) 2(1) r(7) 2(2) bn(1,2) 2(3,4)])
  have dev: "i_dev (f_inode s i) = ROOTDEV" "i_dev (f_inode s2 i) = ROOTDEV" using b r(7) by (auto simp: blocks_ok_def)
  have "i_addrs (f_inode s2 i) NDIRECT = n" by (simp add: r(5))
  then have "bmap i bn s = bmap i bn s2"
    unfolding bmap_def Let_def dev using bn r(1,9) by (simp add: r(2) [symmetric])
  moreover have "bmapped i bn a s s'"
  proof -
    have g: "grows {i_addrs (f_inode s2 i) NDIRECT} s2 s'" "same_env s2 s'" "\<not> data_block s2 a" using e(3) 2(3) by (auto simp: bmapped_def)
    have n: "i_addrs (f_inode s2 i) NDIRECT = n" by (simp add: r(5))
    have "grows {n} s s'" by (rule grows_trans [OF r(6) g(1)]) (use n same_envD(1) [OF r(4)] in simp_all)
    then have g': "grows {i_addrs (f_inode s i) NDIRECT} s s'" using r(10) unfolding grows_def by (metis singletonD)
    have na: "\<not> data_block s a" using g(3) r(6) by (auto simp: grows_def)
    have ow: "b \<in> own s i" if "b \<in> own s' i" "data_block s b" for b
      using own_upd [OF r(8,10)] e(3) that r(6) by (auto simp: bmapped_def grows_def)
    show ?thesis
      using e r(5) same_env_trans [OF r(4) g(2)] g' db z r(12) 2(3) na ow unfolding bmapped_def by auto
  qed
  ultimately show thesis using that e(1,2) by simp
qed

lemma bmap_ok:
  assumes t: "in_tx {} (k + 5) s" and l: "layout_ok s" and b: "blocks_ok s i" and f: "2 \<le> nfree s" and bn: "bn < MAXFILE"
  obtains a s' where "bmap i bn s = Ok (a, s')" "in_tx {} k s'" "bmapped i bn a s s'"
proof (cases "dblock s i bn = 0")
  case True
  have t2: "in_tx {} (k + 2) s" "in_tx {} (k + 3) s" using in_tx_weaken [OF t] by simp_all
  have f': "0 < nfree s" using f by simp
  show thesis
  proof (cases "bn < NDIRECT")
    case T: True
    show thesis by (rule bmap_direct [OF t2(1) l b f' T True]) (rule that)
  next
    case F: False
    then have n: "NDIRECT \<le> bn" by simp
    show thesis
    proof (cases "i_addrs (f_inode s i) NDIRECT = 0")
      case T: True
      show thesis by (rule bmap_indirect [OF t l b f n bn T]) (rule that)
    next
      case False
      show thesis by (rule bmap_entry [OF t2(2) l b f' n bn True False]) (rule that)
    qed
  qed
next
  case False
  obtain s' where r: "bmap i bn s = Ok (dblock s i bn, s')" "in_tx {} (k + 5) s'" "content s' = content s" "same_rest s s'"
    by (rule bmap_mapped [OF t _ bn False]) (use b in \<open>simp add: blocks_ok_def\<close>)
  note E = same_restD [OF r(4)]
  note C = data_block_cong [OF E(1,5) r(3)]
  have "\<exists>A. f_inode s' = (f_inode s)(i := (f_inode s i)\<lparr>i_addrs := A\<rparr>)"
    by (rule exI [of _ "i_addrs (f_inode s i)"]) (use E(2) in simp)
  moreover have "blocks_ok s' i" using b C(1) by (simp add: blocks_ok_def slots_ok_def E(2) r(3))
  ultimately have "bmapped i bn (dblock s i bn) s s'"
    unfolding bmapped_def using same_rest_env [OF r(4)] grows_same [OF l E(1,5) r(3)] False C(3) E(2) r(3) by (simp add: dblock_def own_def)
  then show thesis using that [OF r(1)] in_tx_weaken [OF r(2)] by simp
qed

lemma dblock_data:
  assumes "blocks_ok s i" "bn < MAXFILE" "dblock s i bn \<noteq> 0"
  shows "data_block s (dblock s i bn)" "dblock s i bn \<noteq> i_addrs (f_inode s i) NDIRECT" "dblock s i bn \<in> own s i"
proof -
  have f: "slots_ok s (slot (f_inode s i) (content s))" and j: "dslot bn < NSLOT" using assms by (auto simp: blocks_ok_def)
  show "data_block s (dblock s i bn)" using slots_okD(1) [OF f j] assms(3) by (simp add: dblock_def)
  show "dblock s i bn \<in> own s i" using j by (auto simp: dblock_def own_def)
  show "dblock s i bn \<noteq> i_addrs (f_inode s i) NDIRECT"
    using slots_okD(2) [OF f j NDIRECT_less] assms(3) dslot_simps(1) by (auto simp: dblock_def)
qed

lemma dblock_inj:
  assumes "blocks_ok s i" "m < MAXFILE" "n < MAXFILE" "dblock s i m = dblock s i n" "dblock s i m \<noteq> 0"
  shows "m = n"
proof -
  have f: "slots_ok s (slot (f_inode s i) (content s))" using assms(1) by (simp add: blocks_ok_def)
  show ?thesis using slots_okD(2) [OF f, of "dslot m" "dslot n"] assms by (simp add: dblock_def)
qed

lemma block_of: "p < MAXFILE * BSIZE \<Longrightarrow> p div BSIZE < MAXFILE"
  by (simp add: less_mult_imp_div_less)

lemma bmapped_byte:
  assumes m: "bmapped i bn a s t" and b: "blocks_ok s i" and p: "p < MAXFILE * BSIZE"
  shows "file_byte t i p = file_byte s i p"
proof -
  note q = block_of [OF p]
  have c: "content t x = content s x" if "data_block s x" "x \<noteq> i_addrs (f_inode s i) NDIRECT" for x
    using m that by (auto simp: bmapped_def grows_def)
  show ?thesis
  proof (cases "p div BSIZE = bn")
    case True
    then show ?thesis using m q dblock_data [OF b, of bn] c by (auto simp: bmapped_def file_byte_def Let_def split: if_splits)
  next
    case False
    then show ?thesis using m q dblock_data [OF b, of "p div BSIZE"] c by (auto simp: bmapped_def file_byte_def Let_def)
  qed
qed

section \<open>Reading\<close>

lemma span_block:
  assumes "x < span n p"
  shows "(p + x) div BSIZE = p div BSIZE" "(p + x) mod BSIZE = p mod BSIZE + x" "p mod BSIZE + x < BSIZE"
proof -
  have x: "p mod BSIZE + x < BSIZE" using assms unfolding span_def by linarith
  then have "p + x = p div BSIZE * BSIZE + (p mod BSIZE + x)" by simp
  with x show "(p + x) div BSIZE = p div BSIZE" "(p + x) mod BSIZE = p mod BSIZE + x"
    by (simp_all only: div_mult_self3 mod_mult_self3 mod_less) (simp_all add: BSIZE_def)
  show "p mod BSIZE + x < BSIZE" by (rule x)
qed

lemma same_block:
  assumes "q div BSIZE = p div BSIZE"
  shows "p \<le> q \<and> q < p + m \<longleftrightarrow> p mod BSIZE \<le> q mod BSIZE \<and> q mod BSIZE < p mod BSIZE + m" "q - p = q mod BSIZE - p mod BSIZE"
proof -
  obtain c where "p = c + p mod BSIZE" "q = c + q mod BSIZE" using assms by (metis div_mult_mod_eq)
  then show "p \<le> q \<and> q < p + m \<longleftrightarrow> p mod BSIZE \<le> q mod BSIZE \<and> q mod BSIZE < p mod BSIZE + m" "q - p = q mod BSIZE - p mod BSIZE"
    by linarith+
qed

lemma bread_at_mapped:
  assumes t: "in_tx {} k s" and d: "i_dev (f_inode s i) = ROOTDEV" and p: "p < MAXFILE * BSIZE" "dblock s i (p div BSIZE) \<noteq> 0"
  obtains bp s' where "bread_at i p s = Ok (bp, s')" "in_tx {dblock s i (p div BSIZE)} k s'" "holds s' (dblock s i (p div BSIZE)) bp"
    "content s' = content s" "same_rest s s'"
proof -
  obtain s1 where 1: "bmap i (p div BSIZE) s = Ok (dblock s i (p div BSIZE), s1)" "in_tx {} k s1" "content s1 = content s" "same_rest s s1"
    by (rule bmap_mapped [OF t d block_of [OF p(1)] p(2)])
  obtain bp s2 where 2: "fs_bread ROOTDEV (dblock s i (p div BSIZE)) s1 = Ok (bp, s2)" "in_tx {dblock s i (p div BSIZE)} k s2"
    "holds s2 (dblock s i (p div BSIZE)) bp" "content s2 = content s1" "same_rest s1 s2"
    by (rule tx_bread0 [OF 1(2)])
  show thesis using that [of bp s2] 1 2 d same_restD(2) [OF 1(4)] same_rest_trans [OF 1(4) 2(5)] by (simp add: bread_at_def)
qed

lemma readi_loop_object:
  assumes "in_tx {} k s" "i_dev (f_inode s i) = ROOTDEV" "off + n \<le> MAXFILE * BSIZE" "tot \<le> n"
    "\<forall>p. off + tot \<le> p \<and> p < off + n \<longrightarrow> dblock s i (p div BSIZE) \<noteq> 0"
  shows "\<exists>s'. readi_loop i (Object j) off n tot obj s =
      Ok (int n, \<lambda>x. if j + tot \<le> x \<and> x < j + n then file_byte s i (off + (x - j)) else obj x, s') \<and>
    in_tx {} k s' \<and> content s' = content s \<and> same_rest s s'"
  using assms
proof (induction i "Object j" off n tot obj s rule: readi_loop.induct)
  case (1 i off n tot obj s)
  note t = "1.prems"(1) and d = "1.prems"(2) and mx = "1.prems"(3) and mp = "1.prems"(5)
  show ?case
  proof (cases "tot < n")
    case False
    then have "(\<lambda>x. if j + tot \<le> x \<and> x < j + n then file_byte s i (off + (x - j)) else obj x) = obj" by (auto simp: fun_eq_iff)
    then show ?thesis using False t "1.prems"(4) by (subst readi_loop.simps) simp
  next
    case True
    let ?p = "off + tot" and ?m = "span (n - tot) (off + tot)"
    let ?a = "dblock s i (?p div BSIZE)"
    have p: "?p < MAXFILE * BSIZE" "?a \<noteq> 0" using True mx mp by auto
    obtain bp s1 where r: "bread_at i ?p s = Ok (bp, s1)" "in_tx {?a} k s1" "holds s1 ?a bp" "content s1 = content s" "same_rest s s1"
      by (rule bread_at_mapped [OF t d p])
    obtain s2 where e: "fs_brelse bp s1 = Ok s2" "in_tx {} k s2" "content s2 = content s1" "same_rest s1 s2"
      by (rule tx_brelse0 [OF r(2,3)])
    let ?obj = "move_bytes obj (j + tot) (\<lambda>k. fs_data bp s1 (?p mod BSIZE + k)) 0 ?m"
    have cp: "copy_to (advance (Object j) tot) (\<lambda>k. fs_data bp s1 (?p mod BSIZE + k)) ?m obj s1 = Ok (0, ?obj, s1)" by simp
    have rest: "same_rest s s2" by (rule same_rest_trans [OF r(5) e(4)])
    note E = same_restD [OF rest]
    have c2: "content s2 = content s" using r(4) e(3) by simp
    note fb = file_cong [OF E(2) c2]
    have m: "?m \<le> n - tot" by (simp add: span_def)
    obtain s' where ih: "readi_loop i (Object j) off n (tot + ?m) ?obj s2 =
        Ok (int n, \<lambda>x. if j + (tot + ?m) \<le> x \<and> x < j + n then file_byte s2 i (off + (x - j)) else ?obj x, s')"
      "in_tx {} k s'" "content s' = content s2" "same_rest s2 s'"
      using "1.hyps" [OF True r(1) refl refl cp refl refl e(1) _ e(2)] E(2) d mx mp m True fb by fastforce
    have "(if j + (tot + ?m) \<le> x \<and> x < j + n then file_byte s2 i (off + (x - j)) else ?obj x) =
        (if j + tot \<le> x \<and> x < j + n then file_byte s i (off + (x - j)) else obj x)" for x
    proof (cases "j + tot \<le> x \<and> x < j + tot + ?m")
      case T: True
      then have x: "x - j - tot < span (n - tot) ?p" "off + (x - j) = ?p + (x - j - tot)" by auto
      have "file_byte s i (off + (x - j)) = content s ?a (?p mod BSIZE + (x - j - tot))"
        unfolding x(2) file_byte_def Let_def span_block(1,2) [OF x(1)] using p(2) by simp
      also have "\<dots> = fs_data bp s1 (?p mod BSIZE + (x - j - tot))"
        using holds_byte [OF r(2,3)] span_block(3) [OF x(1)] r(4) by simp
      finally show ?thesis using T m by (auto simp: move_bytes_def)
    next
      case F: False
      then show ?thesis using fb m by (auto simp: move_bytes_def)
    qed
    then have ob: "(\<lambda>x. if j + (tot + ?m) \<le> x \<and> x < j + n then file_byte s2 i (off + (x - j)) else ?obj x) =
        (\<lambda>x. if j + tot \<le> x \<and> x < j + n then file_byte s i (off + (x - j)) else obj x)" by (rule ext)
    have "readi_loop i (Object j) off n tot obj s = readi_loop i (Object j) off n (tot + ?m) ?obj s2"
      using True r(1) e(1) by (subst readi_loop.simps) (simp add: Let_def)
    then show ?thesis using ih(1) [unfolded ob] ih(2-4) c2 same_rest_trans [OF rest ih(4)] by simp
  qed
qed

text \<open>
  A file: distinct allocated blocks, none missing below the size, and its inode on the disk.
  Its contents are a list of bytes.
\<close>

definition file_ok :: "fs \<Rightarrow> nat \<Rightarrow> bool" where
  "file_ok s i \<longleftrightarrow> blocks_ok s i \<and> i_inum (f_inode s i) < sb_ninodes (f_sb s) \<and> unat (i_size (f_inode s i)) \<le> MAXFILE * BSIZE \<and>
     (\<forall>p < unat (i_size (f_inode s i)). dblock s i (p div BSIZE) \<noteq> 0)"

definition afile :: "fs \<Rightarrow> nat \<Rightarrow> u8 list" where
  "afile s i = map (file_byte s i) [0..<unat (i_size (f_inode s i))]"

text \<open>A directory or device, or a file that does not look compressed.\<close>

definition plain :: "fs \<Rightarrow> nat \<Rightarrow> bool" where
  "plain s i \<longleftrightarrow> i_type (f_inode s i) \<noteq> T_FILE \<or> dblock s i 0 \<noteq> 0 \<and> get32 (content s (dblock s i 0)) 4 \<noteq> 1"

definition store_at :: "bytes \<Rightarrow> nat \<Rightarrow> u8 list \<Rightarrow> bytes" where
  "store_at d j xs = (\<lambda>x. if j \<le> x \<and> x < j + length xs then xs ! (x - j) else d x)"

lemma length_afile [simp]: "length (afile s i) = unat (i_size (f_inode s i))"
  by (simp add: afile_def)

lemma afile_nth [simp]: "p < unat (i_size (f_inode s i)) \<Longrightarrow> afile s i ! p = file_byte s i p"
  by (simp add: afile_def)

lemma unat_add32: "unat a + unat b < 2 ^ 32 \<Longrightarrow> unat (a + b) = unat a + unat b" for a b :: u32
  by (simp add: unat_word_ariths take_bit_nat_eq_self unsigned_less)

lemma readi_check:
  fixes off n sz :: u32
  assumes "unat off + unat n < 2 ^ 32" "unat off \<le> unat sz"
  shows "\<not> off > sz" "\<not> off + n < off" "unat (if off + n > sz then sz - off else n) = min (unat n) (unat sz - unat off)"
proof -
  note u = unat_add32 [OF assms(1)]
  show "\<not> off > sz" using assms(2) by (simp add: word_less_nat_alt)
  show "\<not> off + n < off" using u by (simp add: word_less_nat_alt)
  have "unat (sz - off) = unat sz - unat off" using assms(2) by (simp add: unat_sub word_le_nat_alt)
  then show "unat (if off + n > sz then sz - off else n) = min (unat n) (unat sz - unat off)"
    using u assms(2) by (auto simp: word_less_nat_alt)
qed

lemma readi_ok:
  assumes t: "in_tx {} k s" and f: "file_ok s i" "plain s i" and o: "unat off \<le> unat (i_size (f_inode s i))" "unat off + unat n < 2 ^ 32"
    and d: "d = take (unat n) (drop (unat off) (afile s i))"
  obtains s' where "readi i (Object j) off n obj s = Ok (int (length d), store_at obj j d, s')" "in_tx {} k s'" "content s' = content s" "same_rest s s'"
proof -
  let ?ip = "f_inode s i" let ?n = "if off + n > i_size ?ip then i_size ?ip - off else n"
  note C = readi_check [OF o(2,1)]
  have b: "i_dev ?ip = ROOTDEV" and mp: "\<forall>p < unat (i_size ?ip). dblock s i (p div BSIZE) \<noteq> 0" and mx: "unat (i_size ?ip) \<le> MAXFILE * BSIZE"
    using f(1) by (auto simp: file_ok_def blocks_ok_def)
  have m: "unat off + unat ?n \<le> unat (i_size ?ip)" "length d = unat ?n" unfolding C(3) using o(1) by (simp_all add: d)
  have loop: "\<exists>s'. readi_loop i (Object j) (unat off) (unat ?n) 0 obj s1 = Ok (int (length d), store_at obj j d, s') \<and>
      in_tx {} k s' \<and> content s' = content s \<and> same_rest s s'"
    if s1: "in_tx {} k s1" "content s1 = content s" "same_rest s s1" for s1
  proof -
    note E = same_restD [OF s1(3)]
    note fc = file_cong [OF E(2) s1(2)]
    have "\<exists>s'. readi_loop i (Object j) (unat off) (unat ?n) 0 obj s1 =
        Ok (int (unat ?n), \<lambda>x. if j + 0 \<le> x \<and> x < j + unat ?n then file_byte s1 i (unat off + (x - j)) else obj x, s') \<and>
      in_tx {} k s' \<and> content s' = content s1 \<and> same_rest s1 s'"
      by (rule readi_loop_object [OF s1(1)]) (use b mp mx m fc E(2) in auto)
    moreover have "(\<lambda>x. if j + 0 \<le> x \<and> x < j + unat ?n then file_byte s1 i (unat off + (x - j)) else obj x) = store_at obj j d"
      using m fc(2) by (auto simp: store_at_def fun_eq_iff d)
    ultimately show ?thesis using s1(2) same_rest_trans [OF s1(3)] m(2) by auto
  qed
  show thesis
  proof (cases "i_type ?ip = T_FILE")
    case False
    then show thesis using that loop [OF t refl same_rest_refl] C by (auto simp: readi_def Let_def)
  next
    case True
    then have z: "dblock s i (0 div BSIZE) \<noteq> 0" "get32 (content s (dblock s i 0)) 4 \<noteq> 1" "(0::nat) < MAXFILE * BSIZE"
      using f(2) by (auto simp: plain_def MAXFILE_def NDIRECT_def BSIZE_def)
    obtain bp s1 where r: "bread_at i 0 s = Ok (bp, s1)" "in_tx {dblock s i (0 div BSIZE)} k s1" "holds s1 (dblock s i (0 div BSIZE)) bp"
      "content s1 = content s" "same_rest s s1"
      by (rule bread_at_mapped [OF t b z(3,1)])
    obtain s2 where e: "fs_brelse bp s1 = Ok s2" "in_tx {} k s2" "content s2 = content s1" "same_rest s1 s2"
      by (rule tx_brelse0 [OF r(2,3)])
    have "get32 (fs_data bp s1) 4 \<noteq> 1"
      using get32_blk [of 4 "fs_data bp s1"] holds_data [OF r(2,3)] r(4) z(2) by (simp add: BSIZE_def)
    then have "readi i (Object j) off n obj s = readi_loop i (Object j) (unat off) (unat ?n) 0 obj s2"
      using True C(1,2) r(1) e(1) by (simp add: readi_def Let_def)
    then show thesis using that loop [OF e(2) _ same_rest_trans [OF r(5) e(4)]] e(3) r(4) by auto
  qed
qed

section \<open>Writing\<close>

text \<open>A change of one file: other files keep their blocks, and the file loses none of its own.\<close>

definition fext :: "nat \<Rightarrow> fs \<Rightarrow> fs \<Rightarrow> bool" where
  "fext i s t \<longleftrightarrow> same_env s t \<and> (\<exists>A. f_inode t = (f_inode s)(i := (f_inode s i)\<lparr>i_addrs := A\<rparr>)) \<and> grows (own s i) s t \<and> blocks_ok t i \<and>
     (\<forall>b < MAXFILE. dblock s i b \<noteq> 0 \<longrightarrow> dblock t i b \<noteq> 0) \<and> (\<forall>b \<in> own t i. data_block s b \<longrightarrow> b \<in> own s i)"

lemma fext_refl: "layout_ok s \<Longrightarrow> blocks_ok s i \<Longrightarrow> fext i s s"
  unfolding fext_def using grows_same [of s s] by (auto intro!: exI [of _ "i_addrs (f_inode s i)"])

lemma fext_trans:
  assumes s: "fext i s t" and t: "fext i t u"
  shows "fext i s u"
proof -
  have sb: "f_sb t = f_sb s" using s by (simp add: fext_def same_env_def)
  have g: "grows (own s i) s t" "grows (own t i) t u" using s t by (auto simp: fext_def)
  have "grows (own s i) s u"
    unfolding grows_def
  proof (intro conjI allI impI ballI)
    show "layout_ok u" using g(2) by (simp add: grows_def)
    fix b assume b: "data_block s b"
    then show "data_block u b" using g by (simp add: grows_def)
    assume "b \<notin> own s i"
    then have "b \<notin> own t i" using s b by (auto simp: fext_def)
    then show "content u b = content s b" using g b \<open>b \<notin> own s i\<close> by (simp add: grows_def)
  next
    fix b assume "b \<in> inode_blocks (f_sb s)"
    then show "content u b = content s b" using g sb by (simp add: grows_def)
  qed
  moreover have "\<exists>A. f_inode u = (f_inode s)(i := (f_inode s i)\<lparr>i_addrs := A\<rparr>)" using s t by (auto simp: fext_def)
  moreover have "b \<in> own s i" if "b \<in> own u i" "data_block s b" for b
    using s t that g(1) unfolding fext_def grows_def by blast
  ultimately show ?thesis using s t same_env_trans unfolding fext_def by blast
qed

lemma bmapped_fext:
  assumes m: "bmapped i bn a s t" and bn: "bn < MAXFILE"
  shows "fext i s t"
proof -
  have "i_addrs (f_inode s i) NDIRECT \<in> own s i" unfolding own_def by (rule image_eqI [of _ _ NDIRECT]) simp_all
  then have "grows (own s i) s t" using m grows_mono [of "{i_addrs (f_inode s i) NDIRECT}" s t "own s i"] by (simp add: bmapped_def)
  moreover have "dblock t i b \<noteq> 0" if "b < MAXFILE" "dblock s i b \<noteq> 0" for b
    using m that by (cases "b = bn") (auto simp: bmapped_def)
  ultimately show ?thesis using m by (simp add: fext_def bmapped_def)
qed

lemma write_fext:
  assumes l: "layout_ok s" and b: "blocks_ok s i" and bn: "bn < MAXFILE" "dblock s i bn \<noteq> 0"
    and t: "content t = (content s)(dblock s i bn := d)" "same_rest s t"
  shows "fext i s t" "nfree t = nfree s" "dblock t i = dblock s i"
proof -
  let ?a = "dblock s i bn"
  note E = same_restD [OF t(2)] and D = dblock_data [OF b bn]
  note W = grows_write [OF l D(1) t(1) E(1,5)]
  have sl: "slot (f_inode t i) (content t) = slot (f_inode s i) (content s)" using D(2) by (auto simp: slot_def E(2) t(1) fun_eq_iff)
  then show db: "dblock t i = dblock s i" by (simp add: dblock_def fun_eq_iff)
  have ow: "own t i = own s i" using sl by (simp add: own_def)
  have "blocks_ok t i" using b W(3) sl by (simp add: blocks_ok_def slots_ok_def E(2))
  moreover have "\<exists>A. f_inode t = (f_inode s)(i := (f_inode s i)\<lparr>i_addrs := A\<rparr>)"
    by (rule exI [of _ "i_addrs (f_inode s i)"]) (use E(2) in simp)
  moreover have "grows (own s i) s t" by (rule grows_mono [OF W(1)]) (use D(3) in simp)
  ultimately show "fext i s t" using same_rest_env [OF t(2)] db ow by (simp add: fext_def)
  show "nfree t = nfree s" by (rule W(2))
qed

lemma write_block:
  assumes t: "in_tx {} (k + 6) s" and l: "layout_ok s" and b: "blocks_ok s i" and f: "2 \<le> nfree s"
    and p: "p < MAXFILE * BSIZE" "p mod BSIZE + m \<le> BSIZE" and F: "\<And>d q. q < m \<Longrightarrow> F d q = y q"
  obtains bp s1 s2 where "bread_at i p s = Ok (bp, s1)"
    "fs_update bp (move_bytes (fs_data bp s1) (p mod BSIZE) (F (fs_data bp s1)) 0 m) s1 = Ok s2" "in_tx {} k s2" "fext i s s2"
    "nfree s \<le> nfree s2 + 2" "dblock s2 i (p div BSIZE) \<noteq> 0"
    "\<forall>q < MAXFILE * BSIZE. file_byte s2 i q = (if p \<le> q \<and> q < p + m then y (q - p) else file_byte s i q)"
proof -
  let ?bn = "p div BSIZE"
  note bn = block_of [OF p(1)]
  have t': "in_tx {} (Suc k + 5) s" using t by (simp add: eval_nat_numeral)
  obtain a s0 where 0: "bmap i ?bn s = Ok (a, s0)" "in_tx {} (Suc k) s0" "bmapped i ?bn a s s0"
    by (rule bmap_ok [OF t' l b f bn])
  have a: "a \<noteq> 0" "dblock s0 i ?bn = a" "layout_ok s0" "blocks_ok s0 i" "nfree s \<le> nfree s0 + 2" "i_dev (f_inode s0 i) = ROOTDEV"
    using 0(3) by (auto simp: bmapped_def grows_def blocks_ok_def)
  have z: "dblock s0 i ?bn \<noteq> 0" using a by simp
  obtain bp s1 where 1: "fs_bread ROOTDEV a s0 = Ok (bp, s1)" "in_tx {a} (Suc k) s1" "holds s1 a bp" "content s1 = content s0" "same_rest s0 s1"
    by (rule tx_bread0 [OF 0(2)])
  let ?d = "move_bytes (fs_data bp s1) (p mod BSIZE) (F (fs_data bp s1)) 0 m"
  have hm: "a \<in> home s1" using dblock_data(1) [OF a(4) bn z] a(2) same_restD(5) [OF 1(5)] by (simp add: data_block_def)
  obtain s2 where 2: "fs_update bp ?d s1 = Ok s2" "in_tx {} k s2" "content s2 = (content s1)(a := blk ?d)" "same_rest s1 s2"
    by (rule tx_update0 [OF 1(2) hm 1(3)])
  have D: "same_rest s0 s2" by (rule same_rest_trans [OF 1(5) 2(4)])
  have c2: "content s2 = (content s0)(dblock s0 i ?bn := blk ?d)" using 2(3) 1(4) a(2) by simp
  note W = write_fext [OF a(3,4) bn z c2 D]
  have "bread_at i p s = Ok (bp, s1)" using 0(1) 1(1) a(6) by (simp add: bread_at_def)
  moreover have "file_byte s2 i q = (if p \<le> q \<and> q < p + m then y (q - p) else file_byte s i q)" if q: "q < MAXFILE * BSIZE" for q
  proof (cases "q div BSIZE = ?bn")
    case True
    have "file_byte s2 i q = blk ?d (q mod BSIZE)" using True W(3) a c2 by (simp add: file_byte_def)
    moreover have "blk (fs_data bp s1) = content s0 a" using holds_data [OF 1(2,3)] 1(4) by simp
    then have "blk (fs_data bp s1) (q mod BSIZE) = file_byte s i q"
      using bmapped_byte [OF 0(3) b q] True a by (simp add: file_byte_def)
    moreover have "p \<le> q \<and> q < p + m \<longleftrightarrow> p mod BSIZE \<le> q mod BSIZE \<and> q mod BSIZE < p mod BSIZE + m" "q - p = q mod BSIZE - p mod BSIZE"
      using same_block [OF True] by auto
    moreover have "q mod BSIZE < BSIZE" by (simp add: BSIZE_def)
    ultimately show ?thesis using F [of "q mod BSIZE - p mod BSIZE"] by (auto simp: move_bytes_def blk_def)
  next
    case False
    then have "dblock s0 i (q div BSIZE) = 0 \<or> dblock s0 i (q div BSIZE) \<noteq> a" using dblock_inj [OF a(4) block_of [OF q] bn] a(2) by auto
    then have "file_byte s2 i q = file_byte s0 i q" using W(3) c2 a(2) by (auto simp: file_byte_def Let_def)
    moreover have "\<not> (p \<le> q \<and> q < p + m)"
    proof
      assume "p \<le> q \<and> q < p + m"
      then have "q - p < span m p" "q = p + (q - p)" using p(2) by (auto simp: span_def)
      then show False using span_block(1) [of "q - p" m p] False by simp
    qed
    ultimately show ?thesis using bmapped_byte [OF 0(3) b q] by auto
  qed
  ultimately show thesis
    using that [of bp s1 s2] 2(1,2) fext_trans [OF bmapped_fext [OF 0(3) bn] W(1)] W(2,3) a(5) z by simp
qed

text \<open>The number of blocks that \<open>m\<close> bytes from \<open>p\<close> touch.\<close>

definition nblk :: "nat \<Rightarrow> nat \<Rightarrow> nat" where
  "nblk p m = (p mod BSIZE + m + (BSIZE - 1)) div BSIZE"

lemma nblk_step:
  assumes "0 < n"
  shows "nblk p n \<ge> (if span n p = n then 1 else nblk (p + span n p) (n - span n p) + 1)"
proof -
  have B: "0 < BSIZE" "p mod BSIZE < BSIZE" by (simp_all add: BSIZE_def)
  show ?thesis
  proof (cases "span n p = n")
    case True
    have "1 * BSIZE \<le> p mod BSIZE + n + (BSIZE - 1)" using assms B by linarith
    then show ?thesis using True B less_eq_div_iff_mult_less_eq [of BSIZE 1] by (simp add: nblk_def)
  next
    case False
    then have s: "span n p = BSIZE - p mod BSIZE" "BSIZE - p mod BSIZE < n" by (auto simp: span_def split: if_splits)
    let ?y = "n - span n p + (BSIZE - 1)"
    have z: "(p + span n p) mod BSIZE = 0"
      using s(1) B(2) by (metis add.commute le_add_diff_inverse less_imp_le mod_add_left_eq mod_self)
    have y: "p mod BSIZE + n + (BSIZE - 1) = ?y + BSIZE" using s B by linarith
    have "nblk p n = ?y div BSIZE + 1" unfolding nblk_def y using B(1) by (simp only: div_add_self2)
    moreover have "nblk (p + span n p) (n - span n p) = ?y div BSIZE" unfolding nblk_def z by simp
    ultimately show ?thesis using False by simp
  qed
qed

lemma writei_loop_object:
  assumes "in_tx {} (k + 6 * nblk (off + tot) (n - tot)) s" "layout_ok s" "blocks_ok s i" "2 * nblk (off + tot) (n - tot) \<le> nfree s"
    "off + n \<le> MAXFILE * BSIZE" "tot \<le> n"
  shows "\<exists>s'. writei_loop i (Object j) off n tot obj s = Ok (n, s') \<and> in_tx {} k s' \<and> fext i s s' \<and>
    (\<forall>q < MAXFILE * BSIZE. file_byte s' i q = (if off + tot \<le> q \<and> q < off + n then obj (j + (q - off)) else file_byte s i q)) \<and>
    (\<forall>q. off + tot \<le> q \<and> q < off + n \<longrightarrow> dblock s' i (q div BSIZE) \<noteq> 0)"
  using assms
proof (induction i "Object j" off n tot obj s rule: writei_loop.induct)
  case (1 i off n tot obj s)
  note t = "1.prems"(1) and l = "1.prems"(2) and b = "1.prems"(3) and fr = "1.prems"(4) and mx = "1.prems"(5)
  show ?case
  proof (cases "tot < n")
    case False
    then have "tot = n" using "1.prems"(6) by simp
    then show ?thesis using in_tx_weaken [OF t] fext_refl [OF l b] by (subst writei_loop.simps) auto
  next
    case True
    let ?p = "off + tot" and ?m = "span (n - tot) (off + tot)"
    let ?r = "nblk (?p + ?m) (n - tot - ?m)"
    have m: "?m \<le> n - tot" "?p mod BSIZE + ?m \<le> BSIZE" "?p < MAXFILE * BSIZE" using True mx mod_less_divisor [of BSIZE ?p] by (auto simp: span_def BSIZE_def)
    have nb: "nblk ?p (n - tot) \<ge> (if ?m = n - tot then 1 else ?r + 1)" using nblk_step [of "n - tot" ?p] True by simp
    define K where "K = (if ?m = n - tot then k else k + 6 * ?r)"
    have t': "in_tx {} (K + 6) s" using in_tx_weaken [OF t, of "K + 6"] nb by (auto simp: K_def split: if_splits)
    have f': "2 \<le> nfree s" using fr nb by (auto split: if_splits)
    let ?F = "\<lambda>d. move_bytes (\<lambda>k. d (?p mod BSIZE + k)) 0 obj (j + tot) ?m"
    obtain bp s1 s2 where r: "bread_at i ?p s = Ok (bp, s1)"
      "fs_update bp (move_bytes (fs_data bp s1) (?p mod BSIZE) (?F (fs_data bp s1)) 0 ?m) s1 = Ok s2" "in_tx {} K s2" "fext i s s2"
      "nfree s \<le> nfree s2 + 2" "dblock s2 i (?p div BSIZE) \<noteq> 0"
      "\<forall>q < MAXFILE * BSIZE. file_byte s2 i q = (if ?p \<le> q \<and> q < ?p + ?m then obj (j + tot + (q - ?p)) else file_byte s i q)"
      by (rule write_block [OF t' l b f' m(3,2), of ?F "\<lambda>q. obj (j + tot + q)"]) (simp add: move_bytes_def)
    have e: "layout_ok s2" "blocks_ok s2 i" using r(4) by (auto simp: fext_def grows_def)
    have step: "writei_loop i (Object j) off n tot obj s = writei_loop i (Object j) off n (tot + ?m) obj s2"
      using True r(1,2) by (subst writei_loop.simps) (simp add: Let_def fs_update_def obind_assoc [symmetric])
    have mp: "dblock s2 i (q div BSIZE) \<noteq> 0" if "?p \<le> q" "q < ?p + ?m" for q
      using span_block(1) [of "q - ?p" "n - tot" ?p] that r(6) by simp
    show ?thesis
    proof (cases "?m = n - tot")
      case M: True
      then have "writei_loop i (Object j) off n tot obj s = Ok (n, s2)" unfolding step using True by (subst writei_loop.simps) simp
      moreover have "obj (j + tot + (q - ?p)) = obj (j + (q - off))" if "?p \<le> q" for q using that by simp
      ultimately show ?thesis using r(3,4,7) mp M True by (intro exI [of _ s2]) (auto simp: K_def)
    next
      case M: False
      have cp: "copy_from (\<lambda>k. fs_data bp s1 (?p mod BSIZE + k)) (advance (Object j) tot) ?m obj s1 = Ok (0, ?F (fs_data bp s1))" by simp
      obtain sx where lw: "fs_log_write bp (fs_set bp (move_bytes (fs_data bp s1) (?p mod BSIZE) (?F (fs_data bp s1)) 0 ?m) s1) = Ok sx" "fs_brelse bp sx = Ok s2"
        using r(2) unfolding fs_update_def obind_Ok_iff by blast
      have q: "off + (tot + ?m) = ?p + ?m" "n - (tot + ?m) = n - tot - ?m" by simp_all
      have t2: "in_tx {} (k + 6 * nblk (off + (tot + ?m)) (n - (tot + ?m))) s2" unfolding q using r(3) M by (simp add: K_def)
      have fr2: "2 * nblk (off + (tot + ?m)) (n - (tot + ?m)) \<le> nfree s2" unfolding q using r(5) fr nb M by simp
      have ih: "\<exists>s'. writei_loop i (Object j) off n (tot + ?m) obj s2 = Ok (n, s') \<and> in_tx {} k s' \<and> fext i s2 s' \<and>
        (\<forall>q < MAXFILE * BSIZE. file_byte s' i q = (if off + (tot + ?m) \<le> q \<and> q < off + n then obj (j + (q - off)) else file_byte s2 i q)) \<and>
        (\<forall>q. off + (tot + ?m) \<le> q \<and> q < off + n \<longrightarrow> dblock s' i (q div BSIZE) \<noteq> 0)"
        using "1.hyps" [OF True r(1) refl refl refl refl cp refl refl _ lw] t2 e fr2 mx m(1) True by simp
      then obtain s' where ih: "writei_loop i (Object j) off n (tot + ?m) obj s2 = Ok (n, s')" "in_tx {} k s'" "fext i s2 s'"
        "\<forall>q < MAXFILE * BSIZE. file_byte s' i q = (if off + (tot + ?m) \<le> q \<and> q < off + n then obj (j + (q - off)) else file_byte s2 i q)"
        "\<forall>q. off + (tot + ?m) \<le> q \<and> q < off + n \<longrightarrow> dblock s' i (q div BSIZE) \<noteq> 0" by blast
      have "dblock s' i (q div BSIZE) \<noteq> 0" if "?p \<le> q" "q < off + n" for q
      proof (cases "q < ?p + ?m")
        case T: True
        moreover have "q div BSIZE < MAXFILE" using that mx block_of [of q] by simp
        ultimately show ?thesis using mp that ih(3) by (auto simp: fext_def)
      qed (use ih(5) that in auto)
      moreover have "file_byte s' i q = (if ?p \<le> q \<and> q < off + n then obj (j + (q - off)) else file_byte s i q)" if "q < MAXFILE * BSIZE" for q
        using that ih(4) r(7) m(1) by (auto simp: add.assoc)
      ultimately show ?thesis using step ih(1,2) fext_trans [OF r(4) ih(3)] by (intro exI [of _ s']) simp
    qed
  qed
qed

text \<open>The inode of number \<open>m\<close> on the disk, over the fields of \<open>jp\<close> that are only in memory.\<close>

definition dinode :: "fs \<Rightarrow> u32 \<Rightarrow> inode \<Rightarrow> inode" where
  "dinode s m jp = get_dinode (content s (IBLOCK m (f_sb s))) (dinode_at m) jp"

lemma iupdate_ok:
  assumes t: "in_tx {} (Suc k) s" and l: "layout_ok s" and ip: "i_dev (f_inode s i) = ROOTDEV" "i_inum (f_inode s i) < sb_ninodes (f_sb s)"
  obtains s' where "iupdate i s = Ok s'" "in_tx {} k s'" "same_rest s s'" "layout_ok s'" "\<forall>b. data_block s' b = data_block s b"
    "\<forall>b. b \<notin> inode_blocks (f_sb s) \<longrightarrow> content s' b = content s b" "nfree s' = nfree s"
    "\<forall>m jp. dinode s' m jp = (if m = i_inum (f_inode s i) then get_dinode (put_dinode (f_inode s i) 0 (\<lambda>_. 0)) 0 jp else dinode s m jp)"
proof -
  let ?ip = "f_inode s i" let ?n = "IBLOCK (i_inum ?ip) (f_sb s)" and ?k = "dinode_at (i_inum ?ip)"
  have ib: "?n \<in> inode_blocks (f_sb s)" using ip(2) by (auto simp: inode_blocks_def)
  then have "?n \<in> home s" using l by (auto simp: layout_ok_def)
  then obtain s' where r: "iupdate i s = Ok s'" "in_tx {} k s'" "same_rest s s'"
    "content s' = (content s)(?n := put_dinode ?ip ?k (content s ?n))"
    by (rule iupdate_spec [OF t ip(1)])
  note E = same_restD [OF r(3)]
  have nb: "?n \<notin> bitmap_blocks (f_sb s)" using l ib by (auto simp: layout_ok_def)
  have u: "used (f_sb s) (content s') b = used (f_sb s) (content s) b" if "b < unat (sb_size (f_sb s))" for b
    using used_upd [OF nb that] r(4) by simp
  have "layout_ok s'" using l u E by (auto simp: layout_ok_def)
  moreover have "data_block s' b = data_block s b" for b using u E by (auto simp: data_block_def)
  moreover have "nfree s' = nfree s"
    unfolding nfree_def E(1) by (rule arg_cong [where f = card]) (use u in auto)
  moreover have "dinode s' m jp = (if m = i_inum ?ip then get_dinode (put_dinode ?ip 0 (\<lambda>_. 0)) 0 jp else dinode s m jp)" for m jp
    using dinode_disjoint [of "i_inum ?ip" m "f_sb s"] put_dinode_outside [of _ ?k ?ip "content s ?n"]
    by (auto simp: dinode_def E(1) r(4) dinode_roundtrip intro!: get_dinode_cong)
  ultimately show thesis using that [of s'] r ib by auto
qed

text \<open>The inode in memory and on disk agree; and a change of file \<open>i\<close> that leaves the rest alone.\<close>

definition on_disk :: "fs \<Rightarrow> nat \<Rightarrow> bool" where
  "on_disk s i \<longleftrightarrow> dinode s (i_inum (f_inode s i)) (f_inode s i) = f_inode s i"

definition only_file :: "nat \<Rightarrow> fs \<Rightarrow> fs \<Rightarrow> bool" where
  "only_file i s t \<longleftrightarrow> same_env s t \<and> (\<exists>A z. f_inode t = (f_inode s)(i := (f_inode s i)\<lparr>i_addrs := A, i_size := z\<rparr>)) \<and>
     (\<forall>b. data_block s b \<longrightarrow> data_block t b \<and> (b \<notin> own s i \<longrightarrow> content t b = content s b)) \<and>
     (\<forall>m jp. m < sb_ninodes (f_sb s) \<longrightarrow> m \<noteq> i_inum (f_inode s i) \<longrightarrow> dinode t m jp = dinode s m jp)"

definition overwrite :: "'a list \<Rightarrow> nat \<Rightarrow> 'a list \<Rightarrow> 'a list" where
  "overwrite xs k ys = take k xs @ ys @ drop (k + length ys) xs"

lemma overwrite_nth:
  assumes "k \<le> length xs"
  shows "length (overwrite xs k ys) = max (length xs) (k + length ys)"
    "p < max (length xs) (k + length ys) \<Longrightarrow> overwrite xs k ys ! p = (if k \<le> p \<and> p < k + length ys then ys ! (p - k) else xs ! p)"
  using assms by (auto simp: overwrite_def nth_append min_def)

lemma roundtrip_same: "get_dinode (put_dinode ip 0 d) 0 ip = ip"
  unfolding dinode_roundtrip by (rule inode.equality) (simp_all add: fun_eq_iff)

lemma inode_block_other: "layout_ok s \<Longrightarrow> data_block s b \<Longrightarrow> b \<notin> inode_blocks (f_sb s)"
  by (simp add: data_block_def)

text \<open>Storing the size and writing the inode, once the data are in their blocks.\<close>

lemma writei_finish:
  assumes t: "in_tx {} (Suc k) s1" and f: "file_ok s i" and e: "fext i s s1"
    and z: "z = max (unat (i_size (f_inode s i))) w" "w \<le> MAXFILE * BSIZE"
    and m: "\<forall>p. p < z \<longrightarrow> dblock s1 i (p div BSIZE) \<noteq> 0"
    and s2: "s2 = (if w > unat (i_size (f_inode s1 i)) then iset i (\<lambda>ip. ip\<lparr>i_size := of_nat w\<rparr>) s1 else s1)"
  obtains s' where "iupdate i s2 = Ok s'" "in_tx {} k s'" "layout_ok s'" "file_ok s' i" "on_disk s' i" "only_file i s s'"
    "unat (i_size (f_inode s' i)) = z" "\<forall>p. p < MAXFILE * BSIZE \<longrightarrow> file_byte s' i p = file_byte s1 i p"
proof -
  obtain A where A: "f_inode s1 = (f_inode s)(i := (f_inode s i)\<lparr>i_addrs := A\<rparr>)" using e by (auto simp: fext_def)
  have b1: "blocks_ok s1 i" "layout_ok s1" "same_env s s1" "f_sb s1 = f_sb s" using e by (auto simp: fext_def grows_def same_env_def)
  have mx: "MAXFILE * BSIZE < 2 ^ 32" by (simp add: MAXFILE_def NDIRECT_def NINDIRECT_def BSIZE_def)
  have zz: "i_size (f_inode s2 i) = of_nat z" "f_inode s2 = (f_inode s)(i := (f_inode s i)\<lparr>i_addrs := A, i_size := of_nat z\<rparr>)"
    using s2 A z(1) by (auto simp: max_def)
  have uz: "unat (i_size (f_inode s2 i)) = z" "z \<le> MAXFILE * BSIZE"
    using z f mx unfolding zz(1) by (auto simp: unat_of_nat file_ok_def take_bit_nat_eq_self)
  have c2: "content s2 = content s1" "layout_ok s2" "in_tx {} (Suc k) s2" "\<And>b. data_block s2 b = data_block s1 b" "f_sb s2 = f_sb s" "same_env s s2"
    using s2 b1 t by auto
  have ip2: "i_dev (f_inode s2 i) = ROOTDEV" "i_inum (f_inode s2 i) = i_inum (f_inode s i)" "i_inum (f_inode s2 i) < sb_ninodes (f_sb s2)"
    "i_addrs (f_inode s2 i) = i_addrs (f_inode s1 i)"
    using f A c2(5) zz(2) by (auto simp: file_ok_def blocks_ok_def)
  obtain s' where r: "iupdate i s2 = Ok s'" "in_tx {} k s'" "same_rest s2 s'" "layout_ok s'" "\<forall>b. data_block s' b = data_block s2 b"
    "\<forall>b. b \<notin> inode_blocks (f_sb s2) \<longrightarrow> content s' b = content s2 b" "nfree s' = nfree s2"
    "\<forall>m jp. dinode s' m jp = (if m = i_inum (f_inode s2 i) then get_dinode (put_dinode (f_inode s2 i) 0 (\<lambda>_. 0)) 0 jp else dinode s2 m jp)"
    by (rule iupdate_ok [OF c2(3,2) ip2(1,3)])
  note E = same_restD [OF r(3)]
  have cd: "content s' b = content s1 b" if "data_block s1 b" for b
    using r(6) inode_block_other [OF b1(2) that] c2(1,5) b1(4) by simp
  have sl: "slot (f_inode s' i) (content s') = slot (f_inode s1 i) (content s1)"
    using blocks_ok_indirect [OF b1(1)] cd by (intro ext) (auto simp: slot_def E(2) ip2(4))
  then have db: "dblock s' i = dblock s1 i" by (simp add: dblock_def fun_eq_iff)
  have fb: "file_byte s' i p = file_byte s1 i p" if "p < MAXFILE * BSIZE" for p
    using dblock_data(1) [OF b1(1) block_of [OF that]] cd db by (auto simp: file_byte_def Let_def)
  have "blocks_ok s' i" using b1(1) r(5) c2(4) sl ip2(1) by (simp add: blocks_ok_def slots_ok_def E(2))
  then have "file_ok s' i" unfolding file_ok_def E(2) using uz m db ip2(2,3) E(1) c2(5) by simp
  moreover have "on_disk s' i" unfolding on_disk_def using r(8) roundtrip_same E(2) by simp
  moreover have "only_file i s s'"
  proof -
    have "same_env s s'" using same_env_trans [OF c2(6) same_rest_env [OF r(3)]] .
    moreover have "data_block s' b \<and> (b \<notin> own s i \<longrightarrow> content s' b = content s b)" if "data_block s b" for b
    proof -
      have b': "data_block s1 b" "b \<notin> own s i \<longrightarrow> content s1 b = content s b" using e that by (auto simp: fext_def grows_def)
      then show ?thesis using cd r(5) c2(4) by simp
    qed
    moreover have "dinode s' m jp = dinode s m jp" if "m < sb_ninodes (f_sb s)" "m \<noteq> i_inum (f_inode s i)" for m jp
    proof -
      have "IBLOCK m (f_sb s) \<in> inode_blocks (f_sb s)" using that by (auto simp: inode_blocks_def)
      then show ?thesis using r(8) ip2(2) that e c2(1,5) by (simp add: dinode_def fext_def grows_def)
    qed
    moreover have "\<exists>A z. f_inode s' = (f_inode s)(i := (f_inode s i)\<lparr>i_addrs := A, i_size := z\<rparr>)"
      by (intro exI [of _ A] exI [of _ "of_nat z"]) (simp add: E(2) zz(2))
    ultimately show ?thesis unfolding only_file_def by blast
  qed
  ultimately show thesis using that [OF r(1,2,4)] uz(1) E(2) fb by simp
qed

lemma writei_ok:
  assumes t: "in_tx {} (k + 6 * nblk (unat off) (unat n) + 1) s" and l: "layout_ok s" and f: "file_ok s i"
    and o: "unat off \<le> unat (i_size (f_inode s i))" "unat off + unat n \<le> MAXFILE * BSIZE" "2 * nblk (unat off) (unat n) \<le> nfree s"
    and p: "i_type (f_inode s i) \<noteq> T_FILE \<or> off \<noteq> 0" and d: "d = map (\<lambda>k. obj (j + k)) [0..<unat n]"
  obtains s' where "writei i (Object j) off n obj s = Ok (int (unat n), s')" "in_tx {} k s'" "layout_ok s'" "file_ok s' i" "on_disk s' i"
    "only_file i s s'" "afile s' i = overwrite (afile s i) (unat off) d"
proof -
  let ?ip = "f_inode s i" and ?off = "unat off" and ?n = "unat n"
  let ?z = "max (unat (i_size ?ip)) (?off + ?n)"
  have b: "blocks_ok s i" using f by (simp add: file_ok_def)
  have t': "in_tx {} (Suc k + 6 * nblk (?off + 0) (?n - 0)) s" using t by simp
  obtain s1 where r: "writei_loop i (Object j) ?off ?n 0 obj s = Ok (?n, s1)" "in_tx {} (Suc k) s1" "fext i s s1"
    "\<forall>q < MAXFILE * BSIZE. file_byte s1 i q = (if ?off \<le> q \<and> q < ?off + ?n then obj (j + (q - ?off)) else file_byte s i q)"
    "\<forall>q. ?off \<le> q \<and> q < ?off + ?n \<longrightarrow> dblock s1 i (q div BSIZE) \<noteq> 0"
    using writei_loop_object [OF t' l b, where j = j and obj = obj] o(2,3) by auto
  have mp: "\<forall>q. q < ?z \<longrightarrow> dblock s1 i (q div BSIZE) \<noteq> 0"
  proof (intro allI impI)
    fix q assume q: "q < ?z"
    show "dblock s1 i (q div BSIZE) \<noteq> 0"
    proof (cases "?off \<le> q \<and> q < ?off + ?n")
      case F: False
      then have "q < unat (i_size ?ip)" using q o(1) by auto
      then have "dblock s i (q div BSIZE) \<noteq> 0" "q div BSIZE < MAXFILE" using f block_of [of q] by (auto simp: file_ok_def)
      then show ?thesis using r(3) by (auto simp: fext_def)
    qed (use r(5) in auto)
  qed
  let ?s2 = "if ?off + ?n > unat (i_size (f_inode s1 i)) then iset i (\<lambda>ip. ip\<lparr>i_size := of_nat (?off + ?n)\<rparr>) s1 else s1"
  obtain s' where e: "iupdate i ?s2 = Ok s'" "in_tx {} k s'" "layout_ok s'" "file_ok s' i" "on_disk s' i" "only_file i s s'"
    "unat (i_size (f_inode s' i)) = ?z" "\<forall>p. p < MAXFILE * BSIZE \<longrightarrow> file_byte s' i p = file_byte s1 i p"
    by (rule writei_finish [OF r(2) f r(3) refl o(2) mp refl])
  have pl: "writei_plain i (Object j) ?off ?n obj s = Ok (int ?n, s')" using r(1) e(1) by (simp add: writei_plain_def Let_def)
  have mx: "MAXFILE * BSIZE < 2 ^ 32" by (simp add: MAXFILE_def NDIRECT_def NINDIRECT_def BSIZE_def)
  then have s32: "?off + ?n < 2 ^ 32" using o(2) by simp
  have "writei i (Object j) off n obj s = Ok (int ?n, s')"
    using pl p readi_check(1,2) [OF s32 o(1)] unat_add32 [OF s32] o(2) by (auto simp: writei_def Let_def)
  moreover have "afile s' i = overwrite (afile s i) ?off d"
  proof (rule nth_equalityI)
    note O = overwrite_nth [where k = ?off and xs = "afile s i" and ys = d]
    show "length (afile s' i) = length (overwrite (afile s i) ?off d)" using O(1) o(1) e(7) d by simp
    fix q assume "q < length (afile s' i)"
    then have q: "q < ?z" "q < MAXFILE * BSIZE" using e(4,7) by (auto simp: file_ok_def)
    then show "afile s' i ! q = overwrite (afile s i) ?off d ! q"
      using O(2) [of q] o(1) e(7,8) r(4) d by auto
  qed
  ultimately show thesis using that e by blast
qed

text \<open>Other files keep their contents.\<close>

lemma only_file_other:
  assumes c: "only_file i s t" and x: "x \<noteq> i" "file_ok s x" "own s x \<inter> own s i \<subseteq> {0}"
  shows "file_ok t x" "afile t x = afile s x"
proof -
  have ip: "f_inode t x = f_inode s x" using c x(1) by (auto simp: only_file_def)
  have b: "blocks_ok s x" and sb: "f_sb t = f_sb s" using x(2) c by (auto simp: file_ok_def only_file_def same_env_def)
  have f: "slots_ok s (slot (f_inode s x) (content s))" using b by (simp add: blocks_ok_def)
  have k: "data_block t a" "content t a = content s a" if "a \<in> own s x" "a \<noteq> 0" for a
  proof -
    have "data_block s a" using that slots_okD(1) [OF f] by (auto simp: own_def)
    then show "data_block t a" "content t a = content s a" using c x(3) that by (auto simp: only_file_def)
  qed
  have n: "i_addrs (f_inode s x) NDIRECT \<in> own s x" unfolding own_def by (rule image_eqI [of _ _ NDIRECT]) simp_all
  then have sl: "slot (f_inode t x) (content t) = slot (f_inode s x) (content s)" using k by (intro ext) (auto simp: slot_def ip)
  have "slots_ok t (slot (f_inode s x) (content s))"
    using f k(1) unfolding slots_ok_def own_def by blast
  then have "blocks_ok t x" using b by (simp add: blocks_ok_def ip sl [unfolded ip])
  moreover have db: "dblock t x = dblock s x" by (intro ext) (simp only: dblock_def sl)
  ultimately show "file_ok t x" using x(2) by (simp add: file_ok_def ip sb)
  have "file_byte t x p = file_byte s x p" if "p < unat (i_size (f_inode s x))" for p
  proof -
    have "p < MAXFILE * BSIZE" using that x(2) by (auto simp: file_ok_def)
    then show ?thesis using dblock_data(3) [OF b block_of] k(2) db by (auto simp: file_byte_def Let_def)
  qed
  then show "afile t x = afile s x" by (simp add: afile_def ip)
qed

section \<open>A small disk\<close>

text \<open>
  The layout that \<^verbatim>\<open>mkfs\<close> writes for 2000 blocks and 200 inodes: the log from block 2, the
  inodes from block 32, the bitmap in block 45.  Block 46, all zero, is the data block of
  inode 1, of the given type and size; the blocks from 47 on are free.
\<close>

definition demo_sb :: superblock where
  "demo_sb = \<lparr>sb_magic = FSMAGIC, sb_size = 2000, sb_nblocks = 1954, sb_ninodes = 200, sb_nlog = 30, sb_logstart = 2,
     sb_inodestart = 32, sb_bmapstart = 45\<rparr>"

definition demo_disk :: "u32 \<Rightarrow> bytes" where
  "demo_disk n j = (if n = 45 \<and> j < 5 then 255 else if n = 45 \<and> j = 5 then 127 else 0)"

definition demo_inode :: "u16 \<Rightarrow> u32 \<Rightarrow> inode" where
  "demo_inode ty z = \<lparr>i_dev = ROOTDEV, i_inum = 1, i_ref = 1, i_lock = b_lock buf0, i_valid = True, i_type = ty, i_major = 0, i_minor = 0,
     i_nlink = 1, i_size = z, i_addrs = (\<lambda>n. if n = 0 \<and> z \<noteq> 0 then 46 else 0)\<rparr>"

definition demo_fs :: "u16 \<Rightarrow> u32 \<Rightarrow> kst \<Rightarrow> log \<Rightarrow> fs" where
  "demo_fs ty z k lg = \<lparr>f_log = lg, f_sb = demo_sb, f_inode = (\<lambda>i. if i = 0 then demo_inode ty z else (demo_inode 0 0)\<lparr>i_ref := 0, i_inum := 0\<rparr>),
     f_k = k, f_huff = huff0, f_cbuf = 0, f_cinum = 0, f_clen = 0\<rparr>"

lemma log_area_demo: "n \<in> log_area 2 29 \<longleftrightarrow> 2 \<le> unat n \<and> unat n < 32"
proof -
  have "n \<in> log_area 2 29 \<longleftrightarrow> (\<exists>i<30. n = of_nat (i + 2))"
  proof -
    have "log_area 2 29 = (\<lambda>i. of_nat (i + 2)) ` {..<30}"
      using lessThan_Suc_eq_insert_0 [of 29] by (simp add: log_area_def image_image algebra_simps)
    then show ?thesis by auto
  qed
  also have "\<dots> \<longleftrightarrow> 2 \<le> unat n \<and> unat n < 32"
  proof
    assume "2 \<le> unat n \<and> unat n < 32"
    then have "unat n - 2 < 30" "n = of_nat (unat n - 2 + 2)" by auto
    then show "\<exists>i<30. n = of_nat (i + 2)" by blast
  next
    assume "\<exists>i<30. n = of_nat (i + 2)"
    then obtain i where "i < 30" "n = of_nat (i + 2)" by blast
    then show "2 \<le> unat n \<and> unat n < 32" using unat_of_nat32 [of "i + 2"] by simp
  qed
  finally show ?thesis .
qed

lemma demo_log:
  obtains lg where "log_inv lg" "lg_n lg = 0" "lg_outstanding lg = 0" "\<not> lg_committing lg" "lg_start lg = 2" "lg_size lg = 30"
    "\<forall>m. m \<notin> log_area 2 29 \<longrightarrow> buf_cont (lg_bio lg) m = demo_disk m"
proof -
  have z: "hdr_n (demo_disk 2) = 0" by (simp add: hdr_n_def get32_def blk_def demo_disk_def)
  have "hdr_ok 2 29 demo_disk"
    using z by (auto simp: hdr_ok_def blk_def demo_disk_def fun_eq_iff LOGSIZE_def MAXOPBLOCKS_def BSIZE_def)
  then obtain lg where r: "log_inv lg" "lg_n lg = 0" "lg_outstanding lg = 0" "\<not> lg_committing lg" "lg_start lg = 2" "lg_size lg = sint (30 :: u32)"
    "\<forall>m. m \<notin> log_area 2 29 \<longrightarrow> d_disk (lg_bio lg) m = durable 2 demo_disk m \<and> buf_cont (lg_bio lg) m = durable 2 demo_disk m"
    by (rule reboot_log_inv [of 2 29 demo_disk 30 1]) (simp_all add: LOGSIZE_def MAXOPBLOCKS_def)
  moreover have "durable 2 demo_disk = demo_disk" using z by (simp add: durable_def replay_def)
  ultimately show thesis using that [of lg] by simp
qed

lemma demo_blocks:
  "bitmap_blocks demo_sb = {45}" "a \<in> inode_blocks demo_sb \<Longrightarrow> 32 \<le> unat a \<and> unat a < 45"
proof -
  have "BBLOCK b demo_sb = 45" if "b < 2000" for b using that by (simp add: BBLOCK_def demo_sb_def BPB_def BSIZE_def)
  then show "bitmap_blocks demo_sb = {45}" by (auto simp: bitmap_blocks_def demo_sb_def intro: exI [of _ 0])
  assume "a \<in> inode_blocks demo_sb"
  then obtain m where m: "a = IBLOCK m demo_sb" "m < 200" by (auto simp: inode_blocks_def demo_sb_def)
  have "unat m div 16 < 13" using m(2) by (simp add: word_less_nat_alt less_mult_imp_div_less)
  moreover have "a = of_nat (unat m div 16 + 32)" using m(1) by (simp add: IBLOCK_def demo_sb_def IPB_def BSIZE_def)
  ultimately show "32 \<le> unat a \<and> unat a < 45" using unat_of_nat32 [of "unat m div 16 + 32"] by simp
qed

lemma demo_used:
  assumes "C 45 = demo_disk 45" "b < 2000"
  shows "used demo_sb C b \<longleftrightarrow> b < 47"
proof -
  have "BBLOCK b demo_sb = 45" "b mod BPB = b" using assms(2) by (simp_all add: BBLOCK_def demo_sb_def BPB_def BSIZE_def)
  then have u: "used demo_sb C b \<longleftrightarrow> bit (demo_disk 45 (b div 8)) (b mod 8)" using assms(1) by (simp add: used_def free_bit_iff)
  have m: "b mod 8 < 8" by simp
  have f: "bit (255 :: u8) n" if "n < 8" for n
  proof -
    from that have "n = 0 \<or> n = 1 \<or> n = 2 \<or> n = 3 \<or> n = 4 \<or> n = 5 \<or> n = 6 \<or> n = 7" by presburger
    then show ?thesis by (auto simp: bit_numeral_word_iff)
  qed
  have g: "bit (127 :: u8) n \<longleftrightarrow> n \<noteq> 7" if "n < 8" for n
  proof -
    from that have "n = 0 \<or> n = 1 \<or> n = 2 \<or> n = 3 \<or> n = 4 \<or> n = 5 \<or> n = 6 \<or> n = 7" by presburger
    then show ?thesis by (auto simp: bit_numeral_word_iff)
  qed
  consider "b div 8 < 5" | "b div 8 = 5" | "5 < b div 8" by linarith
  then show ?thesis
  proof cases
    case 1
    then show ?thesis using u f [OF m] by (simp add: demo_disk_def)
  next
    case 2
    moreover have "b = 40 + b mod 8" using 2 by presburger
    ultimately show ?thesis using u g [OF m] by (simp add: demo_disk_def) presburger
  next
    case 3
    then show ?thesis using u by (simp add: demo_disk_def)
  qed
qed

lemma demo_facts:
  assumes lg: "log_inv lg" "lg_n lg = 0" "lg_start lg = 2" "lg_size lg = 30" "\<forall>m. m \<notin> log_area 2 29 \<longrightarrow> buf_cont (lg_bio lg) m = demo_disk m"
    and s: "s = demo_fs ty z k (lg\<lparr>lg_outstanding := x\<rparr>)" and z: "unat z \<le> 1024"
  shows "in_tx {} 0 s" "1 \<le> x \<Longrightarrow> in_tx {} 29 s" "layout_ok s" "100 \<le> nfree s" "file_ok s 0" "own s 0 \<subseteq> {0, 46}"
    "afile s 0 = replicate (unat z) 0" "n \<notin> log_area 2 29 \<Longrightarrow> content s n = demo_disk n"
proof -
  have tx: "txn (f_log s) {} {}" using lg(1) s txn_idle by (simp add: demo_fs_def)
  then show "in_tx {} 0 s" "1 \<le> x \<Longrightarrow> in_tx {} 29 s" using lg(2,4) s by (auto simp: in_tx_def demo_fs_def)
  have hm: "home s = - log_area 2 29" using lg(3,4) s by (simp add: home_def demo_fs_def)
  show c: "content s n = demo_disk n" if "n \<notin> log_area 2 29" for n using lg(5) that s by (simp add: content_def demo_fs_def)
  have sb: "f_sb s = demo_sb" "unat (sb_size demo_sb) = 2000" using s by (simp_all add: demo_fs_def demo_sb_def)
  have u: "used demo_sb (content s) b \<longleftrightarrow> b < 47" if "b < 2000" for b
    using demo_used [of "content s" b] c [of 45] that by (simp add: log_area_demo)
  have H: "a \<in> home s \<longleftrightarrow> unat a < 2 \<or> 32 \<le> unat a" for a using hm log_area_demo by auto
  have fr: "of_nat b \<in> home s - bitmap_blocks demo_sb - inode_blocks demo_sb" if "47 \<le> b" "b < 2000" for b
  proof -
    have ub: "unat (of_nat b :: u32) = b" by (rule unat_of_nat32) (use that in simp)
    then have "(of_nat b :: u32) \<noteq> 45" using that by auto
    moreover have "(of_nat b :: u32) \<notin> inode_blocks demo_sb" using demo_blocks(2) [of "of_nat b"] ub that by auto
    ultimately show ?thesis using demo_blocks(1) H ub that by simp
  qed
  have "(45 :: u32) \<notin> inode_blocks demo_sb" using demo_blocks(2) [of 45] by auto
  then show "layout_ok s"
    unfolding layout_ok_def sb using u fr H demo_blocks by (auto simp: not_less)
  have "{47..<2000} \<subseteq> {b. b < 2000 \<and> \<not> used demo_sb (content s) b}" using u by auto
  then have "card {47..<2000::nat} \<le> nfree s" unfolding nfree_def sb by (intro card_mono) auto
  then show "100 \<le> nfree s" by simp
  have ip: "f_inode s 0 = demo_inode ty z" using s by (simp add: demo_fs_def)
  have z46: "content s 46 = (\<lambda>_. 0)" using c [of 46] by (auto simp: log_area_demo demo_disk_def fun_eq_iff)
  have sl: "slot (f_inode s 0) (content s) m = (if m = 0 \<and> z \<noteq> 0 then 46 else 0)" for m
    unfolding ip by (auto simp: slot_def demo_inode_def NDIRECT_def)
  then show "own s 0 \<subseteq> {0, 46}" by (auto simp: own_def)
  have "data_block s 46"
    unfolding data_block_def sb using u [of 46] H demo_blocks(2) [of 46] by (auto simp: demo_blocks(1))
  then have b: "blocks_ok s 0" using sl by (auto simp: blocks_ok_def slots_ok_def ip demo_inode_def)
  have dz: "dslot 0 = 0" by (simp add: dslot_def NDIRECT_def)
  have db: "dblock s 0 0 = (if z = 0 then 0 else 46)" by (simp add: dblock_def sl dz)
  have p0: "p div BSIZE = 0" if "p < unat z" for p using that z by (simp add: BSIZE_def)
  have "dblock s 0 (p div BSIZE) \<noteq> 0" if "p < unat z" for p using p0 [OF that] db that by auto
  then show "file_ok s 0" using b z sb by (simp add: file_ok_def ip demo_inode_def demo_sb_def MAXFILE_def NDIRECT_def NINDIRECT_def BSIZE_def)
  have "file_byte s 0 p = 0" if "p < unat z" for p using p0 [OF that] db z46 by (simp add: file_byte_def Let_def)
  then have "map (file_byte s 0) [0..<unat z] = map (\<lambda>_. 0) [0..<unat z]" by (intro map_cong) auto
  then show "afile s 0 = replicate (unat z) 0" by (simp add: afile_def ip demo_inode_def map_replicate_const)
qed

lemma demo_exists:
  assumes "unat z \<le> 1024"
  obtains s where "in_tx {} 29 s" "layout_ok s" "100 \<le> nfree s" "file_ok s 0" "own s 0 \<subseteq> {0, 46}" "afile s 0 = replicate (unat z) 0"
    "f_inode s 0 = demo_inode ty z" "content s 46 = (\<lambda>_. 0)"
proof -
  obtain lg where lg: "log_inv lg" "lg_n lg = 0" "lg_outstanding lg = 0" "\<not> lg_committing lg" "lg_start lg = 2" "lg_size lg = 30"
    "\<forall>m. m \<notin> log_area 2 29 \<longrightarrow> buf_cont (lg_bio lg) m = demo_disk m" by (rule demo_log)
  let ?s = "demo_fs ty z (y_k (boot_sys two_pages 0 0)) (lg\<lparr>lg_outstanding := 1\<rparr>)"
  note f = demo_facts [OF lg(1,2,5,6,7) refl assms, where ty = ty and k = "y_k (boot_sys two_pages 0 0)" and x = 1]
  have "content ?s 46 = (\<lambda>_. 0)" using f(8) [of 46] by (simp add: log_area_demo demo_disk_def fun_eq_iff)
  then show thesis using that [of ?s] f(1-7) by (simp add: demo_fs_def)
qed

section \<open>Properties\<close>

text \<open>C13. Block allocation: on a well-formed disk with a free block, \<^verbatim>\<open>balloc\<close> returns a block
  that was free, marks it in the bitmap, zeroes it and changes no allocated block; \<^verbatim>\<open>bfree\<close>
  of that block then restores exactly the previous set of allocated blocks.\<close>

theorem balloc_bfree:
  assumes "in_tx {} (k + 3) s" and "layout_ok s" and "0 < nfree s"
  shows "\<exists>a s1 s2. balloc ROOTDEV s = Ok (a, s1) \<and> \<not> data_block s a \<and> (\<forall>b. data_block s1 b \<longleftrightarrow> b = a \<or> data_block s b) \<and>
    content s1 a = (\<lambda>_. 0) \<and> (\<forall>b. data_block s b \<longrightarrow> content s1 b = content s b) \<and> layout_ok s1 \<and> nfree s1 = nfree s - 1 \<and>
    bfree ROOTDEV a s1 = Ok s2 \<and> (\<forall>b. data_block s2 b \<longleftrightarrow> data_block s b) \<and> (\<forall>b. data_block s b \<longrightarrow> content s2 b = content s b) \<and>
    layout_ok s2 \<and> nfree s2 = nfree s"
proof -
  have t: "in_tx {} (Suc k + 2) s" using assms(1) by (simp add: eval_nat_numeral)
  obtain a s1 where 1: "balloc ROOTDEV s = Ok (a, s1)" "keeps {} s s1" "in_tx {} (Suc k) s1" "grows {} s s1" "data_block s1 a"
    "\<not> data_block s a" "content s1 a = (\<lambda>_. 0)" "nfree s = Suc (nfree s1)" "\<forall>b. data_block s1 b \<longleftrightarrow> b = a \<or> data_block s b"
    by (rule balloc_ok [OF t assms(2) _ _ assms(3)]) simp_all
  have l: "layout_ok s1" "\<forall>b. data_block s b \<longrightarrow> content s1 b = content s b" using 1(4) by (auto simp: grows_def)
  obtain s2 where 2: "bfree ROOTDEV a s1 = Ok s2" "in_tx {} k s2" "same_rest s1 s2" "layout_ok s2"
    "\<forall>b. data_block s2 b \<longleftrightarrow> data_block s1 b \<and> b \<noteq> a" "\<forall>b. b \<notin> bitmap_blocks (f_sb s1) \<longrightarrow> content s2 b = content s1 b"
    "nfree s2 = Suc (nfree s1)"
    by (rule bfree_ok [OF 1(3) l(1) 1(5)])
  have "b \<notin> bitmap_blocks (f_sb s1)" if "data_block s b" for b
    using that same_restD(1) [OF keepsD(1) [OF 1(2)]] by (simp add: data_block_def)
  then have "\<forall>b. data_block s b \<longrightarrow> content s2 b = content s b" using l(2) 2(6) by simp
  moreover have "\<forall>b. data_block s2 b \<longleftrightarrow> data_block s b" using 2(5) 1(6,9) by auto
  ultimately show ?thesis using 1(1,6-9) l 2(1,4,7) by (intro exI [of _ a] exI [of _ s1] exI [of _ s2]) simp
qed

theorem balloc_bfree_witness:
  "\<exists>s a s1 s2. balloc ROOTDEV s = Ok (a, s1) \<and> \<not> data_block s a \<and> data_block s1 a \<and> bfree ROOTDEV a s1 = Ok s2 \<and> nfree s2 = nfree s"
proof -
  obtain s where "in_tx {} 29 s" "layout_ok s" "100 \<le> nfree s" by (rule demo_exists [of 0]) simp
  then show ?thesis using balloc_bfree [of 26 s] by auto
qed

text \<open>C8. Reading: \<^verbatim>\<open>readi\<close> of an uncompressed file returns exactly the bytes of the file in
  the range, clipped at its end, stores nothing outside the destination and changes no block.\<close>

theorem readi_reads:
  assumes "in_tx {} k s" and "file_ok s i" and "plain s i" and "unat off \<le> unat (i_size (f_inode s i))" and "unat off + unat n < 2 ^ 32"
    and "d = take (unat n) (drop (unat off) (afile s i))"
  shows "\<exists>s'. readi i (Object j) off n obj s = Ok (int (length d), store_at obj j d, s') \<and> in_tx {} k s' \<and> content s' = content s \<and> same_rest s s'"
  by (rule readi_ok [OF assms, of j obj]) blast

theorem readi_reads_witness:
  "\<exists>s s'. afile s 0 = replicate 40 0 \<and> readi 0 (Object 3) 30 100 (\<lambda>_. 7) s = Ok (10, store_at (\<lambda>_. 7) 3 (replicate 10 0), s')"
proof -
  obtain s where s: "in_tx {} 29 s" "file_ok s 0" "afile s 0 = replicate (unat (40 :: u32)) 0" "f_inode s 0 = demo_inode T_FILE 40"
    "content s 46 = (\<lambda>_. 0)" by (rule demo_exists [of 40 T_FILE]) simp
  have "dblock s 0 0 = 46" using s(4) by (simp add: dblock_def dslot_def slot_def NDIRECT_def demo_inode_def)
  then have "plain s 0" using s(5) by (simp add: plain_def)
  then show ?thesis
    using readi_reads [OF s(1,2), of 30 100 "replicate 10 0" 3 "\<lambda>_. 7"] s(3,4) by (auto simp: demo_inode_def)
qed



end
