(* ===== verification/Xv6_FsDir.thy ===== *)
theory Xv6_FsDir
  imports Xv6_FsFile
begin

text \<open>
  Directories.  The bytes of a directory are a list of 16-byte entries; \<^verbatim>\<open>dirlookup\<close> is the
  first entry in use with the name, and \<^verbatim>\<open>dirlink\<close> fills the first free entry, or a new one
  at the end.
\<close>

definition dent_at :: "u8 list \<Rightarrow> nat \<Rightarrow> bytes" where
  "dent_at xs k = store_at (\<lambda>_. 0) 0 (take 16 (drop (16 * k) xs))"

definition de_inum :: "u8 list \<Rightarrow> nat \<Rightarrow> u16" where
  "de_inum xs k = get16 (dent_at xs k) 0"

definition de_name :: "u8 list \<Rightarrow> nat \<Rightarrow> u8 list" where
  "de_name xs k = cstrn DIRSIZ (\<lambda>j. dent_at xs k (2 + j))"

definition nent :: "u8 list \<Rightarrow> nat" where
  "nent xs = length xs div 16"

text \<open>The entry of a name, and the entry that a new name gets.\<close>

definition dfind :: "u8 list \<Rightarrow> u8 list \<Rightarrow> nat option" where
  "dfind xs name = find (\<lambda>k. de_inum xs k \<noteq> 0 \<and> de_name xs k = name) [0..<nent xs]"

definition dfree :: "u8 list \<Rightarrow> nat" where
  "dfree xs = (case find (\<lambda>k. de_inum xs k = 0) [0..<nent xs] of Some k \<Rightarrow> k | None \<Rightarrow> nent xs)"

definition dir_ok :: "fs \<Rightarrow> nat \<Rightarrow> bool" where
  "dir_ok s dp \<longleftrightarrow> file_ok s dp \<and> i_type (f_inode s dp) = T_DIR \<and> 16 dvd unat (i_size (f_inode s dp))"

lemma dir_size: "dir_ok s dp \<Longrightarrow> unat (i_size (f_inode s dp)) = 16 * nent (afile s dp)"
  by (auto simp: dir_ok_def nent_def)

lemma dir_cong:
  assumes "same_rest s t" "content t = content s"
  shows "dir_ok t dp = dir_ok s dp" "afile t = afile s"
proof -
  note E = same_restD [OF assms(1)] and C = data_block_cong [OF same_restD(1,5) [OF assms(1)] assms(2)]
  note fc = file_cong [OF E(2) assms(2)]
  have "blocks_ok t dp = blocks_ok s dp" unfolding blocks_ok_def slots_ok_def C(1) E(2) assms(2) ..
  then show "dir_ok t dp = dir_ok s dp" by (simp add: dir_ok_def file_ok_def fc E)
  show "afile t = afile s" by (intro ext) (simp add: afile_def fc E)
qed

text \<open>One entry read.\<close>

lemma read_entry:
  assumes t: "in_tx {} k s" and d: "dir_ok s dp" and m: "m < nent (afile s dp)"
  obtains s' where "readi dp (Object 0) (of_nat (16 * m)) 16 (\<lambda>_. 0) s = Ok (16, dent_at (afile s dp) m, s')"
    "in_tx {} k s'" "content s' = content s" "same_rest s s'"
proof -
  have f: "file_ok s dp" "plain s dp" "unat (i_size (f_inode s dp)) \<le> MAXFILE * BSIZE"
    using d by (auto simp: dir_ok_def plain_def T_DIR_def T_FILE_def file_ok_def)
  have "16 * m + 16 \<le> unat (i_size (f_inode s dp))" using m dir_size [OF d] by simp
  moreover have "MAXFILE * BSIZE < 2 ^ 20" by (simp add: MAXFILE_def NDIRECT_def NINDIRECT_def BSIZE_def)
  ultimately have o: "unat (of_nat (16 * m) :: u32) = 16 * m" "16 * m + 16 < 2 ^ 32" "16 * m + 16 \<le> unat (i_size (f_inode s dp))"
    using f(3) by (auto intro!: unat_of_nat32 simp del: of_nat_mult)
  let ?d = "take 16 (drop (16 * m) (afile s dp))"
  obtain s' where r: "readi dp (Object 0) (of_nat (16 * m)) 16 (\<lambda>_. 0) s = Ok (int (length ?d), store_at (\<lambda>_. 0) 0 ?d, s')"
    "in_tx {} k s'" "content s' = content s" "same_rest s s'"
    by (rule readi_ok [OF t f(1,2), of "of_nat (16 * m)" 16 ?d]) (use o in simp_all)
  have "length ?d = 16" using o(3) by simp
  then show thesis using that [of s'] r by (simp add: dent_at_def)
qed

lemma dirlookup_loop_spec:
  assumes "in_tx {} k s" "dir_ok s dp" "sz = unat (i_size (f_inode s dp))" "off = 16 * m" "xs = afile s dp"
  shows "\<exists>s'. dirlookup_loop dp name sz off s =
      Ok (map_option (\<lambda>k. (ucast (de_inum xs k), 16 * k)) (find (\<lambda>k. de_inum xs k \<noteq> 0 \<and> de_name xs k = cstrn DIRSIZ name) [m..<nent xs]), s') \<and>
    in_tx {} k s' \<and> content s' = content s \<and> same_rest s s'"
  using assms
proof (induction dp name sz off s arbitrary: m rule: dirlookup_loop.induct)
  case (1 dp name sz off s)
  note t = "1.prems"(1) and d = "1.prems"(2) and sz = "1.prems"(3) and off = "1.prems"(4) and xs = "1.prems"(5)
  have sn: "sz = 16 * nent xs" using dir_size [OF d] sz xs by simp
  show ?case
  proof (cases "off < sz")
    case False
    then show ?thesis using t off sn by (subst dirlookup_loop.simps) simp
  next
    case True
    then have m: "m < nent xs" using off sn by simp
    then have up: "[m..<nent xs] = m # [Suc m..<nent xs]" by (rule upt_conv_Cons)
    obtain s1 where r: "readi dp (Object 0) (of_nat off) 16 (\<lambda>_. 0) s = Ok (16, dent_at xs m, s1)" "in_tx {} k s1" "content s1 = content s" "same_rest s s1"
      using read_entry [OF t d, of m] m off xs by (metis)
    note c = dir_cong [OF r(4,3)] and E = same_restD [OF r(4)]
    have nx: "off + 16 = 16 * Suc m" using off by simp
    have nm: "namecmp name (\<lambda>k. dent_at xs m (2 + k)) = 0 \<longleftrightarrow> de_name xs m = cstrn DIRSIZ name"
      unfolding namecmp_def strncmp_eq_0_iff de_name_def by (rule eq_commute)
    show ?thesis
    proof (cases "de_inum xs m \<noteq> 0 \<and> de_name xs m = cstrn DIRSIZ name")
      case T: True
      have "dirlookup_loop dp name sz off s = Ok (Some (ucast (de_inum xs m), off), s1)"
        using True r(1) T nm by (subst dirlookup_loop.simps) (simp add: de_inum_def)
      then show ?thesis using T r(2-4) up off by simp
    next
      case F: False
      have ih: "\<exists>s'. dirlookup_loop dp name sz (off + 16) s1 =
          Ok (map_option (\<lambda>k. (ucast (de_inum xs k), 16 * k)) (find (\<lambda>k. de_inum xs k \<noteq> 0 \<and> de_name xs k = cstrn DIRSIZ name) [Suc m..<nent xs]), s') \<and>
        in_tx {} k s' \<and> content s' = content s1 \<and> same_rest s1 s'"
      proof (cases "de_inum xs m = 0")
        case Z: True
        show ?thesis
          by (rule "1.IH"(1) [OF True r(1) refl refl]) (use Z r(2) c d sz E(2) nx xs in \<open>simp_all add: de_inum_def\<close>)
      next
        case Z: False
        show ?thesis
          by (rule "1.IH"(2) [OF True r(1) refl refl]) (use Z F nm r(2) c d sz E(2) nx xs in \<open>simp_all add: de_inum_def\<close>)
      qed
      have "dirlookup_loop dp name sz off s = dirlookup_loop dp name sz (off + 16) s1"
        using True r(1) F nm by (subst dirlookup_loop.simps) (auto simp: de_inum_def)
      then show ?thesis using ih F up r(3) same_rest_trans [OF r(4)] by auto
    qed
  qed
qed

lemma dirlookup_spec:
  assumes t: "in_tx {} k s" and d: "dir_ok s dp" and xs: "xs = afile s dp"
  obtains s' where "dirlookup dp name s =
      (case dfind xs (cstrn DIRSIZ name) of
         None \<Rightarrow> Ok (None, s')
       | Some k \<Rightarrow> obind (iget ROOTDEV (ucast (de_inum xs k)) s') (\<lambda>(i, s'). Ok (Some (i, 16 * k), s')))"
    "in_tx {} k s'" "content s' = content s" "same_rest s s'"
proof -
  obtain s' where r: "dirlookup_loop dp name (unat (i_size (f_inode s dp))) 0 s =
      Ok (map_option (\<lambda>k. (ucast (de_inum xs k), 16 * k)) (dfind xs (cstrn DIRSIZ name)), s')"
    "in_tx {} k s'" "content s' = content s" "same_rest s s'"
    using dirlookup_loop_spec [OF t d refl _ xs, of 0 0 name] unfolding dfind_def by auto
  have "i_dev (f_inode s' dp) = ROOTDEV" using d same_restD(2) [OF r(4)] by (auto simp: dir_ok_def file_ok_def blocks_ok_def)
  then show thesis using that [OF _ r(2-4)] r(1) d by (cases "dfind xs (cstrn DIRSIZ name)") (simp_all add: dirlookup_def dir_ok_def)
qed

lemma free_entry_spec:
  assumes "in_tx {} k s" "dir_ok s dp" "sz = unat (i_size (f_inode s dp))" "off = 16 * m" "xs = afile s dp" "m \<le> nent xs"
  shows "\<exists>s'. free_entry dp sz off s =
      Ok (16 * (case find (\<lambda>k. de_inum xs k = 0) [m..<nent xs] of Some k \<Rightarrow> k | None \<Rightarrow> nent xs), s') \<and>
    in_tx {} k s' \<and> content s' = content s \<and> same_rest s s'"
  using assms
proof (induction dp sz off s arbitrary: m rule: free_entry.induct)
  case (1 dp sz off s)
  note t = "1.prems"(1) and d = "1.prems"(2) and sz = "1.prems"(3) and off = "1.prems"(4) and xs = "1.prems"(5)
  have sn: "sz = 16 * nent xs" using dir_size [OF d] sz xs by simp
  show ?case
  proof (cases "off < sz")
    case False
    then show ?thesis using t off sn "1.prems"(6) by (subst free_entry.simps) simp
  next
    case True
    then have m: "m < nent xs" using off sn by simp
    then have up: "[m..<nent xs] = m # [Suc m..<nent xs]" by (rule upt_conv_Cons)
    obtain s1 where r: "readi dp (Object 0) (of_nat off) 16 (\<lambda>_. 0) s = Ok (16, dent_at xs m, s1)" "in_tx {} k s1" "content s1 = content s" "same_rest s s1"
      using read_entry [OF t d, of m] m off xs by (metis)
    note c = dir_cong [OF r(4,3)] and E = same_restD [OF r(4)]
    show ?thesis
    proof (cases "de_inum xs m = 0")
      case T: True
      then have "free_entry dp sz off s = Ok (off, s1)" using True r(1) by (subst free_entry.simps) (simp add: de_inum_def)
      then show ?thesis using T r(2-4) up off by simp
    next
      case F: False
      have ih: "\<exists>s'. free_entry dp sz (off + 16) s1 =
          Ok (16 * (case find (\<lambda>k. de_inum xs k = 0) [Suc m..<nent xs] of Some k \<Rightarrow> k | None \<Rightarrow> nent xs), s') \<and>
        in_tx {} k s' \<and> content s' = content s1 \<and> same_rest s1 s'"
        by (rule "1.IH" [OF True r(1) refl refl]) (use F r(2) c d sz E(2) off xs m in \<open>simp_all add: de_inum_def\<close>)
      have "free_entry dp sz off s = free_entry dp sz (off + 16) s1"
        using True r(1) F by (subst free_entry.simps) (simp add: de_inum_def)
      then show ?thesis using ih F up r(3) same_rest_trans [OF r(4)] by auto
    qed
  qed
qed

lemma nblk_entry: "nblk (16 * m) 16 = 1"
proof -
  have "16 * m mod BSIZE = 16 * (m mod 64)" using mult_mod_right [of 16 m 64] by (simp add: BSIZE_def)
  moreover have "m mod 64 \<le> 63" using less_Suc_eq_le [of "m mod 64" 63] by simp
  ultimately have "BSIZE \<le> 16 * m mod BSIZE + 16 + (BSIZE - 1)" "16 * m mod BSIZE + 16 + (BSIZE - 1) < 2 * BSIZE" by (simp_all add: BSIZE_def)
  then show ?thesis unfolding nblk_def by (simp add: div_nat_eqI)
qed

lemma dirlink_spec:
  assumes t: "in_tx {} (k + 7) s" and l: "layout_ok s" and d: "dir_ok s dp" and xs: "xs = afile s dp"
    and n: "dfind xs (cstrn DIRSIZ name) = None" "16 * dfree xs + 16 \<le> MAXFILE * BSIZE" "2 \<le> nfree s"
  obtains s' where "dirlink dp name inum s = Ok (0, s')" "in_tx {} k s'" "layout_ok s'" "dir_ok s' dp" "on_disk s' dp" "only_file dp s s'"
    "afile s' dp = overwrite xs (16 * dfree xs) (map (dirent name inum) [0..<16])"
proof -
  obtain s1 where 1: "dirlookup dp name s = (case dfind xs (cstrn DIRSIZ name) of None \<Rightarrow> Ok (None, s1)
       | Some k \<Rightarrow> obind (iget ROOTDEV (ucast (de_inum xs k)) s1) (\<lambda>(i, s'). Ok (Some (i, 16 * k), s')))"
    "in_tx {} (k + 7) s1" "content s1 = content s" "same_rest s s1"
    by (rule dirlookup_spec [OF t d xs])
  note c1 = dir_cong [OF 1(4,3)]
  have d1: "dir_ok s1 dp" "xs = afile s1 dp" using d c1 xs by simp_all
  obtain s2 where 2: "free_entry dp (unat (i_size (f_inode s1 dp))) 0 s1 = Ok (16 * dfree xs, s2)" "in_tx {} (k + 7) s2" "content s2 = content s1" "same_rest s1 s2"
    using free_entry_spec [OF 1(2) d1(1) refl _ d1(2), of 0 0] unfolding dfree_def by auto
  have D: "same_rest s s2" "content s2 = content s" using same_rest_trans [OF 1(4) 2(4)] 2(3) 1(3) by simp_all
  note c2 = dir_cong [OF D] and E = same_restD [OF D(1)] and C = data_block_cong [OF same_restD(1,5) [OF D(1)] D(2)]
  have d2: "dir_ok s2 dp" using d c2(1) by simp
  then have f: "file_ok s2 dp" "i_type (f_inode s2 dp) = T_DIR" "i_type (f_inode s2 dp) \<noteq> T_FILE" by (simp_all add: dir_ok_def T_DIR_def T_FILE_def)
  have mx: "MAXFILE * BSIZE < 2 ^ 20" by (simp add: MAXFILE_def NDIRECT_def NINDIRECT_def BSIZE_def)
  have o: "unat (of_nat (16 * dfree xs) :: u32) = 16 * dfree xs" by (rule unat_of_nat32) (use n(2) mx in simp)
  have le: "dfree xs \<le> nent xs" by (auto simp: dfree_def find_Some_iff split: option.split)
  have sz: "unat (i_size (f_inode s2 dp)) = 16 * nent xs" using dir_size [OF d] E(2) xs by simp
  let ?d = "map (dirent name inum) [0..<16]"
  have u: "unat (16 :: u32) = 16" by simp
  have W: "in_tx {} (k + 6 * nblk (16 * dfree xs) 16 + 1) s2" "2 * nblk (16 * dfree xs) 16 \<le> nfree s2" 
    unfolding nblk_entry using in_tx_weaken [OF 2(2)] n(3) C(3) by simp_all
  obtain s' where w: "writei dp (Object 0) (of_nat (16 * dfree xs)) 16 (dirent name inum) s2 = Ok (int (unat (16 :: u32)), s')" "in_tx {} k s'"
    "layout_ok s'" "file_ok s' dp" "on_disk s' dp" "only_file dp s2 s'"
    "afile s' dp = overwrite (afile s2 dp) (unat (of_nat (16 * dfree xs) :: u32)) ?d"
    by (rule writei_ok [of k "of_nat (16 * dfree xs)" 16 s2 dp ?d "dirent name inum" 0]) (use W l f n C le sz in \<open>simp_all only: o u\<close>, simp_all)
  obtain A z where ip: "f_inode s' = (f_inode s2)(dp := (f_inode s2 dp)\<lparr>i_addrs := A, i_size := z\<rparr>)" using w(6) by (auto simp: only_file_def)
  have xs2: "afile s2 dp = xs" "length xs = 16 * nent xs" using c2(2) xs dir_size [OF d] by simp_all
  have len: "unat (i_size (f_inode s' dp)) = max (16 * nent xs) (16 * dfree xs + 16)"
    using w(7) overwrite_nth(1) [of "16 * dfree xs" xs ?d] le unfolding xs2(1) o by (metis length_afile length_map length_upt minus_nat.diff_0 mult_le_mono2 xs2(2))
  have "dir_ok s' dp" using w(4) f(2) len by (simp add: dir_ok_def ip max_def)
  moreover have "dinode s2 = dinode s" by (intro ext) (simp add: dinode_def E(1) D(2))
  then have "only_file dp s s'" using w(6) same_restD [OF D(1)] D(2) C file_cong [OF E(2) D(2)] by (simp add: only_file_def same_env_def)
  moreover have "dirlink dp name inum s = Ok (0, s')" using 1(1) n(1) 2(1) w(1) by (simp add: dirlink_def)
  ultimately show thesis using that [of s'] w(2,3,5,7) xs2(1) o by simp
qed

text \<open>The entries of a directory after a link.\<close>

lemma dent_overwrite:
  assumes "length xs = 16 * nent xs" "f \<le> nent xs" "length ys = 16" "k < max (nent xs) (f + 1)"
  shows "dent_at (overwrite xs (16 * f) ys) k = (if k = f then store_at (\<lambda>_. 0) 0 ys else dent_at xs k)"
proof -
  have l: "length (overwrite xs (16 * f) ys) = max (16 * nent xs) (16 * f + 16)" using overwrite_nth(1) [of "16 * f" xs ys] assms by simp
  have e: "take 16 (drop (16 * k) (overwrite xs (16 * f) ys)) = (if k = f then ys else take 16 (drop (16 * k) xs))" (is "?l = ?r")
  proof (rule nth_equalityI)
    have k: "16 * k + 16 \<le> max (16 * nent xs) (16 * f + 16)" "k \<noteq> f \<Longrightarrow> k < nent xs" using assms(2,4) by auto
    then show len: "length ?l = length ?r" using l assms(1,3) by (auto simp: min_def)
    fix j assume "j < length ?l"
    then have j: "j < 16" by simp
    have "overwrite xs (16 * f) ys ! (16 * k + j) = (if 16 * f \<le> 16 * k + j \<and> 16 * k + j < 16 * f + 16 then ys ! (16 * k + j - 16 * f) else xs ! (16 * k + j))"
      using overwrite_nth(2) [of "16 * f" xs "16 * k + j" ys] assms(1-3) k(1) j by simp
    moreover have "16 * f \<le> 16 * k + j \<and> 16 * k + j < 16 * f + 16 \<longleftrightarrow> k = f" using j by auto
    ultimately show "?l ! j = ?r ! j" using j k l assms(1) by auto
  qed
  show ?thesis unfolding dent_at_def e by simp
qed

lemma dirent_fields:
  "get16 (store_at (\<lambda>_. 0) 0 (map (dirent name inum) [0..<16])) 0 = ucast inum"
  "cstrn DIRSIZ (\<lambda>j. store_at (\<lambda>_. 0) 0 (map (dirent name inum) [0..<16]) (2 + j)) = cstrn DIRSIZ name"
proof -
  let ?e = "store_at (\<lambda>_. 0) 0 (map (dirent name inum) [0..<16])"
  have e: "?e j = dirent name inum j" if "j < 16" for j using that by (simp add: store_at_def)
  have "get16 ?e 0 = get16 (dirent name inum) 0" by (simp add: get16_def e)
  then show "get16 ?e 0 = ucast inum" by (simp add: dirent_def Let_def)
  have "?e (2 + j) = strncpy (\<lambda>_. 0) name (int DIRSIZ) j" if "j < DIRSIZ" for j
    using e [of "2 + j"] that by (simp add: DIRSIZ_def dirent_def Let_def put16_def)
  then have "map (\<lambda>j. ?e (2 + j)) [0..<DIRSIZ] = map (strncpy (\<lambda>_. 0) name (int DIRSIZ)) [0..<DIRSIZ]" by (intro map_cong) auto
  then have "cstrn DIRSIZ (\<lambda>j. ?e (2 + j)) = cstrn DIRSIZ (strncpy (\<lambda>_. 0) name (int DIRSIZ))" by (simp only: cstrn_def)
  then show "cstrn DIRSIZ (\<lambda>j. ?e (2 + j)) = cstrn DIRSIZ name" by (simp only: cstrn_strncpy)
qed

lemma dfind_link:
  assumes xs: "length xs = 16 * nent xs" and n: "dfind xs (cstrn DIRSIZ name) = None" and i: "(ucast inum :: u16) \<noteq> 0"
    and ys: "ys = overwrite xs (16 * dfree xs) (map (dirent name inum) [0..<16])"
  shows "dfind ys nm = (if nm = cstrn DIRSIZ name then Some (dfree xs) else dfind xs nm)"
    "k < nent xs \<Longrightarrow> k \<noteq> dfree xs \<Longrightarrow> de_inum ys k = de_inum xs k" "de_inum ys (dfree xs) = ucast inum"
proof -
  let ?f = "dfree xs" and ?e = "map (dirent name inum) [0..<16]"
  have f: "?f \<le> nent xs" "\<forall>k < ?f. de_inum xs k \<noteq> 0" "?f < nent xs \<longrightarrow> de_inum xs ?f = 0"
    by (auto simp: dfree_def find_Some_iff find_None_iff split: option.split)
  have l: "length ys = 16 * max (nent xs) (?f + 1)" using overwrite_nth(1) [of "16 * ?f" xs ?e] xs f(1) ys by (simp add: max_def)
  then have ny: "nent ys = max (nent xs) (?f + 1)" by (simp add: nent_def)
  have d: "dent_at ys k = (if k = ?f then store_at (\<lambda>_. 0) 0 ?e else dent_at xs k)" if "k < nent ys" for k
    unfolding ys by (rule dent_overwrite) (use xs f(1) that ny in simp_all)
  have iy: "de_inum ys k = (if k = ?f then ucast inum else de_inum xs k)" "de_name ys k = (if k = ?f then cstrn DIRSIZ name else de_name xs k)" if "k < nent ys" for k
    using d [OF that] dirent_fields [of name inum] by (simp_all add: de_inum_def de_name_def)
  then show "k < nent xs \<Longrightarrow> k \<noteq> ?f \<Longrightarrow> de_inum ys k = de_inum xs k" "de_inum ys ?f = ucast inum" using ny by auto
  let ?P = "\<lambda>zs m k. de_inum zs k \<noteq> 0 \<and> de_name zs k = m"
  have none: "\<not> ?P xs (cstrn DIRSIZ name) k" if "k < nent xs" for k using n that by (auto simp: dfind_def find_None_iff)
  show "dfind ys nm = (if nm = cstrn DIRSIZ name then Some ?f else dfind xs nm)"
  proof (cases "nm = cstrn DIRSIZ name")
    case True
    have "?P ys nm ?f" "\<forall>k < ?f. \<not> ?P ys nm k" using iy i ny none f(1) True by auto
    then have "dfind ys nm = Some ?f" unfolding dfind_def find_Some_iff using ny by (intro exI [of _ ?f]) simp
    then show ?thesis using True by simp
  next
    case False
    have P: "?P ys nm k = (k < nent xs \<and> ?P xs nm k)" if "k < nent ys" for k using iy [OF that] ny that False f by auto
    have fc: "find (?P ys nm) [0..<nent xs] = find (?P xs nm) [0..<nent xs]" using P ny by (intro find_cong) auto
    show ?thesis
    proof (cases "?f < nent xs")
      case T: True
      then have "nent ys = nent xs" using ny by simp
      then show ?thesis using False fc unfolding dfind_def by simp
    next
      case F: False
      then have "nent ys = Suc (nent xs)" using ny f(1) by simp
      then show ?thesis using fc False P [of "nent xs"] unfolding dfind_def by (auto simp: find_append split: option.split)
    qed
  qed
qed

section \<open>Path names\<close>

text \<open>The names that successive calls of \<^verbatim>\<open>skipelem\<close> leave in \<^verbatim>\<open>name\<close>.\<close>

function walk_names :: "u8 list \<Rightarrow> bytes \<Rightarrow> u8 list list" where
  "walk_names path name =
     (case skipelem path name of
        None \<Rightarrow> []
      | Some (rest, name') \<Rightarrow> cstrn DIRSIZ name' # walk_names rest name')"
  by pat_completeness auto
termination
  by (relation "measure (\<lambda>(path, name). length path)") (auto dest: skipelem_shorter)

declare walk_names.simps [simp del]

fun split_on :: "'a \<Rightarrow> 'a list \<Rightarrow> 'a list list" where
  "split_on c [] = [[]]"
| "split_on c (x # xs) = (if x = c then [] # split_on c xs else (x # hd (split_on c xs)) # tl (split_on c xs))"

lemma split_on_ne [simp]: "split_on c xs \<noteq> []"
  by (cases xs) auto

lemma split_on_first:
  "split_on c p = takeWhile (\<lambda>x. x \<noteq> c) p # (case dropWhile (\<lambda>x. x \<noteq> c) p of [] \<Rightarrow> [] | y # ys \<Rightarrow> split_on c ys)"
  by (induction p) auto

lemma split_on_word:
  assumes "takeWhile (\<lambda>x. x \<noteq> c) p \<noteq> []"
  shows "filter (\<lambda>w. w \<noteq> []) (split_on c p) = takeWhile (\<lambda>x. x \<noteq> c) p # filter (\<lambda>w. w \<noteq> []) (split_on c (dropWhile (\<lambda>x. x \<noteq> c) p))"
proof (cases "dropWhile (\<lambda>x. x \<noteq> c) p")
  case (Cons y ys)
  moreover have "y = c" using hd_dropWhile [of "\<lambda>x. x \<noteq> c" p] Cons by simp
  ultimately show ?thesis using assms split_on_first [of c p] by simp
next
  case Nil
  show ?thesis unfolding split_on_first [of c p] Nil using assms by simp
qed

lemma split_on_drop: "filter (\<lambda>w. w \<noteq> []) (split_on c (dropWhile (\<lambda>x. x = c) xs)) = filter (\<lambda>w. w \<noteq> []) (split_on c xs)"
  by (induction xs) auto

lemma skipelem_word:
  assumes "skipelem path name = Some (rest, name')"
  obtains w where "w \<noteq> []" "slash \<notin> set w" "set w \<subseteq> set path" "set rest \<subseteq> set path"
    "filter (\<lambda>w. w \<noteq> []) (split_on slash path) = w # filter (\<lambda>w. w \<noteq> []) (split_on slash rest)"
    "name' = (if length w \<ge> DIRSIZ then (\<lambda>k. if k < DIRSIZ then w ! k else name k) else (\<lambda>k. if k < length w then w ! k else name k)(length w := 0))"
proof -
  let ?p = "dropWhile (\<lambda>c. c = slash) path"
  let ?w = "takeWhile (\<lambda>c. c \<noteq> slash) ?p" and ?r = "dropWhile (\<lambda>c. c \<noteq> slash) ?p"
  have p: "?p \<noteq> []" and rest: "rest = dropWhile (\<lambda>c. c = slash) ?r"
    and nm: "name' = (if length ?w \<ge> DIRSIZ then (\<lambda>k. if k < DIRSIZ then ?w ! k else name k) else (\<lambda>k. if k < length ?w then ?w ! k else name k)(length ?w := 0))"
    using assms by (auto simp: skipelem_def Let_def split: if_splits)
  have "hd ?p \<noteq> slash" using hd_dropWhile [OF p] by simp
  then have w: "?w \<noteq> []" using p by (cases ?p) auto
  have ns: "slash \<notin> set ?w" by (auto dest: set_takeWhileD)
  note split_on_word [OF w]
  then have "filter (\<lambda>w. w \<noteq> []) (split_on slash path) = ?w # filter (\<lambda>w. w \<noteq> []) (split_on slash rest)"
    using split_on_drop [of slash path] split_on_drop [of slash ?r] rest by simp
  moreover have "set ?w \<subseteq> set path" "set rest \<subseteq> set path" unfolding rest by (auto dest: set_takeWhileD set_dropWhileD)
  ultimately show thesis using that [of ?w] w ns nm by blast
qed

lemma cstrn_word:
  assumes "\<forall>c\<in>set w. c \<noteq> 0"
  shows "cstrn DIRSIZ (if length w \<ge> DIRSIZ then (\<lambda>k. if k < DIRSIZ then w ! k else name k) else (\<lambda>k. if k < length w then w ! k else name k)(length w := 0)) = take DIRSIZ w"
proof (cases "length w \<ge> DIRSIZ")
  case True
  then have "cstrn DIRSIZ (\<lambda>k. if k < DIRSIZ then w ! k else name k) = map (\<lambda>k. if k < DIRSIZ then w ! k else name k) [0..<DIRSIZ]"
    using assms by (intro cstrn_eq_self) auto
  also have "\<dots> = take DIRSIZ w" using True by (intro nth_equalityI) auto
  finally show ?thesis using True by simp
next
  case False
  let ?g = "(\<lambda>k. if k < length w then w ! k else name k)(length w := 0)"
  have "[0..<DIRSIZ] = [0..<length w] @ length w # [Suc (length w)..<DIRSIZ]"
    using upt_split [of 0 "length w" DIRSIZ] upt_conv_Cons [of "length w" DIRSIZ] False by simp
  moreover have "map ?g [0..<length w] = w" by (intro nth_equalityI) auto
  ultimately have "cstrn DIRSIZ ?g = w" using assms by (simp add: cstrn_def takeWhile_append2)
  then show ?thesis using False by simp
qed

section \<open>Properties\<close>

text \<open>C9. Directory entries: when no entry has the name and there is room, \<^verbatim>\<open>dirlink\<close> returns
  0 and keeps the directory well formed; afterwards \<^verbatim>\<open>dirlookup\<close> of that name, for any
  spelling equal in its first 14 characters, finds the new inode number, and \<^verbatim>\<open>dirlookup\<close> of
  every other name answers as before.\<close>

theorem dirlink_dirlookup:
  assumes "in_tx {} (k + 7) s" and "layout_ok s" and "dir_ok s dp" and "xs = afile s dp" and "dfind xs (cstrn DIRSIZ name) = None"
    and "16 * dfree xs + 16 \<le> MAXFILE * BSIZE" and "2 \<le> nfree s" and "(ucast inum :: u16) \<noteq> 0"
  shows "\<exists>s'. dirlink dp name inum s = Ok (0, s') \<and> dir_ok s' dp \<and> layout_ok s' \<and>
    (\<forall>nm. \<exists>t. content t = content s' \<and> dirlookup dp nm s' =
       (if cstrn DIRSIZ nm = cstrn DIRSIZ name
        then obind (iget ROOTDEV (ucast (ucast inum :: u16)) t) (\<lambda>(i, t). Ok (Some (i, 16 * dfree xs), t))
        else case dfind xs (cstrn DIRSIZ nm) of
               None \<Rightarrow> Ok (None, t)
             | Some k \<Rightarrow> obind (iget ROOTDEV (ucast (de_inum xs k)) t) (\<lambda>(i, t). Ok (Some (i, 16 * k), t))))"
proof -
  obtain s' where r: "dirlink dp name inum s = Ok (0, s')" "in_tx {} k s'" "layout_ok s'" "dir_ok s' dp" "on_disk s' dp" "only_file dp s s'"
    "afile s' dp = overwrite xs (16 * dfree xs) (map (dirent name inum) [0..<16])"
    by (rule dirlink_spec [OF assms(1-7)])
  have len: "length xs = 16 * nent xs" using dir_size [OF assms(3)] assms(4) by simp
  note L = dfind_link [OF len assms(5,8) r(7)]
  have same: "de_inum (afile s' dp) k = de_inum xs k" if "dfind xs nm = Some k" for nm k
  proof -
    have k: "k < nent xs" "de_inum xs k \<noteq> 0" using that by (auto simp: dfind_def find_Some_iff)
    moreover have "dfree xs < nent xs \<longrightarrow> de_inum xs (dfree xs) = 0" by (auto simp: dfree_def find_Some_iff split: option.split)
    ultimately show ?thesis using L(2) by auto
  qed
  have "\<exists>t. content t = content s' \<and> dirlookup dp nm s' =
       (if cstrn DIRSIZ nm = cstrn DIRSIZ name
        then obind (iget ROOTDEV (ucast (ucast inum :: u16)) t) (\<lambda>(i, t). Ok (Some (i, 16 * dfree xs), t))
        else case dfind xs (cstrn DIRSIZ nm) of
               None \<Rightarrow> Ok (None, t)
             | Some k \<Rightarrow> obind (iget ROOTDEV (ucast (de_inum xs k)) t) (\<lambda>(i, t). Ok (Some (i, 16 * k), t)))" for nm
  proof -
    obtain t where t: "dirlookup dp nm s' = (case dfind (afile s' dp) (cstrn DIRSIZ nm) of None \<Rightarrow> Ok (None, t)
       | Some k \<Rightarrow> obind (iget ROOTDEV (ucast (de_inum (afile s' dp) k)) t) (\<lambda>(i, s'). Ok (Some (i, 16 * k), s')))"
      "in_tx {} k t" "content t = content s'" "same_rest s' t"
      by (rule dirlookup_spec [OF r(2,4) refl])
    show ?thesis using t(1,3) L(1) L(3) same by (intro exI [of _ t]) (auto split: option.split)
  qed
  then show ?thesis using r(1,3,4) by blast
qed

theorem dirlink_dirlookup_witness:
  "\<exists>s s' t. afile s 0 = replicate 32 0 \<and> dirlink 0 (\<lambda>k. if k = 0 then 97 else 0) 5 s = Ok (0, s') \<and>
    dirlookup 0 (\<lambda>k. if k = 0 then 97 else if k = 1 then 0 else 1) s' = obind (iget ROOTDEV 5 t) (\<lambda>(i, t). Ok (Some (i, 0), t))"
proof -
  let ?a = "\<lambda>k. if k = 0 then 97 else 0 :: u8" and ?b = "\<lambda>k. if k = 0 then 97 else if k = 1 then 0 else 1 :: u8"
  obtain s where s: "in_tx {} 29 s" "layout_ok s" "100 \<le> nfree s" "file_ok s 0" "afile s 0 = replicate (unat (32 :: u32)) 0" "f_inode s 0 = demo_inode T_DIR 32"
    by (rule demo_exists [of 32 T_DIR]) simp
  have d: "dir_ok s 0" using s(4,6) by (simp add: dir_ok_def demo_inode_def)
  have n: "nent (replicate 32 (0 :: u8)) = 2" by (simp add: nent_def)
  have z: "de_inum (replicate 32 0) k = 0" if "k < 2" for k
    using that by (simp add: de_inum_def dent_at_def store_at_def get16_def)
  have f: "dfind (replicate 32 0) nm = None" "dfree (replicate 32 0) = 0" for nm
    using z [of 0] z [of 1] by (simp_all add: dfind_def dfree_def n upt_rec)
  have c: "cstrn DIRSIZ ?b = cstrn DIRSIZ ?a" by (simp add: cstrn_def DIRSIZ_def upt_rec)
  have "\<exists>s'. dirlink 0 ?a 5 s = Ok (0, s') \<and> dir_ok s' 0 \<and> layout_ok s' \<and>
    (\<forall>nm. \<exists>t. content t = content s' \<and> dirlookup 0 nm s' =
       (if cstrn DIRSIZ nm = cstrn DIRSIZ ?a
        then obind (iget ROOTDEV (ucast (ucast (5 :: u32) :: u16)) t) (\<lambda>(i, t). Ok (Some (i, 16 * dfree (replicate 32 0)), t))
        else case dfind (replicate 32 0) (cstrn DIRSIZ nm) of
               None \<Rightarrow> Ok (None, t)
             | Some k \<Rightarrow> obind (iget ROOTDEV (ucast (de_inum (replicate 32 0) k)) t) (\<lambda>(i, t). Ok (Some (i, 16 * k), t))))"
    by (rule dirlink_dirlookup [of 22]) (use s d f in \<open>simp_all add: MAXFILE_def NDIRECT_def NINDIRECT_def BSIZE_def\<close>)
  then obtain s' where r: "dirlink 0 ?a 5 s = Ok (0, s')" "\<exists>t. content t = content s' \<and> dirlookup 0 ?b s' =
       (if cstrn DIRSIZ ?b = cstrn DIRSIZ ?a
        then obind (iget ROOTDEV (ucast (ucast (5 :: u32) :: u16)) t) (\<lambda>(i, t). Ok (Some (i, 16 * dfree (replicate 32 0)), t))
        else case dfind (replicate 32 0) (cstrn DIRSIZ ?b) of
               None \<Rightarrow> Ok (None, t)
             | Some k \<Rightarrow> obind (iget ROOTDEV (ucast (de_inum (replicate 32 0) k)) t) (\<lambda>(i, t). Ok (Some (i, 16 * k), t)))"
    by blast
  from r(2) obtain t where "dirlookup 0 ?b s' = obind (iget ROOTDEV 5 t) (\<lambda>(i, t). Ok (Some (i, 0), t))" using c f(2) by auto
  then show ?thesis using s(5) r(1) by (intro exI [of _ s] exI [of _ s'] exI [of _ t]) simp
qed

text \<open>C32. Path names: the names that \<^verbatim>\<open>skipelem\<close> extracts one after the other are exactly the
  non-empty components between the slashes of the path, each cut to 14 characters, whatever
  \<^verbatim>\<open>name\<close> held before and however many slashes separate them.\<close>

theorem skipelem_splits:
  assumes "\<forall>c\<in>set path. c \<noteq> 0"
  shows "walk_names path name = map (take DIRSIZ) (filter (\<lambda>w. w \<noteq> []) (split_on slash path))"
  using assms
proof (induction path name rule: walk_names.induct)
  case (1 path name)
  show ?case
  proof (cases "skipelem path name")
    case None
    then have "dropWhile (\<lambda>c. c = slash) path = []" by (simp only: skipelem_def Let_def option.distinct split: if_splits)
    then have "filter (\<lambda>w. w \<noteq> []) (split_on slash path) = []" by (simp only: split_on_drop [of slash path, symmetric]) simp
    then show ?thesis using None by (subst walk_names.simps) simp
  next
    case (Some x)
    then obtain rest name' where s: "skipelem path name = Some (rest, name')" by (cases x) auto
    obtain w where w: "w \<noteq> []" "slash \<notin> set w" "set w \<subseteq> set path" "set rest \<subseteq> set path"
      "filter (\<lambda>w. w \<noteq> []) (split_on slash path) = w # filter (\<lambda>w. w \<noteq> []) (split_on slash rest)"
      "name' = (if length w \<ge> DIRSIZ then (\<lambda>k. if k < DIRSIZ then w ! k else name k) else (\<lambda>k. if k < length w then w ! k else name k)(length w := 0))"
      by (rule skipelem_word [OF s])
    have "cstrn DIRSIZ name' = take DIRSIZ w" unfolding w(6) by (rule cstrn_word) (use "1.prems" w(3) in auto)
    moreover have "walk_names rest name' = map (take DIRSIZ) (filter (\<lambda>w. w \<noteq> []) (split_on slash rest))"
      using "1.IH" [OF s refl] "1.prems" w(4) by auto
    ultimately show ?thesis using w(5) s by (subst walk_names.simps) simp
  qed
qed

theorem skipelem_splits_witness:
  "walk_names (map of_char ''//a/bb//c/'') (\<lambda>_. 1) = [map of_char ''a'', map of_char ''bb'', map of_char ''c'']"
proof -
  have "\<forall>c\<in>set (map of_char ''//a/bb//c/''). c \<noteq> (0 :: u8)" by simp
  from skipelem_splits [OF this, of "\<lambda>_. 1"] show ?thesis by (simp add: DIRSIZ_def)
qed

end
