(* ===== verification/Xv6_FsUse.thy ===== *)
theory Xv6_FsUse
  imports Xv6_FsDir Xv6_File
begin

text \<open>
  The file system as system calls use it: inodes written by \<^verbatim>\<open>iupdate\<close> and read back by
  \<^verbatim>\<open>ilock\<close>, a read outside a transaction that has to allocate, and writes that are stored
  compressed.
\<close>

section \<open>Allocation outside a transaction\<close>

lemma fs_bread_log:
  "fs_bread dev n s = Ok (b, t) \<Longrightarrow>
     lg_outstanding (f_log t) = lg_outstanding (f_log s) \<and> lg_n (f_log t) = lg_n (f_log s) \<and> lg_size (f_log t) = lg_size (f_log s)"
  by (auto simp: fs_bread_def set_bio_def)

lemma fs_brelse_log:
  "fs_brelse b s = Ok t \<Longrightarrow>
     lg_outstanding (f_log t) = lg_outstanding (f_log s) \<and> lg_n (f_log t) = lg_n (f_log s) \<and> lg_size (f_log t) = lg_size (f_log s)"
  by (auto simp: fs_brelse_def set_bio_def)

lemma fs_update_outside:
  assumes "lg_outstanding (f_log s) < 1" "lg_n (f_log s) + 1 < lg_size (f_log s)" "lg_size (f_log s) \<le> int LOGSIZE"
  shows "fs_update b d s = Panic ''log_write outside of trans''"
  using assms by (simp add: fs_update_def fs_log_write_def fs_set_def set_bio_def log_write_def)

lemma balloc_outside:
  assumes "in_tx {} 0 s" "lg_outstanding (f_log s) < 1" "lg_n (f_log s) + 1 < lg_size (f_log s)" "BPB dvd b" "f_sb s = sb"
    "first_free sb (content s) b = Some c"
  shows "balloc_loop ROOTDEV sb b s = Panic ''log_write outside of trans''"
  using assms
proof (induction ROOTDEV sb b s rule: balloc_loop.induct)
  case (1 sb b s)
  note t = "1.prems"(1) and b = "1.prems"(4) and sb = "1.prems"(5) and ff = "1.prems"(6)
  let ?n = "unat (sb_size sb)" and ?m = "min BPB (unat (sb_size sb) - b)" and ?B = "BBLOCK b sb"
  have L: "lg_size (f_log s) \<le> int LOGSIZE" using t by (auto simp: in_tx_def txn_def)
  have lt: "b < ?n" using ff by (cases "b < ?n") (simp_all add: first_free_def)
  obtain bp s1 where r: "fs_bread ROOTDEV ?B s = Ok (bp, s1)" "in_tx {?B} 0 s1" "holds s1 ?B bp" "content s1 = content s" "same_rest s s1"
    by (rule tx_bread0 [OF t])
  note lg1 = fs_bread_log [OF r(1)]
  have fb: "find (free_bit (fs_data bp s1)) [0..<?m] = map_option (\<lambda>c. c - b) (find (\<lambda>c. \<not> used sb (content s) c) [b..<b + ?m])"
    using find_bits [OF r(2,3) b, of ?m] r(4) by simp
  show ?case
  proof (cases "find (\<lambda>c. \<not> used sb (content s) c) [b..<b + ?m]")
    case (Some c')
    have "fs_update bp d s1 = Panic ''log_write outside of trans''" for d
      by (rule fs_update_outside) (use lg1 "1.prems"(2,3) L in simp_all)
    then show ?thesis using lt r(1) fb Some by (subst balloc_loop.simps) (simp add: Let_def)
  next
    case None
    have "[b..<?n] = [b..<b + ?m] @ [b + ?m..<?n]" by (rule upt_split) (use lt in simp_all)
    then have "first_free sb (content s) b = first_free sb (content s) (b + ?m)" using None by (simp add: first_free_def find_append)
    moreover have "first_free sb (content s) (b + ?m) = first_free sb (content s) (b + BPB)" using lt by (auto simp: first_free_def min_def)
    ultimately have ff': "first_free sb (content s) (b + BPB) = Some c" using ff by simp
    obtain s2 where e: "fs_brelse bp s1 = Ok s2" "in_tx {} 0 s2" "content s2 = content s1" "same_rest s1 s2"
      by (rule tx_brelse0 [OF r(2,3)])
    have fn: "find (free_bit (fs_data bp s1)) [0..<?m] = None" using fb None by simp
    have "balloc_loop ROOTDEV sb (b + BPB) s2 = Panic ''log_write outside of trans''"
      by (rule "1.hyps" [OF lt r(1) _ refl fn e(1,2)])
         (use fs_brelse_log [OF e(1)] lg1 "1.prems"(2,3) b sb ff' e(3) r(4) same_restD(1) [OF r(5)] same_restD(1) [OF e(4)] in simp_all)
    then show ?thesis using lt r(1) fn e(1) by (subst balloc_loop.simps) simp
  qed
qed

lemma readi_unallocated:
  assumes t: "in_tx {} 0 s" "lg_outstanding (f_log s) < 1" "lg_n (f_log s) + 1 < lg_size (f_log s)" "0 < nfree s"
    and ip: "i_type (f_inode s i) = T_FILE" "i_dev (f_inode s i) = ROOTDEV" "i_addrs (f_inode s i) 0 = 0" "off \<le> i_size (f_inode s i)" "\<not> off + n < off"
  shows "readi i dst off n obj s = Panic ''log_write outside of trans''"
proof -
  obtain c where "first_free (f_sb s) (content s) 0 = Some c" using nfree_pos [OF t(4)] by blast
  then have "balloc ROOTDEV s = Panic ''log_write outside of trans''" unfolding balloc_def using balloc_outside [OF t(1-3) dvd_0_right refl] by blast
  then have "bread_at i 0 s = Panic ''log_write outside of trans''" using ip(2,3) by (simp add: bread_at_def bmap_def NDIRECT_def)
  then show ?thesis using ip(1,4,5) by (auto simp: readi_def Let_def)
qed

text \<open>C10. Reading an empty file panics: a file that no block has been allocated to, such as one
  that \<^verbatim>\<open>open\<close> has just created, cannot be read.  \<^verbatim>\<open>fileread\<close> starts no transaction, \<^verbatim>\<open>readi\<close>
  asks \<^verbatim>\<open>bmap\<close> for block 0 to look for a compression header, and \<^verbatim>\<open>balloc\<close> then logs the
  bitmap outside any transaction.\<close>

theorem read_empty_file_panics:
  assumes "fl_readable (n_file x f)" and "fl_type (n_file x f) = FD_INODE" and "fl_ip (n_file x f) = i" and "fl_off (n_file x f) = 0"
    and "i_ref (f_inode (n_fs x) i) \<ge> 1" and "\<not> sl_locked (i_lock (f_inode (n_fs x) i))" and "i_valid (f_inode (n_fs x) i)"
    and "i_type (f_inode (n_fs x) i) = T_FILE" and "i_dev (f_inode (n_fs x) i) = ROOTDEV" and "i_addrs (f_inode (n_fs x) i) 0 = 0"
    and "in_tx {} 0 (n_fs x)" and "lg_outstanding (f_log (n_fs x)) = 0" and "lg_n (f_log (n_fs x)) + 1 < lg_size (f_log (n_fs x))" and "0 < nfree (n_fs x)"
  shows "fileread f addr n x = Panic ''log_write outside of trans''"
proof -
  let ?s = "n_fs x"
  let ?t = "iset i (\<lambda>ip. ip\<lparr>i_lock := (i_lock (f_inode ?s i))\<lparr>sl_locked := True, sl_pid := bc_pid (f_bio ?s)\<rparr>\<rparr>) ?s"
  have "ilock i ?s = Ok ?t" using assms(5-7) by (simp add: ilock_def acquiresleep_def Let_def)
  moreover have "readi i (User addr) 0 (of_int n) (\<lambda>_. 0) ?t = Panic ''log_write outside of trans''"
    by (rule readi_unallocated) (use assms(8-14) in simp_all)
  ultimately show ?thesis using assms(1-4) by (simp add: fileread_def use_fs_def)
qed

definition demo_kern :: "fs \<Rightarrow> kern" where
  "demo_kern s = \<lparr>n_fs = s, n_file = (\<lambda>_. \<lparr>fl_type = FD_INODE, fl_ref = 1, fl_readable = True, fl_writable = True, fl_pipe = 0, fl_ip = 0,
     fl_off = 0, fl_major = 0\<rparr>), n_pipe = (\<lambda>_. empty_pipe), n_con = boot_con [], n_ticks = 0\<rparr>"

theorem read_empty_file_panics_witness:
  "\<exists>x. i_size (f_inode (n_fs x) 0) = 0 \<and> layout_ok (n_fs x) \<and> fileread 0 0x1000 10 x = Panic ''log_write outside of trans''"
proof -
  obtain lg where lg: "log_inv lg" "lg_n lg = 0" "lg_outstanding lg = 0" "\<not> lg_committing lg" "lg_start lg = 2" "lg_size lg = 30"
    "\<forall>m. m \<notin> log_area 2 29 \<longrightarrow> buf_cont (lg_bio lg) m = demo_disk m" by (rule demo_log)
  let ?s = "demo_fs T_FILE 0 (y_k (boot_sys two_pages 0 0)) (lg\<lparr>lg_outstanding := 0\<rparr>)"
  note f = demo_facts [OF lg(1,2,5,6,7) refl, where ty = T_FILE and k = "y_k (boot_sys two_pages 0 0)" and x = 0 and z = 0]
  have "fileread 0 0x1000 10 (demo_kern ?s) = Panic ''log_write outside of trans''"
    by (rule read_empty_file_panics) (use f(1,3,4) lg(2,6) in \<open>simp_all add: demo_kern_def, simp_all add: demo_fs_def demo_inode_def buf0_def\<close>)
  then show ?thesis using f(3) by (intro exI [of _ "demo_kern ?s"]) (simp add: demo_kern_def demo_fs_def demo_inode_def)
qed

section \<open>Inodes on disk\<close>

lemma dinode_lock: "dinode s m (ip\<lparr>i_lock := l\<rparr>) = (dinode s m ip)\<lparr>i_lock := l\<rparr>"
  by (rule inode.equality) (simp_all add: dinode_def get_dinode_def fun_eq_iff)

lemma ilock_load:
  assumes t: "in_tx {} k s" and j: "i_ref (f_inode s j) \<ge> 1" "\<not> sl_locked (i_lock (f_inode s j))" "\<not> i_valid (f_inode s j)" "i_dev (f_inode s j) = ROOTDEV"
    and ty: "get16 (content s (IBLOCK (i_inum (f_inode s j)) (f_sb s))) (dinode_at (i_inum (f_inode s j))) \<noteq> 0"
  obtains s' where "ilock j s = Ok s'" "in_tx {} k s'" "content s' = content s" "same_env s s'"
    "f_inode s' = (f_inode s)(j := (dinode s (i_inum (f_inode s j)) (f_inode s j))
       \<lparr>i_lock := (i_lock (f_inode s j))\<lparr>sl_locked := True, sl_pid := bc_pid (f_bio s)\<rparr>, i_valid := True\<rparr>)"
proof -
  let ?lk = "(i_lock (f_inode s j))\<lparr>sl_locked := True, sl_pid := bc_pid (f_bio s)\<rparr>" and ?m = "i_inum (f_inode s j)"
  let ?s0 = "iset j (\<lambda>ip. ip\<lparr>i_lock := ?lk\<rparr>) s" and ?n = "IBLOCK ?m (f_sb s)"
  have t0: "in_tx {} k ?s0" using t by simp
  obtain bp s1 where 1: "fs_bread ROOTDEV ?n ?s0 = Ok (bp, s1)" "in_tx {?n} k s1" "holds s1 ?n bp" "content s1 = content ?s0" "same_rest ?s0 s1"
    by (rule tx_bread0 [OF t0])
  note E1 = same_restD [OF 1(5)]
  let ?s1 = "iset j (get_dinode (fs_data bp s1) (dinode_at ?m)) s1"
  obtain s2 where 2: "fs_brelse bp ?s1 = Ok s2" "in_tx {} k s2" "content s2 = content ?s1" "same_rest ?s1 s2"
    by (rule tx_brelse0 [of ?n k ?s1 bp]) (use 1(2,3) in simp_all)
  note E2 = same_restD [OF 2(4)]
  let ?s2 = "iset j (\<lambda>ip. ip\<lparr>i_valid := True\<rparr>) s2"
  have g: "get_dinode (fs_data bp s1) (dinode_at ?m) ip = dinode s ?m ip" for ip
    unfolding dinode_def using holds_byte [OF 1(2,3)] 1(4) dinode_fits [of ?m] by (intro get_dinode_cong) simp
  have ip: "f_inode ?s2 = (f_inode s)(j := (dinode s ?m (f_inode s j))\<lparr>i_lock := ?lk, i_valid := True\<rparr>)"
    using E1(2) E2(2) g by (simp add: fun_eq_iff dinode_lock)
  have "i_type (f_inode ?s2 j) \<noteq> 0" using ty unfolding ip by (simp add: dinode_def get_dinode_def)
  then have "ilock j s = Ok ?s2" using j 1(1) 2(1) by (simp add: ilock_def acquiresleep_def Let_def)
  moreover have "same_env s ?s2"
    using same_rest_env [OF 1(5)] same_rest_env [OF 2(4)] same_env_trans [of s s1 s2] by simp
  ultimately show thesis using that [of ?s2] 2(2,3) 1(4) ip by simp
qed

text \<open>C18. Inodes survive on disk: after \<^verbatim>\<open>iupdate\<close> of an allocated inode, \<^verbatim>\<open>ilock\<close> of a fresh entry
  of the inode table for the same number returns with all the fields that \<^verbatim>\<open>iupdate\<close> wrote, and
  every other inode on disk is as it was.\<close>

theorem inode_roundtrip:
  assumes "in_tx {} (Suc k) s" and "layout_ok s" and "i_dev (f_inode s i) = ROOTDEV" and "i_inum (f_inode s i) < sb_ninodes (f_sb s)"
    and "i_type (f_inode s i) \<noteq> 0" and "i_inum (f_inode s j) = i_inum (f_inode s i)" and "i_dev (f_inode s j) = ROOTDEV"
    and "i_ref (f_inode s j) \<ge> 1" and "\<not> sl_locked (i_lock (f_inode s j))" and "\<not> i_valid (f_inode s j)"
  shows "\<exists>s1 s2. iupdate i s = Ok s1 \<and> ilock j s1 = Ok s2 \<and> i_valid (f_inode s2 j) \<and> holdingsleep (bc_pid (f_bio s1)) (i_lock (f_inode s2 j)) \<and>
    i_type (f_inode s2 j) = i_type (f_inode s i) \<and> i_major (f_inode s2 j) = i_major (f_inode s i) \<and>
    i_minor (f_inode s2 j) = i_minor (f_inode s i) \<and> i_nlink (f_inode s2 j) = i_nlink (f_inode s i) \<and>
    i_size (f_inode s2 j) = i_size (f_inode s i) \<and> (\<forall>a \<le> NDIRECT. i_addrs (f_inode s2 j) a = i_addrs (f_inode s i) a) \<and>
    (\<forall>m jp. m \<noteq> i_inum (f_inode s i) \<longrightarrow> dinode s1 m jp = dinode s m jp)"
proof -
  obtain s1 where 1: "iupdate i s = Ok s1" "in_tx {} k s1" "same_rest s s1" "layout_ok s1" "\<forall>b. data_block s1 b = data_block s b"
    "\<forall>b. b \<notin> inode_blocks (f_sb s) \<longrightarrow> content s1 b = content s b" "nfree s1 = nfree s"
    "\<forall>m jp. dinode s1 m jp = (if m = i_inum (f_inode s i) then get_dinode (put_dinode (f_inode s i) 0 (\<lambda>_. 0)) 0 jp else dinode s m jp)"
    by (rule iupdate_ok [OF assms(1-4)])
  note E = same_restD [OF 1(3)]
  have d: "dinode s1 (i_inum (f_inode s1 j)) (f_inode s1 j) = get_dinode (put_dinode (f_inode s i) 0 (\<lambda>_. 0)) 0 (f_inode s1 j)"
    using 1(8) assms(6) by (simp add: E(2))
  have "i_type (dinode s1 (i_inum (f_inode s1 j)) (f_inode s1 j)) \<noteq> 0" unfolding d dinode_roundtrip using assms(5) by simp
  then have ty: "get16 (content s1 (IBLOCK (i_inum (f_inode s1 j)) (f_sb s1))) (dinode_at (i_inum (f_inode s1 j))) \<noteq> 0"
    by (simp add: dinode_def get_dinode_def)
  obtain s2 where 2: "ilock j s1 = Ok s2" "in_tx {} k s2" "content s2 = content s1" "same_env s1 s2"
    "f_inode s2 = (f_inode s1)(j := (dinode s1 (i_inum (f_inode s1 j)) (f_inode s1 j))
       \<lparr>i_lock := (i_lock (f_inode s1 j))\<lparr>sl_locked := True, sl_pid := bc_pid (f_bio s1)\<rparr>, i_valid := True\<rparr>)"
    by (rule ilock_load [OF 1(2) _ _ _ _ ty]) (use assms E(2) in simp_all)
  show ?thesis
    by (rule exI [of _ s1], rule exI [of _ s2]) (use 1(1,8) 2(1) assms(6) in \<open>simp add: 2(5) E(2) dinode_roundtrip holdingsleep_def\<close>)
qed

theorem inode_roundtrip_witness:
  "\<exists>s s1 s2. i_size (f_inode s 0) = 40 \<and> iupdate 0 s = Ok s1 \<and> ilock 1 s1 = Ok s2 \<and> i_size (f_inode s2 1) = 40"
proof -
  obtain s where s: "in_tx {} 29 s" "layout_ok s" "file_ok s 0" "f_inode s 0 = demo_inode T_FILE 40"
    by (rule demo_exists [of 40 T_FILE]) simp
  let ?s = "iset 1 (\<lambda>_. (f_inode s 0)\<lparr>i_valid := False\<rparr>) s"
  have "\<exists>s1 s2. iupdate 0 ?s = Ok s1 \<and> ilock 1 s1 = Ok s2 \<and> i_valid (f_inode s2 1) \<and> holdingsleep (bc_pid (f_bio s1)) (i_lock (f_inode s2 1)) \<and>
    i_type (f_inode s2 1) = i_type (f_inode ?s 0) \<and> i_major (f_inode s2 1) = i_major (f_inode ?s 0) \<and>
    i_minor (f_inode s2 1) = i_minor (f_inode ?s 0) \<and> i_nlink (f_inode s2 1) = i_nlink (f_inode ?s 0) \<and>
    i_size (f_inode s2 1) = i_size (f_inode ?s 0) \<and> (\<forall>a \<le> NDIRECT. i_addrs (f_inode s2 1) a = i_addrs (f_inode ?s 0) a) \<and>
    (\<forall>m jp. m \<noteq> i_inum (f_inode ?s 0) \<longrightarrow> dinode s1 m jp = dinode ?s m jp)"
    by (rule inode_roundtrip [of 28]) (use s in \<open>simp_all add: file_ok_def demo_inode_def buf0_def T_FILE_def\<close>)
  then obtain s1 s2 where r: "iupdate 0 ?s = Ok s1" "ilock 1 s1 = Ok s2" "i_size (f_inode s2 1) = i_size (f_inode ?s 0)" by blast
  show ?thesis by (rule exI [of _ ?s], rule exI [of _ s1], rule exI [of _ s2]) (use r s(4) in \<open>simp add: demo_inode_def\<close>)
qed

section \<open>Compressed writes\<close>

text \<open>Physical memory and the state of the coder are no blocks.\<close>

lemma other_simps [simp]:
  "content (s\<lparr>f_huff := h\<rparr>) = content s" "in_tx X k (s\<lparr>f_huff := h\<rparr>) = in_tx X k s" "home (s\<lparr>f_huff := h\<rparr>) = home s"
  "content (set_phys ph s) = content s" "in_tx X k (set_phys ph s) = in_tx X k s" "home (set_phys ph s) = home s"
  "f_inode (set_phys ph s) = f_inode s" "f_sb (set_phys ph s) = f_sb s" "f_huff (set_phys ph s) = f_huff s" "f_phys (set_phys ph s) = ph"
  by (simp_all add: content_def in_tx_def home_def set_phys_def)

lemma other_blocks:
  "layout_ok (s\<lparr>f_huff := h\<rparr>) = layout_ok s" "nfree (s\<lparr>f_huff := h\<rparr>) = nfree s" "file_ok (s\<lparr>f_huff := h\<rparr>) i = file_ok s i"
  "layout_ok (set_phys ph s) = layout_ok s" "nfree (set_phys ph s) = nfree s" "file_ok (set_phys ph s) i = file_ok s i"
proof -
  have *: "layout_ok t = layout_ok s \<and> nfree t = nfree s \<and> file_ok t i = file_ok s i"
    if "content t = content s" "home t = home s" "f_sb t = f_sb s" "f_inode t = f_inode s" for t
  proof -
    note D = data_block_cong [OF that(3,2,1)] and F = file_cong [OF that(4,1)]
    have "blocks_ok t i = blocks_ok s i" unfolding blocks_ok_def slots_ok_def D(1) that(1,4) ..
    then show ?thesis using D F that(3,4) by (simp add: file_ok_def)
  qed
  show "layout_ok (s\<lparr>f_huff := h\<rparr>) = layout_ok s" "nfree (s\<lparr>f_huff := h\<rparr>) = nfree s" "file_ok (s\<lparr>f_huff := h\<rparr>) i = file_ok s i"
    using * [of "s\<lparr>f_huff := h\<rparr>"] by simp_all
  show "layout_ok (set_phys ph s) = layout_ok s" "nfree (set_phys ph s) = nfree s" "file_ok (set_phys ph s) i = file_ok s i"
    using * [of "set_phys ph s"] by simp_all
qed

lemma write_compressed_ok:
  assumes t: "in_tx {} (k + 7) s" and l: "layout_ok s" and f: "file_ok s i" "2 \<le> nfree s" and c: "16 + nat c \<le> BSIZE"
  obtains s' where "write_compressed i n c out s = Ok s'" "same_env s s'" "i_size (f_inode s' i) = of_int c + 16"
proof -
  have b: "blocks_ok s i" "i_inum (f_inode s i) < sb_ninodes (f_sb s)" using f(1) by (auto simp: file_ok_def)
  have t': "in_tx {} (Suc (Suc k) + 5) s" using t by (simp add: eval_nat_numeral)
  have M: "0 < MAXFILE" "0 < MAXFILE * BSIZE" by (simp_all add: MAXFILE_def NDIRECT_def BSIZE_def)
  obtain a s0 where 0: "bmap i 0 s = Ok (a, s0)" "in_tx {} (Suc (Suc k)) s0" "bmapped i 0 a s s0"
    by (rule bmap_ok [OF t' l b(1) f(2) M(1)])
  have a: "dblock s0 i 0 = a" "a \<noteq> 0" "blocks_ok s0 i" "layout_ok s0" "same_env s s0" "i_dev (f_inode s0 i) = ROOTDEV"
    using 0(3) by (auto simp: bmapped_def grows_def blocks_ok_def)
  obtain bp s1 where 1: "fs_bread ROOTDEV a s0 = Ok (bp, s1)" "in_tx {a} (Suc (Suc k)) s1" "holds s1 a bp" "content s1 = content s0" "same_rest s0 s1"
    by (rule tx_bread0 [OF 0(2)])
  let ?d = "move_bytes (put_header n (of_int c) (fs_data bp s1)) 16 out 0 (nat c)"
  have hm: "a \<in> home s1" using dblock_data(1) [OF a(3) M(1)] a(1,2) same_restD(5) [OF 1(5)] by (simp add: data_block_def)
  obtain s2 where 2: "fs_update bp ?d s1 = Ok s2" "in_tx {} (Suc k) s2" "content s2 = (content s1)(a := blk ?d)" "same_rest s1 s2"
    by (rule tx_update0 [OF 1(2) hm 1(3)])
  have D: "same_rest s0 s2" by (rule same_rest_trans [OF 1(5) 2(4)])
  note E = same_restD [OF D]
  have "data_block s0 a" using dblock_data(1) [OF a(3) M(1)] a(1,2) by simp
  then have l2: "layout_ok s2" by (rule grows_write(4) [OF a(4)]) (use 2(3) 1(4) E in simp_all)
  let ?s2 = "iset i (\<lambda>ip. ip\<lparr>i_size := of_int c + 16\<rparr>) s2"
  have ip: "i_inum (f_inode s0 i) = i_inum (f_inode s i)" "f_sb s0 = f_sb s" using 0(3) by (auto simp: bmapped_def same_env_def)
  obtain s' where 3: "iupdate i ?s2 = Ok s'" "in_tx {} k s'" "same_rest ?s2 s'" "layout_ok s'" "\<forall>b. data_block s' b = data_block ?s2 b"
    "\<forall>b. b \<notin> inode_blocks (f_sb ?s2) \<longrightarrow> content s' b = content ?s2 b" "nfree s' = nfree ?s2"
    "\<forall>m jp. dinode s' m jp = (if m = i_inum (f_inode ?s2 i) then get_dinode (put_dinode (f_inode ?s2 i) 0 (\<lambda>_. 0)) 0 jp else dinode ?s2 m jp)"
    by (rule iupdate_ok [of k ?s2 i]) (use 2(2) l2 a(6) E b(2) ip in simp_all)
  have "bread_at i 0 s = Ok (bp, s1)" using 0(1) 1(1) a(6) by (simp add: bread_at_def)
  then have "write_compressed i n c out s = Ok s'" using c 2(1) 3(1) by (simp add: write_compressed_def)
  moreover have "same_env s s'" using same_env_trans [OF a(5) same_env_trans [OF same_rest_env [OF D]]] same_rest_env [OF 3(3)] by simp
  moreover have "i_size (f_inode s' i) = of_int c + 16" using same_restD(2) [OF 3(3)] by simp
  ultimately show thesis using that by blast
qed

lemma sint_of_nat32: "m < 2 ^ 31 \<Longrightarrow> sint (of_nat m :: u32) = int m"
  by (simp add: signed_of_nat signed_take_bit_int_eq_self)

lemma sint_unat32: "unat (n :: u32) < 2 ^ 31 \<Longrightarrow> sint n = int (unat n)"
  using sint_of_nat32 [of "unat n"] by simp

lemma compress_store:
  assumes t: "in_tx {} (k + 7) s" "layout_ok s" "file_ok s i" "2 \<le> nfree s" and ty: "i_type (f_inode s i) = T_FILE"
    and km: "kmem_rep kend (f_phys s) (p # q # ps)" and n: "16 < unat n" "unat n \<le> 1024" "d = card ((\<lambda>k. obj (j + k)) ` {..<unat n})"
    and fit: "8 * (4 + 16 * (2 * d - 1)) + unat n * (2 * d - 2) + 136 \<le> 8 * unat n"
  obtains c s' where "writei i (Object j) 0 n obj s = Ok (int (unat n), s')" "0 < c" "c + 16 < unat n" "unat (i_size (f_inode s' i)) = c + 16"
proof -
  obtain ph1 where 1: "kalloc (f_phys s) = (p, ph1)" "kmem_rep kend ph1 (q # ps)" using kalloc_Cons [OF km] by blast
  obtain ph2 where 2: "kalloc ph1 = (q, ph2)" "kmem_rep kend ph2 ps" using kalloc_Cons [OF 1(2)] by blast
  have pq: "page_ok kend p" "page_ok kend q" "p \<notin> set ps" "q \<notin> set (p # ps)" "p \<noteq> 0" "q \<noteq> 0"
    using km page_ok_nonzero by (auto simp: kmem_rep_def list_all_iff)
  let ?in = "move_bytes (view (ph_mem ph1) p) 0 obj j (unat n)"
  have si: "sint n = int (unat n)" by (rule sint_unat32) (use n(2) in simp)
  have sn: "0 < sint n" "sint n \<le> int PAGE" "nat (sint n) = unat n" unfolding si PAGE_def using n(1,2) by linarith+
  have img: "?in ` {..<nat (sint n)} = (\<lambda>k. obj (j + k)) ` {..<unat n}" unfolding sn(3) by (intro image_cong) (auto simp: move_bytes_def)
  have "\<exists>r out h. compress_huffman ?in (sint n) (view (ph_mem ph2) q) (int PAGE) (f_huff s) = Ok (r, out, h) \<and> 0 < r \<and>
    8 * nat r < 8 * (4 + 16 * (2 * d - 1)) + nat (sint n) * (2 * d - 2) + 8"
    by (rule compress_fits [OF sn(1) _ _ sn(2)]) (use n fit img in \<open>simp_all add: sn(3)\<close>)
  then obtain r out h where c: "compress_huffman ?in (sint n) (view (ph_mem ph2) q) (int PAGE) (f_huff s) = Ok (r, out, h)" "0 < r"
    "8 * nat r < 8 * (4 + 16 * (2 * d - 1)) + unat n * (2 * d - 2) + 8" unfolding sn(3) by blast
  have r: "nat r + 16 < unat n" "16 + nat r \<le> BSIZE" using c(3) fit n(2) by (simp_all add: BSIZE_def)
  let ?s2 = "(set_phys ph2 (set_phys ph1 s))\<lparr>f_huff := h\<rparr>"
  obtain s3 where 3: "write_compressed i n r out ?s2 = Ok s3" "same_env ?s2 s3" "i_size (f_inode s3 i) = of_int r + 16"
    by (rule write_compressed_ok [of k ?s2 i r]) (use t r(2) in \<open>simp_all add: other_blocks\<close>)
  have k3: "f_phys s3 = ph2" using same_envD(2) [OF 3(2)] by (simp add: set_phys_def)
  obtain ph3 where 4: "kfree p ph2 = Ok ph3" "kmem_rep kend ph3 (p # ps)" using kfree_Cons [OF 2(2) pq(1,3)] by blast
  obtain ph4 where 5: "kfree q ph3 = Ok ph4" "kmem_rep kend ph4 (q # p # ps)" using kfree_Cons [OF 4(2) pq(2,4)] by blast
  let ?s' = "set_phys ph4 (set_phys ph3 s3)"
  have ru: "r < int (unat n)" using r(1) by linarith
  have "try_compress i n p ?in (set_phys ph1 s) = Ok (True, ?s')"
    using ru 2(1) c(1,2) 3(1) 4(1) 5(1) k3 pq(6) r(1) by (simp add: try_compress_def fs_kalloc_def fs_kfree_def Let_def)
  moreover have "\<not> 0 > i_size (f_inode s i)" "unat n \<le> MAXFILE * BSIZE" using n(2) by (simp_all add: MAXFILE_def NDIRECT_def NINDIRECT_def BSIZE_def)
  ultimately have "writei i (Object j) 0 n obj s = Ok (int (unat n), ?s')"
    using 1(1) ty pq(5) n(1,2) si by (simp add: writei_def fs_kalloc_def copy_temp_def PAGE_def)
  moreover have "unat (i_size (f_inode ?s' i)) = nat r + 16"
  proof -
    have "i_size (f_inode ?s' i) = of_nat (nat r + 16)" using 3(3) c(2) by simp
    then show ?thesis using unat_of_nat32 [of "nat r + 16"] r(1) n(2) by simp
  qed
  ultimately show thesis using that [of ?s' "nat r"] c(2) r(1) by simp
qed



end
