(* ===== verification/Xv6_Crash.thy ===== *)
theory Xv6_Crash
  imports Xv6_FsUse
begin

text \<open>
  Crash safety of file system operations: no operation of \<^verbatim>\<open>fs.c\<close> writes to the disk, so that only
  the commit of the log does, and a crash at any point of a system call leaves either all of its changes
  or none.
\<close>

section \<open>Operations that leave the disk alone\<close>

definition calm :: "fs \<Rightarrow> fs \<Rightarrow> bool" where
  "calm s t \<longleftrightarrow> d_disk (f_bio t) = d_disk (f_bio s) \<and> d_trace (f_bio t) = d_trace (f_bio s) \<and>
     lg_start (f_log t) = lg_start (f_log s) \<and> lg_size (f_log t) = lg_size (f_log s) \<and>
     lg_outstanding (f_log t) = lg_outstanding (f_log s) \<and> lg_committing (f_log t) = lg_committing (f_log s) \<and>
     f_sb t = f_sb s"

definition runs_calm :: "('a \<Rightarrow> fs) \<Rightarrow> fs \<Rightarrow> 'a outcome \<Rightarrow> bool" where
  "runs_calm g s r \<longleftrightarrow> (\<forall>x. r = Ok x \<longrightarrow> calm s (g x))"

abbreviation calm1 :: "fs \<Rightarrow> fs outcome \<Rightarrow> bool" where "calm1 \<equiv> runs_calm (\<lambda>x. x)"
abbreviation calm2 :: "fs \<Rightarrow> ('a \<times> fs) outcome \<Rightarrow> bool" where "calm2 \<equiv> runs_calm snd"
abbreviation calm3 :: "fs \<Rightarrow> ('a \<times> 'b \<times> fs) outcome \<Rightarrow> bool" where "calm3 \<equiv> runs_calm (\<lambda>x. snd (snd x))"

named_theorems calm_intros

lemma calm_refl [simp]: "calm s s"
  by (simp add: calm_def)

lemma calm_trans: "calm s t \<Longrightarrow> calm t u \<Longrightarrow> calm s u"
  by (simp add: calm_def)

lemma calm_updates [simp]:
  "calm s (iset i g t) = calm s t" "calm s (set_phys ph t) = calm s t" "calm s (fs_set b d t) = calm s t"
  "calm s (t\<lparr>f_huff := h\<rparr>) = calm s t" "calm s (t\<lparr>f_k := k\<rparr>) = calm s t" "calm s (t\<lparr>f_cbuf := a\<rparr>) = calm s t"
  "calm s (t\<lparr>f_cinum := j, f_clen := n\<rparr>) = calm s t"
  by (simp_all add: calm_def iset_def set_phys_def fs_set_def set_bio_def set_data_def bset_def)

lemma calm_bind1 [calm_intros]:
  "calm1 s r \<Longrightarrow> (\<And>t. calm s t \<Longrightarrow> runs_calm h s (f t)) \<Longrightarrow> runs_calm h s (obind r f)"
  by (auto simp: runs_calm_def)

lemma calm_bind2 [calm_intros]:
  "calm2 s r \<Longrightarrow> (\<And>a t. calm s t \<Longrightarrow> runs_calm h s (f a t)) \<Longrightarrow> runs_calm h s (obind r (\<lambda>(a, t). f a t))"
  by (auto simp: runs_calm_def)

lemma calm_bind3 [calm_intros]:
  "calm3 s r \<Longrightarrow> (\<And>a b t. calm s t \<Longrightarrow> runs_calm h s (f a b t)) \<Longrightarrow> runs_calm h s (obind r (\<lambda>(a, b, t). f a b t))"
  by (auto simp: runs_calm_def)

lemma calm_pure [calm_intros]:
  "(\<And>a b. runs_calm h s (f a b)) \<Longrightarrow> runs_calm h s (obind (r :: (int \<times> bytes) outcome) (\<lambda>(a, b). f a b))"
  "(\<And>a b c. runs_calm h s (g a b c)) \<Longrightarrow> runs_calm h s (obind (q :: (int \<times> bytes \<times> huff) outcome) (\<lambda>(a, b, c). g a b c))"
  "(\<And>k. runs_calm h s (l k)) \<Longrightarrow> runs_calm h s (obind (v :: sleeplock outcome) l)"
  "(\<And>a b. runs_calm h s (m a b)) \<Longrightarrow> runs_calm h s (obind (w :: (int \<times> kst) outcome) (\<lambda>(a, b). m a b))"
  "(\<And>a. runs_calm h s (p a)) \<Longrightarrow> runs_calm h s (obind (z :: phys outcome) p)"
  by (auto simp: runs_calm_def)

lemma calm_Ok [calm_intros]:
  "calm s (h x) \<Longrightarrow> runs_calm h s (Ok x)" "runs_calm h s (Panic m)" "runs_calm h s Fault" "runs_calm h s Blocked" "runs_calm h s Diverge"
  by (simp_all add: runs_calm_def)

lemma calm_if [calm_intros]:
  "(b \<Longrightarrow> runs_calm h s x) \<Longrightarrow> (\<not> b \<Longrightarrow> runs_calm h s y) \<Longrightarrow> runs_calm h s (if b then x else y)"
  by simp

lemma calm_option [calm_intros]:
  "runs_calm h s x \<Longrightarrow> (\<And>a. runs_calm h s (y a)) \<Longrightarrow> runs_calm h s (case v of None \<Rightarrow> x | Some a \<Rightarrow> y a)"
  by (cases v) auto

lemma calm_kalloc [calm_intros]:
  "calm s t \<Longrightarrow> (\<And>a u. calm s u \<Longrightarrow> runs_calm h s (f a u)) \<Longrightarrow> runs_calm h s (case fs_kalloc t of (a, u) \<Rightarrow> f a u)"
  by (auto simp: fs_kalloc_def split: prod.splits)

lemma calm_kfree [calm_intros]: "calm s t \<Longrightarrow> calm1 s (fs_kfree a t)"
  by (auto simp: fs_kfree_def runs_calm_def)

lemma bset_disk [simp]: "d_disk (bset b f s) = d_disk s" "d_trace (bset b f s) = d_trace s"
  by (simp_all add: bset_def)

lemma list_disk [simp]:
  "d_disk (push_front b s) = d_disk s" "d_trace (push_front b s) = d_trace s" "d_disk (unlink b s) = d_disk s" "d_trace (unlink b s) = d_trace s"
  by (simp_all add: push_front_def unlink_def Let_def)

lemma bget_disk: "bget dev n s = Ok (b, c) \<Longrightarrow> d_disk c = d_disk s \<and> d_trace c = d_trace s"
  by (auto simp: bget_def lock_buf_def split: option.splits)

lemma bread_disk: "bread dev n s = Ok (b, c) \<Longrightarrow> d_disk c = d_disk s \<and> d_trace c = d_trace s"
  by (auto simp: bread_def disk_rw_def set_data_def Let_def dest!: bget_disk split: if_splits)

lemma brelse_disk:
  assumes "brelse b s = Ok c"
  shows "d_disk c = d_disk s \<and> d_trace c = d_trace s"
proof -
  let ?u = "bset b (\<lambda>x. x\<lparr>b_refcnt := b_refcnt x - 1\<rparr>) (bset b (\<lambda>x. x\<lparr>b_lock := releasesleep (b_lock x)\<rparr>) s)"
  have "c = push_front b (unlink b ?u) \<or> c = ?u"
    using assms unfolding brelse_def Let_def by (auto simp only: outcome.simps split: if_split_asm)
  then show ?thesis by (elim disjE) simp_all
qed

lemma calm_bread [calm_intros]: "calm s t \<Longrightarrow> calm2 s (fs_bread dev n t)"
  by (auto simp: runs_calm_def calm_def fs_bread_def set_bio_def dest!: bread_disk)

lemma calm_brelse [calm_intros]: "calm s t \<Longrightarrow> calm1 s (fs_brelse b t)"
  by (auto simp: runs_calm_def calm_def fs_brelse_def set_bio_def dest!: brelse_disk)

lemma calm_log_write [calm_intros]: "calm s t \<Longrightarrow> calm1 s (fs_log_write b t)"
  by (auto simp: runs_calm_def calm_def fs_log_write_def log_write_def bpin_def Let_def split: if_splits)

lemma calm_update [calm_intros]: "calm s t \<Longrightarrow> calm1 s (fs_update b d t)"
  unfolding fs_update_def by (intro calm_intros) simp_all

lemma calm_bzero [calm_intros]: "calm s t \<Longrightarrow> calm1 s (bzero dev n t)"
  unfolding bzero_def by (intro calm_intros) simp_all

lemma calm_balloc_loop [calm_intros]: "calm s t \<Longrightarrow> calm2 s (balloc_loop dev sb b t)"
proof (induction "unat (sb_size sb) - b" arbitrary: b t rule: less_induct)
  case less
  then show ?case unfolding balloc_loop.simps [of dev sb b t] Let_def
    by (intro calm_intros less.hyps) (simp_all add: BPB_def BSIZE_def)
qed

lemma calm_balloc [calm_intros]: "calm s t \<Longrightarrow> calm2 s (balloc dev t)"
  unfolding balloc_def by (intro calm_intros)

lemma calm_bmap [calm_intros]: "calm s t \<Longrightarrow> calm2 s (bmap i bn t)"
  unfolding bmap_def Let_def by (intro calm_intros) simp_all

lemma calm_bread_at [calm_intros]: "calm s t \<Longrightarrow> calm2 s (bread_at i off t)"
  unfolding bread_at_def by (intro calm_intros)

lemma calm_iupdate [calm_intros]: "calm s t \<Longrightarrow> calm1 s (iupdate i t)"
  unfolding iupdate_def Let_def by (intro calm_intros)

lemma calm_writei_loop [calm_intros]: "calm s t \<Longrightarrow> calm2 s (writei_loop i src off n tot obj t)"
proof (induction "n - tot" arbitrary: tot t rule: less_induct)
  case less
  then show ?case unfolding writei_loop.simps [of i src off n tot obj t] Let_def
    by (intro calm_intros less.hyps) simp_all
qed

lemma calm_writei [calm_intros]: "calm s t \<Longrightarrow> calm2 s (writei i src off n obj t)"
  unfolding writei_def writei_plain_def try_compress_def write_compressed_def copy_temp_def Let_def
  by (intro calm_intros) simp_all

section \<open>The other operations\<close>

lemma calm_copy_to [calm_intros]: "calm s t \<Longrightarrow> calm3 s (copy_to dst src n obj t)"
  by (cases dst) (auto simp: runs_calm_def)

lemma calm_readi_loop [calm_intros]: "calm s t \<Longrightarrow> calm3 s (readi_loop i dst off n tot obj t)"
proof (induction "n - tot" arbitrary: tot obj t rule: less_induct)
  case less
  then show ?case unfolding readi_loop.simps [of i dst off n tot obj t] Let_def
    by (intro calm_intros less.hyps) simp_all
qed

lemma calm_gather [calm_intros]: "calm s t \<Longrightarrow> calm2 s (gather i m tot d t)"
proof (induction "m - tot" arbitrary: tot d t rule: less_induct)
  case less
  then show ?case unfolding gather.simps [of i m tot d t] Let_def by (intro calm_intros less.hyps) simp_all
qed

lemma calm_fill_cache [calm_intros]: "calm s t \<Longrightarrow> calm2 s (fill_cache i n t)"
  unfolding fill_cache_def Let_def by (intro calm_intros) simp_all

lemma calm_readi [calm_intros]: "calm s t \<Longrightarrow> calm3 s (readi i dst off n obj t)"
  unfolding readi_def readi_cached_def Let_def by (intro calm_intros) simp_all

lemma calm_bfree [calm_intros]: "calm s t \<Longrightarrow> calm1 s (bfree dev b t)"
  unfolding bfree_def Let_def by (intro calm_intros) simp_all

lemma calm_trunc_direct [calm_intros]: "calm s t \<Longrightarrow> calm1 s (trunc_direct i ks t)"
  by (induction ks arbitrary: t) (simp, intro calm_intros, simp, simp, intro conjI impI calm_intros, simp_all)

lemma calm_trunc_indirect [calm_intros]: "calm s t \<Longrightarrow> calm1 s (trunc_indirect dev bp js t)"
  by (induction js arbitrary: t) (simp, intro calm_intros, simp, simp add: Let_def, intro conjI impI calm_intros, simp_all)

lemma calm_itrunc [calm_intros]: "calm s t \<Longrightarrow> calm1 s (itrunc i t)"
  unfolding itrunc_def by (intro calm_intros) simp_all

lemma calm_iput [calm_intros]: "calm s t \<Longrightarrow> calm1 s (iput i t)"
  unfolding iput_def Let_def by (intro calm_intros) simp_all

lemma calm_ilock [calm_intros]: "calm s t \<Longrightarrow> calm1 s (ilock i t)"
  unfolding ilock_def Let_def by (intro calm_intros) simp_all

lemma calm_iunlock [calm_intros]: "calm s t \<Longrightarrow> calm1 s (iunlock i t)"
  unfolding iunlock_def by (intro calm_intros) simp_all

lemma calm_iunlockput [calm_intros]: "calm s t \<Longrightarrow> calm1 s (iunlockput i t)"
  unfolding iunlockput_def by (intro calm_intros) simp_all

lemma calm_iget [calm_intros]: "calm s t \<Longrightarrow> calm2 s (iget dev n t)"
  unfolding iget_def by (intro calm_intros) simp_all

lemma calm_ialloc_loop [calm_intros]: "calm s t \<Longrightarrow> calm2 s (ialloc_loop dev type sb n t)"
proof (induction "unat (sb_ninodes sb) - n" arbitrary: n t rule: less_induct)
  case less
  then show ?case unfolding ialloc_loop.simps [of dev type sb n t] Let_def by (intro calm_intros less.hyps) simp_all
qed

lemma calm_dirlookup_loop [calm_intros]: "calm s t \<Longrightarrow> calm2 s (dirlookup_loop dp name sz off t)"
proof (induction "sz - off" arbitrary: off t rule: less_induct)
  case less
  then show ?case unfolding dirlookup_loop.simps [of dp name sz off t] by (intro calm_intros less.hyps) simp_all
qed

lemma calm_case_pair [calm_intros]: "(\<And>a b. runs_calm h s (f a b)) \<Longrightarrow> runs_calm h s (case (x :: u32 \<times> nat) of (a, b) \<Rightarrow> f a b)"
  "(\<And>a b. runs_calm h s (g a b)) \<Longrightarrow> runs_calm h s (case (y :: nat \<times> nat) of (a, b) \<Rightarrow> g a b)"
  by (cases x, simp) (cases y, simp)

lemma calm_dirlookup [calm_intros]: "calm s t \<Longrightarrow> calm2 s (dirlookup dp name t)"
  unfolding dirlookup_def by (intro calm_intros) simp_all

lemma calm_free_entry [calm_intros]: "calm s t \<Longrightarrow> calm2 s (free_entry dp sz off t)"
proof (induction "sz - off" arbitrary: off t rule: less_induct)
  case less
  then show ?case unfolding free_entry.simps [of dp sz off t] by (intro calm_intros less.hyps) simp_all
qed

lemma calm_dirlink [calm_intros]: "calm s t \<Longrightarrow> calm2 s (dirlink dp name inum t)"
  unfolding dirlink_def by (intro calm_intros) simp_all

lemma calm_namex_loop [calm_intros]: "calm s t \<Longrightarrow> calm3 s (namex_loop path np name ip t)"
proof (induction "length path" arbitrary: path name ip t rule: less_induct)
  case less
  show ?case
  proof (cases "skipelem path name")
    case None
    then show ?thesis using less.prems unfolding namex_loop.simps [of path np name ip t]
      by simp (intro conjI impI calm_intros, simp_all)
  next
    case (Some p)
    obtain path' name' where p: "p = (path', name')" by (cases p)
    have l: "length path' < length path" using Some p skipelem_shorter by blast
    show ?thesis using less.prems unfolding namex_loop.simps [of path np name ip t] Some p option.case prod.case
      by (intro calm_intros less.hyps l) simp_all
  qed
qed

lemma calm_namex: "calm s t \<Longrightarrow> calm3 s (namex path np name t)"
  unfolding namex_def idup_def Let_def by (simp add: calm_intros split: option.split)

section \<open>Transactions\<close>

text \<open>A system call that ran calmly and is the last one to end: whatever part of the writes of \<^verbatim>\<open>end_op\<close>
  reaches the disk, recovery finds either the contents from before or those after the call.\<close>

lemma tx_atomic:
  assumes i: "log_inv (f_log s)" "lg_n (f_log s) = 0" and c: "calm s t" and t: "in_tx {} k t"
    and o: "lg_outstanding (f_log s) = 1" "\<not> lg_committing (f_log s)" "sint nlog = lg_size (f_log s)"
  shows "\<exists>u ws p. fs_end_op t = Ok u \<and> d_trace (f_bio u) = d_trace (f_bio s) @ ws \<and>
    (\<forall>j d. interrupted pid (lg_start (f_log s)) nlog (apply_writes (d_disk (f_bio s)) (take j ws)) d \<longrightarrow>
      (\<exists>r. reboot pid (lg_start (f_log s)) nlog d = Ok r \<and>
        (\<forall>m \<in> home s. buf_cont (lg_bio r) m = (if j \<le> p then content s m else content t m))))"
proof -
  let ?l = "(f_log t)\<lparr>lg_outstanding := 0, lg_committing := True\<rparr>"
  have li: "log_inv ?l" "sint nlog = lg_size ?l" using t c o by (simp_all add: in_tx_def txn_idle calm_def)
  have e: "lg_bio ?l = f_bio t" by simp
  obtain lg ws where w: "commit ?l = Ok lg" "d_trace (lg_bio lg) = d_trace (f_bio t) @ ws"
    "\<forall>j d. interrupted pid (lg_start ?l) nlog (apply_writes (d_disk (f_bio t)) (take j ws)) d \<longrightarrow>
      (\<exists>r. reboot pid (lg_start ?l) nlog d = Ok r \<and> (\<forall>m. m \<notin> log_area (lg_start ?l) (log_cap ?l) \<longrightarrow>
        buf_cont (lg_bio r) m = (if j \<le> nat (lg_n ?l) then d_disk (f_bio t) m else buf_cont (f_bio t) m)))"
    using commit_crash [OF li, of pid, unfolded e] by blast
  have d: "d_disk (f_bio s) m = content s m" for m
    unfolding content_def by (rule unlogged_clean [OF i(1)]) (simp add: i(2) logged_def)
  have "fs_end_op t = Ok (t\<lparr>f_log := lg\<lparr>lg_committing := False\<rparr>\<rparr>)"
    using w(1) c o by (simp add: fs_end_op_def end_op_def calm_def)
  moreover have "\<forall>j d. interrupted pid (lg_start (f_log s)) nlog (apply_writes (d_disk (f_bio s)) (take j ws)) d \<longrightarrow>
      (\<exists>r. reboot pid (lg_start (f_log s)) nlog d = Ok r \<and>
        (\<forall>m \<in> home s. buf_cont (lg_bio r) m = (if j \<le> nat (lg_n ?l) then content s m else content t m)))"
  proof (intro allI impI)
    fix j d' assume "interrupted pid (lg_start (f_log s)) nlog (apply_writes (d_disk (f_bio s)) (take j ws)) d'"
    then obtain r where "reboot pid (lg_start (f_log s)) nlog d' = Ok r" "\<forall>m. m \<notin> log_area (lg_start (f_log s)) (log_cap (f_log s)) \<longrightarrow>
        buf_cont (lg_bio r) m = (if j \<le> nat (lg_n ?l) then d_disk (f_bio s) m else buf_cont (f_bio t) m)"
      using w(3) [rule_format, of j d'] c by (auto simp: calm_def)
    then show "\<exists>r. reboot pid (lg_start (f_log s)) nlog d' = Ok r \<and>
        (\<forall>m \<in> home s. buf_cont (lg_bio r) m = (if j \<le> nat (lg_n ?l) then content s m else content t m))"
      unfolding d home_def content_def [of t] by (intro exI [of _ r]) simp
  qed
  ultimately show ?thesis using w(2) c unfolding calm_def
    by (intro exI [of _ "t\<lparr>f_log := lg\<lparr>lg_committing := False\<rparr>\<rparr>"] exI [of _ ws] exI [of _ "nat (lg_n ?l)"]) simp
qed

section \<open>Files on disk\<close>

text \<open>The bytes of inode \<open>m\<close> as the disk format defines them, from the contents \<open>C\<close> of the blocks.\<close>

definition disk_addr :: "superblock \<Rightarrow> (u32 \<Rightarrow> bytes) \<Rightarrow> u32 \<Rightarrow> nat \<Rightarrow> u32" where
  "disk_addr sb C m n = get32 (C (IBLOCK m sb)) (dinode_at m + 12 + 4 * n)"

definition disk_block :: "superblock \<Rightarrow> (u32 \<Rightarrow> bytes) \<Rightarrow> u32 \<Rightarrow> nat \<Rightarrow> u32" where
  "disk_block sb C m bn =
     (if bn < NDIRECT then disk_addr sb C m bn else get32 (C (disk_addr sb C m NDIRECT)) (4 * (bn - NDIRECT)))"

definition disk_file :: "superblock \<Rightarrow> (u32 \<Rightarrow> bytes) \<Rightarrow> u32 \<Rightarrow> u8 list" where
  "disk_file sb C m =
     map (\<lambda>p. C (disk_block sb C m (p div BSIZE)) (p mod BSIZE)) [0..<unat (get32 (C (IBLOCK m sb)) (dinode_at m + 8))]"

lemma disk_file_afile:
  assumes l: "layout_ok s" and f: "file_ok s i" and o: "on_disk s i" and C: "\<forall>m \<in> home s. C m = content s m"
  shows "disk_file (f_sb s) C (i_inum (f_inode s i)) = afile s i"
proof -
  let ?ip = "f_inode s i" and ?m = "i_inum (f_inode s i)" and ?sb = "f_sb s"
  have "IBLOCK ?m ?sb \<in> inode_blocks ?sb" using f by (auto simp: file_ok_def inode_blocks_def)
  then have "IBLOCK ?m ?sb \<in> home s" using l by (auto simp: layout_ok_def)
  then have ib: "C (IBLOCK ?m ?sb) = content s (IBLOCK ?m ?sb)" using C by simp
  have g: "get_dinode (content s (IBLOCK ?m ?sb)) (dinode_at ?m) ?ip = ?ip" using o by (simp add: on_disk_def dinode_def)
  have z: "get32 (C (IBLOCK ?m ?sb)) (dinode_at ?m + 8) = i_size ?ip"
    using arg_cong [OF g, of i_size] by (simp add: get_dinode_def ib)
  have a: "disk_addr ?sb C ?m n = i_addrs ?ip n" if "n \<le> NDIRECT" for n
    using arg_cong [OF g, of "\<lambda>ip. i_addrs ip n"] that by (simp add: get_dinode_def ib disk_addr_def)
  have hm: "C b = content s b" if "data_block s b" for b using that C by (simp add: data_block_def)
  have "C (disk_block ?sb C ?m (p div BSIZE)) (p mod BSIZE) = file_byte s i p" if "p < unat (i_size ?ip)" for p
  proof -
    let ?bn = "p div BSIZE"
    have nz: "dblock s i ?bn \<noteq> 0" and b: "blocks_ok s i" and bn: "?bn < MAXFILE"
      using f that block_of [of p] by (auto simp: file_ok_def)
    have d: "data_block s (dblock s i ?bn)" using nz b bn by (simp add: dblock_def blocks_ok_def slots_ok_def)
    have "disk_block ?sb C ?m ?bn = dblock s i ?bn"
    proof (cases "?bn < NDIRECT")
      case True
      then show ?thesis using a by (simp add: disk_block_def dblock_def dslot_def slot_def)
    next
      case False
      then have "i_addrs ?ip NDIRECT \<noteq> 0" using nz by (auto simp: dblock_def dslot_def slot_def)
      then show ?thesis using False a [of NDIRECT] hm [OF blocks_ok_indirect [OF b]]
        by (simp add: disk_block_def dblock_def dslot_def slot_def)
    qed
    then show ?thesis using hm [OF d] nz by (simp add: file_byte_def Let_def)
  qed
  then show ?thesis by (simp add: disk_file_def afile_def z)
qed

section \<open>A write as a transaction\<close>

text \<open>The abstract view of a state depends on the inodes, the contents of the blocks and the layout.\<close>

lemma abs_cong:
  assumes "f_inode t = f_inode s" "content t = content s" "f_sb t = f_sb s" "home t = home s"
  shows "layout_ok t = layout_ok s" "file_ok t = file_ok s" "on_disk t = on_disk s" "afile t = afile s" "own t = own s" "nfree t = nfree s"
proof -
  have "data_block t = data_block s" by (intro ext) (simp add: data_block_def assms)
  then have "slots_ok t = slots_ok s" by (intro ext) (simp add: slots_ok_def)
  then have b: "blocks_ok t = blocks_ok s" by (intro ext) (simp add: blocks_ok_def assms)
  note c = file_cong [OF assms(1,2)]
  show "layout_ok t = layout_ok s" by (simp add: layout_ok_def assms)
  show "file_ok t = file_ok s" by (intro ext) (simp add: file_ok_def assms b c(1))
  show "on_disk t = on_disk s" by (intro ext) (simp add: on_disk_def dinode_def assms)
  show "afile t = afile s" by (intro ext) (simp add: afile_def assms c(2))
  show "own t = own s" by (rule c(3))
  show "nfree t = nfree s" by (simp add: nfree_def assms)
qed

lemma only_file_on_disk:
  assumes "only_file i s t" "x \<noteq> i" "on_disk s x" "i_inum (f_inode s x) < sb_ninodes (f_sb s)" "i_inum (f_inode s x) \<noteq> i_inum (f_inode s i)"
  shows "on_disk t x" "f_inode t x = f_inode s x"
proof -
  show e: "f_inode t x = f_inode s x" using assms(1,2) by (auto simp: only_file_def)
  show "on_disk t x" using assms unfolding on_disk_def e by (auto simp: only_file_def)
qed

text \<open>On the disk contents \<open>C\<close> every file that shares no block with file \<open>i\<close> is as it is in \<open>s\<close>.\<close>

definition others_kept :: "fs \<Rightarrow> nat \<Rightarrow> (u32 \<Rightarrow> bytes) \<Rightarrow> bool" where
  "others_kept s i C \<longleftrightarrow> (\<forall>x. x \<noteq> i \<and> file_ok s x \<and> on_disk s x \<and> own s x \<inter> own s i \<subseteq> {0} \<and>
     i_inum (f_inode s x) \<noteq> i_inum (f_inode s i) \<longrightarrow> disk_file (f_sb s) C (i_inum (f_inode s x)) = afile s x)"

text \<open>Contents from before or after a change of one file, seen as files.\<close>

lemma recovered_files:
  assumes l: "layout_ok s" "layout_ok t" and f: "file_ok s i" "file_ok t i" and o: "on_disk s i" "on_disk t i"
    and c: "only_file i s t" and e: "home t = home s" "f_sb t = f_sb s"
    and C: "\<forall>m \<in> home s. C m = (if old then content s m else content t m)"
  shows "disk_file (f_sb s) C (i_inum (f_inode s i)) = (if old then afile s i else afile t i)" "others_kept s i C"
proof -
  have before: "disk_file (f_sb s) C (i_inum (f_inode s x)) = afile s x" if "old" "file_ok s x" "on_disk s x" for x
    by (rule disk_file_afile [OF l(1) that(2,3)]) (use C that(1) in simp)
  have after: "disk_file (f_sb s) C (i_inum (f_inode t x)) = afile t x" if "\<not> old" "file_ok t x" "on_disk t x" for x
    using disk_file_afile [OF l(2) that(2,3), of C] C that(1) e by simp
  have "i_inum (f_inode t i) = i_inum (f_inode s i)" using c by (auto simp: only_file_def)
  then show "disk_file (f_sb s) C (i_inum (f_inode s i)) = (if old then afile s i else afile t i)"
    using before [OF _ f(1) o(1)] after [OF _ f(2) o(2)] by simp
  have "disk_file (f_sb s) C (i_inum (f_inode s x)) = afile s x"
    if x: "x \<noteq> i" "file_ok s x" "on_disk s x" "own s x \<inter> own s i \<subseteq> {0}" "i_inum (f_inode s x) \<noteq> i_inum (f_inode s i)" for x
  proof (cases old)
    case False
    note x1 = only_file_other [OF c x(1,2,4)]
    have x2: "on_disk t x" "f_inode t x = f_inode s x"
      using only_file_on_disk [OF c x(1,3) _ x(5)] x(2) by (simp_all add: file_ok_def)
    show ?thesis using after [OF False x1(1) x2(1)] x1(2) x2(2) by simp
  qed (use before x in simp)
  then show "others_kept s i C" by (simp add: others_kept_def)
qed

lemma write_crash:
  assumes i: "log_inv (f_log s)" "lg_n (f_log s) = 0" "lg_outstanding (f_log s) = 0" "\<not> lg_committing (f_log s)" "sint nlog = lg_size (f_log s)"
    and room: "6 * int (nblk (unat off) (unat n)) + 1 < lg_size (f_log s)"
    and l: "layout_ok s" and f: "file_ok s i" and o: "on_disk s i"
    and b: "unat off \<le> unat (i_size (f_inode s i))" "unat off + unat n \<le> MAXFILE * BSIZE" "2 * nblk (unat off) (unat n) \<le> nfree s"
      "i_type (f_inode s i) \<noteq> T_FILE \<or> off \<noteq> 0"
    and d: "d = map (\<lambda>k. obj (j + k)) [0..<unat n]"
  obtains s1 s2 s3 ws p where "fs_begin_op s = Ok s1" "writei i (Object j) off n obj s1 = Ok (int (unat n), s2)" "fs_end_op s2 = Ok s3"
    "d_trace (f_bio s3) = d_trace (f_bio s) @ ws"
    "\<And>k d'. interrupted pid (lg_start (f_log s)) nlog (apply_writes (d_disk (f_bio s)) (take k ws)) d' \<Longrightarrow>
      \<exists>r. reboot pid (lg_start (f_log s)) nlog d' = Ok r \<and> others_kept s i (buf_cont (lg_bio r)) \<and>
        disk_file (f_sb s) (buf_cont (lg_bio r)) (i_inum (f_inode s i)) = (if k \<le> p then afile s i else overwrite (afile s i) (unat off) d)"
proof -
  let ?s1 = "s\<lparr>f_log := (f_log s)\<lparr>lg_outstanding := 1\<rparr>\<rparr>"
  have "lg_size (f_log s) \<le> int LOGSIZE" using i(1) by (simp add: log_inv_def)
  then have beg: "fs_begin_op s = Ok ?s1"
    using i(2-4) by (simp add: fs_begin_op_def begin_op_def LOGSIZE_def MAXOPBLOCKS_def)
  have cg: "f_inode ?s1 = f_inode s" "content ?s1 = content s" "f_sb ?s1 = f_sb s" "home ?s1 = home s"
    by (simp_all add: content_def home_def)
  note a = abs_cong [OF cg]
  have tx: "in_tx {} (0 + 6 * nblk (unat off) (unat n) + 1) ?s1" using i room txn_idle by (simp add: in_tx_def)
  obtain s2 where w: "writei i (Object j) off n obj ?s1 = Ok (int (unat n), s2)" "in_tx {} 0 s2" "layout_ok s2" "file_ok s2 i" "on_disk s2 i"
    "only_file i ?s1 s2" "afile s2 i = overwrite (afile ?s1 i) (unat off) d"
    by (rule writei_ok [OF tx _ _ _ b(2) _ _ d]) (use a l f b cg in simp_all)
  have c: "calm ?s1 s2" using calm_writei [of ?s1 ?s1 i "Object j" off n obj] w(1) by (simp add: runs_calm_def)
  obtain s3 ws p where e: "fs_end_op s2 = Ok s3" "d_trace (f_bio s3) = d_trace (f_bio ?s1) @ ws"
    "\<forall>k d'. interrupted pid (lg_start (f_log ?s1)) nlog (apply_writes (d_disk (f_bio ?s1)) (take k ws)) d' \<longrightarrow>
      (\<exists>r. reboot pid (lg_start (f_log ?s1)) nlog d' = Ok r \<and>
        (\<forall>m \<in> home ?s1. buf_cont (lg_bio r) m = (if k \<le> p then content ?s1 m else content s2 m)))"
    using tx_atomic [OF _ _ c w(2), of nlog pid] i by auto
  have h2: "home s2 = home ?s1" "f_sb s2 = f_sb ?s1" using c by (auto simp: calm_def home_def)
  have ok: "others_kept ?s1 = others_kept s" by (intro ext) (simp add: others_kept_def a)
  show thesis
  proof (rule that [OF beg w(1) e(1)])
    show "d_trace (f_bio s3) = d_trace (f_bio s) @ ws" using e(2) by simp
    fix k d' assume "interrupted pid (lg_start (f_log s)) nlog (apply_writes (d_disk (f_bio s)) (take k ws)) d'"
    then obtain r where r: "reboot pid (lg_start (f_log s)) nlog d' = Ok r"
      "\<forall>m \<in> home ?s1. buf_cont (lg_bio r) m = (if k \<le> p then content ?s1 m else content s2 m)"
      using e(3) [rule_format, of k d'] by auto
    show "\<exists>r. reboot pid (lg_start (f_log s)) nlog d' = Ok r \<and> others_kept s i (buf_cont (lg_bio r)) \<and>
        disk_file (f_sb s) (buf_cont (lg_bio r)) (i_inum (f_inode s i)) = (if k \<le> p then afile s i else overwrite (afile s i) (unat off) d)"
      using recovered_files [OF _ w(3) _ w(4) _ w(5,6) h2 r(2)] r(1) a l f o w(7) ok cg by auto
  qed
qed

end
