(* ===== verification/Xv6_Mkfs.thy ===== *)
theory Xv6_Mkfs
  imports Xv6_Crash
begin

text \<open>
  \<^verbatim>\<open>mkfs/mkfs.c\<close>, the program that builds the disk image, and the proof that the kernel finds on its image
  a well-formed file system with the given files.

  The state is the image, by sectors, its length, and the two counters of the program.  The inode \<^verbatim>\<open>din\<close> is the
  kernel's inode record, of which only the fields of \<^verbatim>\<open>struct dinode\<close> matter.  \<^verbatim>\<open>xint\<close> and \<^verbatim>\<open>xshort\<close> convert to
  and from the little-endian order of the disk, as \<open>put32\<close> and \<open>get32\<close> do here.  \<^verbatim>\<open>die\<close> and a failing \<^verbatim>\<open>assert\<close> are
  \<open>Panic\<close>; seeking and writing succeed.  An argument is its name and what the calls of \<^verbatim>\<open>read\<close> return.
\<close>

section \<open>The program\<close>

definition FSSIZE :: nat where "FSSIZE = 2000"
definition NINODES :: nat where "NINODES = 200"
definition nbitmap :: nat where "nbitmap = FSSIZE div BPB + 1"
definition ninodeblocks :: nat where "ninodeblocks = NINODES div IPB + 1"
definition mk_nlog :: nat where "mk_nlog = LOGSIZE"
definition nmeta :: nat where "nmeta = 2 + mk_nlog + ninodeblocks + nbitmap"
definition nblocks :: nat where "nblocks = FSSIZE - nmeta"

record mkfs =
  mk_img :: "u32 \<Rightarrow> bytes"
  mk_len :: nat
  mk_freeinode :: u32
  mk_freeblock :: u32

definition mk_sb :: superblock where
  "mk_sb = \<lparr>sb_magic = FSMAGIC, sb_size = of_nat FSSIZE, sb_nblocks = of_nat nblocks, sb_ninodes = of_nat NINODES,
     sb_nlog = of_nat mk_nlog, sb_logstart = 2, sb_inodestart = of_nat (2 + mk_nlog), sb_bmapstart = of_nat (2 + mk_nlog + ninodeblocks)\<rparr>"

definition put_sb :: "superblock \<Rightarrow> bytes \<Rightarrow> bytes" where
  "put_sb sb d =
     put32 (put32 (put32 (put32 (put32 (put32 (put32 (put32 d 0 (sb_magic sb)) 4 (sb_size sb)) 8 (sb_nblocks sb)) 12 (sb_ninodes sb))
       16 (sb_nlog sb)) 20 (sb_logstart sb)) 24 (sb_inodestart sb)) 28 (sb_bmapstart sb)"

definition wsect :: "u32 \<Rightarrow> bytes \<Rightarrow> mkfs \<Rightarrow> mkfs" where
  "wsect sec buf s = s\<lparr>mk_img := (mk_img s)(sec := blk buf), mk_len := max (mk_len s) (unat sec + 1)\<rparr>"

definition rsect :: "u32 \<Rightarrow> mkfs \<Rightarrow> bytes outcome" where
  "rsect sec s = (if unat sec < mk_len s then Ok (mk_img s sec) else Panic ''read'')"

definition zero_din :: inode where
  "zero_din = \<lparr>i_dev = 0, i_inum = 0, i_ref = 0, i_lock = b_lock buf0, i_valid = False, i_type = 0, i_major = 0, i_minor = 0,
     i_nlink = 0, i_size = 0, i_addrs = (\<lambda>_. 0)\<rparr>"

definition winode :: "u32 \<Rightarrow> inode \<Rightarrow> mkfs \<Rightarrow> mkfs outcome" where
  "winode inum ip s =
     (let bn = IBLOCK inum mk_sb
      in obind (rsect bn s) (\<lambda>buf. Ok (wsect bn (put_dinode ip (dinode_at inum) buf) s)))"

definition rinode :: "u32 \<Rightarrow> mkfs \<Rightarrow> inode outcome" where
  "rinode inum s =
     (let bn = IBLOCK inum mk_sb
      in obind (rsect bn s) (\<lambda>buf. Ok (get_dinode buf (dinode_at inum) zero_din)))"

definition mk_ialloc :: "u16 \<Rightarrow> mkfs \<Rightarrow> (u32 \<times> mkfs) outcome" where
  "mk_ialloc type s =
     (let inum = mk_freeinode s; s = s\<lparr>mk_freeinode := mk_freeinode s + 1\<rparr>;
          din = zero_din\<lparr>i_type := type, i_nlink := 1, i_size := 0\<rparr>
      in obind (winode inum din s) (\<lambda>s. Ok (inum, s)))"

definition mk_balloc :: "nat \<Rightarrow> mkfs \<Rightarrow> mkfs outcome" where
  "mk_balloc n s =
     (if \<not> n < BPB then Panic ''assert''
      else Ok (wsect (sb_bmapstart mk_sb)
             (fold (\<lambda>i buf. buf(i div 8 := buf (i div 8) OR push_bit (i mod 8) 1)) [0..<n] (\<lambda>_. 0)) s))"

text \<open>The block of the file where byte \<^verbatim>\<open>off\<close> goes; \<open>take_block\<close> is \<^verbatim>\<open>freeblock++\<close>.\<close>

definition take_block :: "mkfs \<Rightarrow> u32 \<times> mkfs" where
  "take_block s = (mk_freeblock s, s\<lparr>mk_freeblock := mk_freeblock s + 1\<rparr>)"

definition mk_addr :: "nat \<Rightarrow> inode \<Rightarrow> mkfs \<Rightarrow> inode \<times> mkfs" where
  "mk_addr k din s =
     (if i_addrs din k = 0 then let (a, s) = take_block s in (din\<lparr>i_addrs := (i_addrs din)(k := a)\<rparr>, s) else (din, s))"

definition mk_block :: "nat \<Rightarrow> inode \<Rightarrow> mkfs \<Rightarrow> (u32 \<times> inode \<times> mkfs) outcome" where
  "mk_block fbn din s =
     (if fbn < NDIRECT then let (din, s) = mk_addr fbn din s in Ok (i_addrs din fbn, din, s)
      else let (din, s) = mk_addr NDIRECT din s
           in obind (rsect (i_addrs din NDIRECT) s) (\<lambda>indirect.
              if get32 indirect (4 * (fbn - NDIRECT)) = 0
              then let (a, s) = take_block s; indirect = put32 indirect (4 * (fbn - NDIRECT)) a
                   in Ok (a, din, wsect (i_addrs din NDIRECT) indirect s)
              else Ok (get32 indirect (4 * (fbn - NDIRECT)), din, s)))"

definition bcopy :: "u8 list \<Rightarrow> nat \<Rightarrow> bytes \<Rightarrow> bytes" where
  "bcopy p k buf = (\<lambda>i. if k \<le> i \<and> i < k + length p then p ! (i - k) else buf i)"

lemma block_end: "off < BSIZE + off div BSIZE * BSIZE"
  using div_mult_mod_eq [of off BSIZE] mod_less_divisor [of BSIZE off] by (simp add: BSIZE_def)

function iappend_loop :: "inode \<Rightarrow> nat \<Rightarrow> u8 list \<Rightarrow> mkfs \<Rightarrow> (inode \<times> nat \<times> mkfs) outcome" where
  "iappend_loop din off p s =
     (if p = [] then Ok (din, off, s)
      else let fbn = off div BSIZE
           in if \<not> fbn < MAXFILE then Panic ''assert''
              else obind (mk_block fbn din s) (\<lambda>(x, din, s).
                   let n1 = min (length p) ((fbn + 1) * BSIZE - off)
                   in obind (rsect x s) (\<lambda>buf.
                      iappend_loop din (off + n1) (drop n1 p) (wsect x (bcopy (take n1 p) (off - fbn * BSIZE) buf) s))))"
  by pat_completeness auto
termination
  by (relation "measure (\<lambda>(din, off, p, s). length p)") (auto simp: block_end)

declare iappend_loop.simps [simp del]

definition iappend :: "u32 \<Rightarrow> u8 list \<Rightarrow> mkfs \<Rightarrow> mkfs outcome" where
  "iappend inum p s =
     obind (rinode inum s) (\<lambda>din.
     obind (iappend_loop din (unat (i_size din)) p s) (\<lambda>(din, off, s).
     winode inum (din\<lparr>i_size := of_nat off\<rparr>) s))"

text \<open>\<^verbatim>\<open>struct dirent\<close> as the 16 bytes that are appended.\<close>

definition mk_dirent :: "u32 \<Rightarrow> u8 list \<Rightarrow> u8 list" where
  "mk_dirent inum name = [ucast inum, ucast (drop_bit 8 inum)] @ take DIRSIZ (name @ replicate DIRSIZ 0)"

definition shortname :: "u8 list \<Rightarrow> u8 list outcome" where
  "shortname arg =
     (let n = (if take 5 arg = [117, 115, 101, 114, 47] then drop 5 arg else arg)
      in if 47 \<in> set n then Panic ''assert''
         else let n = (if n \<noteq> [] \<and> hd n = 95 then tl n else n)
              in if length n \<le> DIRSIZ then Ok n else Panic ''assert'')"

fun mk_reads :: "u32 \<Rightarrow> u8 list list \<Rightarrow> mkfs \<Rightarrow> mkfs outcome" where
  "mk_reads inum [] s = Ok s"
| "mk_reads inum (buf # bufs) s = obind (iappend inum buf s) (mk_reads inum bufs)"

definition mk_file :: "u32 \<Rightarrow> u8 list \<times> u8 list list \<Rightarrow> mkfs \<Rightarrow> mkfs outcome" where
  "mk_file rootino = (\<lambda>(arg, bufs) s.
     obind (shortname arg) (\<lambda>name.
     obind (mk_ialloc T_FILE s) (\<lambda>(inum, s).
     obind (iappend rootino (mk_dirent inum name) s) (\<lambda>s. mk_reads inum bufs s))))"

fun mk_files :: "u32 \<Rightarrow> (u8 list \<times> u8 list list) list \<Rightarrow> mkfs \<Rightarrow> mkfs outcome" where
  "mk_files rootino [] s = Ok s"
| "mk_files rootino (f # fs) s = obind (mk_file rootino f s) (mk_files rootino fs)"

definition mk_zero :: mkfs where
  "mk_zero = fold (\<lambda>i. wsect (of_nat i) (\<lambda>_. 0)) [0..<FSSIZE]
     \<lparr>mk_img = (\<lambda>_ _. 0), mk_len = 0, mk_freeinode = 1, mk_freeblock = of_nat nmeta\<rparr>"

definition mkfs_main :: "(u8 list \<times> u8 list list) list \<Rightarrow> mkfs outcome" where
  "mkfs_main files =
     (let s = wsect 1 (put_sb mk_sb (\<lambda>_. 0)) mk_zero
      in obind (mk_ialloc T_DIR s) (\<lambda>(rootino, s).
         if rootino \<noteq> ROOTINO then Panic ''assert''
         else obind (iappend rootino (mk_dirent rootino [46]) s) (\<lambda>s.
              obind (iappend rootino (mk_dirent rootino [46, 46]) s) (\<lambda>s.
              obind (mk_files rootino files s) (\<lambda>s.
              obind (rinode rootino s) (\<lambda>din.
              obind (winode rootino (din\<lparr>i_size := of_nat ((unat (i_size din) div BSIZE + 1) * BSIZE)\<rparr>) s) (\<lambda>s.
              mk_balloc (unat (mk_freeblock s)) s)))))))"

section \<open>The image while it is built\<close>

text \<open>
  \<open>ip m\<close> is inode \<open>m\<close> (the one of the running \<^verbatim>\<open>iappend\<close> may not be on the image yet), \<open>H m\<close> the set of its slots that
  have a block, and \<open>F m\<close> its bytes.  Blocks are handed out in order, each to one slot of one inode, and are
  zero before.
\<close>

abbreviation freeb :: "mkfs \<Rightarrow> nat" where
  "freeb s \<equiv> unat (mk_freeblock s)"

definition slots_inv :: "nat \<Rightarrow> (nat \<Rightarrow> inode) \<Rightarrow> (nat \<Rightarrow> nat set) \<Rightarrow> mkfs \<Rightarrow> bool" where
  "slots_inv n ip H s \<longleftrightarrow>
     (\<forall>m \<in> {1..<n}. H m \<subseteq> {..<NSLOT} \<and> (\<forall>j < NSLOT. slot (ip m) (mk_img s) j \<noteq> 0 \<longleftrightarrow> j \<in> H m) \<and>
        (\<forall>j \<in> H m. nmeta \<le> unat (slot (ip m) (mk_img s) j) \<and> unat (slot (ip m) (mk_img s) j) < freeb s)) \<and>
     (\<forall>m \<in> {1..<n}. \<forall>k \<in> {1..<n}. \<forall>i \<in> H m. \<forall>j \<in> H k. slot (ip m) (mk_img s) i = slot (ip k) (mk_img s) j \<longrightarrow> m = k \<and> i = j)"

definition bytes_inv :: "nat \<Rightarrow> (nat \<Rightarrow> inode) \<Rightarrow> (nat \<Rightarrow> nat set) \<Rightarrow> (nat \<Rightarrow> u8 list) \<Rightarrow> mkfs \<Rightarrow> bool" where
  "bytes_inv n ip H F s \<longleftrightarrow>
     (\<forall>m \<in> {1..<n}. \<forall>bn. dslot bn \<in> H m \<longrightarrow> (\<forall>q < BSIZE. mk_img s (slot (ip m) (mk_img s) (dslot bn)) q =
        (if bn * BSIZE + q < length (F m) then F m ! (bn * BSIZE + q) else 0)))"

definition mkinv :: "nat \<Rightarrow> (nat \<Rightarrow> inode) \<Rightarrow> (nat \<Rightarrow> nat set) \<Rightarrow> (nat \<Rightarrow> u8 list) \<Rightarrow> mkfs \<Rightarrow> bool" where
  "mkinv n ip H F s \<longleftrightarrow> mk_len s = FSSIZE \<and> freeb s = nmeta + (\<Sum>m \<in> {1..<n}. card (H m)) \<and> freeb s \<le> FSSIZE \<and>
     (\<forall>b. blk (mk_img s b) = mk_img s b) \<and> (\<forall>b. freeb s \<le> unat b \<longrightarrow> mk_img s b = (\<lambda>_. 0)) \<and>
     slots_inv n ip H s \<and> bytes_inv n ip H F s"

lemma mkinvD:
  assumes "mkinv n ip H F s"
  shows "mk_len s = FSSIZE" "freeb s = nmeta + (\<Sum>m \<in> {1..<n}. card (H m))" "freeb s \<le> FSSIZE"
    "blk (mk_img s b) = mk_img s b" "freeb s \<le> unat b \<Longrightarrow> mk_img s b = (\<lambda>_. 0)"
    "slots_inv n ip H s" "bytes_inv n ip H F s"
  using assms by (simp_all add: mkinv_def)

lemma slots_invD:
  assumes "slots_inv n ip H s" "m \<in> {1..<n}"
  shows "H m \<subseteq> {..<NSLOT}" "j < NSLOT \<Longrightarrow> slot (ip m) (mk_img s) j \<noteq> 0 \<longleftrightarrow> j \<in> H m" "finite (H m)"
    "j \<in> H m \<Longrightarrow> nmeta \<le> unat (slot (ip m) (mk_img s) j) \<and> unat (slot (ip m) (mk_img s) j) < freeb s"
    "j \<in> H m \<Longrightarrow> k \<in> {1..<n} \<Longrightarrow> i \<in> H k \<Longrightarrow> slot (ip m) (mk_img s) j = slot (ip k) (mk_img s) i \<Longrightarrow> m = k \<and> j = i"
  using assms finite_subset [of "H m" "{..<NSLOT}"] unfolding slots_inv_def by blast+

lemma sum_card_insert:
  assumes "a \<in> A" "finite A" "finite (H a)" "j \<notin> H a"
  shows "(\<Sum>m \<in> A. card ((H(a := insert j (H a))) m)) = Suc (\<Sum>m \<in> A. card (H m))"
proof -
  have "(\<Sum>m \<in> A. card ((H(a := insert j (H a))) m)) = card (insert j (H a)) + (\<Sum>m \<in> A - {a}. card (H m))"
    using assms(1,2) by (simp add: sum.remove)
  moreover have "(\<Sum>m \<in> A. card (H m)) = card (H a) + (\<Sum>m \<in> A - {a}. card (H m))" by (rule sum.remove [OF assms(2,1)])
  ultimately show ?thesis using assms(3,4) by simp
qed

lemma nmeta_val: "nmeta = 46" "FSSIZE = 2000"
  by (simp_all add: nmeta_def mk_nlog_def ninodeblocks_def nbitmap_def LOGSIZE_def MAXOPBLOCKS_def NINODES_def IPB_def BPB_def BSIZE_def FSSIZE_def)

text \<open>One slot gets the next free block; the only other block that may change is the indirect block of the inode.\<close>

lemma mkinv_alloc:
  assumes inv: "mkinv n ip H F s" and m0: "m0 \<in> {1..<n}" "j0 < NSLOT" "j0 \<notin> H m0" and room: "freeb s < FSSIZE"
    and s': "mk_len s' = FSSIZE" "mk_freeblock s' = mk_freeblock s + 1" "\<And>b. blk (mk_img s' b) = mk_img s' b"
    and C: "\<And>b. mk_img s' b = mk_img s b \<or> NDIRECT \<in> H m0 \<and> b = slot (ip m0) (mk_img s) NDIRECT"
    and sl: "\<And>m j. m \<in> {1..<n} \<Longrightarrow> j < NSLOT \<Longrightarrow>
        slot (ip' m) (mk_img s') j = (if m = m0 \<and> j = j0 then mk_freeblock s else slot (ip m) (mk_img s) j)"
    and F: "\<And>bn. j0 = dslot bn \<Longrightarrow> length (F m0) \<le> bn * BSIZE"
  shows "mkinv n ip' (H(m0 := insert j0 (H m0))) F s'"
proof -
  let ?H = "H(m0 := insert j0 (H m0))" and ?fb = "mk_freeblock s"
  note i = mkinvD [OF inv]
  note si = slots_invD [OF i(6)]
  have fb: "freeb s' = Suc (freeb s)"
    using s'(2) room unat_word_ariths(1) [of ?fb 1] by (simp add: nmeta_val)
  have fb0: "?fb \<noteq> 0" "nmeta \<le> freeb s" using i(2) by (auto simp: nmeta_val)
  have ind: "unat (slot (ip m0) (mk_img s) NDIRECT) < freeb s" if "NDIRECT \<in> H m0" using si(4) [OF m0(1) that] by simp
  have same: "mk_img s' b = mk_img s b" if "freeb s \<le> unat b" for b using C [of b] ind that by auto
  have sub: "?H m \<subseteq> {..<NSLOT}" if "m \<in> {1..<n}" for m using si(1) [OF that] m0 by auto
  have sl': "slot (ip' m) (mk_img s') j = (if m = m0 \<and> j = j0 then ?fb else slot (ip m) (mk_img s) j)"
    if "m \<in> {1..<n}" "j \<in> ?H m" for m j using sl that sub by blast
  have old: "j \<in> H m" if "j \<in> ?H m" "\<not> (m = m0 \<and> j = j0)" for m j using that by (auto split: if_splits)
  have "slots_inv n ip' ?H s'"
    unfolding slots_inv_def
  proof (intro conjI ballI allI impI)
    fix m j assume m: "m \<in> {1..<n}"
    show "?H m \<subseteq> {..<NSLOT}" by (rule sub [OF m])
    show "j < NSLOT \<Longrightarrow> (slot (ip' m) (mk_img s') j \<noteq> 0) = (j \<in> ?H m)" using sl [OF m] si(2) [OF m] fb0(1) by auto
    assume j: "j \<in> ?H m"
    show "nmeta \<le> unat (slot (ip' m) (mk_img s') j)" "unat (slot (ip' m) (mk_img s') j) < freeb s'"
      using sl' [OF m j] si(4) [OF m old [OF j]] fb fb0(2) by auto
  next
    fix m k i j assume a: "m \<in> {1..<n}" "k \<in> {1..<n}" "i \<in> ?H m" "j \<in> ?H k" "slot (ip' m) (mk_img s') i = slot (ip' k) (mk_img s') j"
    have lt: "unat (slot (ip l) (mk_img s) h) < freeb s" if "l \<in> {1..<n}" "h \<in> ?H l" "\<not> (l = m0 \<and> h = j0)" for l h
      using si(4) [OF that(1) old [OF that(2,3)]] by simp
    have "m = k \<and> i = j"
    proof (cases "m = m0 \<and> i = j0 \<or> k = m0 \<and> j = j0")
      case True
      then show ?thesis using a sl' [OF a(1,3)] sl' [OF a(2,4)] lt [OF a(1,3)] lt [OF a(2,4)] by (auto split: if_splits)
    next
      case False
      then show ?thesis using si(5) [OF a(1) old [OF a(3)] a(2) old [OF a(4)]] a(5) sl' [OF a(1,3)] sl' [OF a(2,4)] by auto
    qed
    then show "m = k" "i = j" by auto
  qed
  moreover have "bytes_inv n ip' ?H F s'"
    unfolding bytes_inv_def
  proof (intro ballI allI impI)
    fix m bn q assume m: "m \<in> {1..<n}" and bn: "dslot bn \<in> ?H m" and q: "q < BSIZE"
    show "mk_img s' (slot (ip' m) (mk_img s') (dslot bn)) q = (if bn * BSIZE + q < length (F m) then F m ! (bn * BSIZE + q) else 0)"
    proof (cases "m = m0 \<and> dslot bn = j0")
      case True
      then have "length (F m) \<le> bn * BSIZE" using F [of bn] by auto
      then show ?thesis using True sl' [OF m bn] same [of ?fb] i(5) [of ?fb] by simp
    next
      case False
      note b = old [OF bn False]
      have "slot (ip m) (mk_img s) (dslot bn) \<noteq> slot (ip m0) (mk_img s) NDIRECT" if "NDIRECT \<in> H m0"
        using si(5) [OF m b m0(1) that] by auto
      then show ?thesis using C [of "slot (ip m) (mk_img s) (dslot bn)"] sl' [OF m bn] False i(7) m b q by (auto simp: bytes_inv_def)
    qed
  qed
  moreover have "(\<Sum>m \<in> {1..<n}. card (?H m)) = Suc (\<Sum>m \<in> {1..<n}. card (H m))"
    by (rule sum_card_insert) (use m0 si(3) in auto)
  ultimately show ?thesis using s' fb i room same by (simp add: mkinv_def)
qed

text \<open>What \<^verbatim>\<open>iappend\<close> does not touch: the blocks before the data blocks and the count of inodes.\<close>

definition meta_same :: "mkfs \<Rightarrow> mkfs \<Rightarrow> bool" where
  "meta_same s t \<longleftrightarrow> mk_freeinode t = mk_freeinode s \<and> (\<forall>b. unat b < nmeta \<longrightarrow> mk_img t b = mk_img s b)"

lemma meta_same_refl [simp]: "meta_same s s"
  by (simp add: meta_same_def)

lemma meta_same_trans: "meta_same s t \<Longrightarrow> meta_same t u \<Longrightarrow> meta_same s u"
  by (simp add: meta_same_def)

definition only_addrs :: "inode \<Rightarrow> inode \<Rightarrow> bool" where
  "only_addrs d e \<longleftrightarrow> e = d\<lparr>i_addrs := i_addrs e\<rparr>"

lemma only_addrs_refl [simp]: "only_addrs d d" "only_addrs d (d\<lparr>i_addrs := A\<rparr>)"
  by (simp_all add: only_addrs_def)

lemma only_addrs_trans: "only_addrs d e \<Longrightarrow> only_addrs e f \<Longrightarrow> only_addrs d f"
  unfolding only_addrs_def by (cases d; cases e; cases f) simp

lemma mk_addr_step:
  assumes inv: "mkinv n ip H F s" and m: "m \<in> {1..<n}" "k \<le> NDIRECT"
    and new: "k \<notin> H m \<Longrightarrow> freeb s < FSSIZE" "k \<notin> H m \<Longrightarrow> k < NDIRECT \<Longrightarrow> length (F m) \<le> k * BSIZE"
  obtains din' s' where "mk_addr k (ip m) s = (din', s')" "mkinv n (ip(m := din')) (H(m := insert k (H m))) F s'"
    "meta_same s s'" "only_addrs (ip m) din'" "mk_img s' = mk_img s"
proof (cases "k \<in> H m")
  case True
  have k: "k < NSLOT" using m(2) NDIRECT_less by (rule le_less_trans)
  then have "i_addrs (ip m) k \<noteq> 0" using slots_invD(2) [OF mkinvD(6) [OF inv] m(1) k] True m(2) by simp
  then show thesis using that [of "ip m" s] inv True by (simp add: mk_addr_def insert_absorb)
next
  case False
  have k: "k < NSLOT" using m(2) NDIRECT_less by (rule le_less_trans)
  then have z: "i_addrs (ip m) k = 0" using slots_invD(2) [OF mkinvD(6) [OF inv] m(1) k] False m(2) by simp
  let ?din = "(ip m)\<lparr>i_addrs := (i_addrs (ip m))(k := mk_freeblock s)\<rparr>" and ?s = "s\<lparr>mk_freeblock := mk_freeblock s + 1\<rparr>"
  note i = mkinvD [OF inv]
  have C0: "mk_img s (mk_freeblock s) = (\<lambda>_. 0)" by (rule i(5)) simp
  have "mkinv n (ip(m := ?din)) (H(m := insert k (H m))) F ?s"
  proof (rule mkinv_alloc [OF inv m(1) k False new(1) [OF False]])
    show "mk_len ?s = FSSIZE" "blk (mk_img ?s b) = mk_img ?s b" for b using i(1,4) by simp_all
    show "slot ((ip(m := ?din)) l) (mk_img ?s) j = (if l = m \<and> j = k then mk_freeblock s else slot (ip l) (mk_img s) j)"
      if "l \<in> {1..<n}" "j < NSLOT" for l j
      using z m(2) C0 by (auto simp: slot_def)
    show "length (F m) \<le> bn * BSIZE" if "k = dslot bn" for bn
      using that m(2) new(2) [OF False] by (simp add: dslot_def split: if_splits)
  qed simp_all
  moreover have "mk_addr k (ip m) s = (?din, ?s)" using z by (simp add: mk_addr_def take_block_def)
  ultimately show thesis using that [of ?din ?s] by (simp add: meta_same_def)
qed

lemma mk_entry_step:
  assumes inv: "mkinv n ip H F s" and m: "m \<in> {1..<n}" "NDIRECT \<in> H m" "e < NINDIRECT" "NDIRECT + 1 + e \<notin> H m"
    and room: "freeb s < FSSIZE" and F: "length (F m) \<le> (NDIRECT + e) * BSIZE"
    and s': "s' = wsect (i_addrs (ip m) NDIRECT) (put32 (mk_img s (i_addrs (ip m) NDIRECT)) (4 * e) (mk_freeblock s))
        (s\<lparr>mk_freeblock := mk_freeblock s + 1\<rparr>)"
  shows "mkinv n ip (H(m := insert (NDIRECT + 1 + e) (H m))) F s'" "meta_same s s'"
    "get32 (mk_img s' (i_addrs (ip m) NDIRECT)) (4 * e) = mk_freeblock s"
proof -
  let ?ind = "i_addrs (ip m) NDIRECT" and ?j = "NDIRECT + 1 + e"
  note i = mkinvD [OF inv]
  note si = slots_invD [OF i(6)]
  have e4: "4 * e + 4 \<le> BSIZE" and j: "?j < NSLOT" using m(3) by (simp_all add: NINDIRECT_def BSIZE_def NSLOT_def MAXFILE_def)
  have ind: "?ind \<noteq> 0" "nmeta \<le> unat ?ind" "unat ?ind < freeb s"
    using si(2) [OF m(1) NDIRECT_less] si(4) [OF m(1,2)] m(2) by simp_all
  have img: "mk_img s' = (mk_img s)(?ind := put32 (mk_img s ?ind) (4 * e) (mk_freeblock s))"
    using blk_put32 [OF e4] i(4) by (simp add: s' wsect_def)
  then show "get32 (mk_img s' ?ind) (4 * e) = mk_freeblock s" by simp
  show "meta_same s s'" using ind(2) img by (auto simp: meta_same_def s' wsect_def)
  have other: "i_addrs (ip l) NDIRECT \<noteq> ?ind" if "l \<in> {1..<n}" "l \<noteq> m" "i_addrs (ip l) NDIRECT \<noteq> 0" for l
    using si(5) [OF m(1,2) that(1), of NDIRECT] si(2) [OF that(1) NDIRECT_less] that by auto
  show "mkinv n ip (H(m := insert ?j (H m))) F s'"
  proof (rule mkinv_alloc [OF inv m(1) j m(4) room])
    show "mk_len s' = FSSIZE" using i(1,3) ind(3) by (simp add: s' wsect_def)
    show "mk_freeblock s' = mk_freeblock s + 1" by (simp add: s' wsect_def)
    show "blk (mk_img s' b) = mk_img s' b" for b using i(4) blk_put32 [OF e4] by (simp add: img)
    show "mk_img s' b = mk_img s b \<or> NDIRECT \<in> H m \<and> b = slot (ip m) (mk_img s) NDIRECT" for b using m(2) by (simp add: img)
    show "length (F m) \<le> bn * BSIZE" if "?j = dslot bn" for bn
    proof -
      have "bn = NDIRECT + e" using that by (simp add: dslot_def split: if_splits)
      then show ?thesis using F by simp
    qed
    show "slot (ip l) (mk_img s') k = (if l = m \<and> k = ?j then mk_freeblock s else slot (ip l) (mk_img s) k)"
      if l: "l \<in> {1..<n}" "k < NSLOT" for l k
    proof (cases "l = m \<and> NDIRECT < k")
      case True
      then have "k = ?j \<or> k - Suc NDIRECT < e \<or> e < k - Suc NDIRECT" by linarith
      then show ?thesis using ind(1) True by (auto simp: slot_def img intro!: get32_put32_other)
    next
      case False
      then show ?thesis using other [OF l(1)] by (auto simp: slot_def img)
    qed
  qed
qed

text \<open>\<open>mk_block\<close> makes sure that the slot of the block, and the indirect block where it is needed, exist.\<close>

definition slots_for :: "nat \<Rightarrow> nat set" where
  "slots_for fbn = insert (dslot fbn) (if fbn < NDIRECT then {} else {NDIRECT})"

lemma card_insert_room:
  assumes "finite A" "x \<notin> A" "x \<in> B" "finite B" "f + card (A \<union> B) \<le> N + card A"
  shows "f < (N :: nat)"
proof -
  have "card (insert x A) \<le> card (A \<union> B)" by (rule card_mono) (use assms in auto)
  then show ?thesis using assms by simp
qed

lemma mk_block_step:
  assumes inv: "mkinv n ip H F s" and m: "m \<in> {1..<n}" "fbn < MAXFILE"
    and room: "freeb s + card (H m \<union> slots_for fbn) \<le> FSSIZE + card (H m)"
    and F: "dslot fbn \<notin> H m \<Longrightarrow> length (F m) \<le> fbn * BSIZE"
  obtains x din' s' where "mk_block fbn (ip m) s = Ok (x, din', s')" "x = slot din' (mk_img s') (dslot fbn)"
    "mkinv n (ip(m := din')) (H(m := H m \<union> slots_for fbn)) F s'" "meta_same s s'" "only_addrs (ip m) din'"
proof (cases "fbn < NDIRECT")
  case True
  have fin: "finite (H m)" by (rule slots_invD(3) [OF mkinvD(6) [OF inv] m(1)])
  have d: "dslot fbn = fbn" "slots_for fbn = {fbn}" using True by (simp_all add: dslot_def slots_for_def)
  obtain din' s' where r: "mk_addr fbn (ip m) s = (din', s')" "mkinv n (ip(m := din')) (H(m := insert fbn (H m))) F s'"
      "meta_same s s'" "only_addrs (ip m) din'"
    by (rule mk_addr_step [OF inv m(1), of fbn]) (use True F d card_insert_room [OF fin _ _ _ room, of fbn] in auto)
  show thesis by (rule that [of "i_addrs din' fbn" din' s']) (use True r d in \<open>simp_all add: mk_block_def\<close>)
next
  case False
  let ?e = "fbn - NDIRECT" let ?j = "NDIRECT + 1 + ?e"
  have e: "?e < NINDIRECT" using False m(2) by (simp add: MAXFILE_def)
  have d: "dslot fbn = ?j" "slots_for fbn = {NDIRECT, ?j}" using False by (auto simp: dslot_def slots_for_def)
  have fin: "finite (H m)" by (rule slots_invD(3) [OF mkinvD(6) [OF inv] m(1)])
  obtain din s1 where r: "mk_addr NDIRECT (ip m) s = (din, s1)" "mkinv n (ip(m := din)) (H(m := insert NDIRECT (H m))) F s1"
      "meta_same s s1" "only_addrs (ip m) din" "mk_img s1 = mk_img s"
    by (rule mk_addr_step [OF inv m(1), of NDIRECT]) (use d card_insert_room [OF fin _ _ _ room, of NDIRECT] in auto)
  note i = mkinvD [OF r(2)]
  let ?ip = "ip(m := din)" and ?H = "H(m := insert NDIRECT (H m))" and ?ind = "i_addrs din NDIRECT"
  note si = slots_invD [OF i(6) m(1)]
  have ind: "?ind \<noteq> 0" "unat ?ind < mk_len s1" using si(2) [OF NDIRECT_less] si(4) [of NDIRECT] i(1,3) by simp_all
  have sj: "slot din (mk_img s1) ?j = get32 (mk_img s1 ?ind) (4 * ?e)" using ind(1) by (simp add: slot_def)
  have jn: "?j < NSLOT" using e by (simp add: NSLOT_def MAXFILE_def)
  show thesis
  proof (cases "?j \<in> H m")
    case True
    then have g: "get32 (mk_img s1 ?ind) (4 * ?e) \<noteq> 0" using si(2) [OF jn] sj by simp
    have H: "H(m := H m \<union> slots_for fbn) = ?H" using True d(2) by (simp add: insert_absorb)
    show thesis
    proof (rule that)
      show "mk_block fbn (ip m) s = Ok (get32 (mk_img s1 ?ind) (4 * ?e), din, s1)"
        using False r(1) ind(2) g by (simp add: mk_block_def rsect_def)
      show "get32 (mk_img s1 ?ind) (4 * ?e) = slot din (mk_img s1) (dslot fbn)" unfolding d(1) by (rule sj [symmetric])
    qed (use r(2-4) H in simp_all)
  next
    case nj: False
    then have g: "get32 (mk_img s1 ?ind) (4 * ?e) = 0" using si(2) [OF jn] sj by auto
    define s' where "s' = wsect (i_addrs (?ip m) NDIRECT) (put32 (mk_img s1 (i_addrs (?ip m) NDIRECT)) (4 * ?e) (mk_freeblock s1))
        (s1\<lparr>mk_freeblock := mk_freeblock s1 + 1\<rparr>)"
    have "H m \<union> slots_for fbn = insert ?j (insert NDIRECT (H m))" using d(2) by auto
    then have "card (H m \<union> slots_for fbn) = Suc (card (insert NDIRECT (H m)))" using nj fin by simp
    moreover have "freeb s1 + card (H m) = freeb s + card (insert NDIRECT (H m))"
      using i(2) mkinvD(2) [OF inv] sum_card_insert [of m "{1..<n}" H NDIRECT] m(1) fin by (cases "NDIRECT \<in> H m") (auto simp: insert_absorb)
    ultimately have room1: "freeb s1 < FSSIZE" using room by simp
    have F1: "length (F m) \<le> (NDIRECT + ?e) * BSIZE" using F nj d False by simp
    note E = mk_entry_step [OF r(2) m(1) _ e _ room1 F1 s'_def]
    have HH: "H(m := H m \<union> slots_for fbn) = ?H(m := insert ?j (?H m))" using d(2) by (auto simp: fun_eq_iff)
    have "mkinv n ?ip (H(m := H m \<union> slots_for fbn)) F s'" unfolding HH by (rule E(1)) (use nj in simp_all)
    moreover have "meta_same s1 s'" "get32 (mk_img s' ?ind) (4 * ?e) = mk_freeblock s1" using E(2,3) nj by simp_all
    ultimately have E': "mkinv n ?ip (H(m := H m \<union> slots_for fbn)) F s'" "meta_same s1 s'" "get32 (mk_img s' ?ind) (4 * ?e) = mk_freeblock s1"
      by blast+
    have "mk_block fbn (ip m) s = Ok (mk_freeblock s1, din, s')"
      using False r(1) ind(2) g by (simp add: mk_block_def rsect_def take_block_def s'_def)
    moreover have "slot din (mk_img s') (dslot fbn) = mk_freeblock s1" using E'(3) ind(1) d(1) by (simp add: slot_def)
    ultimately show thesis using that E'(1) meta_same_trans [OF r(3) E'(2)] r(4) by metis
  qed
qed

lemma mkinv_write:
  assumes inv: "mkinv n ip H F s" and m: "m \<in> {1..<n}" "dslot fbn \<in> H m"
    and off: "fbn = length (F m) div BSIZE" "length (F m) + length c \<le> (fbn + 1) * BSIZE"
    and x: "x = slot (ip m) (mk_img s) (dslot fbn)" and s': "s' = wsect x (bcopy c (length (F m) - fbn * BSIZE) (mk_img s x)) s"
  shows "mkinv n ip H (F(m := F m @ c)) s'" "meta_same s s'"
proof -
  let ?k = "length (F m) - fbn * BSIZE"
  note i = mkinvD [OF inv]
  note si = slots_invD [OF i(6)]
  have x': "nmeta \<le> unat x" "unat x < freeb s" using si(4) [OF m] x by simp_all
  have img: "mk_img s' = (mk_img s)(x := blk (bcopy c ?k (mk_img s x)))" by (simp add: s' wsect_def)
  then show "meta_same s s'" using x'(1) by (auto simp: meta_same_def s' wsect_def)
  have fs: "mk_freeblock s' = mk_freeblock s" "mk_len s' = FSSIZE" using i(1,3) x'(2) by (simp_all add: s' wsect_def)
  have ind: "i_addrs (ip l) NDIRECT \<noteq> x" if "l \<in> {1..<n}" "i_addrs (ip l) NDIRECT \<noteq> 0" for l
  proof
    assume "i_addrs (ip l) NDIRECT = x"
    moreover have "NDIRECT \<in> H l" using si(2) [OF that(1) NDIRECT_less] that(2) by simp
    ultimately show False using si(5) [OF that(1) _ m, of NDIRECT] x dslot_simps(1) [of fbn] by (auto simp del: dslot_simps)
  qed
  have sl: "slot (ip l) (mk_img s') j = slot (ip l) (mk_img s) j" if "l \<in> {1..<n}" for l j
    using ind [OF that] by (auto simp: slot_def img)
  have "slots_inv n ip H s'" using i(6) sl fs by (simp add: slots_inv_def)
  moreover have "bytes_inv n ip H (F(m := F m @ c)) s'"
    unfolding bytes_inv_def
  proof (intro ballI allI impI)
    fix l bn q assume l: "l \<in> {1..<n}" "dslot bn \<in> H l" and q: "q < BSIZE"
    have old: "mk_img s (slot (ip l) (mk_img s) (dslot bn)) q = (if bn * BSIZE + q < length (F l) then F l ! (bn * BSIZE + q) else 0)"
      using i(7) l q by (simp add: bytes_inv_def)
    have z: "fbn * BSIZE \<le> length (F m)" "length (F m) < (fbn + 1) * BSIZE"
      using off(1) block_end [of "length (F m)"] div_times_less_eq_dividend by auto
    show "mk_img s' (slot (ip l) (mk_img s') (dslot bn)) q =
        (if bn * BSIZE + q < length ((F(m := F m @ c)) l) then (F(m := F m @ c)) l ! (bn * BSIZE + q) else 0)"
    proof (cases "l = m \<and> bn = fbn")
      case True
      then have "mk_img s' (slot (ip l) (mk_img s') (dslot bn)) q = bcopy c ?k (mk_img s x) q"
        using q sl [OF l(1)] x by (simp add: img blk_def)
      then show ?thesis using True old z x by (auto simp: bcopy_def nth_append add.commute)
    next
      case False
      then have "slot (ip l) (mk_img s) (dslot bn) \<noteq> x" using si(5) [OF l m] x by auto
      then have e: "mk_img s' (slot (ip l) (mk_img s') (dslot bn)) q = mk_img s (slot (ip l) (mk_img s) (dslot bn)) q"
        using sl [OF l(1)] by (simp add: img)
      have "bn * BSIZE + q < length (F m) \<longleftrightarrow> bn * BSIZE + q < length (F m) + length c" if "bn \<noteq> fbn"
      proof (cases "bn < fbn")
        case True
        then have "(bn + 1) * BSIZE \<le> fbn * BSIZE" by (intro mult_right_mono) simp_all
        then show ?thesis using z q by simp
      next
        case F: False
        then have "(fbn + 1) * BSIZE \<le> bn * BSIZE" using that by (intro mult_right_mono) simp_all
        then show ?thesis using z off(2) by simp
      qed
      then show ?thesis using e old False by (auto simp: nth_append)
    qed
  qed
  moreover have "mk_img s' b = (\<lambda>_. 0)" if "freeb s \<le> unat b" for b using i(5) [OF that] x'(2) that by (auto simp: img)
  moreover have "blk (mk_img s' b) = mk_img s' b" for b using i(4) by (simp add: img blk_def fun_eq_iff)
  ultimately show "mkinv n ip H (F(m := F m @ c)) s'" using i(2,3) fs by (simp add: mkinv_def)
qed

text \<open>The slots of a file of \<open>z\<close> bytes.\<close>

definition blocks_for :: "nat \<Rightarrow> nat set" where
  "blocks_for z = (\<Union>bn \<in> {bn. bn < MAXFILE \<and> bn * BSIZE < z}. slots_for bn)"

lemma blocks_for_append:
  assumes "0 < k" "z + k \<le> (z div BSIZE + 1) * BSIZE" "z div BSIZE < MAXFILE"
  shows "blocks_for (z + k) = blocks_for z \<union> slots_for (z div BSIZE)"
proof -
  have "bn * BSIZE < z + k \<longleftrightarrow> bn * BSIZE < z \<or> bn = z div BSIZE" for bn
  proof -
    have "bn * BSIZE < z + k \<Longrightarrow> bn < z div BSIZE + 1" using assms(2) mult_less_cancel2 [of bn BSIZE "z div BSIZE + 1"] by linarith
    moreover have "bn < z div BSIZE \<Longrightarrow> bn * BSIZE < z"
      using div_times_less_eq_dividend [of z BSIZE] mult_less_mono1 [of bn "z div BSIZE" BSIZE] by (simp add: BSIZE_def)
    moreover have "z div BSIZE * BSIZE < z + k" using div_times_less_eq_dividend [of z BSIZE] assms(1) by linarith
    ultimately show ?thesis using less_Suc_eq by auto
  qed
  then have "{bn. bn < MAXFILE \<and> bn * BSIZE < z + k} = insert (z div BSIZE) {bn. bn < MAXFILE \<and> bn * BSIZE < z}" using assms(3) by auto
  then show ?thesis by (simp add: blocks_for_def Un_commute)
qed

lemma dslot_blocks_for: "bn < MAXFILE \<Longrightarrow> dslot bn \<in> blocks_for z \<longleftrightarrow> bn * BSIZE < z"
  by (auto simp: blocks_for_def slots_for_def)

lemma finite_blocks_for [simp]: "finite (blocks_for z)"
  by (auto simp: blocks_for_def slots_for_def)

lemma blocks_for_mono: "y \<le> z \<Longrightarrow> blocks_for y \<subseteq> blocks_for z"
  unfolding blocks_for_def by (rule UN_mono) auto

lemma sum_card_upd:
  assumes "m \<in> A" "finite A"
  shows "(\<Sum>l \<in> A. card ((H(m := X)) l)) + card (H m) = (\<Sum>l \<in> A. card (H l)) + card X"
proof -
  have "(\<Sum>l \<in> A. card ((H(m := X)) l)) = card X + (\<Sum>l \<in> A - {m}. card (H l))" using assms by (simp add: sum.remove)
  moreover have "(\<Sum>l \<in> A. card (H l)) = card (H m) + (\<Sum>l \<in> A - {m}. card (H l))" by (rule sum.remove [OF assms(2,1)])
  ultimately show ?thesis by simp
qed

section \<open>Appending\<close>

lemma iappend_loop_ok:
  assumes "mkinv n ip H F s" "m \<in> {1..<n}" "H m = blocks_for (length (F m))" "length (F m) + length p \<le> MAXFILE * BSIZE"
    and "freeb s + card (blocks_for (length (F m) + length p)) \<le> FSSIZE + card (H m)"
  shows "\<exists>din s'. iappend_loop (ip m) (length (F m)) p s = Ok (din, length (F m) + length p, s') \<and>
    mkinv n (ip(m := din)) (H(m := blocks_for (length (F m) + length p))) (F(m := F m @ p)) s' \<and> meta_same s s' \<and> only_addrs (ip m) din"
  using assms
proof (induction "length p" arbitrary: ip H F s p rule: less_induct)
  case less
  let ?off = "length (F m)" let ?fbn = "?off div BSIZE"
  show ?case
  proof (cases "p = []")
    case True
    moreover have "H(m := blocks_for ?off) = H" using less.prems(3) by (metis fun_upd_triv)
    ultimately show ?thesis using less.prems(1)
      by (intro exI [of _ "ip m"] exI [of _ s]) (simp add: iappend_loop.simps [of "ip m" ?off "[]" s])
  next
    case False
    define n1 where "n1 = min (length p) ((?fbn + 1) * BSIZE - ?off)"
    let ?c = "take n1 p"
    have n1: "0 < n1" "n1 \<le> length p" "?off + n1 \<le> (?fbn + 1) * BSIZE"
      using False block_end [of ?off] by (auto simp: n1_def)
    have "?off < MAXFILE * BSIZE" using less.prems(4) False by (cases p) auto
    then have fbn: "?fbn < MAXFILE" by (rule block_of)
    have bf: "blocks_for (?off + n1) = H m \<union> slots_for ?fbn"
      using blocks_for_append [OF n1(1,3) fbn] less.prems(3) by simp
    have "card (blocks_for (?off + n1)) \<le> card (blocks_for (?off + length p))"
      by (intro card_mono blocks_for_mono) (use n1(2) in simp_all)
    then have room: "freeb s + card (H m \<union> slots_for ?fbn) \<le> FSSIZE + card (H m)" using less.prems(5) bf by simp
    have new: "dslot ?fbn \<notin> H m \<Longrightarrow> ?off \<le> ?fbn * BSIZE" using dslot_blocks_for [OF fbn, of ?off] less.prems(3) by auto
    obtain x din s1 where b: "mk_block ?fbn (ip m) s = Ok (x, din, s1)" "x = slot din (mk_img s1) (dslot ?fbn)"
        "mkinv n (ip(m := din)) (H(m := blocks_for (?off + n1))) F s1" "meta_same s s1" "only_addrs (ip m) din"
      by (rule mk_block_step [OF less.prems(1,2) fbn room new, folded bf])
    define s2 where "s2 = wsect x (bcopy ?c (?off - ?fbn * BSIZE) (mk_img s1 x)) s1"
    let ?F = "F(m := F m @ ?c)" and ?H = "H(m := blocks_for (?off + n1))" and ?ip = "ip(m := din)"
    have dm: "dslot ?fbn \<in> ?H m" using bf by (simp add: slots_for_def)
    have w: "mkinv n ?ip ?H ?F s2" "meta_same s1 s2"
      by (rule mkinv_write [OF b(3) less.prems(2) dm refl _ _ s2_def]; use n1 b(2) in simp)+
    have xl: "rsect x s1 = Ok (mk_img s1 x)"
      using slots_invD(4) [OF mkinvD(6) [OF b(3)] less.prems(2) dm] mkinvD(1,3) [OF b(3)] b(2) by (simp add: rsect_def)
    have lF: "length (?F m) = ?off + n1" "length (?F m) + length (drop n1 p) = ?off + length p" using n1(2) by simp_all
    have e: "?off + n1 + (length p - n1) = ?off + length p" using n1(2) by simp
    have fb: "freeb s2 + card (H m) = freeb s + card (blocks_for (?off + n1))"
      using mkinvD(2) [OF w(1)] mkinvD(2) [OF less.prems(1)] sum_card_upd [of m "{1..<n}" H "blocks_for (?off + n1)"] less.prems(2) by simp
    have "\<exists>din' s'. iappend_loop (?ip m) (length (?F m)) (drop n1 p) s2 = Ok (din', length (?F m) + length (drop n1 p), s') \<and>
        mkinv n (?ip(m := din')) (?H(m := blocks_for (length (?F m) + length (drop n1 p)))) (?F(m := ?F m @ drop n1 p)) s' \<and>
        meta_same s2 s' \<and> only_addrs (?ip m) din'"
    proof (rule less.hyps [OF _ w(1) less.prems(2)])
      show "freeb s2 + card (blocks_for (length (?F m) + length (drop n1 p))) \<le> FSSIZE + card (?H m)"
        unfolding lF(2) using less.prems(5) fb by simp
    qed (use lF less.prems(4) n1 in simp_all)
    then obtain din' s' where r: "iappend_loop din (?off + n1) (drop n1 p) s2 = Ok (din', ?off + length p, s')"
        "mkinv n (ip(m := din')) (H(m := blocks_for (?off + length p))) (F(m := F m @ p)) s'" "meta_same s2 s'" "only_addrs din din'"
      unfolding lF(1) length_drop e by auto
    have "iappend_loop (ip m) ?off p s = iappend_loop din (?off + n1) (drop n1 p) s2"
      using False fbn b(1) xl by (simp add: iappend_loop.simps [of "ip m" ?off p s] Let_def n1_def s2_def)
    then show ?thesis using r meta_same_trans [OF meta_same_trans [OF b(4) w(2)] r(3)] only_addrs_trans [OF b(5) r(4)] by auto
  qed
qed

section \<open>Inodes on the image\<close>

definition dino :: "nat \<Rightarrow> mkfs \<Rightarrow> inode" where
  "dino m s = get_dinode (mk_img s (IBLOCK (of_nat m) mk_sb)) (dinode_at (of_nat m)) zero_din"

lemma iblock:
  assumes "m < 200"
  shows "unat (IBLOCK (of_nat m) mk_sb) = 32 + m div 16" "unat (IBLOCK (of_nat m) mk_sb) < 45" "unat (of_nat m :: u32) = m"
proof -
  show u: "unat (of_nat m :: u32) = m" using assms by (intro unat_of_nat32) simp
  have "IBLOCK (of_nat m) mk_sb = of_nat (32 + m div 16)"
    using u by (simp add: IBLOCK_def mk_sb_def mk_nlog_def LOGSIZE_def MAXOPBLOCKS_def IPB_def BSIZE_def)
  then show "unat (IBLOCK (of_nat m) mk_sb) = 32 + m div 16" using assms unat_of_nat32 [of "32 + m div 16"] by simp
  then show "unat (IBLOCK (of_nat m) mk_sb) < 45" using assms by simp
qed

text \<open>\<^verbatim>\<open>winode\<close> changes one inode; only the fields of \<^verbatim>\<open>struct dinode\<close> are stored.\<close>

lemma winode_ok:
  assumes s: "mk_len s = FSSIZE" "\<And>b. blk (mk_img s b) = mk_img s b" and m: "m < 200"
  obtains s' where "winode (of_nat m) ip s = Ok s'" "mk_len s' = FSSIZE" "\<And>b. blk (mk_img s' b) = mk_img s' b"
    "mk_freeblock s' = mk_freeblock s" "mk_freeinode s' = mk_freeinode s"
    "\<And>b. unat b < 32 \<or> 45 \<le> unat b \<Longrightarrow> mk_img s' b = mk_img s b" "\<And>l. l < 200 \<Longrightarrow> l \<noteq> m \<Longrightarrow> dino l s' = dino l s"
    "i_type (dino m s') = i_type ip" "i_nlink (dino m s') = i_nlink ip" "i_size (dino m s') = i_size ip" "\<And>k. k \<le> NDIRECT \<Longrightarrow> i_addrs (dino m s') k = i_addrs ip k"
proof -
  let ?b = "IBLOCK (of_nat m) mk_sb" let ?k = "dinode_at (of_nat m)"
  define s' where "s' = wsect ?b (put_dinode ip ?k (mk_img s ?b)) s"
  note ib = iblock [OF m]
  have img: "mk_img s' = (mk_img s)(?b := put_dinode ip ?k (mk_img s ?b))"
    using blk_put_dinode [OF dinode_fits] s(2) by (simp add: s'_def wsect_def)
  have "winode (of_nat m) ip s = Ok s'" using ib s(1) by (simp add: winode_def rsect_def s'_def nmeta_val Let_def)
  moreover have "mk_len s' = FSSIZE" using s(1) ib by (simp add: s'_def wsect_def nmeta_val)
  moreover have "blk (mk_img s' b) = mk_img s' b" for b using s(2) blk_put_dinode [OF dinode_fits] by (simp add: img)
  moreover have "mk_img s' b = mk_img s b" if "unat b < 32 \<or> 45 \<le> unat b" for b using that ib by (auto simp: img)
  moreover have "dino l s' = dino l s" if l: "l < 200" "l \<noteq> m" for l
  proof -
    have ne: "(of_nat l :: u32) \<noteq> of_nat m" using l ib(3) iblock(3) [OF l(1)] by metis
    have "put_dinode ip ?k (mk_img s ?b) i = mk_img s ?b i"
      if "IBLOCK (of_nat l) mk_sb = ?b" "dinode_at (of_nat l) \<le> i" "i < dinode_at (of_nat l) + 64" for i
      by (rule put_dinode_outside) (use dinode_disjoint [OF ne, of mk_sb] that in auto)
    then show ?thesis unfolding dino_def by (auto simp: img intro!: get_dinode_cong)
  qed
  moreover have "dino m s' = get_dinode (put_dinode ip ?k (mk_img s ?b)) ?k zero_din" by (simp add: dino_def img)
  ultimately show thesis using that [of s'] by (simp add: dinode_roundtrip s'_def wsect_def)
qed

lemma rinode_ok: "mk_len s = FSSIZE \<Longrightarrow> m < 200 \<Longrightarrow> rinode (of_nat m) s = Ok (dino m s)"
  using iblock [of m] by (simp add: rinode_def rsect_def dino_def nmeta_val Let_def)

text \<open>The invariant only looks at the addresses of the inodes and at the data blocks.\<close>

lemma mkinv_cong:
  assumes inv: "mkinv n ip H F s" and a: "\<And>m k. m \<in> {1..<n} \<Longrightarrow> k \<le> NDIRECT \<Longrightarrow> i_addrs (ip' m) k = i_addrs (ip m) k"
    and s': "mk_len s' = FSSIZE" "mk_freeblock s' = mk_freeblock s" "\<And>b. blk (mk_img s' b) = mk_img s' b"
      "\<And>b. nmeta \<le> unat b \<Longrightarrow> mk_img s' b = mk_img s b"
  shows "mkinv n ip' H F s'"
proof -
  note i = mkinvD [OF inv]
  note si = slots_invD [OF i(6)]
  have sl: "slot (ip' m) (mk_img s') j = slot (ip m) (mk_img s) j" if m: "m \<in> {1..<n}" for m j
  proof -
    have "nmeta \<le> unat (i_addrs (ip m) NDIRECT)" if "i_addrs (ip m) NDIRECT \<noteq> 0"
      using si(2) [OF m NDIRECT_less] si(4) [OF m, of NDIRECT] that by simp
    then show ?thesis using a [OF m] s'(4) by (auto simp: slot_def)
  qed
  have "slots_inv n ip' H s'" using i(6) sl s'(2) by (simp add: slots_inv_def)
  moreover have "bytes_inv n ip' H F s'"
    unfolding bytes_inv_def
  proof (intro ballI allI impI)
    fix m bn q assume m: "m \<in> {1..<n}" "dslot bn \<in> H m" "q < BSIZE"
    then show "mk_img s' (slot (ip' m) (mk_img s') (dslot bn)) q = (if bn * BSIZE + q < length (F m) then F m ! (bn * BSIZE + q) else 0)"
      using i(7) sl [OF m(1)] si(4) [OF m(1,2)] s'(4) by (simp add: bytes_inv_def)
  qed
  moreover have "mk_img s' b = (\<lambda>_. 0)" if "freeb s \<le> unat b" for b using i(2,5) s'(4) that by simp
  ultimately show ?thesis using i s' by (simp add: mkinv_def)
qed

text \<open>The image between two calls: \<open>F m\<close> are the bytes of inode \<open>m\<close>, for \<open>m\<close> from 1 to \<open>n - 1\<close>.\<close>

definition blocks_used :: "nat \<Rightarrow> (nat \<Rightarrow> u8 list) \<Rightarrow> nat" where
  "blocks_used n F = (\<Sum>m \<in> {1..<n}. card (blocks_for (length (F m))))"

definition mkstate :: "nat \<Rightarrow> (nat \<Rightarrow> u8 list) \<Rightarrow> mkfs \<Rightarrow> bool" where
  "mkstate n F s \<longleftrightarrow> 1 \<le> n \<and> n \<le> NINODES \<and> mk_freeinode s = of_nat n \<and>
     mkinv n (\<lambda>m. dino m s) (\<lambda>m. blocks_for (length (F m))) F s \<and>
     (\<forall>m \<in> {1..<n}. length (F m) \<le> MAXFILE * BSIZE \<and> i_size (dino m s) = of_nat (length (F m)) \<and>
        i_type (dino m s) = (if m = 1 then T_DIR else T_FILE) \<and> i_nlink (dino m s) = 1) \<and>
     (\<forall>b. unat b < 32 \<longrightarrow> mk_img s b = (if b = 1 then blk (put_sb mk_sb (\<lambda>_. 0)) else (\<lambda>_. 0)))"

lemma size32: "z \<le> MAXFILE * BSIZE \<Longrightarrow> unat (of_nat z :: u32) = z"
  by (rule unat_of_nat32) (simp add: MAXFILE_def NDIRECT_def NINDIRECT_def BSIZE_def)

lemma iappend_ok:
  assumes st: "mkstate n F s" and m: "m \<in> {1..<n}" and F': "F' = F(m := F m @ p)" and z: "length (F' m) \<le> MAXFILE * BSIZE"
    and room: "nmeta + blocks_used n F' \<le> FSSIZE"
  shows "\<exists>s'. iappend (of_nat m) p s = Ok s' \<and> mkstate n F' s'"
proof -
  let ?ip = "\<lambda>m. dino m s" and ?H = "\<lambda>m. blocks_for (length (F m))"
  have n: "n \<le> 200" and inv: "mkinv n ?ip ?H F s" using st by (simp_all add: mkstate_def NINODES_def)
  note i = mkinvD [OF inv]
  have m2: "m < 200" using m n by auto
  have sz: "unat (i_size (dino m s)) = length (F m)" using st m size32 by (simp add: mkstate_def)
  have H': "(?H)(m := blocks_for (length (F m) + length p)) = (\<lambda>l. blocks_for (length (F' l)))" by (simp add: F' fun_eq_iff)
  have "nmeta + (\<Sum>l \<in> {1..<n}. card (((?H)(m := blocks_for (length (F m) + length p))) l)) \<le> FSSIZE"
    using room unfolding H' blocks_used_def .
  then have r: "freeb s + card (blocks_for (length (F m) + length p)) \<le> FSSIZE + card (?H m)"
    using i(2) sum_card_upd [of m "{1..<n}" ?H "blocks_for (length (F m) + length p)"] m by simp
  obtain din s1 where l: "iappend_loop (dino m s) (length (F m)) p s = Ok (din, length (F m) + length p, s1)"
      "mkinv n (?ip(m := din)) (\<lambda>l. blocks_for (length (F' l))) F' s1" "meta_same s s1" "only_addrs (dino m s) din"
    using iappend_loop_ok [OF inv m refl _ r] z unfolding H' F' by auto
  note i1 = mkinvD [OF l(2)]
  obtain s' where w: "winode (of_nat m) (din\<lparr>i_size := of_nat (length (F m) + length p)\<rparr>) s1 = Ok s'" "mk_len s' = FSSIZE"
    "\<And>b. blk (mk_img s' b) = mk_img s' b" "mk_freeblock s' = mk_freeblock s1" "mk_freeinode s' = mk_freeinode s1"
    "\<And>b. unat b < 32 \<or> 45 \<le> unat b \<Longrightarrow> mk_img s' b = mk_img s1 b" "\<And>l. l < 200 \<Longrightarrow> l \<noteq> m \<Longrightarrow> dino l s' = dino l s1"
    "i_type (dino m s') = i_type din" "i_nlink (dino m s') = i_nlink din" "i_size (dino m s') = of_nat (length (F m) + length p)"
    "\<And>k. k \<le> NDIRECT \<Longrightarrow> i_addrs (dino m s') k = i_addrs din k"
    by (rule winode_ok [OF i1(1,4) m2, of "din\<lparr>i_size := of_nat (length (F m) + length p)\<rparr>"]) simp_all
  have same: "dino l s1 = dino l s" if "l < 200" for l using l(3) iblock(2) [OF that] by (simp add: dino_def meta_same_def nmeta_val)
  have din: "i_type din = i_type (dino m s)" "i_nlink din = i_nlink (dino m s)"
    using l(4) unfolding only_addrs_def by (metis inode.select_convs inode.surjective inode.update_convs(11))+
  have "mkinv n (\<lambda>m. dino m s') (\<lambda>l. blocks_for (length (F' l))) F' s'"
    by (rule mkinv_cong [OF l(2)]) (use w same n in \<open>auto simp: nmeta_val\<close>)
  then have "mkstate n F' s'"
    using st w(5-10) l(3) same din n z unfolding mkstate_def meta_same_def by (auto simp: F' nmeta_val NINODES_def)
  moreover have "iappend (of_nat m) p s = Ok s'"
    using rinode_ok [OF i(1) m2] l(1) w(1) sz by (simp add: iappend_def)
  ultimately show ?thesis by blast
qed

section \<open>Files and directories\<close>

lemma mkinv_Suc:
  assumes inv: "mkinv n ip H F s" and n: "1 \<le> n" "H n = {}" "\<And>k. k \<le> NDIRECT \<Longrightarrow> i_addrs (ip n) k = 0"
  shows "mkinv (Suc n) ip H F s"
proof -
  note i = mkinvD [OF inv]
  have S: "{1..<Suc n} = insert n {1..<n}" using n(1) by auto
  have "slot (ip n) (mk_img s) j = 0" for j using n(3) by (simp add: slot_def)
  then have "slots_inv (Suc n) ip H s" using i(6) n(2) unfolding slots_inv_def S by auto
  moreover have "bytes_inv (Suc n) ip H F s" using i(7) n(2) unfolding bytes_inv_def S by auto
  ultimately show ?thesis using inv n(2) unfolding mkinv_def S by simp
qed

lemma mk_ialloc_ok:
  assumes st: "mkstate n F s" and n: "n < NINODES" "F n = []" and ty: "ty = (if n = 1 then T_DIR else T_FILE)"
  shows "\<exists>s'. mk_ialloc ty s = Ok (of_nat n, s') \<and> mkstate (Suc n) F s'"
proof -
  let ?s = "s\<lparr>mk_freeinode := mk_freeinode s + 1\<rparr>" and ?din = "zero_din\<lparr>i_type := ty, i_nlink := 1, i_size := 0\<rparr>"
  let ?H = "\<lambda>m. blocks_for (length (F m))"
  have n2: "n < 200" "1 \<le> n" and inv: "mkinv n (\<lambda>m. dino m s) ?H F s" using st n by (simp_all add: mkstate_def NINODES_def)
  note i = mkinvD [OF inv]
  have l: "mk_len ?s = FSSIZE" "\<And>b. blk (mk_img ?s b) = mk_img ?s b" using i(1,4) by simp_all
  obtain s' where w: "winode (of_nat n) ?din ?s = Ok s'" "mk_len s' = FSSIZE" "\<And>b. blk (mk_img s' b) = mk_img s' b"
    "mk_freeblock s' = mk_freeblock s" "mk_freeinode s' = mk_freeinode s + 1"
    "\<And>b. unat b < 32 \<or> 45 \<le> unat b \<Longrightarrow> mk_img s' b = mk_img s b" "\<And>l. l < 200 \<Longrightarrow> l \<noteq> n \<Longrightarrow> dino l s' = dino l ?s"
    "i_type (dino n s') = ty" "i_nlink (dino n s') = 1" "i_size (dino n s') = 0" "\<And>k. k \<le> NDIRECT \<Longrightarrow> i_addrs (dino n s') k = 0"
    by (rule winode_ok [OF l n2(1), of ?din]) (simp_all add: zero_din_def)
  have same: "dino l s' = dino l s" if "l < n" for l using w(7) [of l] that n2 by (simp add: dino_def)
  have "mkinv n (\<lambda>m. dino m s') ?H F s'"
    by (rule mkinv_cong [OF inv]) (use w same in \<open>auto simp: nmeta_val\<close>)
  then have inv': "mkinv (Suc n) (\<lambda>m. dino m s') ?H F s'"
    by (rule mkinv_Suc) (use n2 n w(11) in \<open>simp_all add: blocks_for_def\<close>)
  have S: "{1..<Suc n} = insert n {1..<n}" using n2 by auto
  have fi: "mk_freeinode s' = of_nat (Suc n)" using st w(5) by (simp add: mkstate_def)
  have lo: "unat b < 32 \<Longrightarrow> mk_img s' b = (if b = 1 then blk (put_sb mk_sb (\<lambda>_. 0)) else (\<lambda>_. 0))" for b
    using st w(6) by (simp add: mkstate_def)
  have old: "length (F m) \<le> MAXFILE * BSIZE \<and> i_size (dino m s') = of_nat (length (F m)) \<and>
      i_type (dino m s') = (if m = 1 then T_DIR else T_FILE) \<and> i_nlink (dino m s') = 1" if "m \<in> {1..<Suc n}" for m
    using that st same w(8-10) ty n(2) unfolding mkstate_def S by (cases "m = n") auto
  have "mkstate (Suc n) F s'" unfolding mkstate_def using n inv' fi lo old by auto
  then show ?thesis using w(1) st by (simp add: mk_ialloc_def mkstate_def)
qed

lemma blocks_used_mono:
  assumes "n \<le> n'" "\<And>m. m \<in> {1..<n} \<Longrightarrow> length (F m) \<le> length (F' m)"
  shows "blocks_used n F \<le> blocks_used n' F'"
proof -
  have "blocks_used n F \<le> blocks_used n F'"
    unfolding blocks_used_def by (rule sum_mono) (rule card_mono [OF finite_blocks_for blocks_for_mono [OF assms(2)]])
  also have "\<dots> \<le> blocks_used n' F'" unfolding blocks_used_def using assms(1) by (intro sum_mono2) auto
  finally show ?thesis .
qed

lemma mk_reads_ok:
  assumes "mkstate n F s" "m \<in> {1..<n}" "length (F m @ concat bufs) \<le> MAXFILE * BSIZE"
    "nmeta + blocks_used n (F(m := F m @ concat bufs)) \<le> FSSIZE"
  shows "\<exists>s'. mk_reads (of_nat m) bufs s = Ok s' \<and> mkstate n (F(m := F m @ concat bufs)) s'"
  using assms
proof (induction bufs arbitrary: F s)
  case Nil
  then show ?case by simp
next
  case (Cons buf bufs)
  let ?F = "F(m := F m @ buf)"
  have "blocks_used n ?F \<le> blocks_used n (F(m := F m @ concat (buf # bufs)))" by (rule blocks_used_mono) auto
  then have room: "nmeta + blocks_used n ?F \<le> FSSIZE" using Cons.prems(4) by linarith
  have "length (?F m) \<le> MAXFILE * BSIZE" using Cons.prems(3) by simp
  from iappend_ok [OF Cons.prems(1,2) refl this room]
  obtain s1 where s1: "iappend (of_nat m) buf s = Ok s1" "mkstate n ?F s1" by blast
  have F: "?F(m := ?F m @ concat bufs) = F(m := F m @ concat (buf # bufs))" by (intro ext) simp
  have "length (?F m @ concat bufs) \<le> MAXFILE * BSIZE" using Cons.prems(3) by simp
  from Cons.IH [OF s1(2) Cons.prems(2) this] Cons.prems(4)
  obtain s2 where "mk_reads (of_nat m) bufs s1 = Ok s2" "mkstate n (F(m := F m @ concat (buf # bufs))) s2" unfolding F by blast
  then have "mk_reads (of_nat m) (buf # bufs) s = Ok s2 \<and> mkstate n (F(m := F m @ concat (buf # bufs))) s2" using s1(1) by simp
  then show ?case by (rule exI)
qed

text \<open>The bytes of every inode after the loop over the arguments, of which the first gets inode \<open>n\<close>.\<close>

fun with_files :: "nat \<Rightarrow> (u8 list \<times> u8 list list) list \<Rightarrow> (nat \<Rightarrow> u8 list) \<Rightarrow> nat \<Rightarrow> u8 list" where
  "with_files n [] F = F"
| "with_files n ((arg, bufs) # fs) F =
     (case shortname arg of Ok name \<Rightarrow> with_files (Suc n) fs (F(1 := F 1 @ mk_dirent (of_nat n) name, n := concat bufs)) | _ \<Rightarrow> F)"

definition names_ok :: "(u8 list \<times> u8 list list) list \<Rightarrow> bool" where
  "names_ok fs \<longleftrightarrow> (\<forall>(arg, bufs) \<in> set fs. shortname arg \<noteq> Panic ''assert'')"

lemma names_okE:
  assumes "names_ok ((arg, bufs) # fs)"
  obtains name where "shortname arg = Ok name" "names_ok fs"
  using assms by (auto simp: names_ok_def shortname_def Let_def split: if_splits)

lemma with_files_other: "names_ok fs \<Longrightarrow> m \<noteq> 1 \<Longrightarrow> m < n \<or> n + length fs \<le> m \<Longrightarrow> with_files n fs F m = F m"
proof (induction fs arbitrary: n F)
  case (Cons f fs)
  obtain arg bufs where f: "f = (arg, bufs)" by (cases f)
  obtain name where nm: "shortname arg = Ok name" "names_ok fs" using Cons.prems(1) unfolding f by (rule names_okE)
  show ?case using Cons.IH [OF nm(2) Cons.prems(2), of "Suc n"] Cons.prems nm by (auto simp: f)
qed simp

lemma with_files_file: "names_ok fs \<Longrightarrow> 2 \<le> n \<Longrightarrow> k < length fs \<Longrightarrow> with_files n fs F (n + k) = concat (snd (fs ! k))"
proof (induction fs arbitrary: n F k)
  case (Cons f fs)
  obtain arg bufs where f: "f = (arg, bufs)" by (cases f)
  obtain name where nm: "shortname arg = Ok name" "names_ok fs" using Cons.prems(1) unfolding f by (rule names_okE)
  show ?case
  proof (cases k)
    case 0
    then show ?thesis using with_files_other [OF nm(2), of n "Suc n"] Cons.prems(2) nm by (simp add: f)
  next
    case (Suc l)
    then show ?thesis using Cons.IH [OF nm(2), of "Suc n" l] Cons.prems nm by (simp add: f)
  qed
qed simp

text \<open>The root directory gets one entry per file, in order.\<close>

definition entry :: "nat \<Rightarrow> u8 list \<times> u8 list list \<Rightarrow> u8 list" where
  "entry n f = (case shortname (fst f) of Ok name \<Rightarrow> mk_dirent (of_nat n) name | _ \<Rightarrow> [])"

lemma with_files_root:
  "names_ok fs \<Longrightarrow> 2 \<le> n \<Longrightarrow> with_files n fs F 1 = F 1 @ concat (map (\<lambda>k. entry (n + k) (fs ! k)) [0..<length fs])"
proof (induction fs arbitrary: n F)
  case (Cons f fs)
  obtain arg bufs where f: "f = (arg, bufs)" by (cases f)
  obtain name where nm: "shortname arg = Ok name" "names_ok fs" using Cons.prems(1) unfolding f by (rule names_okE)
  have "entry n (arg, bufs) = mk_dirent (of_nat n) name" by (simp add: entry_def nm)
  then show ?case using Cons.IH [OF nm(2), of "Suc n"] Cons.prems nm unfolding length_Cons upt_conv_Cons [OF zero_less_Suc]
    by (simp add: f map_Suc_upt [symmetric] o_def del: upt_Suc)
qed simp

lemma length_mk_dirent [simp]: "length (mk_dirent inum name) = 16"
  by (simp add: mk_dirent_def DIRSIZ_def)

lemma mk_file_ok:
  assumes st: "mkstate n F s" and n: "2 \<le> n" "n < NINODES" "F n = []" and nm: "shortname arg = Ok name"
    and F': "F' = F(1 := F 1 @ mk_dirent (of_nat n) name, n := concat bufs)"
    and z: "length (F' 1) \<le> MAXFILE * BSIZE" "length (F' n) \<le> MAXFILE * BSIZE" and room: "nmeta + blocks_used (Suc n) F' \<le> FSSIZE"
  shows "\<exists>s'. mk_file 1 (arg, bufs) s = Ok s' \<and> mkstate (Suc n) F' s'"
proof -
  let ?F = "F(1 := F 1 @ mk_dirent (of_nat n) name)"
  obtain s1 where s1: "mk_ialloc T_FILE s = Ok (of_nat n, s1)" "mkstate (Suc n) F s1"
    using mk_ialloc_ok [OF st n(2,3) refl] n(1) by auto
  have "blocks_used (Suc n) ?F \<le> blocks_used (Suc n) F'" by (rule blocks_used_mono) (use n F' in auto)
  then have r: "nmeta + blocks_used (Suc n) ?F \<le> FSSIZE" using room by linarith
  have "length (?F 1) \<le> MAXFILE * BSIZE" using z(1) n F' by simp
  from iappend_ok [OF s1(2) _ refl this r] n
  obtain s2 where s2: "iappend 1 (mk_dirent (of_nat n) name) s1 = Ok s2" "mkstate (Suc n) ?F s2" by auto
  have "?F(n := ?F n @ concat bufs) = F'" using n F' by auto
  then obtain s3 where "mk_reads (of_nat n) bufs s2 = Ok s3" "mkstate (Suc n) F' s3"
    using mk_reads_ok [OF s2(2), of n bufs] n z(2) room F' by auto
  then show ?thesis using s1 s2 nm by (simp add: mk_file_def)
qed

lemma mk_files_ok:
  assumes "mkstate n F s" "2 \<le> n" "n + length fs \<le> NINODES" "\<And>m. n \<le> m \<Longrightarrow> F m = []" "names_ok fs"
    "\<And>m. m \<in> {1..<n + length fs} \<Longrightarrow> length (with_files n fs F m) \<le> MAXFILE * BSIZE"
    "nmeta + blocks_used (n + length fs) (with_files n fs F) \<le> FSSIZE"
  shows "\<exists>s'. mk_files 1 fs s = Ok s' \<and> mkstate (n + length fs) (with_files n fs F) s'"
  using assms
proof (induction fs arbitrary: n F s)
  case (Cons f fs)
  obtain arg bufs where f: "f = (arg, bufs)" by (cases f)
  obtain name where nm: "shortname arg = Ok name" "names_ok fs" using Cons.prems(5) unfolding f by (rule names_okE)
  define F1 where "F1 = F(1 := F 1 @ mk_dirent (of_nat n) name, n := concat bufs)"
  let ?G = "with_files n (f # fs) F"
  have G: "?G = with_files (Suc n) fs F1" by (simp add: f nm F1_def)
  have le: "length (F1 m) \<le> length (?G m)" if m: "m < Suc n" for m
    using with_files_other [OF nm(2), of m "Suc n"] with_files_root [OF nm(2), of "Suc n" F1] m Cons.prems(2)
    unfolding G by (cases "m = 1") auto
  have "blocks_used (Suc n) F1 \<le> blocks_used (n + length (f # fs)) ?G" by (rule blocks_used_mono) (use le in auto)
  then have r: "nmeta + blocks_used (Suc n) F1 \<le> FSSIZE" using Cons.prems(7) by linarith
  have z: "length (F1 1) \<le> MAXFILE * BSIZE" "length (F1 n) \<le> MAXFILE * BSIZE"
    using le [of 1] Cons.prems(6) [of 1] le [of n] Cons.prems(6) [of n] Cons.prems(2) by auto
  obtain s1 where s1: "mk_file 1 f s = Ok s1" "mkstate (Suc n) F1 s1"
    using mk_file_ok [OF Cons.prems(1,2) _ _ nm(1) F1_def z r] Cons.prems(3,4) unfolding f by auto
  have F1_empty: "F1 m = []" if "Suc n \<le> m" for m using that Cons.prems(2,4) by (simp add: F1_def)
  have "\<exists>s'. mk_files 1 fs s1 = Ok s' \<and> mkstate (Suc n + length fs) (with_files (Suc n) fs F1) s'"
    by (rule Cons.IH [OF s1(2)]) (use Cons.prems nm(2) G F1_empty in auto)
  then show ?case using s1 G by simp
qed simp

end
