(* ===== verification/Xv6_Mount.thy ===== *)
theory Xv6_Mount
  imports Xv6_Mkfs
begin

text \<open>
  From \<^verbatim>\<open>mkfs/mkfs.c\<close> to \<^verbatim>\<open>kernel/fs.c\<close>: the kernel mounts the image that \<^verbatim>\<open>mkfs\<close> wrote.  \<open>fsinit_ok\<close> is
  the behaviour of \<^verbatim>\<open>fsinit\<close> on any disk with a superblock and a well-formed log; the rest is about
  the beginning and the end of \<^verbatim>\<open>mkfs_main\<close>, and about what the kernel finds on the image.
\<close>

section \<open>Mounting\<close>

lemma get_sb_blk: "get_sb (blk d) = get_sb d"
  by (simp add: get_sb_def get32_blk BSIZE_def)

lemma fsinit_ok:
  assumes bt: "bio_inv (f_bio s)" "quiet {} (acache_of (f_bio s))" "buf_cont (f_bio s) = d" "d_disk (f_bio s) = d"
    and idle: "lg_outstanding (f_log s) = 0" "\<not> lg_committing (f_log s)"
    and sb: "sb = get_sb (d 1)" "sb_magic sb = FSMAGIC" "hdr_ok (sb_logstart sb) c d" "0 < sint (sb_nlog sb)" "sint (sb_nlog sb) \<le> int LOGSIZE"
  obtains t where "fsinit ROOTDEV s = Ok t" "f_sb t = sb" "f_inode t = f_inode s" "log_inv (f_log t)" "lg_n (f_log t) = 0"
    "lg_outstanding (f_log t) = 0" "\<not> lg_committing (f_log t)" "lg_start (f_log t) = sb_logstart sb" "lg_size (f_log t) = sint (sb_nlog sb)"
    "\<And>m. m \<notin> log_area (sb_logstart sb) c \<Longrightarrow> content t m = durable (sb_logstart sb) d m"
proof -
  have N: "card ({} :: u32 set) < NBUF" by (simp add: NBUF_def MAXOPBLOCKS_def)
  obtain b s1 s2 where r: "bread ROOTDEV 1 (f_bio s) = Ok (b, s1)" "blk (bdata b s1) = a_cont (acache_of (f_bio s)) 1" "brelse b s1 = Ok s2"
      "bio_inv s2" "acache_of s2 = acache_of (f_bio s)"
    by (rule bc.peek [OF bt(1) quiet_ready [OF bt(2) disjI2 [OF N]], of 1])
  have sb1: "get_sb (bdata b s1) = sb" using r(2) bt(3) sb(1) get_sb_blk [of "bdata b s1"] by (simp add: acache_of_def)
  let ?l = "(f_log s)\<lparr>lg_bio := s2\<rparr>"
  have bt2: "buf_cont s2 = d" "d_disk s2 = d"
    using bt(3,4) arg_cong [OF r(5), of a_cont] arg_cong [OF r(5), of a_disk] by (simp_all add: acache_of_def)
  obtain lg where lg: "initlog ROOTDEV (sb_logstart sb) (sb_nlog sb) ?l = Ok lg" "log_inv lg" "lg_n lg = 0"
    "lg_outstanding lg = 0" "\<not> lg_committing lg" "lg_start lg = sb_logstart sb" "lg_size lg = sint (sb_nlog sb)"
    "\<forall>m. m \<notin> log_area (sb_logstart sb) c \<longrightarrow> d_disk (lg_bio lg) m = durable (sb_logstart sb) d m \<and>
       buf_cont (lg_bio lg) m = durable (sb_logstart sb) d m"
    by (rule initlog_log_inv [OF sb(3-5), of ?l]) (use bt(2) r(4,5) bt2 idle in simp_all)
  define t where "t = (set_bio s2 (set_bio s1 s))\<lparr>f_sb := sb, f_log := lg\<rparr>"
  have "fsinit ROOTDEV s = Ok t"
    using r(1,3) sb1 sb(2) lg(1) by (simp add: fsinit_def readsb_def fs_bread_def fs_brelse_def set_bio_def t_def)
  then show thesis by (rule that) (use lg in \<open>simp_all add: t_def content_def set_bio_def\<close>)
qed

section \<open>The empty image\<close>

lemma mk_sb_val: "mk_sb = demo_sb"
  by (simp add: mk_sb_def demo_sb_def nblocks_def nmeta_val mk_nlog_def ninodeblocks_def NINODES_def IPB_def BSIZE_def
      LOGSIZE_def MAXOPBLOCKS_def)

lemma get_put_sb: "get_sb (put_sb sb d) = sb"
  by (simp add: get_sb_def put_sb_def get32_put32 get32_put32_other)

lemma zero_sectors:
  assumes "mk_img s = (\<lambda>_ _. 0)" "mk_len s = 0" "k \<le> FSSIZE"
  shows "fold (\<lambda>i. wsect (of_nat i) (\<lambda>_. 0)) [0..<k] s = s\<lparr>mk_len := k\<rparr>"
  using assms(3)
proof (induction k)
  case (Suc k)
  have "unat (of_nat k :: u32) = k" by (rule unat_of_nat32) (use Suc.prems in \<open>simp add: nmeta_val\<close>)
  then show ?case using Suc assms(1) by (simp add: wsect_def blk_def fun_upd_idem)
qed (use assms in simp)

lemma empty_image:
  "mkstate 1 (\<lambda>_. []) (wsect 1 (put_sb mk_sb (\<lambda>_. 0)) mk_zero)"
proof -
  have z: "mk_zero = \<lparr>mk_img = (\<lambda>_ _. 0), mk_len = FSSIZE, mk_freeinode = 1, mk_freeblock = of_nat nmeta\<rparr>"
    unfolding mk_zero_def by (subst zero_sectors) simp_all
  have "b \<noteq> 1" if "46 \<le> unat b" for b :: u32 using that by auto
  then show ?thesis
    by (auto simp: mkstate_def mkinv_def slots_inv_def bytes_inv_def wsect_def z nmeta_val NINODES_def blk_blk)
qed

section \<open>The end of \<open>mkfs_main\<close>\<close>

lemma mkinv_pad:
  assumes "mkinv n ip H F s"
  shows "mkinv n ip H (F(m := F m @ replicate k 0)) s"
proof -
  have "bytes_inv n ip H (F(m := F m @ replicate k 0)) s"
    using mkinvD(7) [OF assms] by (auto simp: bytes_inv_def nth_append)
  then show ?thesis using assms by (simp add: mkinv_def)
qed

lemma blocks_for_round:
  assumes "z mod BSIZE \<noteq> 0"
  shows "blocks_for ((z div BSIZE + 1) * BSIZE) = blocks_for z"
proof -
  have "bn * BSIZE < (z div BSIZE + 1) * BSIZE \<longleftrightarrow> bn * BSIZE < z" for bn
  proof -
    have "0 < BSIZE" by (simp add: BSIZE_def)
    then have "bn * BSIZE < (z div BSIZE + 1) * BSIZE \<longleftrightarrow> bn * BSIZE \<le> z"
      using less_eq_div_iff_mult_less_eq [of BSIZE bn z] by (simp add: less_Suc_eq_le mult_less_cancel2 del: mult_Suc)
    moreover have "bn * BSIZE \<noteq> z" using assms by auto
    ultimately show ?thesis by auto
  qed
  then show ?thesis by (simp add: blocks_for_def)
qed

lemma round_less:
  assumes "z mod BSIZE \<noteq> 0"
  shows "(z div BSIZE + 1) * BSIZE - z < BSIZE"
proof -
  have "(z div BSIZE + 1) * BSIZE = z div BSIZE * BSIZE + BSIZE" "0 < BSIZE" by (simp_all add: BSIZE_def)
  then show ?thesis using assms div_mult_mod_eq [of z BSIZE] by linarith
qed

text \<open>The bytes of the root directory with the size \<^verbatim>\<open>main\<close> gives it at the end.\<close>

definition round_root :: "(nat \<Rightarrow> u8 list) \<Rightarrow> nat \<Rightarrow> u8 list" where
  "round_root F = F(1 := F 1 @ replicate ((length (F 1) div BSIZE + 1) * BSIZE - length (F 1)) 0)"

lemma length_round_root: "length (round_root F 1) = (length (F 1) div BSIZE + 1) * BSIZE"
  using block_end [of "length (F 1)"] by (simp add: round_root_def)

lemma blocks_round_root: "length (F 1) mod BSIZE \<noteq> 0 \<Longrightarrow> blocks_for (length (round_root F m)) = blocks_for (length (F m))"
  using blocks_for_round length_round_root [of F] by (cases "m = 1") (auto simp: round_root_def)

lemma round_root_ok:
  assumes st: "mkstate n F s" and n: "1 < n" and z: "length (F 1) mod BSIZE \<noteq> 0" "length (round_root F 1) \<le> MAXFILE * BSIZE"
  shows "\<exists>s'. winode 1 ((dino 1 s)\<lparr>i_size := of_nat ((length (F 1) div BSIZE + 1) * BSIZE)\<rparr>) s = Ok s' \<and> mkstate n (round_root F) s'"
proof -
  let ?z = "of_nat ((length (F 1) div BSIZE + 1) * BSIZE) :: u32"
  let ?H = "\<lambda>m. blocks_for (length (F m))"
  have n2: "n \<le> 200" and inv: "mkinv n (\<lambda>m. dino m s) ?H F s" using st by (simp_all add: mkstate_def NINODES_def)
  note i = mkinvD [OF inv]
  have one: "(1 :: nat) < 200" "of_nat 1 = (1 :: u32)" by simp_all
  obtain s' where w: "winode 1 ((dino 1 s)\<lparr>i_size := ?z\<rparr>) s = Ok s'" "mk_len s' = FSSIZE" "\<And>b. blk (mk_img s' b) = mk_img s' b"
    "mk_freeblock s' = mk_freeblock s" "mk_freeinode s' = mk_freeinode s"
    "\<And>b. unat b < 32 \<or> 45 \<le> unat b \<Longrightarrow> mk_img s' b = mk_img s b" "\<And>l. l < 200 \<Longrightarrow> l \<noteq> 1 \<Longrightarrow> dino l s' = dino l s"
    "i_type (dino 1 s') = i_type (dino 1 s)" "i_nlink (dino 1 s') = i_nlink (dino 1 s)" "i_size (dino 1 s') = ?z"
    "\<And>k. k \<le> NDIRECT \<Longrightarrow> i_addrs (dino 1 s') k = i_addrs (dino 1 s) k"
    by (rule winode_ok [OF i(1,4) one(1), of "(dino 1 s)\<lparr>i_size := ?z\<rparr>"]) (unfold one(2), simp_all)
  have same: "dino m s' = dino m s" if "m \<in> {1..<n}" "m \<noteq> 1" for m using w(7) [of m] that n2 by simp
  have "mkinv n (\<lambda>m. dino m s') ?H F s'"
  proof (rule mkinv_cong [OF inv])
    show "i_addrs (dino m s') k = i_addrs (dino m s) k" if "m \<in> {1..<n}" "k \<le> NDIRECT" for m k
      using same w(11) that by (cases "m = 1") auto
  qed (use w in \<open>auto simp: nmeta_val\<close>)
  then have "mkinv n (\<lambda>m. dino m s') ?H (round_root F) s'" unfolding round_root_def by (rule mkinv_pad)
  then have inv': "mkinv n (\<lambda>m. dino m s') (\<lambda>m. blocks_for (length (round_root F m))) (round_root F) s'"
    using blocks_round_root [of F] z(1) by simp
  have "length (round_root F m) \<le> MAXFILE * BSIZE \<and> i_size (dino m s') = of_nat (length (round_root F m)) \<and>
      i_type (dino m s') = (if m = 1 then T_DIR else T_FILE) \<and> i_nlink (dino m s') = 1" if m: "m \<in> {1..<n}" for m
  proof (cases "m = 1")
    case True
    then show ?thesis using st n z(2) w(8-10) length_round_root [of F] unfolding mkstate_def by auto
  next
    case False
    then show ?thesis using st m same [OF m] unfolding mkstate_def round_root_def by auto
  qed
  then have "mkstate n (round_root F) s'" unfolding mkstate_def using st inv' w(5,6) by (auto simp: mkstate_def)
  then show ?thesis using w(1) by blast
qed

lemma bitmap_step:
  fixes f :: "nat \<Rightarrow> u8"
  assumes "bit (f (b div 8)) (b mod 8) \<longleftrightarrow> b < n"
  shows "bit ((f(n div 8 := f (n div 8) OR push_bit (n mod 8) 1)) (b div 8)) (b mod 8) \<longleftrightarrow> b < Suc n"
proof -
  have eq: "b = n \<longleftrightarrow> b div 8 = n div 8 \<and> b mod 8 = n mod 8" by (metis div_mult_mod_eq)
  have "bit (f (b div 8) OR push_bit (n mod 8) 1) (b mod 8) \<longleftrightarrow> b < n \<or> b mod 8 = n mod 8"
    unfolding bit_or_iff assms by (auto simp: bit_simps)
  then show ?thesis using assms eq by (cases "b div 8 = n div 8") auto
qed

lemma bitmap_bits:
  "bit (fold (\<lambda>i buf. buf(i div 8 := buf (i div 8) OR push_bit (i mod 8) 1)) [0..<n] (\<lambda>_. 0 :: u8) (b div 8)) (b mod 8) \<longleftrightarrow> b < n"
proof (induction n)
  case (Suc n)
  have "fold (\<lambda>i buf. buf(i div 8 := buf (i div 8) OR push_bit (i mod 8) 1)) [0..<n] (\<lambda>_. 0 :: u8) = f \<Longrightarrow> ?case" for f
    using Suc bitmap_step [of f b n] unfolding upt_Suc_append [OF zero_le] fold_append fold.simps comp_apply id_apply by blast
  then show ?case by blast
qed simp

lemma mk_balloc_ok:
  assumes st: "mkstate n F s"
  shows "\<exists>s'. mk_balloc (freeb s) s = Ok s' \<and> mkstate n F s' \<and> freeb s' = freeb s \<and>
    (\<forall>b < FSSIZE. bit (mk_img s' 45 (b div 8)) (b mod 8) \<longleftrightarrow> b < freeb s)"
proof -
  let ?d = "fold (\<lambda>i buf. buf(i div 8 := buf (i div 8) OR push_bit (i mod 8) 1)) [0..<freeb s] (\<lambda>_. 0)"
  let ?s = "wsect 45 ?d s" and ?H = "\<lambda>m. blocks_for (length (F m))"
  have inv: "mkinv n (\<lambda>m. dino m s) ?H F s" and n: "n \<le> 200" using st by (simp_all add: mkstate_def NINODES_def)
  note i = mkinvD [OF inv]
  have img: "mk_img ?s b = mk_img s b" if "b \<noteq> 45" for b using that by (simp add: wsect_def)
  have "IBLOCK (of_nat m) mk_sb \<noteq> 45" if "m < 200" for m using iblock(2) [OF that] by auto
  then have same: "dino m ?s = dino m s" if "m < 200" for m using that img by (simp add: dino_def)
  have "mkinv n (\<lambda>m. dino m ?s) ?H F ?s"
  proof (rule mkinv_cong [OF inv])
    show "mk_len ?s = FSSIZE" using i(1) by (simp add: wsect_def nmeta_val)
    show "blk (mk_img ?s b) = mk_img ?s b" for b using i(4) by (simp add: wsect_def blk_blk)
    show "mk_img ?s b = mk_img s b" if "nmeta \<le> unat b" for b using that by (intro img) (auto simp: nmeta_val)
  qed (use same n in \<open>auto simp: wsect_def\<close>)
  moreover have "mk_img ?s b = mk_img s b" if "unat b < 32" for b using that by (intro img) auto
  ultimately have "mkstate n F ?s" using st same n unfolding mkstate_def by (auto simp: wsect_def)
  moreover have "mk_balloc (freeb s) s = Ok ?s"
    using i(3) by (simp add: mk_balloc_def BPB_def BSIZE_def nmeta_val mk_sb_val demo_sb_def)
  moreover have "mk_img ?s 45 (b div 8) = ?d (b div 8)" if "b < FSSIZE" for b
    using that by (simp add: wsect_def blk_def nmeta_val BSIZE_def)
  ultimately show ?thesis using bitmap_bits by (auto simp: wsect_def)
qed

section \<open>The whole run\<close>

text \<open>The blocks that \<open>z\<close> bytes need, the indirect block included.\<close>

definition size_blocks :: "nat \<Rightarrow> nat" where
  "size_blocks z = (z + BSIZE - 1) div BSIZE + (if NDIRECT * BSIZE < z then 1 else 0)"

lemma card_blocks_for:
  assumes "z \<le> MAXFILE * BSIZE"
  shows "card (blocks_for z) = size_blocks z"
proof -
  let ?K = "(z + BSIZE - 1) div BSIZE"
  have lt: "bn * BSIZE < z \<longleftrightarrow> bn < ?K" for bn by (simp add: BSIZE_def) linarith
  have K: "?K \<le> MAXFILE" using assms by (simp add: BSIZE_def MAXFILE_def NDIRECT_def NINDIRECT_def)
  have "{bn. bn < MAXFILE \<and> bn * BSIZE < z} = {..<?K}" using K by (auto simp: lt)
  then have bf: "blocks_for z = (\<Union>bn<?K. slots_for bn)" by (simp add: blocks_for_def)
  show ?thesis
  proof (cases "NDIRECT < ?K")
    case True
    have "j \<in> blocks_for z" if j: "j < Suc ?K" for j
    proof (cases "j < NDIRECT")
      case True then show ?thesis using j \<open>NDIRECT < ?K\<close> unfolding bf slots_for_def dslot_def by (intro UN_I [of j]) auto
    next
      case False
      then show ?thesis
      proof (cases "j = NDIRECT")
        case True then show ?thesis using \<open>NDIRECT < ?K\<close> unfolding bf slots_for_def by (intro UN_I [of NDIRECT]) auto
      next
        case f: False
        then show ?thesis using j False unfolding bf slots_for_def dslot_def by (intro UN_I [of "j - 1"]) auto
      qed
    qed
    then have "blocks_for z = {..<Suc ?K}" using True unfolding bf slots_for_def dslot_def by (auto split: if_splits)
    then show ?thesis using True lt [of NDIRECT] by (simp add: size_blocks_def)
  next
    case False
    then have "blocks_for z = {..<?K}" unfolding bf slots_for_def dslot_def by auto
    then show ?thesis using False lt [of NDIRECT] by (simp add: size_blocks_def)
  qed
qed

text \<open>
  What the arguments of \<^verbatim>\<open>mkfs\<close> must satisfy: names without \<^verbatim>\<open>/\<close> that fit a directory entry, enough
  inodes and blocks, and a number of directory entries that is no multiple of 64 (there the
  rounding of the size of the root directory would add a block that is not allocated).
\<close>

definition fits :: "(u8 list \<times> u8 list list) list \<Rightarrow> bool" where
  "fits files \<longleftrightarrow> names_ok files \<and> length files + 2 \<le> NINODES \<and> (length files + 2) mod 64 \<noteq> 0 \<and>
     (\<forall>f \<in> set files. length (concat (snd f)) \<le> MAXFILE * BSIZE) \<and>
     nmeta + size_blocks (16 * (length files + 2)) + (\<Sum>f \<leftarrow> files. size_blocks (length (concat (snd f)))) \<le> FSSIZE"

definition root_dots :: "nat \<Rightarrow> u8 list" where
  "root_dots = (\<lambda>_. [])(1 := mk_dirent 1 [46] @ mk_dirent 1 [46, 46])"

definition image_files :: "(u8 list \<times> u8 list list) list \<Rightarrow> nat \<Rightarrow> u8 list" where
  "image_files files = round_root (with_files 2 files root_dots)"

lemma length_entries:
  "names_ok files \<Longrightarrow> length (concat (map (\<lambda>k. entry (n + k) (files ! k)) [0..<length files])) = 16 * length files"
proof -
  assume ok: "names_ok files"
  have "length (entry (n + k) (files ! k)) = 16" if k: "k < length files" for k
  proof -
    have "files ! k \<in> set files" using k by simp
    then have "names_ok [(fst (files ! k), snd (files ! k))]" using ok by (auto simp: names_ok_def case_prod_beta)
    then show ?thesis by (rule names_okE) (simp add: entry_def)
  qed
  then have "map (length \<circ> (\<lambda>k. entry (n + k) (files ! k))) [0..<length files] = map (\<lambda>_. 16) [0..<length files]" by simp
  then show ?thesis unfolding length_concat map_map by (simp add: map_replicate_const sum_list_replicate)
qed

lemma image_sizes:
  assumes "fits files"
  shows "length (with_files 2 files root_dots 1) = 16 * (length files + 2)"
    "\<And>m. m \<in> {1..<2 + length files} \<Longrightarrow> length (with_files 2 files root_dots m) \<le> MAXFILE * BSIZE"
    "blocks_used (2 + length files) (with_files 2 files root_dots) =
       size_blocks (16 * (length files + 2)) + (\<Sum>f \<leftarrow> files. size_blocks (length (concat (snd f))))"
proof -
  let ?G = "with_files 2 files root_dots"
  have ok: "names_ok files" "length files \<le> 198" and z: "\<And>f. f \<in> set files \<Longrightarrow> length (concat (snd f)) \<le> MAXFILE * BSIZE"
    using assms by (simp_all add: fits_def NINODES_def)
  show one: "length (?G 1) = 16 * (length files + 2)"
    using with_files_root [OF ok(1), of 2 root_dots] length_entries [OF ok(1), of 2] by (simp add: root_dots_def)
  have f: "?G (2 + k) = concat (snd (files ! k))" if "k < length files" for k
    using with_files_file [OF ok(1) _ that, of 2] by simp
  have le1: "length (?G 1) \<le> MAXFILE * BSIZE"
    unfolding one using ok(2) by (simp add: MAXFILE_def NDIRECT_def NINDIRECT_def BSIZE_def)
  show le: "length (?G m) \<le> MAXFILE * BSIZE" if m: "m \<in> {1..<2 + length files}" for m
  proof (cases "m = 1")
    case False
    then have "m = 2 + (m - 2)" "m - 2 < length files" using m by auto
    then have "?G m = concat (snd (files ! (m - 2)))" using f by metis
    then show ?thesis using z [OF nth_mem [OF \<open>m - 2 < length files\<close>]] by simp
  qed (use le1 in simp)
  have S: "{1..<2 + length files} = insert 1 ((+) 2 ` {0..<length files})"
    unfolding image_add_atLeastLessThan by auto
  have "blocks_used (2 + length files) ?G = (\<Sum>m \<in> {1..<2 + length files}. size_blocks (length (?G m)))"
    unfolding blocks_used_def by (rule sum.cong [OF refl]) (rule card_blocks_for [OF le])
  also have "\<dots> = size_blocks (length (?G 1)) + (\<Sum>k = 0..<length files. size_blocks (length (?G (2 + k))))"
    unfolding S by (subst sum.insert) (auto simp: sum.reindex [OF inj_onI] o_def)
  also have "(\<Sum>k = 0..<length files. size_blocks (length (?G (2 + k)))) = (\<Sum>f \<leftarrow> files. size_blocks (length (concat (snd f))))"
    unfolding sum_list_sum_nth length_map by (rule sum.cong) (use f in auto)
  finally show "blocks_used (2 + length files) ?G = size_blocks (16 * (length files + 2)) + (\<Sum>f \<leftarrow> files. size_blocks (length (concat (snd f))))"
    unfolding one .
qed

lemma mkfs_main_ok:
  assumes ok: "fits files"
  shows "\<exists>s. mkfs_main files = Ok s \<and> mkstate (2 + length files) (image_files files) s \<and>
    (\<forall>b < FSSIZE. bit (mk_img s 45 (b div 8)) (b mod 8) \<longleftrightarrow> b < freeb s)"
proof -
  let ?G = "with_files 2 files root_dots" and ?n = "2 + length files" and ?d = "\<lambda>x :: u8 list. mk_dirent 1 x"
  let ?F1 = "(\<lambda>_. [])(1 := ?d [46])"
  note g = image_sizes [OF ok]
  have nm: "names_ok files" "?n \<le> NINODES" and room: "nmeta + blocks_used ?n ?G \<le> FSSIZE"
    using ok unfolding g(3) by (simp_all add: fits_def)
  obtain s1 where s1: "mk_ialloc T_DIR (wsect 1 (put_sb mk_sb (\<lambda>_. 0)) mk_zero) = Ok (1, s1)" "mkstate (Suc 1) (\<lambda>_. []) s1"
    using mk_ialloc_ok [OF empty_image, of T_DIR] by (auto simp: NINODES_def)
  have one: "blocks_used 2 F = size_blocks (length (F 1))" if "length (F 1) \<le> 32" for F :: "nat \<Rightarrow> u8 list"
  proof -
    have "{1..<2 :: nat} = {1}" by auto
    then show ?thesis using card_blocks_for [of "length (F 1)"] that by (simp add: blocks_used_def MAXFILE_def NDIRECT_def NINDIRECT_def BSIZE_def)
  qed
  have small: "size_blocks z \<le> 1" if "z \<le> 32" for z using that by (simp add: size_blocks_def BSIZE_def NDIRECT_def)
  have "\<exists>s'. iappend (of_nat 1) (?d [46]) s1 = Ok s' \<and> mkstate 2 ?F1 s'"
    by (rule iappend_ok [OF s1(2) [unfolded Suc_1]]) (use one [of ?F1] small [of 16] in \<open>simp_all add: MAXFILE_def NDIRECT_def BSIZE_def nmeta_val\<close>)
  then obtain s2 where s2: "iappend 1 (?d [46]) s1 = Ok s2" "mkstate 2 ?F1 s2" by auto
  have "\<exists>s'. iappend (of_nat 1) (?d [46, 46]) s2 = Ok s' \<and> mkstate 2 root_dots s'"
    by (rule iappend_ok [OF s2(2)])
      (use one [of root_dots] small [of 32] in \<open>simp_all add: root_dots_def MAXFILE_def NDIRECT_def BSIZE_def nmeta_val\<close>)
  then obtain s3 where s3: "iappend 1 (?d [46, 46]) s2 = Ok s3" "mkstate 2 root_dots s3" by auto
  have "\<exists>s'. mk_files 1 files s3 = Ok s' \<and> mkstate ?n ?G s'"
    by (rule mk_files_ok [OF s3(2) _ nm(2) _ nm(1) g(2) room]) (simp_all add: root_dots_def)
  then obtain s4 where s4: "mk_files 1 files s3 = Ok s4" "mkstate ?n ?G s4" by blast
  have z: "length (?G 1) mod BSIZE \<noteq> 0" "length (?G 1) \<le> 3200"
    using ok mult_mod_right [of 16 "length files + 2" 64] unfolding g(1) by (simp_all add: fits_def BSIZE_def NINODES_def)
  have "length (?G 1) div BSIZE \<le> 3200 div BSIZE" by (rule div_le_mono [OF z(2)])
  then have "length (round_root ?G 1) \<le> MAXFILE * BSIZE"
    unfolding length_round_root by (simp add: MAXFILE_def NDIRECT_def NINDIRECT_def BSIZE_def)
  from round_root_ok [OF s4(2) _ z(1) this]
  obtain s5 where s5: "winode 1 ((dino 1 s4)\<lparr>i_size := of_nat ((length (?G 1) div BSIZE + 1) * BSIZE)\<rparr>) s4 = Ok s5" "mkstate ?n (image_files files) s5"
    by (auto simp: image_files_def)
  have r: "rinode 1 s4 = Ok (dino 1 s4)" "unat (i_size (dino 1 s4)) = length (?G 1)"
    using rinode_ok [of s4 1] s4(2) mkinvD(1) size32 unfolding mkstate_def by fastforce+
  obtain s6 where s6: "mk_balloc (freeb s5) s5 = Ok s6" "mkstate ?n (image_files files) s6" "freeb s6 = freeb s5"
    "\<forall>b < FSSIZE. bit (mk_img s6 45 (b div 8)) (b mod 8) \<longleftrightarrow> b < freeb s5" using mk_balloc_ok [OF s5(2)] by blast
  have "mkfs_main files = Ok s6"
    unfolding mkfs_main_def using s1(1) s2(1) s3(1) s4(1) s5(1) s6(1) r by (simp add: ROOTINO_def)
  then show ?thesis using s6 by (intro exI [of _ s6]) simp
qed

section \<open>What the kernel finds on the image\<close>

text \<open>The kernel after \<^verbatim>\<open>fsinit\<close> on the image.\<close>

definition mounted :: "mkfs \<Rightarrow> fs \<Rightarrow> bool" where
  "mounted s t \<longleftrightarrow> f_sb t = mk_sb \<and> log_inv (f_log t) \<and> lg_n (f_log t) = 0 \<and> lg_outstanding (f_log t) = 0 \<and>
     \<not> lg_committing (f_log t) \<and> lg_start (f_log t) = 2 \<and> lg_size (f_log t) = 30 \<and>
     (\<forall>b. b \<notin> log_area 2 29 \<longrightarrow> content t b = mk_img s b)"

lemma fsinit_image:
  assumes st: "mkstate n F s"
  shows "\<exists>t. fsinit ROOTDEV (x\<lparr>f_log := boot_log pid (mk_img s)\<rparr>) = Ok t \<and> mounted s t"
proof -
  let ?d = "mk_img s" and ?x = "x\<lparr>f_log := boot_log pid (mk_img s)\<rparr>"
  have canon: "\<And>b. blk (?d b) = ?d b" using st mkinvD(4) unfolding mkstate_def by blast
  note bt = boot_cache [OF canon, of pid]
  have b: "?d 1 = blk (put_sb mk_sb (\<lambda>_. 0))" "?d 2 = (\<lambda>_. 0)" using st by (simp_all add: mkstate_def)
  have sb: "mk_sb = get_sb (?d 1)" by (simp add: b get_sb_blk get_put_sb)
  have h: "hdr_n (?d 2) = 0" by (simp add: b hdr_n_def get32_def)
  have v: "sb_magic mk_sb = FSMAGIC" "sb_logstart mk_sb = 2" "sb_nlog mk_sb = 30" "sint (30 :: u32) = 30"
    by (simp_all add: mk_sb_val demo_sb_def)
  have "hdr_ok (sb_logstart mk_sb) 29 ?d" using h canon by (simp add: v hdr_ok_def LOGSIZE_def MAXOPBLOCKS_def)
  moreover have "durable 2 ?d = ?d" using h by (simp add: durable_def replay_def)
  ultimately obtain t where "fsinit ROOTDEV ?x = Ok t" "mounted s t"
    using fsinit_ok [of ?x ?d mk_sb 29] bt sb v unfolding mounted_def
    by (simp add: boot_log_def LOGSIZE_def MAXOPBLOCKS_def) metis
  then show ?thesis by blast
qed

lemma mounted_home: "mounted s t \<Longrightarrow> b \<in> home t \<longleftrightarrow> \<not> (2 \<le> unat b \<and> unat b < 32)"
  using log_area_demo [of b] by (auto simp: mounted_def home_def)

lemma mounted_content: "mounted s t \<Longrightarrow> 32 \<le> unat b \<Longrightarrow> content t b = mk_img s b"
  using log_area_demo [of b] by (auto simp: mounted_def)

lemma mounted_inodes: "mounted s t \<Longrightarrow> mounted s (t\<lparr>f_inode := ip\<rparr>)"
  by (simp add: mounted_def content_def)

text \<open>The image of the files \<open>F\<close>, and the kernel that mounted it.\<close>

definition on_image :: "nat \<Rightarrow> (nat \<Rightarrow> u8 list) \<Rightarrow> mkfs \<Rightarrow> fs \<Rightarrow> bool" where
  "on_image n F s t \<longleftrightarrow> mkstate n F s \<and> (\<forall>b < FSSIZE. bit (mk_img s 45 (b div 8)) (b mod 8) \<longleftrightarrow> b < freeb s) \<and> mounted s t"

lemma on_imageD:
  assumes "on_image n F s t"
  shows "mkinv n (\<lambda>m. dino m s) (\<lambda>m. blocks_for (length (F m))) F s" "mounted s t" "f_sb t = demo_sb" "n \<le> 200"
    "m \<in> {1..<n} \<Longrightarrow> length (F m) \<le> MAXFILE * BSIZE \<and> unat (i_size (dino m s)) = length (F m) \<and> i_type (dino m s) = (if m = 1 then T_DIR else T_FILE)"
    "freeb s = nmeta + blocks_used n F" "freeb s \<le> FSSIZE"
proof -
  show inv: "mkinv n (\<lambda>m. dino m s) (\<lambda>m. blocks_for (length (F m))) F s" using assms by (simp add: on_image_def mkstate_def)
  show "mounted s t" "f_sb t = demo_sb" "n \<le> 200" using assms by (simp_all add: on_image_def mounted_def mk_sb_val mkstate_def NINODES_def)
  show "m \<in> {1..<n} \<Longrightarrow> length (F m) \<le> MAXFILE * BSIZE \<and> unat (i_size (dino m s)) = length (F m) \<and> i_type (dino m s) = (if m = 1 then T_DIR else T_FILE)"
    using assms size32 by (simp add: on_image_def mkstate_def)
  show "freeb s = nmeta + blocks_used n F" "freeb s \<le> FSSIZE" using mkinvD(2,3) [OF inv] by (simp_all add: blocks_used_def)
qed

lemma image_used:
  assumes "on_image n F s t" "b < FSSIZE"
  shows "used demo_sb (content t) b \<longleftrightarrow> b < freeb s"
proof -
  have "BBLOCK b demo_sb = 45" "b mod BPB = b" using assms(2) by (simp_all add: BBLOCK_def demo_sb_def BPB_def BSIZE_def nmeta_val)
  then show ?thesis
    using assms mounted_content [OF on_imageD(2) [OF assms(1)], of 45] by (simp add: used_def free_bit_iff on_image_def)
qed

lemma image_data_block:
  assumes i: "on_image n F s t" and a: "46 \<le> unat a" "unat a < FSSIZE"
  shows "a \<in> home t - bitmap_blocks demo_sb - inode_blocks demo_sb" "data_block t a \<longleftrightarrow> unat a < freeb s"
proof -
  have "a \<noteq> 0" "a \<noteq> 45" using a by auto
  then show h: "a \<in> home t - bitmap_blocks demo_sb - inode_blocks demo_sb"
    using a mounted_home [OF on_imageD(2) [OF i], of a] demo_blocks(1) demo_blocks(2) [of a] by auto
  have "unat (sb_size demo_sb) = FSSIZE" by (simp add: demo_sb_def nmeta_val)
  then show "data_block t a \<longleftrightarrow> unat a < freeb s"
    using h a \<open>a \<noteq> 0\<close> image_used [OF i a(2)] on_imageD(3) [OF i] by (simp add: data_block_def)
qed

lemma image_layout:
  assumes i: "on_image n F s t"
  shows "layout_ok t" "nfree t = FSSIZE - freeb s"
proof -
  note d = on_imageD [OF i]
  have sz: "unat (sb_size demo_sb) = FSSIZE" "FSSIZE = 2000" by (simp_all add: demo_sb_def nmeta_val)
  have f: "46 \<le> freeb s" using d(6) by (simp add: nmeta_val)
  have "a \<in> home t" if "a \<in> inode_blocks demo_sb" for a using demo_blocks(2) [OF that] mounted_home [OF d(2), of a] by simp
  moreover have "(45 :: u32) \<in> home t" using mounted_home [OF d(2), of 45] by simp
  moreover have "(45 :: u32) \<notin> inode_blocks demo_sb" using demo_blocks(2) [of 45] by auto
  moreover have "of_nat b \<in> home t - bitmap_blocks demo_sb - inode_blocks demo_sb"
    if b: "b < FSSIZE" "\<not> used demo_sb (content t) b" for b
    by (rule image_data_block(1) [OF i]) (use b image_used [OF i b(1)] f sz unat_of_nat32 [of b] in simp_all)
  ultimately show "layout_ok t"
    using image_used [OF i, of 0] f sz unfolding layout_ok_def d(3) demo_blocks(1) by auto
  have "{b. b < FSSIZE \<and> \<not> used demo_sb (content t) b} = {freeb s..<FSSIZE}" using image_used [OF i] by auto
  then show "nfree t = FSSIZE - freeb s" unfolding nfree_def d(3) sz(1) by simp
qed

text \<open>An entry of the inode table that \<^verbatim>\<open>ilock\<close> loaded from inode \<open>m\<close>.\<close>

definition loaded :: "fs \<Rightarrow> nat \<Rightarrow> nat \<Rightarrow> bool" where
  "loaded t i m \<longleftrightarrow> on_disk t i \<and> i_dev (f_inode t i) = ROOTDEV \<and> i_inum (f_inode t i) = of_nat m"

lemma loaded_inode:
  assumes i: "on_image n F s t" and l: "loaded t i m" and m: "m \<in> {1..<n}"
  shows "i_size (f_inode t i) = i_size (dino m s)" "i_type (f_inode t i) = i_type (dino m s)"
    "slot (f_inode t i) (content t) j = slot (dino m s) (mk_img s) j"
proof -
  note d = on_imageD [OF i]
  note si = slots_invD [OF mkinvD(6) [OF d(1)] m]
  let ?b = "IBLOCK (of_nat m) demo_sb" and ?k = "dinode_at (of_nat m)" and ?ip = "f_inode t i"
  have m2: "m < 200" using m d(4) by simp
  have c: "content t ?b = mk_img s ?b" using mounted_content [OF d(2), of ?b] iblock [OF m2] by (simp add: mk_sb_val)
  have ip: "get_dinode (mk_img s ?b) ?k ?ip = ?ip" using l c d(3) unfolding loaded_def on_disk_def dinode_def by metis
  have e: "get_dinode (mk_img s ?b) ?k zero_din = dino m s" by (simp add: dino_def mk_sb_val)
  show "i_size ?ip = i_size (dino m s)" "i_type ?ip = i_type (dino m s)"
    using arg_cong [OF ip, of i_size] arg_cong [OF ip, of i_type] arg_cong [OF e, of i_size] arg_cong [OF e, of i_type] by (simp_all add: get_dinode_def)
  have a: "i_addrs ?ip k = i_addrs (dino m s) k" if "k \<le> NDIRECT" for k
    using arg_cong [OF ip, of "\<lambda>x. i_addrs x k"] arg_cong [OF e, of "\<lambda>x. i_addrs x k"] that by (simp add: get_dinode_def)
  have "content t x = mk_img s x" if x: "x = i_addrs (dino m s) NDIRECT" "x \<noteq> 0" for x
  proof (rule mounted_content [OF d(2)])
    have "slot (dino m s) (mk_img s) NDIRECT = x" using x(1) by (simp add: slot_def)
    then show "32 \<le> unat x" using si(2) [OF NDIRECT_less] si(4) [of NDIRECT] x(2) by (simp add: nmeta_val)
  qed
  then show "slot ?ip (content t) j = slot (dino m s) (mk_img s) j" using a by (simp add: slot_def)
qed

lemma loaded_file:
  assumes i: "on_image n F s t" and l: "loaded t i m" and m: "m \<in> {1..<n}"
  shows "file_ok t i" "afile t i = F m"
proof -
  note d = on_imageD [OF i]
  note si = slots_invD [OF mkinvD(6) [OF d(1)] m]
  note e = loaded_inode [OF i l m]
  have z: "unat (i_size (f_inode t i)) = length (F m)" "length (F m) \<le> MAXFILE * BSIZE" using d(5) [OF m] e(1) by simp_all
  have db: "data_block t (slot (dino m s) (mk_img s) j)" if "j \<in> blocks_for (length (F m))" for j
    using si(4) [OF that] d(7) image_data_block(2) [OF i, of "slot (dino m s) (mk_img s) j"] by (simp add: nmeta_val)
  have inj: "slot (dino m s) (mk_img s) j = 0 \<or> j = k"
    if "j < NSLOT" "k < NSLOT" "slot (dino m s) (mk_img s) j = slot (dino m s) (mk_img s) k" for j k
    using that si(2) si(5) [OF _ m] by metis
  have "slots_ok t (slot (f_inode t i) (content t))"
    unfolding slots_ok_def e(3) using si(2) db inj by blast
  then have bo: "blocks_ok t i" using l by (simp add: blocks_ok_def loaded_def)
  have bn: "dslot (p div BSIZE) \<in> blocks_for (length (F m))" "p div BSIZE < MAXFILE" if "p < length (F m)" for p
  proof -
    have p: "p < MAXFILE * BSIZE" using that z(2) by simp
    show b: "p div BSIZE < MAXFILE" using less_mult_imp_div_less [OF p] .
    show "dslot (p div BSIZE) \<in> blocks_for (length (F m))"
      using dslot_blocks_for [OF b] that div_mult_mod_eq [of p BSIZE] by (metis le_add1 le_less_trans)
  qed
  have nz: "dblock t i (p div BSIZE) \<noteq> 0" if "p < length (F m)" for p
    unfolding dblock_def e(3) using bn [OF that] si(2) dslot_simps(2) by metis
  have "i_inum (f_inode t i) < sb_ninodes (f_sb t)"
    using l m d(3,4) iblock(3) [of m] by (simp add: loaded_def demo_sb_def word_less_nat_alt)
  then show "file_ok t i" unfolding file_ok_def using bo z nz by simp
  have "file_byte t i p = F m ! p" if p: "p < length (F m)" for p
  proof -
    let ?a = "slot (dino m s) (mk_img s) (dslot (p div BSIZE))"
    have "content t ?a = mk_img s ?a" using si(4) [OF bn(1) [OF p]] by (intro mounted_content [OF d(2)]) (simp add: nmeta_val)
    moreover have "mk_img s ?a (p mod BSIZE) = F m ! p"
      using mkinvD(7) [OF d(1)] m bn(1) [OF p] p mod_less_divisor [of BSIZE p] unfolding bytes_inv_def by (simp add: BSIZE_def)
    ultimately show ?thesis using nz [OF p] by (simp add: file_byte_def dblock_def e(3) Let_def)
  qed
  then show "afile t i = F m" unfolding afile_def z(1) by (intro nth_equalityI) simp_all
qed

lemma loaded_disjoint:
  assumes i: "on_image n F s t" and l: "loaded t i m" "loaded t j k" and m: "m \<in> {1..<n}" "k \<in> {1..<n}" "m \<noteq> k"
  shows "own t i \<inter> own t j \<subseteq> {0}"
proof -
  note d = on_imageD [OF i]
  note si = slots_invD [OF mkinvD(6) [OF d(1)]]
  show ?thesis
    unfolding own_def loaded_inode(3) [OF i l(1) m(1)] loaded_inode(3) [OF i l(2) m(2)]
    using si(2) [OF m(1)] si(2) [OF m(2)] si(5) [OF m(1) _ m(2)] m(3) by fastforce
qed

text \<open>
  Inode \<open>m\<close> of the disk is a well-formed file with the bytes \<open>xs\<close>, both as the disk format defines them and through
  any entry of the inode table that is loaded from it.
\<close>

definition holds_file :: "fs \<Rightarrow> nat \<Rightarrow> u8 list \<Rightarrow> bool" where
  "holds_file t m xs \<longleftrightarrow> disk_file (f_sb t) (content t) (of_nat m) = xs \<and>
     (\<forall>ip i. loaded (t\<lparr>f_inode := ip\<rparr>) i m \<longrightarrow> file_ok (t\<lparr>f_inode := ip\<rparr>) i \<and> afile (t\<lparr>f_inode := ip\<rparr>) i = xs)"

lemma on_image_inodes: "on_image n F s t \<Longrightarrow> on_image n F s (t\<lparr>f_inode := ip\<rparr>)"
  by (simp add: on_image_def mounted_inodes)

lemma loaded_exists: "\<exists>ip. loaded (t\<lparr>f_inode := ip\<rparr>) i m"
proof
  let ?jp = "zero_din\<lparr>i_dev := ROOTDEV, i_inum := of_nat m\<rparr>"
  show "loaded (t\<lparr>f_inode := (\<lambda>_. dinode t (of_nat m) ?jp)\<rparr>) i m"
    by (simp add: loaded_def on_disk_def dinode_def get_dinode_def content_def fun_eq_iff)
qed

lemma image_holds:
  assumes i: "on_image n F s t" and m: "m \<in> {1..<n}"
  shows "holds_file t m (F m)"
proof -
  have f: "file_ok (t\<lparr>f_inode := ip\<rparr>) j \<and> afile (t\<lparr>f_inode := ip\<rparr>) j = F m" if "loaded (t\<lparr>f_inode := ip\<rparr>) j m" for ip j
    using loaded_file [OF on_image_inodes [OF i] that m] by simp
  obtain ip where l: "loaded (t\<lparr>f_inode := ip\<rparr>) 0 m" using loaded_exists by blast
  have "content (t\<lparr>f_inode := ip\<rparr>) = content t" by (simp add: content_def)
  then have "disk_file (f_sb t) (content t) (of_nat m) = F m"
    using disk_file_afile [OF image_layout(1) [OF on_image_inodes [OF i]], of ip 0 "content t"] f [OF l] l by (simp add: loaded_def)
  then show ?thesis using f by (simp add: holds_file_def)
qed

lemma image_files_file: "fits files \<Longrightarrow> k < length files \<Longrightarrow> image_files files (k + 2) = concat (snd (files ! k))"
  using with_files_file [of files 2 k root_dots] by (simp add: image_files_def round_root_def fits_def add.commute)

text \<open>The root directory: the entries, in the order of the arguments, and zeros up to the end of the block.\<close>

definition root_dir :: "(u8 list \<times> u8 list list) list \<Rightarrow> u8 list" where
  "root_dir files = mk_dirent 1 [46] @ mk_dirent 1 [46, 46] @ concat (map (\<lambda>k. entry (k + 2) (files ! k)) [0..<length files])"

lemma image_files_root:
  assumes "fits files"
  shows "\<exists>z < BSIZE. image_files files 1 = root_dir files @ replicate z 0"
proof -
  let ?G = "with_files 2 files root_dots"
  let ?z = "(length (?G 1) div BSIZE + 1) * BSIZE - length (?G 1)"
  have "?G 1 = root_dir files"
    using with_files_root [of files 2 root_dots] assms by (simp add: root_dir_def root_dots_def fits_def)
  then have "image_files files 1 = root_dir files @ replicate ?z 0" by (simp add: image_files_def round_root_def)
  moreover have "length (?G 1) mod BSIZE \<noteq> 0"
    using assms mult_mod_right [of 16 "length files + 2" 64] unfolding image_sizes(1) [OF assms] by (simp add: fits_def BSIZE_def)
  then have "?z < BSIZE" by (rule round_less)
  ultimately show ?thesis by blast
qed

section \<open>Properties\<close>

text \<open>C2. \<^verbatim>\<open>mkfs\<close> and the kernel agree on the disk format.  For all files that fit, \<^verbatim>\<open>mkfs\<close> runs to the end without
  a failed assertion, and \<^verbatim>\<open>fsinit\<close> mounts the image from power-on: the log is empty and idle, the layout is
  what the kernel's file-system code relies on, and exactly the blocks that no file needs are free.  The inodes from 2 on
  are the given files, byte for byte; inode 1 is the root directory with one entry per file, padded with
  empty entries; no two inodes share a block.\<close>

theorem mkfs_mounts:
  assumes "fits files"
  shows "\<exists>img t. mkfs_main files = Ok img \<and> fsinit ROOTDEV (x\<lparr>f_log := boot_log pid (mk_img img)\<rparr>) = Ok t \<and>
    log_inv (f_log t) \<and> lg_n (f_log t) = 0 \<and> lg_outstanding (f_log t) = 0 \<and> \<not> lg_committing (f_log t) \<and> lg_size (f_log t) = int LOGSIZE \<and>
    layout_ok t \<and>
    nfree t = FSSIZE - (nmeta + size_blocks (16 * (length files + 2)) + (\<Sum>f \<leftarrow> files. size_blocks (length (concat (snd f))))) \<and>
    (\<exists>z < BSIZE. holds_file t 1 (root_dir files @ replicate z 0)) \<and>
    (\<forall>k < length files. holds_file t (k + 2) (concat (snd (files ! k)))) \<and>
    (\<forall>ip i j m k. m \<in> {1..<length files + 2} \<and> k \<in> {1..<length files + 2} \<and> m \<noteq> k \<and> loaded (t\<lparr>f_inode := ip\<rparr>) i m \<and>
       loaded (t\<lparr>f_inode := ip\<rparr>) j k \<longrightarrow> own (t\<lparr>f_inode := ip\<rparr>) i \<inter> own (t\<lparr>f_inode := ip\<rparr>) j \<subseteq> {0})"
proof -
  let ?n = "length files + 2" and ?F = "image_files files"
  obtain img where img: "mkfs_main files = Ok img" "mkstate ?n ?F img"
    "\<forall>b < FSSIZE. bit (mk_img img 45 (b div 8)) (b mod 8) \<longleftrightarrow> b < freeb img"
    using mkfs_main_ok [OF assms] by (auto simp: add.commute)
  obtain t where t: "fsinit ROOTDEV (x\<lparr>f_log := boot_log pid (mk_img img)\<rparr>) = Ok t" "mounted img t" using fsinit_image [OF img(2)] by blast
  have i: "on_image ?n ?F img t" using img t(2) by (simp add: on_image_def)
  note d = on_imageD [OF i]
  have "length (with_files 2 files root_dots 1) mod BSIZE \<noteq> 0"
    using assms mult_mod_right [of 16 ?n 64] unfolding image_sizes(1) [OF assms] by (simp add: fits_def BSIZE_def)
  then have "blocks_used ?n ?F = blocks_used (2 + length files) (with_files 2 files root_dots)"
    by (simp add: blocks_used_def image_files_def blocks_round_root)
  then have nf: "nfree t = FSSIZE - (nmeta + size_blocks (16 * ?n) + (\<Sum>f \<leftarrow> files. size_blocks (length (concat (snd f)))))"
    unfolding image_layout(2) [OF i] d(6) image_sizes(3) [OF assms] by simp
  have root: "\<exists>z < BSIZE. holds_file t 1 (root_dir files @ replicate z 0)"
    using image_files_root [OF assms] image_holds [OF i, of 1] by auto
  have fl: "holds_file t (k + 2) (concat (snd (files ! k)))" if "k < length files" for k
    using image_holds [OF i, of "k + 2"] image_files_file [OF assms that] that by simp
  have own: "own (t\<lparr>f_inode := ip\<rparr>) a \<inter> own (t\<lparr>f_inode := ip\<rparr>) b \<subseteq> {0}"
    if "m \<in> {1..<?n} \<and> k \<in> {1..<?n} \<and> m \<noteq> k \<and> loaded (t\<lparr>f_inode := ip\<rparr>) a m \<and> loaded (t\<lparr>f_inode := ip\<rparr>) b k" for ip a b m k
    using loaded_disjoint [OF on_image_inodes [OF i]] that by blast
  have lg: "log_inv (f_log t)" "lg_n (f_log t) = 0" "lg_outstanding (f_log t) = 0" "\<not> lg_committing (f_log t)" "lg_size (f_log t) = int LOGSIZE"
    using t(2) by (simp_all add: mounted_def LOGSIZE_def MAXOPBLOCKS_def)
  show ?thesis
    by (rule exI [of _ img], rule exI [of _ t]) (use img(1) t(1) lg image_layout(1) [OF i] nf root fl own in blast)
qed

theorem mkfs_mounts_witness:
  "\<forall>x. \<exists>img t. mkfs_main [([117, 115, 101, 114, 47, 95, 115, 104], [[1, 2], [3]])] = Ok img \<and>
     fsinit ROOTDEV (x\<lparr>f_log := boot_log 1 (mk_img img)\<rparr>) = Ok t \<and> layout_ok t \<and> nfree t = 1952 \<and> holds_file t 2 [1, 2, 3]"
proof
  fix x
  let ?f = "[([117, 115, 101, 114, 47, 95, 115, 104], [[1, 2], [3]])] :: (u8 list \<times> u8 list list) list"
  have "fits ?f"
    by (simp add: fits_def names_ok_def shortname_def Let_def DIRSIZ_def NINODES_def MAXFILE_def NDIRECT_def NINDIRECT_def BSIZE_def
        size_blocks_def nmeta_val)
  from mkfs_mounts [OF this, where x = x and pid = 1]
  obtain img t where r: "mkfs_main ?f = Ok img" "fsinit ROOTDEV (x\<lparr>f_log := boot_log 1 (mk_img img)\<rparr>) = Ok t" "layout_ok t"
    "nfree t = FSSIZE - (nmeta + size_blocks (16 * (length ?f + 2)) + (\<Sum>f \<leftarrow> ?f. size_blocks (length (concat (snd f)))))"
    "\<forall>k < length ?f. holds_file t (k + 2) (concat (snd (?f ! k)))" by blast
  have "nfree t = 1952" using r(4) by (simp add: nmeta_val size_blocks_def BSIZE_def NDIRECT_def)
  moreover have "holds_file t 2 [1, 2, 3]" using r(5) [rule_format, of 0] by (simp add: numeral_2_eq_2)
  ultimately show "\<exists>img t. mkfs_main ?f = Ok img \<and> fsinit ROOTDEV (x\<lparr>f_log := boot_log 1 (mk_img img)\<rparr>) = Ok t \<and>
     layout_ok t \<and> nfree t = 1952 \<and> holds_file t 2 [1, 2, 3]" using r(1-3) by blast
qed

end
