(* ===== verification/Xv6_Virtio.thy ===== *)
theory Xv6_Virtio
  imports Xv6_Bio Xv6_Proc Xv6_Ring
begin

text \<open>
  The virtio disk driver, \<^verbatim>\<open>kernel/virtio_disk.c\<close> and \<^verbatim>\<open>kernel/virtio.h\<close>, and the concurrent system of
  processes that call it, of the device and of its interrupts.

  A critical section under \<^verbatim>\<open>vdisk_lock\<close> is one atomic step; \<open>virtio_disk_rw\<close> sleeps in two places
  and returns \<open>Asleep\<close> there.  An address that the driver stores in a descriptor is a value of
  \<open>dma\<close>: it names a request header in \<^verbatim>\<open>disk.ops\<close>, the data of a buffer, or a status byte in
  \<^verbatim>\<open>disk.info\<close>.

  The device is not code of the repository.  It is a parameter, a relation between states, and
  \<open>virtio_device\<close> states what sections 2.6 and 5.2 of the virtio specification say it may do: fetch
  the heads of available chains in ring order, carry out a well-formed request in any order, and
  then publish its head in the used ring.  Nothing is said of what it does with a malformed request.

  The main result is that every interleaving of callers, device and interrupts behaves as the
  sequential \<open>disk_rw\<close> on which the buffer cache is built.
\<close>

section \<open>State\<close>

definition NUM :: nat where "NUM = 8"
definition VRING_DESC_F_NEXT :: u16 where "VRING_DESC_F_NEXT = 1"
definition VRING_DESC_F_WRITE :: u16 where "VRING_DESC_F_WRITE = 2"
definition VIRTIO_BLK_T_IN :: u32 where "VIRTIO_BLK_T_IN = 0"
definition VIRTIO_BLK_T_OUT :: u32 where "VIRTIO_BLK_T_OUT = 1"

datatype dma = Null | Ops nat | Data nat | Status nat

record virtq_desc =
  vq_addr :: dma
  vq_len :: u32
  vq_flags :: u16
  vq_next :: u16

record virtq_used_elem =
  ue_id :: u32
  ue_len :: u32

record virtio_blk_req =
  rq_type :: u32
  rq_reserved :: u32
  rq_sector :: u64

text \<open>
  \<open>v_avail_idx\<close>, \<open>v_avail\<close>, \<open>v_used_ix\<close> and \<open>v_used\<close> are the two rings in memory that the driver
  shares with the device; \<open>v_used_idx\<close> is \<^verbatim>\<open>disk.used_idx\<close>.  \<open>v_mmio\<close> lists the writes of device
  registers, \<open>v_isr\<close> is the interrupt status register.  The last four fields belong to the device:
  how far it has read the available ring, the heads it works on, those it has carried out, and
  its sectors of 512 bytes.
\<close>

record vdisk =
  v_desc :: "nat \<Rightarrow> virtq_desc"
  v_avail_idx :: u16
  v_avail :: "nat \<Rightarrow> u16"
  v_used_ix :: u16
  v_used :: "nat \<Rightarrow> virtq_used_elem"
  v_free :: "nat \<Rightarrow> bool"
  v_used_idx :: u16
  v_info_b :: "nat \<Rightarrow> nat option"
  v_status :: "nat \<Rightarrow> u8"
  v_ops :: "nat \<Rightarrow> virtio_blk_req"
  v_buf :: "nat \<Rightarrow> buf"
  v_k :: kst
  v_mmio :: "(nat \<times> u32) list"
  v_isr :: u32
  v_seen :: u16
  v_work :: "nat list"
  v_exec :: "nat list"
  v_sect :: "u64 \<Rightarrow> bytes"

definition null_desc :: virtq_desc where
  "null_desc = \<lparr>vq_addr = Null, vq_len = 0, vq_flags = 0, vq_next = 0\<rparr>"

definition mmio_write :: "nat \<Rightarrow> u32 \<Rightarrow> vdisk \<Rightarrow> vdisk" where
  "mmio_write r v d = d\<lparr>v_mmio := v_mmio d @ [(r, v)]\<rparr>"

section \<open>Descriptors\<close>

definition alloc_desc :: "vdisk \<Rightarrow> int \<times> vdisk" where
  "alloc_desc d =
     (case find (v_free d) [0..<NUM] of
        None \<Rightarrow> (- 1, d)
      | Some i \<Rightarrow> (int i, d\<lparr>v_free := (v_free d)(i := False)\<rparr>))"

definition free_desc :: "nat \<Rightarrow> vdisk \<Rightarrow> vdisk outcome" where
  "free_desc i d =
     (if NUM \<le> i then Panic ''free_desc 1''
      else if v_free d i then Panic ''free_desc 2''
      else Ok (d\<lparr>v_desc := (v_desc d)(i := null_desc), v_free := (v_free d)(i := True),
                 v_k := wakeup Disk_chan (v_k d)\<rparr>))"

lemma free_desc_fewer:
  "free_desc i d = Ok d' \<Longrightarrow> card {i. i < NUM \<and> \<not> v_free d' i} < card {i. i < NUM \<and> \<not> v_free d i}"
proof -
  assume "free_desc i d = Ok d'"
  then have "i < NUM" "\<not> v_free d i" "v_free d' = (v_free d)(i := True)"
    by (auto simp: free_desc_def split: if_splits)
  then have "{i. i < NUM \<and> \<not> v_free d' i} \<subset> {i. i < NUM \<and> \<not> v_free d i}" by auto
  then show ?thesis by (intro psubset_card_mono) simp_all
qed

function free_chain :: "nat \<Rightarrow> vdisk \<Rightarrow> vdisk outcome" where
  "free_chain i d =
     (let flag = vq_flags (v_desc d i); nxt = vq_next (v_desc d i)
      in case free_desc i d of
           Ok d' \<Rightarrow> if flag AND VRING_DESC_F_NEXT \<noteq> 0 then free_chain (unat nxt) d' else Ok d'
         | Panic m \<Rightarrow> Panic m | Blocked \<Rightarrow> Blocked | Fault \<Rightarrow> Fault | Diverge \<Rightarrow> Diverge)"
  by pat_completeness auto
termination
  by (relation "measure (\<lambda>(i, d). card {i. i < NUM \<and> \<not> v_free d i})") (auto dest: free_desc_fewer)

declare free_chain.simps [simp del]

fun free_descs :: "nat list \<Rightarrow> vdisk \<Rightarrow> vdisk outcome" where
  "free_descs [] d = Ok d"
| "free_descs (i # is) d = obind (free_desc i d) (free_descs is)"

fun alloc3_loop :: "nat \<Rightarrow> nat list \<Rightarrow> vdisk \<Rightarrow> (nat list option \<times> vdisk) outcome" where
  "alloc3_loop 0 idx d = Ok (Some idx, d)"
| "alloc3_loop (Suc n) idx d =
     (let (i, d) = alloc_desc d
      in if i < 0 then obind (free_descs idx d) (\<lambda>d. Ok (None, d))
         else alloc3_loop n (idx @ [nat i]) d)"

definition alloc3_desc :: "vdisk \<Rightarrow> (nat list option \<times> vdisk) outcome" where
  "alloc3_desc d = alloc3_loop 3 [] d"

section \<open>Requests\<close>

definition set_desc :: "nat \<Rightarrow> (virtq_desc \<Rightarrow> virtq_desc) \<Rightarrow> vdisk \<Rightarrow> vdisk" where
  "set_desc i f d = d\<lparr>v_desc := (v_desc d)(i := f (v_desc d i))\<rparr>"

definition format_desc :: "nat \<Rightarrow> u64 \<Rightarrow> bool \<Rightarrow> nat \<Rightarrow> nat \<Rightarrow> nat \<Rightarrow> vdisk \<Rightarrow> vdisk" where
  "format_desc b sector write i0 i1 i2 d =
     (let req = \<lparr>rq_type = (if write then VIRTIO_BLK_T_OUT else VIRTIO_BLK_T_IN), rq_reserved = 0,
                 rq_sector = sector\<rparr>;
          d = d\<lparr>v_ops := (v_ops d)(i0 := req)\<rparr>;
          d = set_desc i0 (\<lambda>x. x\<lparr>vq_addr := Ops i0, vq_len := 16, vq_flags := VRING_DESC_F_NEXT,
                                vq_next := of_nat i1\<rparr>) d;
          d = set_desc i1 (\<lambda>x. x\<lparr>vq_addr := Data b, vq_len := of_nat BSIZE\<rparr>) d;
          d = (if write then set_desc i1 (\<lambda>x. x\<lparr>vq_flags := 0\<rparr>) d
               else set_desc i1 (\<lambda>x. x\<lparr>vq_flags := VRING_DESC_F_WRITE\<rparr>) d);
          d = set_desc i1 (\<lambda>x. x\<lparr>vq_flags := vq_flags x OR VRING_DESC_F_NEXT, vq_next := of_nat i2\<rparr>) d;
          d = d\<lparr>v_status := (v_status d)(i0 := 0xff)\<rparr>
      in set_desc i2 (\<lambda>x. x\<lparr>vq_addr := Status i0, vq_len := 1, vq_flags := VRING_DESC_F_WRITE,
                            vq_next := 0\<rparr>) d)"

definition submit :: "nat \<Rightarrow> nat \<Rightarrow> vdisk \<Rightarrow> vdisk" where
  "submit b i0 d =
     (let d = d\<lparr>v_buf := (v_buf d)(b := (v_buf d b)\<lparr>b_disk := True\<rparr>)\<rparr>;
          d = d\<lparr>v_info_b := (v_info_b d)(i0 := Some b)\<rparr>;
          d = d\<lparr>v_avail := (v_avail d)(unat (v_avail_idx d) mod NUM := of_nat i0)\<rparr>;
          d = d\<lparr>v_avail_idx := v_avail_idx d + 1\<rparr>
      in mmio_write 0x050 0 d)"

text \<open>Where \<open>virtio_disk_rw\<close> sleeps: for free descriptors, or for the end of the request with
  the given head.\<close>

datatype rw_wait = For_desc | For_io nat

definition rw_end :: "nat \<Rightarrow> nat \<Rightarrow> vdisk \<Rightarrow> ((rw_wait, unit) kret \<times> vdisk) outcome" where
  "rw_end b i0 d =
     (if b_disk (v_buf d b)
      then Ok (Asleep (For_io i0), d\<lparr>v_k := sleep (Buf_chan b) (v_k d)\<rparr>)
      else let d = d\<lparr>v_info_b := (v_info_b d)(i0 := None)\<rparr>
           in obind (free_chain i0 d) (\<lambda>d. Ok (Return (), d)))"

definition rw_alloc :: "nat \<Rightarrow> u64 \<Rightarrow> bool \<Rightarrow> vdisk \<Rightarrow> ((rw_wait, unit) kret \<times> vdisk) outcome" where
  "rw_alloc b sector write d =
     obind (alloc3_desc d) (\<lambda>(idx, d).
       case idx of
         None \<Rightarrow> Ok (Asleep For_desc, d\<lparr>v_k := sleep Disk_chan (v_k d)\<rparr>)
       | Some idx \<Rightarrow> rw_end b (idx ! 0) (submit b (idx ! 0)
                       (format_desc b sector write (idx ! 0) (idx ! 1) (idx ! 2) d)))"

definition rw_sector :: "buf \<Rightarrow> u64" where
  "rw_sector x = ucast (b_blockno x * of_nat (BSIZE div 512))"

definition virtio_disk_rw :: "nat \<Rightarrow> bool \<Rightarrow> vdisk \<Rightarrow> ((rw_wait, unit) kret \<times> vdisk) outcome" where
  "virtio_disk_rw b write d = rw_alloc b (rw_sector (v_buf d b)) write d"

section \<open>Interrupts\<close>

function vintr_loop :: "vdisk \<Rightarrow> vdisk outcome" where
  "vintr_loop d =
     (if v_used_idx d = v_used_ix d then Ok d
      else let n = unat (ue_id (v_used d (unat (v_used_idx d) mod NUM)))
           in if NUM \<le> n then Fault
              else if v_status d n \<noteq> 0 then Panic ''virtio_disk_intr status''
              else case v_info_b d n of
                     None \<Rightarrow> Fault
                   | Some b \<Rightarrow>
                       vintr_loop (d\<lparr>v_buf := (v_buf d)(b := (v_buf d b)\<lparr>b_disk := False\<rparr>),
                                    v_k := wakeup (Buf_chan b) (v_k d),
                                    v_used_idx := v_used_idx d + 1\<rparr>))"
  by pat_completeness auto
termination
  by (relation "measure (\<lambda>d. unat (v_used_ix d - v_used_idx d))") (auto simp: unat_Suc_diff)

declare vintr_loop.simps [simp del]

definition virtio_disk_intr :: "vdisk \<Rightarrow> vdisk outcome" where
  "virtio_disk_intr d = vintr_loop (mmio_write 0x064 (v_isr d AND 3) d)"

section \<open>Initialization\<close>

text \<open>\<open>rd ws r\<close> is the value of device register \<open>r\<close> after the writes \<open>ws\<close>.  The descriptor table
  and the two rings are the contents of the three pages that \<open>kalloc\<close> returns.\<close>

definition clear_features :: "u64 \<Rightarrow> u64" where
  "clear_features f = fold (\<lambda>n f. f AND NOT (push_bit n 1)) [5, 7, 11, 12, 27, 29, 28] f"

definition virtq_init :: "vdisk \<Rightarrow> vdisk outcome" where
  "virtq_init d =
     (let (desc, m) = kalloc (k_phys (v_k d));
          (avail, m) = kalloc m;
          (used, m) = kalloc m
      in if desc = 0 \<or> avail = 0 \<or> used = 0 then Panic ''virtio disk kalloc''
         else let m = m\<lparr>ph_mem := memset (ph_mem m) desc 0 4096\<rparr>;
                  m = m\<lparr>ph_mem := memset (ph_mem m) avail 0 4096\<rparr>;
                  m = m\<lparr>ph_mem := memset (ph_mem m) used 0 4096\<rparr>;
                  d = d\<lparr>v_k := (v_k d)\<lparr>k_phys := m\<rparr>, v_desc := (\<lambda>_. null_desc),
                        v_avail_idx := 0, v_avail := (\<lambda>_. 0), v_used_ix := 0,
                        v_used := (\<lambda>_. \<lparr>ue_id = 0, ue_len = 0\<rparr>)\<rparr>;
                  d = mmio_write 0x038 (of_nat NUM) d;
                  d = mmio_write 0x080 (ucast desc) d;
                  d = mmio_write 0x084 (ucast (drop_bit 32 desc)) d;
                  d = mmio_write 0x090 (ucast avail) d;
                  d = mmio_write 0x094 (ucast (drop_bit 32 avail)) d;
                  d = mmio_write 0x0a0 (ucast used) d;
                  d = mmio_write 0x0a4 (ucast (drop_bit 32 used)) d;
                  d = mmio_write 0x044 1 d
              in Ok (d\<lparr>v_free := fold (\<lambda>i f. f(i := True)) [0..<NUM] (v_free d)\<rparr>))"

definition virtio_disk_init :: "((nat \<times> u32) list \<Rightarrow> nat \<Rightarrow> u32) \<Rightarrow> vdisk \<Rightarrow> vdisk outcome" where
  "virtio_disk_init rd d =
     (if rd (v_mmio d) 0 \<noteq> 0x74726976 \<or> rd (v_mmio d) 4 \<noteq> 2 \<or> rd (v_mmio d) 8 \<noteq> 2
         \<or> rd (v_mmio d) 12 \<noteq> 0x554d4551
      then Panic ''could not find virtio disk''
      else let d = mmio_write 0x070 0 d;
               d = mmio_write 0x070 1 d;
               d = mmio_write 0x070 (1 OR 2) d;
               features = clear_features (ucast (rd (v_mmio d) 0x010));
               d = mmio_write 0x020 (ucast features) d;
               d = mmio_write 0x070 (1 OR 2 OR 8) d;
               status = rd (v_mmio d) 0x070
           in if status AND 8 = 0 then Panic ''virtio disk FEATURES_OK unset''
              else let d = mmio_write 0x030 0 d
                   in if rd (v_mmio d) 0x044 \<noteq> 0 then Panic ''virtio disk should not be ready''
                      else let mx = rd (v_mmio d) 0x034
                           in if mx = 0 then Panic ''virtio disk has no queue 0''
                              else if mx < of_nat NUM then Panic ''virtio disk max queue too short''
                              else obind (virtq_init d) (\<lambda>d. Ok (mmio_write 0x070 (status OR 4) d)))"

section \<open>The device\<close>

definition well_formed_request :: "nat \<Rightarrow> vdisk \<Rightarrow> bool" where
  "well_formed_request h d =
     (let x0 = v_desc d h; i1 = unat (vq_next x0); x1 = v_desc d i1; i2 = unat (vq_next x1); x2 = v_desc d i2
      in distinct [h, i1, i2] \<and> h < NUM \<and> i1 < NUM \<and> i2 < NUM
         \<and> vq_flags x0 = VRING_DESC_F_NEXT \<and> vq_len x0 = 16 \<and> vq_addr x0 = Ops h
         \<and> (\<exists>b. vq_addr x1 = Data b) \<and> vq_len x1 = of_nat BSIZE
         \<and> vq_flags x1 = (if rq_type (v_ops d h) = VIRTIO_BLK_T_OUT then VRING_DESC_F_NEXT
                         else VRING_DESC_F_WRITE OR VRING_DESC_F_NEXT)
         \<and> rq_type (v_ops d h) \<in> {VIRTIO_BLK_T_OUT, VIRTIO_BLK_T_IN}
         \<and> vq_addr x2 = Status h \<and> vq_len x2 = 1 \<and> vq_flags x2 = VRING_DESC_F_WRITE)"

definition carry_out :: "nat \<Rightarrow> vdisk \<Rightarrow> vdisk" where
  "carry_out h d =
     (let n = rq_sector (v_ops d h)
      in case vq_addr (v_desc d (unat (vq_next (v_desc d h)))) of
           Data b \<Rightarrow>
             let d = d\<lparr>v_status := (v_status d)(h := 0)\<rparr>
             in if rq_type (v_ops d h) = VIRTIO_BLK_T_OUT
                then d\<lparr>v_sect := (\<lambda>k. if unat (k - n) < BSIZE div 512
                       then (\<lambda>j. if j < 512 then b_data (v_buf d b) (unat (k - n) * 512 + j) else 0)
                       else v_sect d k)\<rparr>
                else d\<lparr>v_buf := (v_buf d)(b := (v_buf d b)\<lparr>b_data :=
                       (\<lambda>j. if j < BSIZE then v_sect d (n + of_nat (j div 512)) (j mod 512) else 0)\<rparr>)\<rparr>
         | _ \<Rightarrow> d)"

datatype dev_act = Fetch | Transfer nat | Publish nat | Irq

fun dev_spec :: "dev_act \<Rightarrow> vdisk \<Rightarrow> vdisk \<Rightarrow> bool" where
  "dev_spec Fetch d d' =
     (v_seen d \<noteq> v_avail_idx d
      \<and> d' = d\<lparr>v_work := v_work d @ [unat (v_avail d (unat (v_seen d) mod NUM))], v_seen := v_seen d + 1\<rparr>)"
| "dev_spec (Transfer h) d d' =
     (h \<in> set (v_work d)
      \<and> (well_formed_request h d
         \<longrightarrow> d' = (carry_out h d)\<lparr>v_work := remove1 h (v_work d), v_exec := h # v_exec d\<rparr>))"
| "dev_spec (Publish h) d d' =
     (h \<in> set (v_exec d)
      \<and> (\<exists>n. d' = d\<lparr>v_exec := remove1 h (v_exec d), v_used_ix := v_used_ix d + 1,
               v_used := (v_used d)(unat (v_used_ix d) mod NUM := \<lparr>ue_id = of_nat h, ue_len = n\<rparr>)\<rparr>))"
| "dev_spec Irq d d' = (\<exists>x. d' = d\<lparr>v_isr := x\<rparr>)"

definition virtio_device :: "(dev_act \<Rightarrow> vdisk \<Rightarrow> vdisk \<Rightarrow> bool) \<Rightarrow> bool" where
  "virtio_device dev = (\<forall>a d d'. dev a d d' \<longrightarrow> dev_spec a d d')"

section \<open>The concurrent system\<close>

text \<open>
  \<open>P b\<close> is where the call of \<open>virtio_disk_rw\<close> for buffer \<open>b\<close> stands.  A caller holds the sleep-lock
  of its buffer: there is one call at a time for a buffer, and nobody else changes the buffer
  during the call.  \<open>Own\<close> is a change of a buffer outside of calls, \<open>sched\<close> any change of the
  process table that puts nobody to sleep on the channels of the driver.  Code of the driver
  runs in a process that does not sleep, or in an interrupt.
\<close>

datatype rw_phase = Want_desc bool | Want_io bool nat

fun phase_of :: "bool \<Rightarrow> (rw_wait, unit) kret \<Rightarrow> rw_phase option" where
  "phase_of w (Asleep For_desc) = Some (Want_desc w)"
| "phase_of w (Asleep (For_io i)) = Some (Want_io w i)"
| "phase_of w (Return _) = None"

datatype vevent = Call nat bool | Exec nat bool | Ret nat | Own nat buf

definition dev_events :: "dev_act \<Rightarrow> vdisk \<Rightarrow> vevent list" where
  "dev_events a d =
     (case a of
        Transfer h \<Rightarrow> (case v_info_b d h of
            Some b \<Rightarrow> [Exec b (rq_type (v_ops d h) = VIRTIO_BLK_T_OUT)] | None \<Rightarrow> [])
      | _ \<Rightarrow> [])"

definition asleep_on :: "chan \<Rightarrow> kst \<Rightarrow> nat \<Rightarrow> bool" where
  "asleep_on c k p = (p_state (k_proc k p) = SLEEPING \<and> p_chan (k_proc k p) = c)"

definition running :: "vdisk \<Rightarrow> bool" where
  "running d = (k_me (v_k d) < NPROC \<and> p_state (me (v_k d)) = RUNNING)"

definition disk_chan :: "chan \<Rightarrow> bool" where
  "disk_chan c = (c = Disk_chan \<or> (\<exists>b. c = Buf_chan b))"

inductive vstep ::
  "(dev_act \<Rightarrow> vdisk \<Rightarrow> vdisk \<Rightarrow> bool) \<Rightarrow> vdisk \<times> (nat \<Rightarrow> rw_phase option) \<Rightarrow> vevent list
   \<Rightarrow> vdisk \<times> (nat \<Rightarrow> rw_phase option) \<Rightarrow> bool" for dev where
  call: "P b = None \<Longrightarrow> unat (b_blockno (v_buf d b)) < 2 ^ 31 \<Longrightarrow> running d
    \<Longrightarrow> virtio_disk_rw b w d = Ok (r, d') \<Longrightarrow> vstep dev (d, P) [Call b w] (d', P(b := phase_of w r))"
| again: "P b = Some (Want_desc w) \<Longrightarrow> running d
    \<Longrightarrow> rw_alloc b (rw_sector (v_buf d b)) w (d\<lparr>v_k := awake (v_k d)\<rparr>) = Ok (r, d')
    \<Longrightarrow> vstep dev (d, P) [] (d', P(b := phase_of w r))"
| check: "P b = Some (Want_io w h) \<Longrightarrow> running d
    \<Longrightarrow> rw_end b h (d\<lparr>v_k := awake (v_k d)\<rparr>) = Ok (r, d')
    \<Longrightarrow> vstep dev (d, P) (if r = Return () then [Ret b] else []) (d', P(b := phase_of w r))"
| intr: "p_state (me (v_k d)) \<noteq> SLEEPING \<Longrightarrow> virtio_disk_intr d = Ok d' \<Longrightarrow> vstep dev (d, P) [] (d', P)"
| device: "dev a d d' \<Longrightarrow> vstep dev (d, P) (dev_events a d) (d', P)"
| own: "P b = None
    \<Longrightarrow> vstep dev (d, P) [Own b x] (d\<lparr>v_buf := (v_buf d)(b := x\<lparr>b_disk := b_disk (v_buf d b)\<rparr>)\<rparr>, P)"
| sched: "(\<And>p c. p < NPROC \<Longrightarrow> disk_chan c \<Longrightarrow> asleep_on c k p \<Longrightarrow> asleep_on c (v_k d) p)
    \<Longrightarrow> vstep dev (d, P) [] (d\<lparr>v_k := k\<rparr>, P)"

inductive vrun ::
  "(dev_act \<Rightarrow> vdisk \<Rightarrow> vdisk \<Rightarrow> bool) \<Rightarrow> vdisk \<times> (nat \<Rightarrow> rw_phase option) \<Rightarrow> vevent list
   \<Rightarrow> vdisk \<times> (nat \<Rightarrow> rw_phase option) \<Rightarrow> bool" for dev where
  none: "vrun dev x [] x"
| more: "vrun dev x es y \<Longrightarrow> vstep dev y fs z \<Longrightarrow> vrun dev x (es @ fs) z"

definition vstart :: "vdisk \<Rightarrow> bool" where
  "vstart d =
     ((\<forall>i < NUM. v_free d i) \<and> v_seen d = v_avail_idx d \<and> v_used_idx d = v_used_ix d
      \<and> v_work d = [] \<and> v_exec d = [] \<and> (\<forall>p < NPROC. \<forall>b. \<not> asleep_on (Buf_chan b) (v_k d) p)
      \<and> (\<forall>p < NPROC. \<not> asleep_on Disk_chan (v_k d) p))"

section \<open>The sequential specification\<close>

text \<open>A call, its transfer as one \<open>disk_rw\<close>, its return, in this order for every buffer.\<close>

datatype status = Idle | Called bool | Served

type_synonym aspec = "(nat \<Rightarrow> status) \<times> bio"

fun aspec_step :: "vevent \<Rightarrow> aspec \<Rightarrow> aspec option" where
  "aspec_step (Call b w) (Q, s) = (if Q b = Idle then Some (Q(b := Called w), s) else None)"
| "aspec_step (Exec b w) (Q, s) = (if Q b = Called w then Some (Q(b := Served), disk_rw b w s) else None)"
| "aspec_step (Ret b) (Q, s) = (if Q b = Served then Some (Q(b := Idle), s) else None)"
| "aspec_step (Own b x) (Q, s) =
     (if Q b = Idle then Some (Q, bset b (\<lambda>_. x\<lparr>b_disk := False\<rparr>) s) else None)"

fun aspec_run :: "vevent list \<Rightarrow> aspec \<Rightarrow> aspec option" where
  "aspec_run [] y = Some y"
| "aspec_run (e # es) y = (case aspec_step e y of None \<Rightarrow> None | Some z \<Rightarrow> aspec_run es z)"

definition vblock :: "vdisk \<Rightarrow> u32 \<Rightarrow> bytes" where
  "vblock d n = (\<lambda>j. if j < BSIZE then v_sect d (ucast (n * 2) + of_nat (j div 512)) (j mod 512) else 0)"

definition same_disk :: "vdisk \<Rightarrow> bio \<Rightarrow> bool" where
  "same_disk d s =
     ((\<forall>b. bc_buf s b = (v_buf d b)\<lparr>b_disk := False\<rparr>) \<and> (\<forall>n. unat n < 2 ^ 31 \<longrightarrow> d_disk s n = vblock d n))"

section \<open>Descriptor allocation\<close>

interpretation vq_ring: ring_buffer NUM "0 :: u16"
  by unfold_locales (simp_all add: NUM_def)

lemma wakeup_text [simp]: "k_trampoline (wakeup c k) = k_trampoline k" "k_forkret (wakeup c k) = k_forkret k"
proof -
  have "k_trampoline (fold (wakeup_one c) ps k) = k_trampoline k
    \<and> k_forkret (fold (wakeup_one c) ps k) = k_forkret k" for ps
    by (induction ps arbitrary: k) (simp_all add: wakeup_one_def pset_def)
  then show "k_trampoline (wakeup c k) = k_trampoline k" "k_forkret (wakeup c k) = k_forkret k"
    by (simp_all add: wakeup_def)
qed

lemma wakeup_again [simp]: "wakeup c (wakeup c k) = wakeup c k"
proof (rule kst.equality)
  show "k_proc (wakeup c (wakeup c k)) = k_proc (wakeup c k)" by (simp add: fun_eq_iff wakeup_proc)
qed simp_all

lemma free_descs_spec:
  assumes "distinct is" "\<And>i. i \<in> set is \<Longrightarrow> i < NUM \<and> \<not> v_free d i"
  shows "\<exists>k \<in> {v_k d, wakeup Disk_chan (v_k d)}. free_descs is d =
    Ok (d\<lparr>v_desc := (\<lambda>i. if i \<in> set is then null_desc else v_desc d i),
          v_free := (\<lambda>i. v_free d i \<or> i \<in> set is), v_k := k\<rparr>)"
  using assms
proof (induction "is" arbitrary: d)
  case Nil
  show ?case by (rule bexI [of _ "v_k d"]) simp_all
next
  case (Cons i js)
  let ?d = "d\<lparr>v_desc := (v_desc d)(i := null_desc), v_free := (v_free d)(i := True),
               v_k := wakeup Disk_chan (v_k d)\<rparr>"
  have f: "free_desc i d = Ok ?d" using Cons.prems(2) [of i] by (simp add: free_desc_def)
  have "\<exists>k \<in> {v_k ?d, wakeup Disk_chan (v_k ?d)}. free_descs js ?d =
    Ok (?d\<lparr>v_desc := (\<lambda>i. if i \<in> set js then null_desc else v_desc ?d i),
          v_free := (\<lambda>i. v_free ?d i \<or> i \<in> set js), v_k := k\<rparr>)"
    using Cons.prems by (intro Cons.IH) auto
  then have "free_descs (i # js) d = Ok (?d\<lparr>v_desc := (\<lambda>j. if j \<in> set js then null_desc else v_desc ?d j),
      v_free := (\<lambda>j. v_free ?d j \<or> j \<in> set js), v_k := wakeup Disk_chan (v_k d)\<rparr>)" by (simp add: f)
  moreover have e: "(\<lambda>j. if j \<in> set js then null_desc else v_desc ?d j)
    = (\<lambda>j. if j \<in> set (i # js) then null_desc else v_desc d j)"
    "(\<lambda>j. v_free ?d j \<or> j \<in> set js) = (\<lambda>j. v_free d j \<or> j \<in> set (i # js))" by (auto simp: fun_eq_iff)
  ultimately have "free_descs (i # js) d = Ok (?d\<lparr>v_desc := (\<lambda>j. if j \<in> set (i # js) then null_desc else v_desc d j),
      v_free := (\<lambda>j. v_free d j \<or> j \<in> set (i # js)), v_k := wakeup Disk_chan (v_k d)\<rparr>)" unfolding e by blast
  then show ?case by (intro bexI [of _ "wakeup Disk_chan (v_k d)"]) simp_all
qed

lemma alloc_desc_cases:
  obtains (none) "alloc_desc d = (- 1, d)" "\<And>i. i < NUM \<Longrightarrow> \<not> v_free d i"
  | (some) i where "i < NUM" "v_free d i" "alloc_desc d = (int i, d\<lparr>v_free := (v_free d)(i := False)\<rparr>)"
proof (cases "find (v_free d) [0..<NUM]")
  case None
  then have "alloc_desc d = (- 1, d)" by (simp add: alloc_desc_def)
  then show thesis using None by (intro none) (auto simp: find_None_iff)
next
  case (Some i)
  then have "alloc_desc d = (int i, d\<lparr>v_free := (v_free d)(i := False)\<rparr>)" by (simp add: alloc_desc_def)
  then show thesis using Some by (intro some [of i]) (auto simp: find_Some_iff)
qed

lemma alloc3_loop_spec:
  assumes "distinct idx" "\<And>i. i \<in> set idx \<Longrightarrow> i < NUM \<and> \<not> v_free d i"
  obtains (got) js where "length js = n" "distinct (idx @ js)" "\<And>j. j \<in> set js \<Longrightarrow> j < NUM \<and> v_free d j"
      "alloc3_loop n idx d = Ok (Some (idx @ js), d\<lparr>v_free := (\<lambda>i. v_free d i \<and> i \<notin> set js)\<rparr>)"
  | (few) k ds where "card {i. i < NUM \<and> v_free d i} < n" "k \<in> {v_k d, wakeup Disk_chan (v_k d)}"
      "\<And>i. \<not> v_free d i \<Longrightarrow> i \<notin> set idx \<Longrightarrow> ds i = v_desc d i"
      "alloc3_loop n idx d = Ok (None, d\<lparr>v_desc := ds, v_free := (\<lambda>i. v_free d i \<or> i \<in> set idx), v_k := k\<rparr>)"
  using assms
proof (induction n arbitrary: idx d thesis)
  case 0
  show ?case by (rule 0(1) [of "[]"]) (use 0 in auto)
next
  case (Suc n)
  show ?case
  proof (cases rule: alloc_desc_cases [of d])
    case none
    then have "{i. i < NUM \<and> v_free d i} = {}" by auto
    then have z: "card {i. i < NUM \<and> v_free d i} < Suc n" by (simp only: card.empty zero_less_Suc)
    obtain k where k: "k \<in> {v_k d, wakeup Disk_chan (v_k d)}" "free_descs idx d =
        Ok (d\<lparr>v_desc := (\<lambda>i. if i \<in> set idx then null_desc else v_desc d i),
              v_free := (\<lambda>i. v_free d i \<or> i \<in> set idx), v_k := k\<rparr>)"
      using free_descs_spec [OF Suc.prems(3,4)] by blast
    show thesis by (rule Suc.prems(2) [OF z k(1), of "\<lambda>i. if i \<in> set idx then null_desc else v_desc d i"])
      (use none k(2) in auto)
  next
    case (some i)
    let ?d = "d\<lparr>v_free := (v_free d)(i := False)\<rparr>"
    have st: "alloc3_loop (Suc n) idx d = alloc3_loop n (idx @ [i]) ?d" using some by simp
    have pre: "distinct (idx @ [i])" "\<And>j. j \<in> set (idx @ [i]) \<Longrightarrow> j < NUM \<and> \<not> v_free ?d j"
      using Suc.prems some by auto
    show thesis
    proof (rule Suc.IH [OF _ _ pre])
      fix js assume j: "length js = n" "distinct ((idx @ [i]) @ js)" "\<And>j. j \<in> set js \<Longrightarrow> j < NUM \<and> v_free ?d j"
        "alloc3_loop n (idx @ [i]) ?d = Ok (Some ((idx @ [i]) @ js), ?d\<lparr>v_free := (\<lambda>i. v_free ?d i \<and> i \<notin> set js)\<rparr>)"
      have m: "j < NUM \<and> v_free d j" if "j \<in> set (i # js)" for j
        using that some j(3) [of j] by (auto split: if_splits)
      have e: "(\<lambda>j. v_free ?d j \<and> j \<notin> set js) = (\<lambda>j. v_free d j \<and> j \<notin> set (i # js))" by (auto simp: fun_eq_iff)
      have "alloc3_loop (Suc n) idx d = Ok (Some (idx @ i # js), d\<lparr>v_free := (\<lambda>j. v_free d j \<and> j \<notin> set (i # js))\<rparr>)"
        using j(4) unfolding st e by simp
      then show thesis using j(1,2) m by (intro Suc.prems(1) [of "i # js"]) auto
    next
      fix k ds assume f: "card {i. i < NUM \<and> v_free ?d i} < n" "k \<in> {v_k ?d, wakeup Disk_chan (v_k ?d)}"
        "\<And>j. \<not> v_free ?d j \<Longrightarrow> j \<notin> set (idx @ [i]) \<Longrightarrow> ds j = v_desc ?d j"
        "alloc3_loop n (idx @ [i]) ?d =
           Ok (None, ?d\<lparr>v_desc := ds, v_free := (\<lambda>j. v_free ?d j \<or> j \<in> set (idx @ [i])), v_k := k\<rparr>)"
      have "{j. j < NUM \<and> v_free d j} = insert i {j. j < NUM \<and> v_free ?d j}" using some by auto
      then have "card {j. j < NUM \<and> v_free d j} < Suc n" using f(1) by simp
      moreover have "(\<lambda>j. v_free ?d j \<or> j \<in> set (idx @ [i])) = (\<lambda>j. v_free d j \<or> j \<in> set idx)"
        using some by (auto simp: fun_eq_iff)
      with f(4) have "alloc3_loop (Suc n) idx d
          = Ok (None, d\<lparr>v_desc := ds, v_free := (\<lambda>j. v_free d j \<or> j \<in> set idx), v_k := k\<rparr>)" unfolding st by simp
      moreover have "ds j = v_desc d j" if "\<not> v_free d j" "j \<notin> set idx" for j
        using f(3) [of j] that some by auto
      ultimately show thesis using f(2) by (intro Suc.prems(2) [of k ds]) simp_all
    qed
  qed
qed

lemma alloc3_desc_spec:
  obtains (got) i0 i1 i2 where "distinct [i0, i1, i2]" "\<And>j. j \<in> {i0, i1, i2} \<Longrightarrow> j < NUM \<and> v_free d j"
      "alloc3_desc d = Ok (Some [i0, i1, i2], d\<lparr>v_free := (\<lambda>i. v_free d i \<and> i \<notin> {i0, i1, i2})\<rparr>)"
  | (few) k ds where "card {i. i < NUM \<and> v_free d i} < 3" "k \<in> {v_k d, wakeup Disk_chan (v_k d)}"
      "\<And>i. \<not> v_free d i \<Longrightarrow> ds i = v_desc d i" "alloc3_desc d = Ok (None, d\<lparr>v_desc := ds, v_k := k\<rparr>)"
proof (rule alloc3_loop_spec [of "[]" d 3])
  fix js assume j: "length js = 3" "distinct ([] @ js)" "\<And>j. j \<in> set js \<Longrightarrow> j < NUM \<and> v_free d j"
    "alloc3_loop 3 [] d = Ok (Some ([] @ js), d\<lparr>v_free := (\<lambda>i. v_free d i \<and> i \<notin> set js)\<rparr>)"
  from j(1) obtain i0 i1 i2 where "js = [i0, i1, i2]" by (auto simp: eval_nat_numeral length_Suc_conv)
  with j show thesis by (intro got [of i0 i1 i2]) (auto simp: alloc3_desc_def)
next
  fix k ds assume "card {i. i < NUM \<and> v_free d i} < 3" "k \<in> {v_k d, wakeup Disk_chan (v_k d)}"
    "\<And>i. \<not> v_free d i \<Longrightarrow> i \<notin> set [] \<Longrightarrow> ds i = v_desc d i"
    "alloc3_loop 3 [] d = Ok (None, d\<lparr>v_desc := ds, v_free := (\<lambda>i. v_free d i \<or> i \<in> set []), v_k := k\<rparr>)"
  then show thesis by (intro few [of k ds]) (auto simp: alloc3_desc_def)
qed auto

end
