(* ===== verification/Xv6_VirtioInv.thy ===== *)
theory Xv6_VirtioInv
  imports Xv6_Virtio
begin

text \<open>
  The invariant of the virtio disk driver under every interleaving of callers, device and
  interrupts, and its consequences: no panic, no lost wakeup, and the simulation of the
  sequential disk.
\<close>

section \<open>Invariant\<close>

text \<open>
  \<open>R\<close> maps the head of every chain in use to its request: the buffer, whether it is a write, and
  the other two descriptors.  A head is in the available ring, fetched by the device, carried
  out, in the used ring, or in \<open>D\<close>, when the interrupt handler has seen it and the caller has not
  yet returned.
\<close>

type_synonym vreq = "nat \<times> bool \<times> nat \<times> nat"

fun cells :: "nat \<Rightarrow> vreq \<Rightarrow> nat set" where
  "cells h (b, w, i1, i2) = {h, i1, i2}"

fun request :: "vdisk \<Rightarrow> nat \<Rightarrow> vreq \<Rightarrow> bool" where
  "request d h (b, w, i1, i2) =
     (distinct [h, i1, i2] \<and> h < NUM \<and> i1 < NUM \<and> i2 < NUM
      \<and> v_desc d h = \<lparr>vq_addr = Ops h, vq_len = 16, vq_flags = VRING_DESC_F_NEXT, vq_next = of_nat i1\<rparr>
      \<and> v_desc d i1 = \<lparr>vq_addr = Data b, vq_len = of_nat BSIZE,
          vq_flags = (if w then VRING_DESC_F_NEXT else VRING_DESC_F_WRITE OR VRING_DESC_F_NEXT), vq_next = of_nat i2\<rparr>
      \<and> v_desc d i2 = \<lparr>vq_addr = Status h, vq_len = 1, vq_flags = VRING_DESC_F_WRITE, vq_next = 0\<rparr>
      \<and> v_ops d h = \<lparr>rq_type = (if w then VIRTIO_BLK_T_OUT else VIRTIO_BLK_T_IN), rq_reserved = 0,
          rq_sector = rw_sector (v_buf d b)\<rparr>
      \<and> v_info_b d h = Some b)"

definition avail_q :: "vdisk \<Rightarrow> nat list" where
  "avail_q d = map unat (ring NUM (v_avail d) (v_seen d) (v_avail_idx d))"

definition used_q :: "vdisk \<Rightarrow> nat list" where
  "used_q d = map (\<lambda>e. unat (ue_id e)) (ring NUM (v_used d) (v_used_idx d) (v_used_ix d))"

definition served :: "vdisk \<Rightarrow> nat list \<Rightarrow> nat set" where
  "served d D = set (v_exec d) \<union> set (used_q d) \<union> set D"

definition vtable :: "vdisk \<Rightarrow> (nat \<rightharpoonup> vreq) \<Rightarrow> bool" where
  "vtable d R =
     ((\<forall>h r. R h = Some r \<longrightarrow> request d h r)
      \<and> (\<forall>h r h' r'. R h = Some r \<longrightarrow> R h' = Some r' \<longrightarrow> h \<noteq> h' \<longrightarrow> cells h r \<inter> cells h' r' = {})
      \<and> (\<forall>i < NUM. v_free d i = (\<forall>h r. R h = Some r \<longrightarrow> i \<notin> cells h r)))"

definition vqueues :: "vdisk \<Rightarrow> (nat \<rightharpoonup> vreq) \<Rightarrow> nat list \<Rightarrow> bool" where
  "vqueues d R D =
     (distinct (avail_q d @ v_work d @ v_exec d @ used_q d @ D)
      \<and> dom R = set (avail_q d @ v_work d @ v_exec d @ used_q d @ D)
      \<and> (\<forall>h \<in> served d D. v_status d h = 0))"

definition vcalls :: "vdisk \<Rightarrow> (nat \<Rightarrow> rw_phase option) \<Rightarrow> (nat \<rightharpoonup> vreq) \<Rightarrow> nat list \<Rightarrow> bool" where
  "vcalls d P R D =
     ((\<forall>b w h. (P b = Some (Want_io w h)) = (\<exists>i1 i2. R h = Some (b, w, i1, i2)))
      \<and> (\<forall>h b w i1 i2. R h = Some (b, w, i1, i2) \<longrightarrow> b_disk (v_buf d b) = (h \<notin> set D))
      \<and> (\<forall>b. P b \<noteq> None \<longrightarrow> unat (b_blockno (v_buf d b)) < 2 ^ 31))"

definition vinv :: "vdisk \<Rightarrow> (nat \<Rightarrow> rw_phase option) \<Rightarrow> (nat \<rightharpoonup> vreq) \<Rightarrow> nat list \<Rightarrow> bool" where
  "vinv d P R D = (vtable d R \<and> vqueues d R D \<and> vcalls d P R D)"

lemma request_other [simp]:
  "request (d\<lparr>v_k := k\<rparr>) h r = request d h r" "request (d\<lparr>v_mmio := ws\<rparr>) h r = request d h r"
  "request (d\<lparr>v_isr := x\<rparr>) h r = request d h r" "request (d\<lparr>v_used_idx := u\<rparr>) h r = request d h r"
  "request (d\<lparr>v_seen := a, v_work := hs\<rparr>) h r = request d h r"
  by (cases r; simp)+

lemma queues_other [simp]:
  "avail_q (d\<lparr>v_k := k\<rparr>) = avail_q d" "used_q (d\<lparr>v_k := k\<rparr>) = used_q d"
  "avail_q (d\<lparr>v_mmio := ws\<rparr>) = avail_q d" "used_q (d\<lparr>v_mmio := ws\<rparr>) = used_q d"
  "avail_q (d\<lparr>v_isr := x\<rparr>) = avail_q d" "used_q (d\<lparr>v_isr := x\<rparr>) = used_q d"
  by (simp_all add: avail_q_def used_q_def)

lemma vinv_other [simp]:
  "vinv (d\<lparr>v_k := k\<rparr>) P R D = vinv d P R D" "vinv (d\<lparr>v_mmio := ws\<rparr>) P R D = vinv d P R D"
  "vinv (d\<lparr>v_isr := x\<rparr>) P R D = vinv d P R D"
  by (simp_all add: vinv_def vtable_def vqueues_def vcalls_def served_def)

lemma vinvD:
  assumes "vinv d P R D"
  shows "R h = Some r \<Longrightarrow> request d h r"
    "R h = Some r \<Longrightarrow> R h' = Some r' \<Longrightarrow> h \<noteq> h' \<Longrightarrow> cells h r \<inter> cells h' r' = {}"
    "i < NUM \<Longrightarrow> v_free d i = (\<forall>h r. R h = Some r \<longrightarrow> i \<notin> cells h r)"
    "distinct (avail_q d @ v_work d @ v_exec d @ used_q d @ D)"
    "dom R = set (avail_q d @ v_work d @ v_exec d @ used_q d @ D)"
    "h \<in> served d D \<Longrightarrow> v_status d h = 0"
    "(P b = Some (Want_io w h)) = (\<exists>i1 i2. R h = Some (b, w, i1, i2))"
    "R h = Some (b, w, i1, i2) \<Longrightarrow> b_disk (v_buf d b) = (h \<notin> set D)"
    "P b \<noteq> None \<Longrightarrow> unat (b_blockno (v_buf d b)) < 2 ^ 31"
proof -
  have t: "vtable d R" and q: "vqueues d R D" and c: "vcalls d P R D" using assms by (simp_all add: vinv_def)
  show "R h = Some r \<Longrightarrow> request d h r" "R h = Some r \<Longrightarrow> R h' = Some r' \<Longrightarrow> h \<noteq> h' \<Longrightarrow> cells h r \<inter> cells h' r' = {}"
    using t unfolding vtable_def by blast+
  show "i < NUM \<Longrightarrow> v_free d i = (\<forall>h r. R h = Some r \<longrightarrow> i \<notin> cells h r)" using t by (simp add: vtable_def)
  show "distinct (avail_q d @ v_work d @ v_exec d @ used_q d @ D)"
    "dom R = set (avail_q d @ v_work d @ v_exec d @ used_q d @ D)" "h \<in> served d D \<Longrightarrow> v_status d h = 0"
    using q by (simp_all add: vqueues_def)
  show "(P b = Some (Want_io w h)) = (\<exists>i1 i2. R h = Some (b, w, i1, i2))"
    "P b \<noteq> None \<Longrightarrow> unat (b_blockno (v_buf d b)) < 2 ^ 31" using c by (simp_all add: vcalls_def)
  show "R h = Some (b, w, i1, i2) \<Longrightarrow> b_disk (v_buf d b) = (h \<notin> set D)" using c unfolding vcalls_def by blast
qed

text \<open>At most \<open>NUM\<close> heads are in the rings, so neither ring overflows.\<close>

lemma vinv_heads:
  assumes "vinv d P R D"
  shows "dom R \<subseteq> {..<NUM}" "length (avail_q d @ v_work d @ v_exec d @ used_q d @ D) = card (dom R)"
    "card (dom R) \<le> NUM"
proof -
  show s: "dom R \<subseteq> {..<NUM}"
  proof
    fix h assume "h \<in> dom R"
    then obtain b w i1 i2 where "R h = Some (b, w, i1, i2)" by auto
    then show "h \<in> {..<NUM}" using vinvD(1) [OF assms] by fastforce
  qed
  show "length (avail_q d @ v_work d @ v_exec d @ used_q d @ D) = card (dom R)"
    unfolding vinvD(5) [OF assms] distinct_card [OF vinvD(4) [OF assms]] ..
  show "card (dom R) \<le> NUM" using card_mono [OF _ s] by simp
qed

lemma same_buf_same_head:
  assumes "vinv d P R D" "R h = Some (b, w, i1, i2)" "R h' = Some (b, w', j1, j2)"
  shows "h = h'"
proof -
  have "P b = Some (Want_io w h)" "P b = Some (Want_io w' h')" using assms vinvD(7) [OF assms(1)] by blast+
  then show ?thesis by simp
qed

section \<open>Submitting a request\<close>

lemma desc_literal:
  "x\<lparr>vq_addr := a, vq_len := n, vq_flags := f, vq_next := i\<rparr> = \<lparr>vq_addr = a, vq_len = n, vq_flags = f, vq_next = i\<rparr>"
  for x :: virtq_desc
  by (cases x) simp

lemma submit_format:
  assumes "distinct [i0, i1, i2]"
  shows "submit b i0 (format_desc b sector w i0 i1 i2 d) =
    d\<lparr>v_desc := (v_desc d)
        (i0 := \<lparr>vq_addr = Ops i0, vq_len = 16, vq_flags = VRING_DESC_F_NEXT, vq_next = of_nat i1\<rparr>,
         i1 := \<lparr>vq_addr = Data b, vq_len = of_nat BSIZE,
           vq_flags = (if w then VRING_DESC_F_NEXT else VRING_DESC_F_WRITE OR VRING_DESC_F_NEXT), vq_next = of_nat i2\<rparr>,
         i2 := \<lparr>vq_addr = Status i0, vq_len = 1, vq_flags = VRING_DESC_F_WRITE, vq_next = 0\<rparr>),
      v_avail_idx := v_avail_idx d + 1,
      v_avail := (v_avail d)(unat (v_avail_idx d) mod NUM := of_nat i0),
      v_info_b := (v_info_b d)(i0 := Some b),
      v_status := (v_status d)(i0 := 0xff),
      v_ops := (v_ops d)(i0 := \<lparr>rq_type = (if w then VIRTIO_BLK_T_OUT else VIRTIO_BLK_T_IN), rq_reserved = 0,
          rq_sector = sector\<rparr>),
      v_buf := (v_buf d)(b := (v_buf d b)\<lparr>b_disk := True\<rparr>),
      v_mmio := v_mmio d @ [(0x050, 0)]\<rparr>"
  using assms by (cases w; intro vdisk.equality) (simp_all add: desc_literal submit_def format_desc_def set_desc_def Let_def mmio_write_def fun_upd_twist)

lemma rw_sector_disk [simp]: "rw_sector (x\<lparr>b_disk := v\<rparr>) = rw_sector x" "rw_sector (x\<lparr>b_data := e\<rparr>) = rw_sector x"
  by (simp_all add: rw_sector_def)

lemma unat_small16: "n < NUM \<Longrightarrow> unat (of_nat n :: u16) = n" and unat_small32: "n < NUM \<Longrightarrow> unat (of_nat n :: u32) = n"
  by (simp_all add: unat_of_nat NUM_def)

lemma free_no_head:
  assumes "vinv d P R D" "i < NUM" "v_free d i"
  shows "R h = Some r \<Longrightarrow> i \<notin> cells h r" "R i = None" "card (dom R) < NUM"
proof -
  show c: "R h = Some r \<Longrightarrow> i \<notin> cells h r" for h r using vinvD(3) [OF assms(1,2)] assms(3) by blast
  show n: "R i = None"
  proof (cases "R i")
    case (Some r)
    then show ?thesis using c [OF Some] by (cases r) simp
  qed
  have "dom R \<subset> {..<NUM}" using vinv_heads(1) [OF assms(1)] n assms(2) by auto
  from psubset_card_mono [OF _ this] show "card (dom R) < NUM" by simp
qed

lemma vtableI:
  assumes "\<And>h r. R h = Some r \<Longrightarrow> request d h r"
    "\<And>h r h' r'. R h = Some r \<Longrightarrow> R h' = Some r' \<Longrightarrow> h \<noteq> h' \<Longrightarrow> cells h r \<inter> cells h' r' = {}"
    "\<And>i. i < NUM \<Longrightarrow> v_free d i = (\<forall>h r. R h = Some r \<longrightarrow> i \<notin> cells h r)"
  shows "vtable d R"
  using assms by (simp add: vtable_def del: split_paired_All)

lemma vqueuesI:
  assumes "distinct (avail_q d @ v_work d @ v_exec d @ used_q d @ D)"
    "dom R = set (avail_q d @ v_work d @ v_exec d @ used_q d @ D)" "\<And>h. h \<in> served d D \<Longrightarrow> v_status d h = 0"
  shows "vqueues d R D"
  using assms by (simp add: vqueues_def)

lemma vcallsI:
  assumes "\<And>b w h. (P b = Some (Want_io w h)) = (\<exists>i1 i2. R h = Some (b, w, i1, i2))"
    "\<And>h b w i1 i2. R h = Some (b, w, i1, i2) \<Longrightarrow> b_disk (v_buf d b) = (h \<notin> set D)"
    "\<And>b. P b \<noteq> None \<Longrightarrow> unat (b_blockno (v_buf d b)) < 2 ^ 31"
  shows "vcalls d P R D"
  unfolding vcalls_def by (intro conjI allI impI) (rule assms; assumption)+

lemma all_upd:
  "R i = None \<Longrightarrow> (\<forall>h r. (R(i \<mapsto> q)) h = Some r \<longrightarrow> Q h r) = (Q i q \<and> (\<forall>h r. R h = Some r \<longrightarrow> Q h r))"
  by (metis fun_upd_apply option.distinct(1) option.inject)

lemma submit_vinv:
  fixes w :: bool
  assumes inv: "vinv d P R D" and dist: "distinct [i0, i1, i2]"
    and free: "\<And>i. i \<in> {i0, i1, i2} \<Longrightarrow> i < NUM \<and> v_free d i"
    and P: "\<And>v h. P b \<noteq> Some (Want_io v h)" and n: "unat (b_blockno (v_buf d b)) < 2 ^ 31"
  defines "d' \<equiv> submit b i0 (format_desc b (rw_sector (v_buf d b)) w i0 i1 i2
                   (d\<lparr>v_free := (\<lambda>i. v_free d i \<and> i \<notin> {i0, i1, i2})\<rparr>))"
  shows "vinv d' (P(b \<mapsto> Want_io w i0)) (R(i0 \<mapsto> (b, w, i1, i2))) D" "served d' D = served d D"
proof -
  note d' = d'_def [unfolded submit_format [OF dist]]
  have away: "{i0, i1, i2} \<inter> cells h r = {}" if "R h = Some r" for h r
    using free_no_head(1) [OF inv _ _ that] free by blast
  have none: "R i0 = None" using free_no_head(2) [OF inv, of i0] free by blast
  have fst: "b' \<noteq> b" if "R h = Some (b', w', j1, j2)" for h b' w' j1 j2
    using vinvD(7) [OF inv, of b' w' h] P that by auto
  have new: "i0 \<notin> set (avail_q d @ v_work d @ v_exec d @ used_q d @ D)"
    using none unfolding vinvD(5) [OF inv, symmetric] by auto
  have "length (avail_q d) < NUM"
    using free_no_head(3) [OF inv, of i0] free vinv_heads(2) [OF inv] by simp
  then have "unat (v_avail_idx d - v_seen d) < NUM" by (simp add: avail_q_def)
  from vq_ring.enq [OF this, of "v_avail d" "of_nat i0"]
  have av: "avail_q d' = avail_q d @ [i0]" using free by (simp add: avail_q_def d' unat_small16)
  have us: "used_q d' = used_q d" "v_work d' = v_work d" "v_exec d' = v_exec d" by (simp_all add: used_q_def d')
  show sv: "served d' D = served d D" by (simp add: served_def us)
  have r0: "request d' i0 (b, w, i1, i2)" using dist free by (simp add: d')
  have r1: "request d' h r" if "R h = Some r" for h r
    using vinvD(1) [OF inv that] away [OF that] fst that none by (cases r) (auto simp: d')
  define R' where R': "R' = R(i0 \<mapsto> (b, w, i1, i2))"
  have rq: "request d' h r" if "R' h = Some r" for h r
    using that r0 r1 [of h r] unfolding R' by (cases "h = i0") (simp_all del: request.simps)
  have dj: "cells h r \<inter> cells h' r' = {}" if "R' h = Some r" "R' h' = Some r'" "h \<noteq> h'" for h r h' r'
    using that vinvD(2) [OF inv, of h r h' r'] away [of h r] away [of h' r']
    unfolding R' by (cases "h = i0"; cases "h' = i0") auto
  have fr: "v_free d' i = (\<forall>h r. R' h = Some r \<longrightarrow> i \<notin> cells h r)" if "i < NUM" for i
    unfolding R' all_upd [of R i0, OF none] using vinvD(3) [OF inv that] by (auto simp: d' simp del: split_paired_All)
  have "vtable d' R'" by (rule vtableI) (erule rq, erule (2) dj, erule fr)
  moreover have "vqueues d' R' D"
  proof (rule vqueuesI)
    show "distinct (avail_q d' @ v_work d' @ v_exec d' @ used_q d' @ D)"
      using vinvD(4) [OF inv] new unfolding av us by auto
    show "dom R' = set (avail_q d' @ v_work d' @ v_exec d' @ used_q d' @ D)"
      using vinvD(5) [OF inv] unfolding av us R' by auto
    show "v_status d' h = 0" if "h \<in> served d' D" for h
      using vinvD(6) [OF inv, of h] that new unfolding sv by (auto simp: d' served_def)
  qed
  moreover have "vcalls d' (P(b \<mapsto> Want_io w i0)) R' D"
  proof (rule vcallsI)
    show "((P(b \<mapsto> Want_io w i0)) c = Some (Want_io v h)) = (\<exists>j1 j2. R' h = Some (c, v, j1, j2))" for c v h
      using vinvD(7) [OF inv, of c v h] none fst [of h] by (auto simp: R')
    show "b_disk (v_buf d' c) = (h \<notin> set D)" if "R' h = Some (c, v, j1, j2)" for h c v j1 j2
      using vinvD(8) [OF inv, of h c v j1 j2] that fst [of h] new by (auto simp: R' d' split: if_splits)
    show "unat (b_blockno (v_buf d' c)) < 2 ^ 31" if "(P(b \<mapsto> Want_io w i0)) c \<noteq> None" for c
      using vinvD(9) [OF inv, of c] that n by (auto simp: d' split: if_splits)
  qed
  ultimately show "vinv d' (P(b \<mapsto> Want_io w i0)) (R(i0 \<mapsto> (b, w, i1, i2))) D" by (simp add: vinv_def R')
qed

section \<open>Finishing a request\<close>

lemma flag_next [simp]: "VRING_DESC_F_NEXT \<noteq> 0" "VRING_DESC_F_WRITE AND VRING_DESC_F_NEXT = 0"
  "(VRING_DESC_F_WRITE OR VRING_DESC_F_NEXT) AND VRING_DESC_F_NEXT \<noteq> 0"
  by (simp_all add: VRING_DESC_F_NEXT_def VRING_DESC_F_WRITE_def)

lemma free_chain_step:
  assumes "i < NUM" "\<not> v_free d i"
  shows "free_chain i d =
    (let d' = d\<lparr>v_desc := (v_desc d)(i := null_desc), v_free := (v_free d)(i := True), v_k := wakeup Disk_chan (v_k d)\<rparr>
     in if vq_flags (v_desc d i) AND VRING_DESC_F_NEXT \<noteq> 0 then free_chain (unat (vq_next (v_desc d i))) d' else Ok d')"
  using assms by (simp add: free_chain.simps [of i d] free_desc_def Let_def)

lemma free_chain_request:
  assumes "request d h (b, w, i1, i2)" "\<And>i. i \<in> {h, i1, i2} \<Longrightarrow> \<not> v_free d i"
  shows "free_chain h (d\<lparr>v_info_b := f\<rparr>) =
    Ok (d\<lparr>v_desc := (v_desc d)(h := null_desc, i1 := null_desc, i2 := null_desc),
          v_free := (v_free d)(h := True, i1 := True, i2 := True), v_info_b := f, v_k := wakeup Disk_chan (v_k d)\<rparr>)"
proof -
  have "free_chain h (d\<lparr>v_info_b := f\<rparr>) = free_chain i1 (d\<lparr>v_info_b := f, v_desc := (v_desc d)(h := null_desc),
      v_free := (v_free d)(h := True), v_k := wakeup Disk_chan (v_k d)\<rparr>)"
    using assms by (subst free_chain_step) (simp_all add: unat_small16 Let_def)
  also have "\<dots> = free_chain i2 (d\<lparr>v_info_b := f, v_desc := (v_desc d)(h := null_desc, i1 := null_desc),
      v_free := (v_free d)(h := True, i1 := True), v_k := wakeup Disk_chan (v_k d)\<rparr>)"
    using assms by (subst free_chain_step) (simp_all add: unat_small16 Let_def)
  also have "\<dots> = Ok (d\<lparr>v_info_b := f, v_desc := (v_desc d)(h := null_desc, i1 := null_desc, i2 := null_desc),
      v_free := (v_free d)(h := True, i1 := True, i2 := True), v_k := wakeup Disk_chan (v_k d)\<rparr>)"
    using assms by (subst free_chain_step) (simp_all add: Let_def)
  finally show ?thesis by simp
qed

lemma cell_in_use:
  assumes "vinv d P R D" "R h = Some r" "i \<in> cells h r"
  shows "i < NUM" "\<not> v_free d i"
proof -
  show i: "i < NUM" using vinvD(1) [OF assms(1,2)] assms(3) by (cases r) auto
  show "\<not> v_free d i" using vinvD(3) [OF assms(1) i] assms(2,3) by blast
qed

lemma finish_vinv:
  assumes inv: "vinv d P R D" and R: "R h = Some (b, w, i1, i2)" and D: "h \<in> set D"
  defines "d' \<equiv> d\<lparr>v_desc := (v_desc d)(h := null_desc, i1 := null_desc, i2 := null_desc),
          v_free := (v_free d)(h := True, i1 := True, i2 := True), v_info_b := (v_info_b d)(h := None)\<rparr>"
  shows "vinv d' (P(b := None)) (R(h := None)) (remove1 h D)"
proof -
  define R' where R': "R' = R(h := None)"
  have old: "R h' = Some r" "h' \<noteq> h" if "R' h' = Some r" for h' r using that by (auto simp: R' split: if_splits)
  have away: "{h, i1, i2} \<inter> cells h' r = {}" if "R' h' = Some r" for h' r
    using vinvD(2) [OF inv R old(1) [OF that]] old(2) [OF that] by auto
  have rq: "request d' h' r" if "R' h' = Some r" for h' r
    using vinvD(1) [OF inv old(1) [OF that]] away [OF that] old(2) [OF that] by (cases r) (auto simp: d'_def)
  have dj: "cells h1 r1 \<inter> cells h2 r2 = {}" if "R' h1 = Some r1" "R' h2 = Some r2" "h1 \<noteq> h2" for h1 r1 h2 r2
    using vinvD(2) [OF inv] old that by blast
  have fr: "v_free d' i = (\<forall>h' r. R' h' = Some r \<longrightarrow> i \<notin> cells h' r)" if "i < NUM" for i
  proof (cases "i \<in> {h, i1, i2}")
    case True
    then show ?thesis using away by (auto simp: d'_def simp del: split_paired_All)
  next
    case False
    then have "(R x = Some r \<longrightarrow> i \<notin> cells x r) = (R' x = Some r \<longrightarrow> i \<notin> cells x r)" for x r
      using R by (cases "x = h") (auto simp: R')
    then show ?thesis using False vinvD(3) [OF inv that] by (simp add: d'_def del: split_paired_All)
  qed
  have us: "avail_q d' = avail_q d" "used_q d' = used_q d" "v_work d' = v_work d" "v_exec d' = v_exec d"
    by (simp_all add: avail_q_def used_q_def d'_def)
  note ds = vinvD(4) [OF inv]
  have rm: "set (remove1 h D) = set D - {h}" using ds by (simp add: set_remove1_eq)
  have "vtable d' R'" by (rule vtableI) (erule rq, erule (2) dj, erule fr)
  moreover have "vqueues d' R' (remove1 h D)"
  proof (rule vqueuesI)
    show "distinct (avail_q d' @ v_work d' @ v_exec d' @ used_q d' @ remove1 h D)"
      using ds unfolding us by (auto simp: rm)
    show "dom R' = set (avail_q d' @ v_work d' @ v_exec d' @ used_q d' @ remove1 h D)"
      using vinvD(5) [OF inv] D ds unfolding us by (auto simp: rm R')
    show "v_status d' h' = 0" if "h' \<in> served d' (remove1 h D)" for h'
      using vinvD(6) [OF inv, of h'] that by (auto simp: d'_def served_def us rm used_q_def)
  qed
  moreover have "vcalls d' (P(b := None)) R' (remove1 h D)"
  proof (rule vcallsI)
    show "((P(b := None)) c = Some (Want_io v h')) = (\<exists>j1 j2. R' h' = Some (c, v, j1, j2))" for c v h'
    proof (cases "h' = h")
      case True
      then show ?thesis using vinvD(7) [OF inv, of c v h] R by (simp add: R')
    next
      case False
      then have "R h' \<noteq> Some (b, v, j1, j2)" for j1 j2 using same_buf_same_head [OF inv R, of h'] by metis
      then show ?thesis using False vinvD(7) [OF inv, of c v h'] by (simp add: R')
    qed
    show "b_disk (v_buf d' c) = (h' \<notin> set (remove1 h D))" if "R' h' = Some (c, v, j1, j2)" for h' c v j1 j2
      using vinvD(8) [OF inv old(1) [OF that]] old(2) [OF that] by (simp add: d'_def rm)
    show "unat (b_blockno (v_buf d' c)) < 2 ^ 31" if "(P(b := None)) c \<noteq> None" for c
      using vinvD(9) [OF inv, of c] that by (auto simp: d'_def split: if_splits)
  qed
  ultimately show ?thesis by (simp add: vinv_def R')
qed

section \<open>Interrupts\<close>

definition same_data :: "vdisk \<Rightarrow> vdisk \<Rightarrow> bool" where
  "same_data d d' = (v_sect d' = v_sect d \<and> (\<forall>b. (v_buf d' b)\<lparr>b_disk := False\<rparr> = (v_buf d b)\<lparr>b_disk := False\<rparr>))"

definition vsleep :: "vdisk \<Rightarrow> bool" where
  "vsleep d =
     ((\<forall>p < NPROC. \<forall>b. asleep_on (Buf_chan b) (v_k d) p \<longrightarrow> b_disk (v_buf d b))
      \<and> (\<forall>p < NPROC. asleep_on Disk_chan (v_k d) p \<longrightarrow> card {i. i < NUM \<and> v_free d i} < 3))"

lemma same_data_refl [simp]: "same_data d d"
  by (simp add: same_data_def)

lemma same_data_trans: "same_data d e \<Longrightarrow> same_data e f \<Longrightarrow> same_data d f"
  by (simp add: same_data_def)

lemma asleep_wakeup:
  "p_state (me k) \<noteq> SLEEPING \<Longrightarrow> p < NPROC
   \<Longrightarrow> asleep_on c (wakeup c' k) p = (asleep_on c k p \<and> c \<noteq> c')"
  by (auto simp: asleep_on_def wakeup_proc)

lemma used_head:
  assumes inv: "vinv d P R D" and ne: "v_used_idx d \<noteq> v_used_ix d"
  defines "n \<equiv> unat (ue_id (v_used d (unat (v_used_idx d) mod NUM)))"
  obtains b w i1 i2 where "used_q d = n # used_q (d\<lparr>v_used_idx := v_used_idx d + 1\<rparr>)" "R n = Some (b, w, i1, i2)"
    "n < NUM" "v_status d n = 0" "v_info_b d n = Some b" "n \<in> served d D"
proof -
  have u: "used_q d = n # used_q (d\<lparr>v_used_idx := v_used_idx d + 1\<rparr>)"
    using vq_ring.deq [OF ne [symmetric], of "v_used d"] by (simp add: used_q_def n_def)
  then have s: "n \<in> served d D" and "n \<in> dom R" using vinvD(5) [OF inv] by (simp_all add: served_def)
  then obtain b w i1 i2 where R: "R n = Some (b, w, i1, i2)" by (auto simp del: domIff) 
  show thesis using that [OF u R] vinvD(1) [OF inv R] vinvD(6) [OF inv s] s by simp
qed

lemma intr_vinv:
  assumes inv: "vinv d P R D" and u: "used_q d = n # used_q (d\<lparr>v_used_idx := v_used_idx d + 1\<rparr>)"
    and R: "R n = Some (b, w, i1, i2)"
  defines "d' \<equiv> d\<lparr>v_buf := (v_buf d)(b := (v_buf d b)\<lparr>b_disk := False\<rparr>), v_used_idx := v_used_idx d + 1\<rparr>"
  shows "vinv d' P R (n # D)" "served d' (n # D) = served d D" "same_data d d'"
proof -
  have us: "avail_q d' = avail_q d" "v_work d' = v_work d" "v_exec d' = v_exec d"
    by (simp_all add: avail_q_def d'_def)
  have uq: "used_q d = n # used_q d'" using u by (simp add: used_q_def d'_def)
  show sv: "served d' (n # D) = served d D" by (auto simp: served_def us uq)
  show "same_data d d'" by (simp add: same_data_def d'_def)
  have "vtable d' R"
  proof (rule vtableI)
    show "request d' h r" if "R h = Some r" for h r using vinvD(1) [OF inv that] by (cases r) (simp add: d'_def)
    show "cells h r \<inter> cells h' r' = {}" if "R h = Some r" "R h' = Some r'" "h \<noteq> h'" for h r h' r'
      using vinvD(2) [OF inv that] .
    show "v_free d' i = (\<forall>h r. R h = Some r \<longrightarrow> i \<notin> cells h r)" if "i < NUM" for i
      using vinvD(3) [OF inv that] by (simp add: d'_def del: split_paired_All)
  qed
  moreover have "vqueues d' R (n # D)"
  proof (rule vqueuesI)
    show "distinct (avail_q d' @ v_work d' @ v_exec d' @ used_q d' @ n # D)"
      using vinvD(4) [OF inv] unfolding us uq by auto
    show "dom R = set (avail_q d' @ v_work d' @ v_exec d' @ used_q d' @ n # D)"
      using vinvD(5) [OF inv] unfolding us uq by auto
    show "v_status d' h = 0" if "h \<in> served d' (n # D)" for h
      using vinvD(6) [OF inv, of h] that unfolding sv by (simp add: d'_def)
  qed
  moreover have "vcalls d' P R (n # D)"
  proof (rule vcallsI)
    show "(P c = Some (Want_io v h)) = (\<exists>j1 j2. R h = Some (c, v, j1, j2))" for c v h by (rule vinvD(7) [OF inv])
    show "b_disk (v_buf d' c) = (h \<notin> set (n # D))" if "R h = Some (c, v, j1, j2)" for h c v j1 j2
      using vinvD(8) [OF inv that] same_buf_same_head [OF inv R, of h v j1 j2] that R by (cases "h = n") (auto simp: d'_def)
    show "unat (b_blockno (v_buf d' c)) < 2 ^ 31" if "P c \<noteq> None" for c
      using vinvD(9) [OF inv that] by (auto simp: d'_def)
  qed
  ultimately show "vinv d' P R (n # D)" by (simp add: vinv_def)
qed

lemma vintr_loop_spec:
  assumes "vinv d P R D" "p_state (me (v_k d)) \<noteq> SLEEPING" "vsleep d"
  obtains d' D' where "vintr_loop d = Ok d'" "vinv d' P R D'" "vsleep d'" "served d' D' = served d D" "same_data d d'"
    "used_q d' = []"
  using assms
proof (induction d arbitrary: D thesis rule: vintr_loop.induct)
  case (1 d)
  note inv = "1.prems"(2) and run = "1.prems"(3) and slp = "1.prems"(4)
  show ?case
  proof (cases "v_used_idx d = v_used_ix d")
    case True
    then show ?thesis using "1.prems" by (intro "1.prems"(1) [of d D]) (simp_all add: vintr_loop.simps used_q_def)
  next
    case False
    let ?n = "unat (ue_id (v_used d (unat (v_used_idx d) mod NUM)))"
    obtain b w i1 i2 where h: "used_q d = ?n # used_q (d\<lparr>v_used_idx := v_used_idx d + 1\<rparr>)" "R ?n = Some (b, w, i1, i2)"
      "?n < NUM" "v_status d ?n = 0" "v_info_b d ?n = Some b" using used_head [OF inv False] by metis
    let ?d = "d\<lparr>v_buf := (v_buf d)(b := (v_buf d b)\<lparr>b_disk := False\<rparr>), v_used_idx := v_used_idx d + 1\<rparr>"
    let ?e = "d\<lparr>v_buf := (v_buf d)(b := (v_buf d b)\<lparr>b_disk := False\<rparr>), v_k := wakeup (Buf_chan b) (v_k d),
                v_used_idx := v_used_idx d + 1\<rparr>"
    note iv = intr_vinv [OF inv h(1,2)]
    have e: "?e = ?d\<lparr>v_k := wakeup (Buf_chan b) (v_k d)\<rparr>" by simp
    have st: "vintr_loop d = vintr_loop ?e" using False h by (simp add: vintr_loop.simps [of d])
    have i: "vinv ?e P R (?n # D)" unfolding e using iv(1) by simp
    have r: "p_state (me (v_k ?e)) \<noteq> SLEEPING" using run by (simp add: wakeup_proc)
    have s: "vsleep ?e" using slp run by (auto simp: vsleep_def asleep_wakeup)
    show ?thesis
    proof (rule "1.IH" [OF False refl _ _ _ _ i r s])
      fix d' D' assume a: "vintr_loop ?e = Ok d'" "vinv d' P R D'" "vsleep d'" "served d' D' = served ?e (?n # D)"
        "same_data ?e d'" "used_q d' = []"
      have "served ?e (?n # D) = served d D" using iv(2) by (simp add: e served_def)
      moreover have "same_data d ?e" using iv(3) by (simp add: e same_data_def)
      ultimately show thesis using a by (intro "1.prems"(1) [of d' D']) (auto simp: st intro: same_data_trans)
    qed (use h in simp_all)
  qed
qed

section \<open>Device steps\<close>

lemma vinv_move:
  assumes inv: "vinv d P R D"
    and tab: "v_desc d' = v_desc d" "v_ops d' = v_ops d" "v_info_b d' = v_info_b d" "v_free d' = v_free d"
    and buf: "\<And>b. b_disk (v_buf d' b) = b_disk (v_buf d b)" "\<And>b. b_blockno (v_buf d' b) = b_blockno (v_buf d b)"
    and que: "distinct (avail_q d' @ v_work d' @ v_exec d' @ used_q d' @ D)"
      "set (avail_q d' @ v_work d' @ v_exec d' @ used_q d' @ D) = set (avail_q d @ v_work d @ v_exec d @ used_q d @ D)"
    and stat: "\<And>h. h \<in> served d' D \<Longrightarrow> v_status d' h = 0"
  shows "vinv d' P R D"
proof -
  have "rw_sector (v_buf d' b) = rw_sector (v_buf d b)" for b by (simp add: rw_sector_def buf)
  then have rq: "request d' h r = request d h r" for h r by (cases r) (simp add: tab)
  have "vtable d' R" using inv unfolding vinv_def vtable_def rq tab by blast
  moreover have "vqueues d' R D" using vinvD(5) [OF inv] que stat by (intro vqueuesI) simp_all
  moreover have "vcalls d' P R D" using inv unfolding vinv_def vcalls_def buf by blast
  ultimately show ?thesis by (simp add: vinv_def)
qed

lemma fetch_vinv:
  assumes inv: "vinv d P R D" and dev: "dev_spec Fetch d d'"
  shows "vinv d' P R D" "served d' D = served d D"
proof -
  let ?n = "unat (v_avail d (unat (v_seen d) mod NUM))"
  have d': "d' = d\<lparr>v_work := v_work d @ [?n], v_seen := v_seen d + 1\<rparr>" and ne: "v_avail_idx d \<noteq> v_seen d"
    using dev by auto
  have a: "avail_q d = ?n # avail_q d'" using vq_ring.deq [OF ne, of "v_avail d"] by (simp add: avail_q_def d')
  have us: "v_work d' = v_work d @ [?n]" "v_exec d' = v_exec d" "used_q d' = used_q d" by (simp_all add: d' used_q_def)
  show sv: "served d' D = served d D" by (simp add: served_def us)
  show "vinv d' P R D"
    by (rule vinv_move [OF inv]) (use vinvD(4) [OF inv] vinvD(6) [OF inv] a us sv in \<open>auto simp: d'\<close>)
qed

lemma publish_vinv:
  assumes inv: "vinv d P R D" and dev: "dev_spec (Publish h) d d'"
  shows "vinv d' P R D" "served d' D = served d D"
proof -
  obtain m where d': "d' = d\<lparr>v_exec := remove1 h (v_exec d), v_used_ix := v_used_ix d + 1,
      v_used := (v_used d)(unat (v_used_ix d) mod NUM := \<lparr>ue_id = of_nat h, ue_len = m\<rparr>)\<rparr>"
    and h: "h \<in> set (v_exec d)" using dev by auto
  have hd: "h \<in> dom R" using vinvD(5) [OF inv] h by simp
  then have hn: "h < NUM" using vinv_heads(1) [OF inv] by blast
  have "0 < length (v_exec d)" using h by (auto simp: length_pos_if_in_set)
  moreover have "length (used_q d) = unat (v_used_ix d - v_used_idx d)" by (simp add: used_q_def)
  ultimately have "unat (v_used_ix d - v_used_idx d) < NUM"
    using vinv_heads(2,3) [OF inv] by (simp only: length_append)
  from vq_ring.enq [OF this, of "v_used d" "\<lparr>ue_id = of_nat h, ue_len = m\<rparr>"]
  have u: "used_q d' = used_q d @ [h]" using hn by (simp add: used_q_def d' unat_small32)
  have ds: "distinct (v_exec d)" using vinvD(4) [OF inv] by simp
  have us: "avail_q d' = avail_q d" "v_work d' = v_work d" "v_exec d' = remove1 h (v_exec d)"
    "set (remove1 h (v_exec d)) = set (v_exec d) - {h}"
    using ds by (simp_all add: avail_q_def d')
  show sv: "served d' D = served d D" using h by (auto simp: served_def us u)
  show "vinv d' P R D"
  proof (rule vinv_move [OF inv])
    show "distinct (avail_q d' @ v_work d' @ v_exec d' @ used_q d' @ D)"
      using vinvD(4) [OF inv] h unfolding us u by (auto simp: us)
    show "set (avail_q d' @ v_work d' @ v_exec d' @ used_q d' @ D) = set (avail_q d @ v_work d @ v_exec d @ used_q d @ D)"
      using h unfolding us u by (auto simp: us)
    show "v_status d' g = 0" if "g \<in> served d' D" for g using vinvD(6) [OF inv] that unfolding sv by (simp add: d')
  qed (simp_all add: d')
qed

lemma request_well_formed:
  assumes "request d h (b, w, i1, i2)"
  shows "well_formed_request h d" "vq_addr (v_desc d (unat (vq_next (v_desc d h)))) = Data b"
    "rq_sector (v_ops d h) = rw_sector (v_buf d b)" "(rq_type (v_ops d h) = VIRTIO_BLK_T_OUT) = w"
  using assms by (auto simp: well_formed_request_def unat_small16 VIRTIO_BLK_T_OUT_def VIRTIO_BLK_T_IN_def Let_def)

lemma carry_out_fields [simp]:
  "v_desc (carry_out h d) = v_desc d" "v_ops (carry_out h d) = v_ops d" "v_info_b (carry_out h d) = v_info_b d"
  "v_free (carry_out h d) = v_free d" "v_avail (carry_out h d) = v_avail d" "v_avail_idx (carry_out h d) = v_avail_idx d"
  "v_seen (carry_out h d) = v_seen d" "v_used (carry_out h d) = v_used d" "v_used_idx (carry_out h d) = v_used_idx d"
  "v_used_ix (carry_out h d) = v_used_ix d" "v_k (carry_out h d) = v_k d"
  "b_disk (v_buf (carry_out h d) c) = b_disk (v_buf d c)" "b_blockno (v_buf (carry_out h d) c) = b_blockno (v_buf d c)"
  by (auto simp: carry_out_def Let_def split: dma.split)

lemma carry_out_status:
  assumes "request d h (b, w, i1, i2)"
  shows "v_status (carry_out h d) = (v_status d)(h := 0)"
  using request_well_formed [OF assms] by (simp add: carry_out_def Let_def)

lemma rw_sector_block:
  assumes "unat n < 2 ^ 31"
  shows "unat (n * 2 :: u32) = 2 * unat n" "unat (ucast (n * 2) :: u64) = 2 * unat n"
proof -
  show "unat (n * 2 :: u32) = 2 * unat n" using assms by (simp add: unat_word_ariths)
  then show "unat (ucast (n * 2) :: u64) = 2 * unat n" by simp
qed

text \<open>The two sectors of a block are those of no other block.\<close>

lemma sector_eq:
  assumes "unat n < 2 ^ 31" "unat m < 2 ^ 31" "k < 2"
  shows "unat ((ucast (m * 2 :: u32) :: u64) + of_nat k - ucast (n * 2 :: u32)) < 2 \<longleftrightarrow> m = n"
    "unat ((ucast (n * 2 :: u32) :: u64) + of_nat k - ucast (n * 2 :: u32)) = k"
proof -
  let ?n = "ucast (n * 2) :: u64" and ?m = "ucast (m * 2) :: u64"
  show "unat (?n + of_nat k - ?n) = k" using assms(3) by (simp add: unat_of_nat)
  have m: "unat (?m + of_nat k) = 2 * unat m + k"
    using assms rw_sector_block(2) [OF assms(2)] by (simp add: unat_word_ariths unat_of_nat)
  show "unat (?m + of_nat k - ?n) < 2 \<longleftrightarrow> m = n"
  proof
    assume "unat (?m + of_nat k - ?n) < 2"
    then have "unat m = unat n"
      unfolding unat_diff_if using m rw_sector_block(2) [OF assms(1)] assms
      by (auto simp: word_le_nat_alt split: if_splits)
    then show "m = n" by (simp only: word_unat_eq_iff)
  next
    assume "m = n"
    then show "unat (?m + of_nat k - ?n) < 2" using assms(3) by (simp add: unat_of_nat)
  qed
qed

lemma transfer_vinv:
  assumes inv: "vinv d P R D" and dev: "dev_spec (Transfer h) d d'"
  obtains b w i1 i2 where "R h = Some (b, w, i1, i2)" "vinv d' P R D" "served d' D = insert h (served d D)"
    "h \<notin> served d D" "d' = (carry_out h d)\<lparr>v_work := remove1 h (v_work d), v_exec := h # v_exec d\<rparr>"
    "dev_events (Transfer h) d = [Exec b w]"
proof -
  have h: "h \<in> set (v_work d)" using dev by simp
  then have "h \<in> dom R" using vinvD(5) [OF inv] by simp
  then obtain b w i1 i2 where R: "R h = Some (b, w, i1, i2)" by auto
  note rq = vinvD(1) [OF inv R]
  have d': "d' = (carry_out h d)\<lparr>v_work := remove1 h (v_work d), v_exec := h # v_exec d\<rparr>"
    using dev request_well_formed(1) [OF rq] by simp
  have ds: "set (remove1 h (v_work d)) = set (v_work d) - {h}" using vinvD(4) [OF inv] by simp
  have us: "avail_q d' = avail_q d" "used_q d' = used_q d" "v_work d' = remove1 h (v_work d)" "v_exec d' = h # v_exec d"
    by (simp_all add: avail_q_def used_q_def d')
  have sv: "served d' D = insert h (served d D)" by (auto simp: served_def us)
  have hs: "h \<notin> served d D" using vinvD(4) [OF inv] h by (auto simp: served_def)
  have "vinv d' P R D"
  proof (rule vinv_move [OF inv])
    show "distinct (avail_q d' @ v_work d' @ v_exec d' @ used_q d' @ D)"
      using vinvD(4) [OF inv] h unfolding us by (auto simp: ds)
    show "set (avail_q d' @ v_work d' @ v_exec d' @ used_q d' @ D) = set (avail_q d @ v_work d @ v_exec d @ used_q d @ D)"
      using h unfolding us by (auto simp: ds)
    show "v_status d' g = 0" if "g \<in> served d' D" for g
      using vinvD(6) [OF inv] that unfolding sv by (auto simp: d' carry_out_status [OF rq])
  qed (simp_all add: d')
  moreover have "dev_events (Transfer h) d = [Exec b w]" using rq request_well_formed(4) [OF rq] by (simp add: dev_events_def)
  ultimately show thesis using that [OF R _ sv hs d'] by blast
qed

lemma same_diskD:
  assumes "same_disk d s"
  shows "bc_buf s b = (v_buf d b)\<lparr>b_disk := False\<rparr>" "unat n < 2 ^ 31 \<Longrightarrow> d_disk s n = vblock d n"
  using assms by (simp_all add: same_disk_def)

lemma vblock_cong: "v_sect d' = v_sect d \<Longrightarrow> vblock d' n = vblock d n"
  by (simp add: vblock_def cong: if_cong)

text \<open>Carrying out a request is the transfer of \<open>disk_rw\<close>.\<close>

lemma carry_out_disk_rw:
  assumes rq: "request d h (b, w, i1, i2)" and n: "unat (b_blockno (v_buf d b)) < 2 ^ 31" and s: "same_disk d s"
  shows "same_disk (carry_out h d) (disk_rw b w s)"
proof (cases w)
  case True
  let ?n = "b_blockno (v_buf d b)" and ?d = "carry_out h d"
  have c: "v_sect ?d = (\<lambda>k. if unat (k - ucast (?n * 2)) < 2
      then (\<lambda>j. if j < 512 then b_data (v_buf d b) (unat (k - ucast (?n * 2)) * 512 + j) else 0) else v_sect d k)"
    "v_buf ?d = v_buf d"
    using True request_well_formed [OF rq] by (simp_all add: carry_out_def Let_def rw_sector_def BSIZE_def fun_eq_iff)
  have "vblock ?d m = ((\<lambda>m. vblock d m)(?n := blk (b_data (v_buf d b)))) m" if m: "unat m < 2 ^ 31" for m
  proof (rule ext)
    fix j
    show "vblock ?d m j = ((\<lambda>m. vblock d m)(?n := blk (b_data (v_buf d b)))) m j"
    proof (cases "j < BSIZE")
      case True
      then have k: "j div 512 < 2" by (simp add: BSIZE_def)
      have "j div 512 * 512 + j mod 512 = j" by simp
      with True sector_eq [OF n m k] show ?thesis by (simp add: vblock_def c blk_def)
    qed (simp add: vblock_def blk_def)
  qed
  then show ?thesis using True same_diskD [OF s] by (simp add: same_disk_def disk_rw_def Let_def c)
next
  case False
  let ?n = "b_blockno (v_buf d b)" and ?d = "carry_out h d"
  have c: "v_sect ?d = v_sect d" "v_buf ?d = (v_buf d)(b := (v_buf d b)\<lparr>b_data := vblock d ?n\<rparr>)"
    using False request_well_formed [OF rq]
    by (simp_all add: carry_out_def Let_def rw_sector_def BSIZE_def vblock_def cong: if_cong)
  have "vblock ?d m = vblock d m" for m by (rule vblock_cong [OF c(1)])
  then show ?thesis using False same_diskD [OF s] n by (simp add: same_disk_def disk_rw_def Let_def c set_data_def bset_def)
qed

section \<open>The driver's steps\<close>

lemma asleep_sleep: "asleep_on c (sleep c' k) p = (if p = k_me k then c = c' else asleep_on c k p)"
  by (auto simp: asleep_on_def sleep_def)

lemma asleep_awake: "p_state (me k) \<noteq> SLEEPING \<Longrightarrow> asleep_on c (awake k) p = asleep_on c k p"
  by (auto simp: asleep_on_def awake_def)

lemma awake_me [simp]: "p_state (k_proc (awake k) p) = p_state (k_proc k p)" "k_me (awake k) = k_me k"
  by (simp_all add: awake_def)

lemma vsleep_awake: "running d \<Longrightarrow> vsleep d \<Longrightarrow> vsleep (d\<lparr>v_k := awake (v_k d)\<rparr>)"
  by (simp add: vsleep_def running_def asleep_awake)

lemma card_free_mono:
  "(\<And>i. v_free d' i \<Longrightarrow> v_free d i) \<Longrightarrow> card {i. i < NUM \<and> v_free d' i} \<le> card {i. i < NUM \<and> v_free d i}"
  by (rule card_mono) auto

lemma same_data_disk: "same_data d d' \<Longrightarrow> same_disk d s \<Longrightarrow> same_disk d' s"
proof -
  assume a: "same_data d d'" and s: "same_disk d s"
  then have "vblock d' n = vblock d n" for n by (intro vblock_cong) (simp add: same_data_def)
  with a s show ?thesis by (simp add: same_data_def same_disk_def)
qed

lemma few_vinv:
  assumes inv: "vinv d P R D" and P: "\<And>v h. P b \<noteq> Some (Want_io v h)" and n: "unat (b_blockno (v_buf d b)) < 2 ^ 31"
    and ds: "\<And>i. \<not> v_free d i \<Longrightarrow> ds i = v_desc d i"
  shows "vinv (d\<lparr>v_desc := ds\<rparr>) (P(b \<mapsto> Want_desc w)) R D"
proof -
  let ?d = "d\<lparr>v_desc := ds\<rparr>"
  have us: "avail_q ?d = avail_q d" "used_q ?d = used_q d" by (simp_all add: avail_q_def used_q_def)
  have "vtable ?d R"
  proof (rule vtableI)
    show "request ?d h r" if "R h = Some r" for h r
      using vinvD(1) [OF inv that] cell_in_use(2) [OF inv that] by (cases r) (simp add: ds)
    show "cells h r \<inter> cells h' r' = {}" if "R h = Some r" "R h' = Some r'" "h \<noteq> h'" for h r h' r'
      using vinvD(2) [OF inv that] .
    show "v_free ?d i = (\<forall>h r. R h = Some r \<longrightarrow> i \<notin> cells h r)" if "i < NUM" for i
      using vinvD(3) [OF inv that] by (simp del: split_paired_All)
  qed
  moreover have "vqueues ?d R D"
    using vinvD(4,5) [OF inv] vinvD(6) [OF inv] by (intro vqueuesI) (simp_all add: us served_def)
  moreover have "vcalls ?d (P(b \<mapsto> Want_desc w)) R D"
  proof (rule vcallsI)
    show "((P(b \<mapsto> Want_desc w)) c = Some (Want_io v h)) = (\<exists>j1 j2. R h = Some (c, v, j1, j2))" for c v h
      using vinvD(7) [OF inv, of c v h] P by auto
    show "b_disk (v_buf ?d c) = (h \<notin> set D)" if "R h = Some (c, v, j1, j2)" for h c v j1 j2
      using vinvD(8) [OF inv that] by simp
    show "unat (b_blockno (v_buf ?d c)) < 2 ^ 31" if "(P(b \<mapsto> Want_desc w)) c \<noteq> None" for c
      using vinvD(9) [OF inv, of c] that n by (cases "c = b") simp_all
  qed
  ultimately show ?thesis by (simp add: vinv_def)
qed

lemma rw_alloc_spec:
  assumes inv: "vinv d P R D" and run: "running d" and slp: "vsleep d" and P: "\<And>v h. P b \<noteq> Some (Want_io v h)"
    and n: "unat (b_blockno (v_buf d b)) < 2 ^ 31"
  obtains r d' R' where "rw_alloc b (rw_sector (v_buf d b)) w d = Ok (r, d')" "vinv d' (P(b := phase_of w r)) R' D"
    "vsleep d'" "served d' D = served d D" "same_data d d'"
    "r = Asleep For_desc \<or> (\<exists>i. r = Asleep (For_io i) \<and> i \<notin> served d D)"
proof (cases rule: alloc3_desc_spec [of d])
  case (got i0 i1 i2)
  let ?f = "d\<lparr>v_free := (\<lambda>i. v_free d i \<and> i \<notin> {i0, i1, i2})\<rparr>"
  define e where e: "e = submit b i0 (format_desc b (rw_sector (v_buf d b)) w i0 i1 i2 ?f)"
  note sf = e [unfolded submit_format [OF got(1)]]
  let ?e = "e\<lparr>v_k := sleep (Buf_chan b) (v_k e)\<rparr>"
  have iv: "vinv e (P(b \<mapsto> Want_io w i0)) (R(i0 \<mapsto> (b, w, i1, i2))) D" "served e D = served d D"
    unfolding e using submit_vinv [OF inv got(1,2) P n] by blast+
  have "rw_alloc b (rw_sector (v_buf d b)) w d = rw_end b i0 e" using got(3) by (simp add: rw_alloc_def e)
  also have "\<dots> = Ok (Asleep (For_io i0), ?e)" by (simp add: rw_end_def sf)
  finally have r: "rw_alloc b (rw_sector (v_buf d b)) w d = Ok (Asleep (For_io i0), ?e)" .
  have k: "v_k e = v_k d" by (simp add: sf)
  have "card {i. i < NUM \<and> v_free ?e i} \<le> card {i. i < NUM \<and> v_free d i}" by (rule card_free_mono) (simp add: sf)
  then have "vsleep ?e"
    using slp unfolding vsleep_def by (auto simp: asleep_sleep k sf)
  moreover have "same_data d ?e" by (auto simp: same_data_def sf)
  moreover have "i0 \<notin> served d D"
    using free_no_head(2) [OF inv, of i0] got(2) vinvD(5) [OF inv] by (auto simp: served_def)
  moreover have "served ?e D = served d D" using iv(2) by (simp add: served_def)
  ultimately show thesis using r iv(1) by (intro that [of "Asleep (For_io i0)" ?e "R(i0 \<mapsto> (b, w, i1, i2))"]) simp_all
next
  case (few k ds)
  let ?e = "d\<lparr>v_desc := ds, v_k := sleep Disk_chan k\<rparr>"
  have r: "rw_alloc b (rw_sector (v_buf d b)) w d = Ok (Asleep For_desc, ?e)" using few(4) by (simp add: rw_alloc_def)
  have run': "p_state (me (v_k d)) \<noteq> SLEEPING" using run by (simp add: running_def)
  have "asleep_on c k p \<Longrightarrow> asleep_on c (v_k d) p" if "p < NPROC" for c p
    using few(2) asleep_wakeup [OF run' that] by auto
  moreover have "k_me k = k_me (v_k d)" using few(2) by auto
  ultimately have "vsleep ?e" using slp few(1) by (auto simp: vsleep_def asleep_sleep)
  moreover have "vinv ?e (P(b \<mapsto> Want_desc w)) R D"
    using few_vinv [OF inv P n few(3)] vinv_other(1) [of "sleep Disk_chan k" "d\<lparr>v_desc := ds\<rparr>"] by simp
  moreover have "served ?e D = served d D" "same_data d ?e" by (simp_all add: served_def used_q_def same_data_def)
  ultimately show thesis using r by (intro that [of "Asleep For_desc" ?e R]) simp_all
qed

lemma rw_end_spec:
  assumes inv: "vinv d P R D" and run: "running d" and slp: "vsleep d" and P: "P b = Some (Want_io w h)"
  obtains (waits) "b_disk (v_buf d b)" "rw_end b h d = Ok (Asleep (For_io h), d\<lparr>v_k := sleep (Buf_chan b) (v_k d)\<rparr>)"
      "vsleep (d\<lparr>v_k := sleep (Buf_chan b) (v_k d)\<rparr>)"
  | (returns) d' where "\<not> b_disk (v_buf d b)" "rw_end b h d = Ok (Return (), d')" "h \<in> served d D"
      "vinv d' (P(b := None)) (R(h := None)) (remove1 h D)" "vsleep d'"
      "served d' (remove1 h D) = served d D - {h}" "same_data d d'"
proof (cases "b_disk (v_buf d b)")
  case True
  then have "vsleep (d\<lparr>v_k := sleep (Buf_chan b) (v_k d)\<rparr>)" using slp by (auto simp: vsleep_def asleep_sleep)
  with True show thesis by (intro waits) (simp_all add: rw_end_def)
next
  case False
  obtain i1 i2 where R: "R h = Some (b, w, i1, i2)" using vinvD(7) [OF inv, of b w h] P by auto
  have h: "h \<in> set D" using vinvD(8) [OF inv R] False by simp
  let ?e = "d\<lparr>v_desc := (v_desc d)(h := null_desc, i1 := null_desc, i2 := null_desc),
          v_free := (v_free d)(h := True, i1 := True, i2 := True), v_info_b := (v_info_b d)(h := None)\<rparr>"
  let ?d = "?e\<lparr>v_k := wakeup Disk_chan (v_k d)\<rparr>"
  have "\<not> v_free d i" if "i \<in> {h, i1, i2}" for i using cell_in_use(2) [OF inv R] that by simp
  then have r: "rw_end b h d = Ok (Return (), ?d)"
    using False free_chain_request [OF vinvD(1) [OF inv R]] by (simp add: rw_end_def)
  have us: "used_q ?e = used_q d" by (simp add: used_q_def)
  have "distinct (v_exec d @ used_q d @ D)" using vinvD(4) [OF inv] by simp
  then have sv: "served ?d (remove1 h D) = served d D - {h}" using h by (auto simp: served_def us)
  have "vsleep ?d" using slp run unfolding vsleep_def by (simp add: asleep_wakeup running_def)
  moreover have "vinv ?d (P(b := None)) (R(h := None)) (remove1 h D)"
    using finish_vinv [OF inv R h] vinv_other(1) [of "wakeup Disk_chan (v_k d)" ?e] by simp
  moreover have "same_data d ?d" by (simp add: same_data_def)
  moreover have "h \<in> served d D" using h by (simp add: served_def)
  ultimately show thesis using r sv False by (intro returns [of ?d]) simp_all
qed

lemma own_vinv:
  assumes inv: "vinv d P R D" and P: "P b = None"
  shows "vinv (d\<lparr>v_buf := (v_buf d)(b := x\<lparr>b_disk := b_disk (v_buf d b)\<rparr>)\<rparr>) P R D" (is "vinv ?d P R D")
proof -
  have fst: "c \<noteq> b" if "R h = Some (c, v, j1, j2)" for h c v j1 j2
    using vinvD(7) [OF inv, of c v h] P that by auto
  have us: "avail_q ?d = avail_q d" "used_q ?d = used_q d" by (simp_all add: avail_q_def used_q_def)
  have "vtable ?d R"
  proof (rule vtableI)
    show "request ?d h r" if "R h = Some r" for h r
      using vinvD(1) [OF inv that] fst that by (cases r) auto
    show "cells h r \<inter> cells h' r' = {}" if "R h = Some r" "R h' = Some r'" "h \<noteq> h'" for h r h' r'
      using vinvD(2) [OF inv that] .
    show "v_free ?d i = (\<forall>h r. R h = Some r \<longrightarrow> i \<notin> cells h r)" if "i < NUM" for i
      using vinvD(3) [OF inv that] by (simp del: split_paired_All)
  qed
  moreover have "vqueues ?d R D"
    using vinvD(4,5) [OF inv] vinvD(6) [OF inv] by (intro vqueuesI) (simp_all add: us served_def)
  moreover have "vcalls ?d P R D"
  proof (rule vcallsI)
    show "(P c = Some (Want_io v h)) = (\<exists>j1 j2. R h = Some (c, v, j1, j2))" for c v h by (rule vinvD(7) [OF inv])
    show "b_disk (v_buf ?d c) = (h \<notin> set D)" if "R h = Some (c, v, j1, j2)" for h c v j1 j2
      using vinvD(8) [OF inv that] by auto
    show "unat (b_blockno (v_buf ?d c)) < 2 ^ 31" if "P c \<noteq> None" for c
      using vinvD(9) [OF inv that] that P by (cases "c = b") simp_all
  qed
  ultimately show ?thesis by (simp add: vinv_def)
qed

section \<open>Simulation\<close>

definition stage :: "nat set \<Rightarrow> rw_phase option \<Rightarrow> status" where
  "stage S ph =
     (case ph of
        None \<Rightarrow> Idle
      | Some (Want_desc w) \<Rightarrow> Called w
      | Some (Want_io w h) \<Rightarrow> if h \<in> S then Served else Called w)"

lemma stage_simps [simp]:
  "stage S None = Idle" "stage S (Some (Want_desc w)) = Called w"
  "stage S (Some (Want_io w h)) = (if h \<in> S then Served else Called w)"
  by (simp_all add: stage_def)

definition vsim :: "vdisk \<Rightarrow> (nat \<Rightarrow> rw_phase option) \<Rightarrow> (nat \<rightharpoonup> vreq) \<Rightarrow> nat list \<Rightarrow> aspec \<Rightarrow> bool" where
  "vsim d P R D y = (vinv d P R D \<and> vsleep d \<and> (\<forall>b. fst y b = stage (served d D) (P b)) \<and> same_disk d (snd y))"

lemma aspec_run_append:
  "aspec_run (es @ fs) y = (case aspec_run es y of None \<Rightarrow> None | Some z \<Rightarrow> aspec_run fs z)"
  by (induction es arbitrary: y) (simp_all split: option.split)

lemma stage_other:
  assumes "vinv d P R D" "R h = Some (b, w, i1, i2)" "c \<noteq> b"
  shows "stage (insert h S) (P c) = stage S (P c)" "stage (S - {h}) (P c) = stage S (P c)"
proof -
  have "P c \<noteq> Some (Want_io v h)" for v using vinvD(7) [OF assms(1), of c v h] assms(2,3) by auto
  then show "stage (insert h S) (P c) = stage S (P c)" "stage (S - {h}) (P c) = stage S (P c)"
    by (auto simp: stage_def split: option.split rw_phase.split)
qed

lemma vsim_data:
  assumes "vsim d P R D (Q, s)" "vinv d' P' R' D'" "vsleep d'" "same_data d d'"
    "\<And>b. Q' b = stage (served d' D') (P' b)"
  shows "vsim d' P' R' D' (Q', s)"
  using assms same_data_disk by (auto simp: vsim_def)

lemma device_sim:
  assumes "virtio_device dev" "dev a d d'" "vsim d P R D y"
  obtains y' where "aspec_run (dev_events a d) y = Some y'" "vsim d' P R D y'"
proof -
  obtain Q s where y: "y = (Q, s)" by (cases y)
  note sim = assms(3) [unfolded y]
  then have inv: "vinv d P R D" and slp: "vsleep d" and Q: "\<And>b. Q b = stage (served d D) (P b)" and s: "same_disk d s"
    by (simp_all add: vsim_def)
  have spec: "dev_spec a d d'" using assms(1,2) by (simp add: virtio_device_def)
  show thesis
  proof (cases a)
    case Fetch
    then have d': "v_k d' = v_k d" "v_free d' = v_free d" "v_buf d' = v_buf d" "v_sect d' = v_sect d" using spec by auto
    have "vsim d' P R D (Q, s)"
      using vsim_data [OF sim] fetch_vinv [OF inv] spec Fetch slp Q d' by (simp add: vsleep_def same_data_def)
    then show thesis using Fetch y by (intro that [of "(Q, s)"]) (simp_all add: dev_events_def)
  next
    case (Publish h)
    then have d': "v_k d' = v_k d" "v_free d' = v_free d" "v_buf d' = v_buf d" "v_sect d' = v_sect d" using spec by auto
    have "vsim d' P R D (Q, s)"
      using vsim_data [OF sim] publish_vinv [OF inv] spec Publish slp Q d' by (simp add: vsleep_def same_data_def)
    then show thesis using Publish y by (intro that [of "(Q, s)"]) (simp_all add: dev_events_def)
  next
    case Irq
    then obtain x where d': "d' = d\<lparr>v_isr := x\<rparr>" using spec by auto
    have "vsim d' P R D (Q, s)"
      using vsim_data [OF sim, of d'] inv slp Q by (simp add: d' vsleep_def same_data_def served_def)
    then show thesis using Irq y by (intro that [of "(Q, s)"]) (simp_all add: dev_events_def)
  next
    case (Transfer h)
    obtain b w i1 i2 where t: "R h = Some (b, w, i1, i2)" "vinv d' P R D" "served d' D = insert h (served d D)"
      "h \<notin> served d D" "d' = (carry_out h d)\<lparr>v_work := remove1 h (v_work d), v_exec := h # v_exec d\<rparr>"
      "dev_events (Transfer h) d = [Exec b w]"
      using transfer_vinv [OF inv spec [unfolded Transfer]] by blast
    have P: "P b = Some (Want_io w h)" using vinvD(7) [OF inv, of b w h] t(1) by blast
    have "unat (b_blockno (v_buf d b)) < 2 ^ 31" using vinvD(9) [OF inv, of b] P by simp
    from carry_out_disk_rw [OF vinvD(1) [OF inv t(1)] this s]
    have "same_disk d' (disk_rw b w s)" using same_data_disk [of "carry_out h d" d'] by (simp add: t(5) same_data_def)
    moreover have "(Q(b := Served)) c = stage (served d' D) (P c)" for c
      using stage_other(1) [OF inv t(1)] P Q unfolding t(3) by (cases "c = b") simp_all
    moreover have "vsleep d'" using slp by (simp add: vsleep_def t(5))
    ultimately have "vsim d' P R D (Q(b := Served), disk_rw b w s)" using t(2) by (simp add: vsim_def)
    moreover have "Q b = Called w" using Q P t(4) by simp
    ultimately show thesis using Transfer t(6) y by (intro that [of "(Q(b := Served), disk_rw b w s)"]) simp_all
  qed
qed

lemma rw_alloc_sim:
  assumes sim: "vsim d P R D (Q, s)" and run: "running d" and P: "\<And>v h. P b \<noteq> Some (Want_io v h)"
    and n: "unat (b_blockno (v_buf d b)) < 2 ^ 31"
    and rw: "rw_alloc b (rw_sector (v_buf d b)) w d = Ok (r, d')"
  obtains R' where "vsim d' (P(b := phase_of w r)) R' D (Q(b := Called w), s)"
proof -
  have inv: "vinv d P R D" and slp: "vsleep d" and Q: "\<And>b. Q b = stage (served d D) (P b)"
    using sim by (simp_all add: vsim_def)
  obtain r' e R' where a: "rw_alloc b (rw_sector (v_buf d b)) w d = Ok (r', e)" "vinv e (P(b := phase_of w r')) R' D"
    "vsleep e" "served e D = served d D" "same_data d e"
    "r' = Asleep For_desc \<or> (\<exists>i. r' = Asleep (For_io i) \<and> i \<notin> served d D)"
    using rw_alloc_spec [OF inv run slp P n] by metis
  have e: "r' = r" "e = d'" using a(1) rw by simp_all
  have "(Q(b := Called w)) c = stage (served d' D) ((P(b := phase_of w r)) c)" for c
    using a(4,6) Q unfolding e by auto
  then show thesis using that [of R'] vsim_data [OF sim a(2,3,5)] unfolding e by blast
qed

lemma rw_end_sim:
  assumes sim: "vsim d P R D (Q, s)" and run: "running d" and P: "P b = Some (Want_io w h)"
    and rw: "rw_end b h d = Ok (r, d')"
  obtains R' D' y where "vsim d' (P(b := phase_of w r)) R' D' y"
    "aspec_run (if r = Return () then [Ret b] else []) (Q, s) = Some y"
proof -
  have inv: "vinv d P R D" and slp: "vsleep d" and Q: "\<And>b. Q b = stage (served d D) (P b)"
    using sim by (simp_all add: vsim_def)
  show thesis
  proof (cases rule: rw_end_spec [OF inv run slp P, case_names waits returns])
    case waits
    then have e: "r = Asleep (For_io h)" "d' = d\<lparr>v_k := sleep (Buf_chan b) (v_k d)\<rparr>" using rw by simp_all
    have p: "P(b := phase_of w r) = P" using P by (auto simp: e)
    have "vsim d' P R D (Q, s)"
      using vsim_data [OF sim, of d'] inv waits(3) Q by (simp add: e same_data_def served_def)
    then show thesis using that [of R D "(Q, s)"] unfolding p by (simp add: e)
  next
    case (returns e)
    then have e: "r = Return ()" "e = d'" using rw by simp_all
    obtain i1 i2 where R: "R h = Some (b, w, i1, i2)" using vinvD(7) [OF inv, of b w h] P by auto
    have "(Q(b := Idle)) c = stage (served d' (remove1 h D)) ((P(b := None)) c)" for c
      using stage_other(2) [OF inv R] Q returns(6) unfolding e by simp
    then have "vsim d' (P(b := None)) (R(h := None)) (remove1 h D) (Q(b := Idle), s)"
      using vsim_data [OF sim returns(4,5,7)] unfolding e by blast
    moreover have "Q b = Served" using Q P returns(3) by simp
    ultimately show thesis using that [of "R(h := None)" "remove1 h D" "(Q(b := Idle), s)"] by (simp add: e)
  qed
qed

lemma vsim_k: "vsim d P R D y \<Longrightarrow> vsleep (d\<lparr>v_k := k\<rparr>) \<Longrightarrow> vsim (d\<lparr>v_k := k\<rparr>) P R D y"
  using same_data_disk [of d "d\<lparr>v_k := k\<rparr>"] by (simp add: vsim_def served_def same_data_def)

lemma vsim_awake: "running d \<Longrightarrow> vsim d P R D y \<Longrightarrow> vsim (d\<lparr>v_k := awake (v_k d)\<rparr>) P R D y"
  by (rule vsim_k) (simp_all add: vsim_def vsleep_awake)

lemma running_awake: "running d \<Longrightarrow> running (d\<lparr>v_k := awake (v_k d)\<rparr>)"
  by (simp add: running_def awake_def)

lemma intr_sim:
  assumes sim: "vsim d P R D (Q, s)" and run: "p_state (me (v_k d)) \<noteq> SLEEPING"
  obtains d' D' where "virtio_disk_intr d = Ok d'" "vsim d' P R D' (Q, s)" "used_q d' = []"
proof -
  have inv: "vinv d P R D" and slp: "vsleep d" and Q: "\<And>b. Q b = stage (served d D) (P b)"
    using sim by (simp_all add: vsim_def)
  let ?d = "mmio_write 100 (v_isr d AND 3) d"
  have i: "vinv ?d P R D" "vsleep ?d" "p_state (me (v_k ?d)) \<noteq> SLEEPING" "served ?d D = served d D" "same_data d ?d"
    using inv slp run by (simp_all add: mmio_write_def vsleep_def served_def same_data_def)
  obtain d' D' where e: "vintr_loop ?d = Ok d'" "vinv d' P R D'" "vsleep d'" "served d' D' = served ?d D" "same_data ?d d'"
    "used_q d' = []" using vintr_loop_spec [OF i(1,3,2)] by metis
  have "vsim d' P R D' (Q, s)"
    using vsim_data [OF sim e(2,3) same_data_trans [OF i(5) e(5)]] Q e(4) i(4) by simp
  then show thesis using that e by (simp add: virtio_disk_intr_def)
qed

lemma vstep_sim:
  assumes "virtio_device dev" "vstep dev x es x'" "vsim (fst x) (snd x) R D y"
  obtains R' D' y' where "aspec_run es y = Some y'" "vsim (fst x') (snd x') R' D' y'"
proof -
  obtain Q s where y: "y = (Q, s)" by (cases y)
  show thesis
    using assms(2)
  proof cases
    case (call P b d w r d')
    have sim: "vsim d P R D (Q, s)" using assms(3) call(1) y by simp
    obtain R' where "vsim d' (P(b := phase_of w r)) R' D (Q(b := Called w), s)"
      using rw_alloc_sim [OF sim call(6) _ call(5) call(7) [unfolded virtio_disk_rw_def]] call(4) by auto
    moreover have "Q b = Idle" using sim call(4) by (simp add: vsim_def)
    ultimately show thesis using that [of "(Q(b := Called w), s)" R' D] call y by simp
  next
    case (again P b w d r d')
    have sim: "vsim d P R D (Q, s)" using assms(3) again(1) y by simp
    then have n: "unat (b_blockno (v_buf d b)) < 2 ^ 31" and Q: "Q b = Called w"
      using vinvD(9) [of d P R D b] again(4) by (simp_all add: vsim_def)
    obtain R' where "vsim d' (P(b := phase_of w r)) R' D (Q(b := Called w), s)"
      using rw_alloc_sim [OF vsim_awake [OF again(5) sim] running_awake [OF again(5)], of b w r d'] again(4,6) n by auto
    then show thesis using that [of "(Q, s)" R' D] again y Q by (simp add: fun_upd_idem)
  next
    case (check P b w h d r d')
    have sim: "vsim d P R D (Q, s)" using assms(3) check(1) y by simp
    obtain R' D' z where "vsim d' (P(b := phase_of w r)) R' D' z"
      "aspec_run (if r = Return () then [Ret b] else []) (Q, s) = Some z"
      using rw_end_sim [OF vsim_awake [OF check(5) sim] running_awake [OF check(5)] check(4,6)] by metis
    then show thesis using that [of z R' D'] check y by simp
  next
    case (intr d d' P)
    have sim: "vsim d P R D (Q, s)" using assms(3) intr(1) y by simp
    obtain D' where "vsim d' P R D' (Q, s)" using intr_sim [OF sim intr(4)] intr(5) by (metis outcome.inject(1))
    then show thesis using that [of "(Q, s)" R D'] intr y by simp
  next
    case (device a d d' P)
    then have "vsim d P R D y" using assms(3) by simp
    then obtain z where "aspec_run (dev_events a d) y = Some z" "vsim d' P R D z"
      by (rule device_sim [OF assms(1) device(4)])
    then show thesis using that [of z R D] device by simp
  next
    case (own P b d z)
    have sim: "vsim d P R D (Q, s)" using assms(3) own(1) y by simp
    let ?d = "d\<lparr>v_buf := (v_buf d)(b := z\<lparr>b_disk := b_disk (v_buf d b)\<rparr>)\<rparr>"
    have sv: "served ?d D = served d D" by (simp add: served_def used_q_def)
    have "vblock ?d n = vblock d n" for n by (rule vblock_cong) simp
    then have "same_disk ?d (bset b (\<lambda>_. z\<lparr>b_disk := False\<rparr>) s)"
      using sim by (auto simp: vsim_def same_disk_def bset_def)
    moreover have "vsleep ?d" using sim by (auto simp: vsim_def vsleep_def)
    ultimately have "vsim ?d P R D (Q, bset b (\<lambda>_. z\<lparr>b_disk := False\<rparr>) s)"
      using sim own_vinv [of d P R D b z] own(4) sv by (simp add: vsim_def)
    moreover have "Q b = Idle" using sim own(4) by (simp add: vsim_def)
    ultimately show thesis using that [of "(Q, bset b (\<lambda>_. z\<lparr>b_disk := False\<rparr>) s)" R D] own y by simp
  next
    case (sched k d P)
    have sim: "vsim d P R D (Q, s)" using assms(3) sched(1) y by simp
    then have "vsleep (d\<lparr>v_k := k\<rparr>)" using sched(4) by (auto simp: vsim_def vsleep_def disk_chan_def)
    from vsim_k [OF sim this] show thesis using that [of "(Q, s)" R D] sched y by simp
  qed
qed

lemma vstart_sim: "vstart d \<Longrightarrow> same_disk d s \<Longrightarrow> vsim d (\<lambda>_. None) (\<lambda>_. None) [] (\<lambda>_. Idle, s)"
  by (auto simp: vstart_def vsim_def vinv_def vtable_def vqueues_def vcalls_def served_def avail_q_def used_q_def
      ring_def vsleep_def)

lemma vrun_sim:
  assumes "vrun dev x es x'" "virtio_device dev" "vsim (fst x) (snd x) R D y"
  obtains R' D' y' where "aspec_run es y = Some y'" "vsim (fst x') (snd x') R' D' y'"
  using assms
proof (induction arbitrary: thesis)
  case (none x)
  then show ?case by simp
next
  case (more x es y' fs z)
  obtain R1 D1 y1 where a: "aspec_run es y = Some y1" "vsim (fst y') (snd y') R1 D1 y1"
    using more.IH more.prems(2,3) by blast
  obtain R2 D2 y2 where "aspec_run fs y1 = Some y2" "vsim (fst z) (snd z) R2 D2 y2"
    by (rule vstep_sim [OF more.prems(2) more.hyps(2) a(2)])
  then show ?case using more.prems(1) a(1) by (simp add: aspec_run_append)
qed

lemma reached:
  assumes "virtio_device dev" "vstart d0" "vrun dev (d0, \<lambda>_. None) es (d, P)"
  obtains R D y where "vsim d P R D y"
proof -
  let ?s = "\<lparr>bc_buf = (\<lambda>b. (v_buf d0 b)\<lparr>b_disk := False\<rparr>), bc_pid = 0, d_disk = vblock d0, d_trace = []\<rparr>"
  have "same_disk d0 ?s" by (simp add: same_disk_def)
  from vrun_sim [OF assms(3,1)] vstart_sim [OF assms(2) this] show thesis using that by (metis fst_conv snd_conv)
qed

text \<open>The initialization of the driver leaves it ready.\<close>

lemma free_all: "i < n \<Longrightarrow> fold (\<lambda>i f. f(i := True)) [0..<n] f i"
  by (induction n) (auto simp: less_Suc_eq)

lemma virtio_disk_init_start:
  assumes "virtio_disk_init rd d = Ok d'" "v_seen d = 0" "v_used_idx d = 0" "v_work d = []" "v_exec d = []"
    "\<And>p c. p < NPROC \<Longrightarrow> disk_chan c \<Longrightarrow> \<not> asleep_on c (v_k d) p"
  shows "vstart d'"
  using assms
  by (auto simp: virtio_disk_init_def virtq_init_def vstart_def mmio_write_def Let_def free_all asleep_on_def disk_chan_def
      split: if_splits prod.splits)

section \<open>A run\<close>

fun demo_device :: "dev_act \<Rightarrow> vdisk \<Rightarrow> vdisk option" where
  "demo_device Fetch d =
     (if v_seen d = v_avail_idx d then None
      else Some (d\<lparr>v_work := v_work d @ [unat (v_avail d (unat (v_seen d) mod NUM))], v_seen := v_seen d + 1\<rparr>))"
| "demo_device (Transfer h) d =
     (if v_work d \<noteq> [] \<and> hd (v_work d) = h
      then Some ((carry_out h d)\<lparr>v_work := tl (v_work d), v_exec := h # v_exec d\<rparr>) else None)"
| "demo_device (Publish h) d =
     (if h \<in> set (v_exec d)
      then Some (d\<lparr>v_exec := remove1 h (v_exec d), v_used_ix := v_used_ix d + 1,
               v_used := (v_used d)(unat (v_used_ix d) mod NUM := \<lparr>ue_id = of_nat h, ue_len = 0\<rparr>)\<rparr>)
      else None)"
| "demo_device Irq d = Some (d\<lparr>v_isr := 1\<rparr>)"

lemma demo_device_ok: "virtio_device (\<lambda>a d d'. demo_device a d = Some d')"
  unfolding virtio_device_def
proof (intro allI impI)
  fix a d d'
  assume a: "demo_device a d = Some d'"
  show "dev_spec a d d'"
  proof (cases a)
    case (Transfer h)
    then have "v_work d = h # tl (v_work d)" using a by (cases "v_work d") (auto split: if_splits)
    then have "tl (v_work d) = remove1 h (v_work d)" "h \<in> set (v_work d)" by (metis remove1.simps(2), metis list.set_intros(1))
    then show ?thesis using a Transfer by (auto split: if_splits)
  qed (use a in \<open>auto split: if_splits\<close>)
qed

definition demo_vdisk :: vdisk where
  "demo_vdisk = \<lparr>v_desc = (\<lambda>_. null_desc), v_avail_idx = 0, v_avail = (\<lambda>_. 0), v_used_ix = 0,
     v_used = (\<lambda>_. \<lparr>ue_id = 0, ue_len = 0\<rparr>), v_free = (\<lambda>_. True), v_used_idx = 0, v_info_b = (\<lambda>_. None),
     v_status = (\<lambda>_. 0), v_ops = (\<lambda>_. \<lparr>rq_type = 0, rq_reserved = 0, rq_sector = 0\<rparr>), v_buf = (\<lambda>_. buf0),
     v_k = pset 0 (\<lambda>p. p\<lparr>p_state := RUNNING\<rparr>) ((y_k (boot_sys two_pages 0 0))\<lparr>k_me := 0\<rparr>), v_mmio = [], v_isr = 0,
     v_seen = 0, v_work = [], v_exec = [], v_sect = (\<lambda>_ _. 0)\<rparr>"

lemma demo_k: "k_me (v_k demo_vdisk) = 0" "p_state (k_proc (v_k demo_vdisk) 0) = RUNNING" "\<not> asleep_on c (v_k demo_vdisk) p"
  by (auto simp: demo_vdisk_def boot_sys_def procinit_def procinit_fold asleep_on_def zero_proc_def)

lemma demo_start: "vstart demo_vdisk"
  using demo_k(3) by (simp add: vstart_def, simp add: demo_vdisk_def)

lemma demo_alloc: "alloc3_desc demo_vdisk = Ok (Some [0, 1, 2], demo_vdisk\<lparr>v_free := (\<lambda>i. i \<notin> {0, 1, 2})\<rparr>)"
  by (simp add: alloc3_desc_def eval_nat_numeral alloc_desc_def NUM_def demo_vdisk_def fun_eq_iff)

lemma demo_call:
  obtains d where "virtio_disk_rw 0 True demo_vdisk = Ok (Asleep (For_io 0), d)" "request d 0 (0, True, 1, 2)"
    "v_seen d = 0" "v_avail_idx d = 1" "v_avail d 0 = 0" "v_work d = []" "v_exec d = []" "v_used_ix d = 0" "v_used_idx d = 0"
    "\<forall>i. v_free d i = (i \<notin> {0, 1, 2})"
proof -
  let ?f = "demo_vdisk\<lparr>v_free := (\<lambda>i. i \<notin> {0, 1, 2})\<rparr>"
  define e where e: "e = submit 0 0 (format_desc 0 (rw_sector buf0) True 0 1 2 ?f)"
  have "distinct [0, 1, 2 :: nat]" by simp
  note s = e [unfolded submit_format [OF this]]
  let ?d = "e\<lparr>v_k := sleep (Buf_chan 0) (v_k e)\<rparr>"
  have "v_buf demo_vdisk 0 = buf0" by (simp add: demo_vdisk_def)
  then have "virtio_disk_rw 0 True demo_vdisk = rw_end 0 0 e"
    using demo_alloc by (simp add: virtio_disk_rw_def rw_alloc_def e)
  also have "\<dots> = Ok (Asleep (For_io 0), ?d)" by (simp add: rw_end_def s)
  finally show thesis by (rule that) (simp_all add: s demo_vdisk_def NUM_def)
qed

lemma demo_run:
  "\<exists>d. vrun (\<lambda>a d d'. demo_device a d = Some d') (demo_vdisk, \<lambda>_. None) [Call 0 True, Exec 0 True, Ret 0] (d, \<lambda>_. None)"
proof -
  let ?dev = "\<lambda>a d d'. demo_device a d = Some d'" and ?k = "v_k demo_vdisk" and ?P = "\<lambda>_ :: nat. None :: rw_phase option"
  let ?P1 = "?P(0 \<mapsto> Want_io True 0)"
  have run: "running (d\<lparr>v_k := ?k\<rparr>)" "running demo_vdisk" for d using demo_k by (simp_all add: running_def NPROC_def)
  have sched: "vstep ?dev (d, P) [] (d\<lparr>v_k := ?k\<rparr>, P)" for d P by (rule vstep.sched) (simp add: demo_k)
  obtain d1 where d1: "virtio_disk_rw 0 True demo_vdisk = Ok (Asleep (For_io 0), d1)" "request d1 0 (0, True, 1, 2)"
    "v_seen d1 = 0" "v_avail_idx d1 = 1" "v_avail d1 0 = 0" "v_work d1 = []" "v_exec d1 = []" "v_used_ix d1 = 0" "v_used_idx d1 = 0"
    "\<forall>i. v_free d1 i = (i \<notin> {0, 1, 2})" by (rule demo_call)
  define d2 where d2: "d2 = d1\<lparr>v_work := [0], v_seen := 1\<rparr>"
  define d3 where d3: "d3 = (carry_out 0 d2)\<lparr>v_work := [], v_exec := [0]\<rparr>"
  define d4 where d4: "d4 = d3\<lparr>v_exec := [], v_used_ix := 1, v_used := (v_used d3)(0 := \<lparr>ue_id = 0, ue_len = 0\<rparr>)\<rparr>"
  define d5 where d5: "d5 = d4\<lparr>v_k := ?k\<rparr>"
  define d6 where d6: "d6 = (mmio_write 100 (v_isr d5 AND 3) d5)\<lparr>v_buf := (v_buf d5)(0 := (v_buf d5 0)\<lparr>b_disk := False\<rparr>),
    v_k := wakeup (Buf_chan 0) ?k, v_used_idx := 1\<rparr>"
  define d7 where d7: "d7 = d6\<lparr>v_k := ?k\<rparr>"
  have r2: "request d2 0 (0, True, 1, 2)" using d1(2) by (simp add: d2)
  have st: "v_status d5 0 = 0" "v_info_b d5 0 = Some 0"
    using carry_out_status [OF r2] r2 by (simp_all add: d5 d4 d3)
  have "rw_sector (v_buf d7 0) = rw_sector (v_buf d2 0)" by (simp add: d7 d6 d5 d4 d3 rw_sector_def)
  then have r7: "request (d7\<lparr>v_k := awake ?k\<rparr>) 0 (0, True, 1, 2)" using r2 by (simp add: d7 d6 d5 d4 d3 mmio_write_def)
  have f7: "\<not> v_free (d7\<lparr>v_k := awake ?k\<rparr>) i" if "i \<in> {0, 1, 2}" for i
    using that d1(10) by (simp add: d7 d6 d5 d4 d3 d2 mmio_write_def)
  have nb: "\<not> b_disk (v_buf d7 0)" by (simp add: d7 d6)
  obtain d8 where d8: "rw_end 0 0 (d7\<lparr>v_k := awake (v_k d7)\<rparr>) = Ok (Return (), d8)"
    using free_chain_request [OF r7 f7] nb by (simp add: rw_end_def d7)
  have "vrun ?dev (demo_vdisk, ?P) ([] @ [Call 0 True]) (d1, ?P1)"
    using vstep.call [of ?P 0 demo_vdisk True "Asleep (For_io 0)" d1 ?dev] d1(1) run
    by (intro vrun.more [OF vrun.none]) (simp add: demo_vdisk_def buf0_def)
  then have "vrun ?dev (demo_vdisk, ?P) ([Call 0 True] @ dev_events Fetch d1) (d2, ?P1)"
    using d1 by (intro vrun.more [OF _ vstep.device [of ?dev Fetch]]) (simp_all add: d2)
  then have "vrun ?dev (demo_vdisk, ?P) ([Call 0 True] @ dev_events (Transfer 0) d2) (d3, ?P1)"
    using d1 by (intro vrun.more [OF _ vstep.device [of ?dev "Transfer 0"]]) (simp_all add: d2 d3 dev_events_def)
  then have "vrun ?dev (demo_vdisk, ?P) ([Call 0 True, Exec 0 True] @ dev_events (Publish 0) d3) (d4, ?P1)"
    using d1 request_well_formed(4) [OF r2] r2
    by (intro vrun.more [OF _ vstep.device [of ?dev "Publish 0"]]) (simp_all add: d3 d4 dev_events_def, simp_all add: d2)
  then have "vrun ?dev (demo_vdisk, ?P) ([Call 0 True, Exec 0 True] @ []) (d5, ?P1)"
    unfolding d5 by (intro vrun.more [OF _ sched]) (simp add: dev_events_def)
  then have run5: "vrun ?dev (demo_vdisk, ?P) [Call 0 True, Exec 0 True] (d5, ?P1)" by simp
  define m where m: "m = mmio_write 100 (v_isr d5 AND 3) d5"
  have mf: "v_used_idx m = 0" "v_used_ix m = 1" "ue_id (v_used m 0) = 0" "v_status m 0 = 0" "v_info_b m 0 = Some 0"
    "v_k m = ?k" "v_buf m = v_buf d5"
    using st d1 by (simp_all add: m mmio_write_def, simp_all add: d5 d4 d3 d2)
  have "vintr_loop d6 = Ok d6" by (simp add: vintr_loop.simps [of d6]) (simp add: d6 d5 d4 mmio_write_def)
  moreover have "vintr_loop m = vintr_loop d6"
    using mf by (simp add: vintr_loop.simps [of m] NUM_def, simp add: d6 m)
  ultimately have "virtio_disk_intr d5 = Ok d6" by (simp add: virtio_disk_intr_def m)
  then have "vrun ?dev (demo_vdisk, ?P) ([Call 0 True, Exec 0 True] @ []) (d6, ?P1)"
    by (intro vrun.more [OF run5 vstep.intr]) (simp_all add: d5 demo_k)
  from vrun.more [OF this sched] have "vrun ?dev (demo_vdisk, ?P) [Call 0 True, Exec 0 True] (d7, ?P1)" by (simp add: d7)
  moreover have "vstep ?dev (d7, ?P1) [Ret 0] (d8, ?P)"
    using vstep.check [of ?P1 0 True 0 d7 "Return ()" d8 ?dev] d8 run by (simp add: d7 fun_upd_idem)
  ultimately have "vrun ?dev (demo_vdisk, ?P) ([Call 0 True, Exec 0 True] @ [Ret 0]) (d8, ?P)" by (rule vrun.more)
  then show ?thesis by auto
qed

section \<open>Properties\<close>

text \<open>C4. The disk driver is linearizable.  Whatever the interleaving of calls of \<^verbatim>\<open>virtio_disk_rw\<close>,
  of steps of the device and of interrupts, the events of a run are accepted by the
  sequential disk: for every buffer a call, one transfer, which is exactly \<open>disk_rw\<close> on the state
  at that moment, and the return, in this order.  Buffers and sectors are at every moment what
  the transfers so far make of them, and a buffer is idle exactly when no call is pending for it.\<close>

theorem virtio_linearizable:
  assumes "virtio_device dev" "vstart d0" "same_disk d0 s0" "vrun dev (d0, \<lambda>_. None) es (d, P)"
  shows "\<exists>Q s. aspec_run es (\<lambda>_. Idle, s0) = Some (Q, s) \<and> same_disk d s \<and> (\<forall>b. (P b = None) = (Q b = Idle))"
proof -
  obtain R D Q s where a: "aspec_run es (\<lambda>_. Idle, s0) = Some (Q, s)" "vsim d P R D (Q, s)"
    using vrun_sim [OF assms(4,1)] vstart_sim [OF assms(2,3)] by (metis fst_conv snd_conv surj_pair)
  moreover have "(P b = None) = (Q b = Idle)" for b
    using a(2) by (auto simp: vsim_def stage_def split: option.splits rw_phase.splits)
  ultimately show ?thesis by (auto simp: vsim_def)
qed

theorem virtio_linearizable_witness:
  "\<exists>s0 d Q s. vrun (\<lambda>a d d'. demo_device a d = Some d') (demo_vdisk, \<lambda>_. None) [Call 0 True, Exec 0 True, Ret 0] (d, \<lambda>_. None)
     \<and> aspec_run [Call 0 True, Exec 0 True, Ret 0] (\<lambda>_. Idle, s0) = Some (Q, s) \<and> same_disk d s"
proof -
  let ?s = "\<lparr>bc_buf = (\<lambda>_. buf0), bc_pid = 0, d_disk = vblock demo_vdisk, d_trace = []\<rparr>"
  obtain d where d: "vrun (\<lambda>a d d'. demo_device a d = Some d') (demo_vdisk, \<lambda>_. None) [Call 0 True, Exec 0 True, Ret 0] (d, \<lambda>_. None)"
    using demo_run by blast
  have "same_disk demo_vdisk ?s" by (simp add: same_disk_def, simp add: demo_vdisk_def buf0_def)
  from virtio_linearizable [OF demo_device_ok demo_start this d] show ?thesis using d by blast
qed



text \<open>C16. No wakeup is lost and the driver does not deadlock: while a call is pending, in every state
  that a run reaches, the device has work, or the interrupt handler has completions to
  process, or some pending call can go on: its request has been completed and no process sleeps on
  its buffer, or three descriptors are free and no process sleeps for descriptors.\<close>

theorem virtio_progress:
  assumes "virtio_device dev" "vstart d0" "vrun dev (d0, \<lambda>_. None) es (d, P)" "P b \<noteq> None"
  shows "v_seen d \<noteq> v_avail_idx d \<or> v_work d \<noteq> [] \<or> v_exec d \<noteq> [] \<or> v_used_idx d \<noteq> v_used_ix d
    \<or> (\<exists>c w h. P c = Some (Want_io w h) \<and> \<not> b_disk (v_buf d c) \<and> (\<forall>p < NPROC. \<not> asleep_on (Buf_chan c) (v_k d) p))
    \<or> (\<exists>w. P b = Some (Want_desc w)) \<and> 3 \<le> card {i. i < NUM \<and> v_free d i}
        \<and> (\<forall>p < NPROC. \<not> asleep_on Disk_chan (v_k d) p)"
proof -
  obtain R D y where "vsim d P R D y" using reached [OF assms(1-3)] by metis
  then have inv: "vinv d P R D" and slp: "vsleep d" by (simp_all add: vsim_def)
  show ?thesis
  proof (cases "avail_q d = [] \<and> v_work d = [] \<and> v_exec d = [] \<and> used_q d = []")
    case False
    then show ?thesis by (auto simp: avail_q_def used_q_def)
  next
    case True
    then have dom: "dom R = set D" using vinvD(5) [OF inv] by simp
    show ?thesis
    proof (cases "R = (\<lambda>_. None)")
      case True
      then have "v_free d i" if "i < NUM" for i using vinvD(3) [OF inv that] by simp
      then have c: "{i. i < NUM \<and> v_free d i} = {..<NUM}" by auto
      then have "3 \<le> card {i. i < NUM \<and> v_free d i}" by (simp only: card_lessThan) (simp add: NUM_def)
      moreover have "\<exists>w. P b = Some (Want_desc w)"
        using assms(4) vinvD(7) [OF inv, of b] True by (cases "P b"; cases "the (P b)") auto
      ultimately show ?thesis using slp by (auto simp: vsleep_def)
    next
      case False
      then obtain h r where "R h = Some r" by fastforce
      then obtain c w i1 i2 where R: "R h = Some (c, w, i1, i2)" by (cases r) auto
      then have "h \<in> set D" using dom by auto
      then have "\<not> b_disk (v_buf d c)" using vinvD(8) [OF inv R] by simp
      moreover have "P c = Some (Want_io w h)" using vinvD(7) [OF inv, of c w h] R by blast
      ultimately show ?thesis using slp unfolding vsleep_def by blast
    qed
  qed
qed

theorem virtio_progress_witness:
  "\<exists>d. vrun (\<lambda>a d d'. demo_device a d = Some d') (demo_vdisk, \<lambda>_. None) [Call 0 True] (d, [0 \<mapsto> Want_io True 0])
     \<and> (v_seen d \<noteq> v_avail_idx d \<or> v_work d \<noteq> [] \<or> v_exec d \<noteq> [] \<or> v_used_idx d \<noteq> v_used_ix d
        \<or> (\<exists>c w h. [0 \<mapsto> Want_io True 0] c = Some (Want_io w h) \<and> \<not> b_disk (v_buf d c)
             \<and> (\<forall>p < NPROC. \<not> asleep_on (Buf_chan c) (v_k d) p)))"
proof -
  let ?dev = "\<lambda>a d d'. demo_device a d = Some d'"
  obtain d where d: "virtio_disk_rw 0 True demo_vdisk = Ok (Asleep (For_io 0), d)" by (rule demo_call)
  have "running demo_vdisk" using demo_k by (simp add: running_def NPROC_def)
  then have "vstep ?dev (demo_vdisk, \<lambda>_. None) [Call 0 True] (d, [0 \<mapsto> Want_io True 0])"
    using vstep.call [of "\<lambda>_. None" 0 demo_vdisk True "Asleep (For_io 0)" d ?dev] d by (simp add: demo_vdisk_def buf0_def)
  from vrun.more [OF vrun.none this]
  have r: "vrun ?dev (demo_vdisk, \<lambda>_. None) [Call 0 True] (d, [0 \<mapsto> Want_io True 0])" by simp
  have "[0 \<mapsto> Want_io True 0] 0 \<noteq> (None :: rw_phase option)" by simp
  from virtio_progress [OF demo_device_ok demo_start r this] r show ?thesis by (intro exI [of _ d]) simp
qed

end
