(* ===== verification/Xv6_Grep.thy ===== *)
theory Xv6_Grep
  imports Xv6_Prelude
begin

text \<open>
  \<^verbatim>\<open>user/grep.c\<close>: the regular expression matcher and the loop over the lines of a file.

  A C string is the list of its characters without the final NUL, so the empty list is a
  pointer to NUL.  \<open>matchhere\<close> and its companions are proved equal to a declarative
  reading of the patterns, and \<open>grep\<close> prints exactly the matching lines however \<^verbatim>\<open>read\<close> cuts the
  file into pieces.
\<close>

section \<open>The matcher\<close>

function matchhere :: "string \<Rightarrow> string \<Rightarrow> bool" and matchstar :: "char \<Rightarrow> string \<Rightarrow> string \<Rightarrow> bool" where
  "matchhere re text =
     (case re of
        [] \<Rightarrow> True
      | c # re1 \<Rightarrow>
          if re1 \<noteq> [] \<and> hd re1 = CHR ''*'' then matchstar c (tl re1) text
          else if c = CHR ''$'' \<and> re1 = [] then text = []
          else if text \<noteq> [] \<and> (c = CHR ''.'' \<or> c = hd text) then matchhere re1 (tl text)
          else False)"
| "matchstar c re text =
     (if matchhere re text then True
      else if text \<noteq> [] \<and> (hd text = c \<or> c = CHR ''.'') then matchstar c re (tl text)
      else False)"
  by pat_completeness auto
termination
  by (relation "measure (\<lambda>x. case x of Inl (re, text) \<Rightarrow> 2 * (length re + length text)
        | Inr (c, re, text) \<Rightarrow> Suc (2 * (length re + length text)))")
    (auto simp: neq_Nil_conv)

declare matchhere.simps [simp del] matchstar.simps [simp del]

fun match_from :: "string \<Rightarrow> string \<Rightarrow> bool" where
  "match_from re [] = matchhere re []"
| "match_from re (x # text) = (if matchhere re (x # text) then True else match_from re text)"

definition match :: "string \<Rightarrow> string \<Rightarrow> bool" where
  "match re text = (if re \<noteq> [] \<and> hd re = CHR ''^'' then matchhere (tl re) text else match_from re text)"

section \<open>The loop over the file\<close>

text \<open>
  The contents of \<^verbatim>\<open>buf\<close> up to \<^verbatim>\<open>m\<close> are a list.  The file descriptor is what is left to read and
  \<open>sz k\<close>, a bound on what the \<open>k\<close>-th call of \<^verbatim>\<open>read\<close> returns: \<^verbatim>\<open>read\<close> gives at least one byte while there
  is one and room for it, and never more than asked for.
\<close>

definition NUL :: char where "NUL = CHR 0x00"
definition NL :: char where "NL = CHR 0x0A"
definition SIZEOF_BUF :: nat where "SIZEOF_BUF = 1024"

fun strchr :: "string \<Rightarrow> char \<Rightarrow> nat option" where
  "strchr [] c = None"
| "strchr (x # s) c =
     (if x = NUL then None else if x = c then Some 0 else map_option Suc (strchr s c))"

lemma strchr_less: "strchr s c = Some q \<Longrightarrow> q < length s"
  by (induction s arbitrary: q) (auto split: if_splits)

function grep_lines :: "string \<Rightarrow> string \<Rightarrow> string \<times> string" where
  "grep_lines re p =
     (case strchr p NL of
        None \<Rightarrow> ([], p)
      | Some q \<Rightarrow>
          let (out, rest) = grep_lines re (drop (Suc q) p)
          in (if match re (take q p) then take (Suc q) p @ out else out, rest))"
  by pat_completeness auto
termination
  by (relation "measure (\<lambda>(re, p). length p)") (auto dest: strchr_less)

declare grep_lines.simps [simp del]

definition read_size :: "nat \<Rightarrow> nat \<Rightarrow> nat \<Rightarrow> nat" where
  "read_size lim want left = min (min want left) (max 1 lim)"

function grep_loop :: "(nat \<Rightarrow> nat) \<Rightarrow> nat \<Rightarrow> string \<Rightarrow> string \<Rightarrow> string \<Rightarrow> string" where
  "grep_loop sz k re b inp =
     (let n = read_size (sz k) (SIZEOF_BUF - length b - 1) (length inp)
      in if n = 0 then []
         else let (out, rest) = grep_lines re (b @ take n inp)
              in out @ grep_loop sz (Suc k) re rest (drop n inp))"
  by pat_completeness auto
termination
  by (relation "measure (\<lambda>(sz, k, re, b, inp). length inp)") (auto simp: read_size_def)

declare grep_loop.simps [simp del]

definition grep :: "(nat \<Rightarrow> nat) \<Rightarrow> string \<Rightarrow> string \<Rightarrow> string" where
  "grep sz re inp = grep_loop sz 0 re [] inp"

section \<open>What a pattern means\<close>

text \<open>A pattern is a sequence of items, each a character or a dot, starred or not, and possibly an
  anchor at its end.\<close>

fun items :: "string \<Rightarrow> (char \<times> bool) list \<times> bool" where
  "items [] = ([], False)"
| "items [c] = (if c = CHR ''$'' then ([], True) else ([(c, False)], False))"
| "items (c # d # re) =
     (if d = CHR ''*'' then let (is, e) = items re in ((c, True) # is, e)
      else let (is, e) = items (d # re) in ((c, False) # is, e))"

definition fits :: "char \<Rightarrow> char \<Rightarrow> bool" where
  "fits c x = (c = CHR ''.'' \<or> c = x)"

fun lang :: "(char \<times> bool) list \<Rightarrow> string set" where
  "lang [] = {[]}"
| "lang ((c, starred) # is) =
     (if starred then {us @ u | us u. (\<forall>x \<in> set us. fits c x) \<and> u \<in> lang is}
      else {x # u | x u. fits c x \<and> u \<in> lang is})"

definition begins :: "(char \<times> bool) list \<times> bool \<Rightarrow> string \<Rightarrow> bool" where
  "begins ie text = (\<exists>u v. text = u @ v \<and> u \<in> lang (fst ie) \<and> (snd ie \<longrightarrow> v = []))"

lemma begins_Nil: "begins ([], e) text = (e \<longrightarrow> text = [])"
  by (auto simp: begins_def)

lemma begins_one: "begins ((c, False) # is, e) text = (text \<noteq> [] \<and> fits c (hd text) \<and> begins (is, e) (tl text))"
  by (cases "text") (auto simp: begins_def Cons_eq_append_conv)

lemma begins_star_iff:
  "begins ((c, True) # is, e) t =
     (\<exists>us u v. t = us @ u @ v \<and> (\<forall>x \<in> set us. fits c x) \<and> u \<in> lang is \<and> (e \<longrightarrow> v = []))"
proof
  assume "begins ((c, True) # is, e) t"
  then obtain w v where w: "t = w @ v" "w \<in> lang ((c, True) # is)" "e \<longrightarrow> v = []" unfolding begins_def by force
  then obtain us u where "w = us @ u" "\<forall>x \<in> set us. fits c x" "u \<in> lang is" by auto
  with w have "t = (us @ u) @ v" "\<forall>x \<in> set us. fits c x" "u \<in> lang is" "e \<longrightarrow> v = []" by simp_all
  then show "\<exists>us u v. t = us @ u @ v \<and> (\<forall>x \<in> set us. fits c x) \<and> u \<in> lang is \<and> (e \<longrightarrow> v = [])" by (metis append.assoc)
next
  assume "\<exists>us u v. t = us @ u @ v \<and> (\<forall>x \<in> set us. fits c x) \<and> u \<in> lang is \<and> (e \<longrightarrow> v = [])"
  then obtain us u v where "t = (us @ u) @ v" "\<forall>x \<in> set us. fits c x" "u \<in> lang is" "e \<longrightarrow> v = []" by (metis append.assoc)
  moreover from this have "us @ u \<in> lang ((c, True) # is)" by auto
  ultimately show "begins ((c, True) # is, e) t" unfolding begins_def by (metis fst_conv snd_conv)
qed

lemma begins_star:
  "begins ((c, True) # is, e) t =
     (begins (is, e) t \<or> t \<noteq> [] \<and> fits c (hd t) \<and> begins ((c, True) # is, e) (tl t))"
proof
  assume "begins ((c, True) # is, e) t"
  then obtain us u v where u: "t = us @ u @ v" "\<forall>x \<in> set us. fits c x" "u \<in> lang is" "e \<longrightarrow> v = []"
    unfolding begins_star_iff by blast
  show "begins (is, e) t \<or> t \<noteq> [] \<and> fits c (hd t) \<and> begins ((c, True) # is, e) (tl t)"
  proof (cases us)
    case Nil
    then show ?thesis using u unfolding begins_def by fastforce
  next
    case (Cons x xs)
    then have "tl t = xs @ u @ v" "\<forall>x \<in> set xs. fits c x" "t \<noteq> []" "fits c (hd t)" using u by auto
    then show ?thesis using u(3,4) unfolding begins_star_iff by blast
  qed
next
  assume "begins (is, e) t \<or> t \<noteq> [] \<and> fits c (hd t) \<and> begins ((c, True) # is, e) (tl t)"
  then show "begins ((c, True) # is, e) t"
  proof
    assume "begins (is, e) t"
    then obtain u v where "t = [] @ u @ v" "u \<in> lang is" "e \<longrightarrow> v = []" by (auto simp: begins_def)
    then show ?thesis unfolding begins_star_iff by (metis empty_iff empty_set)
  next
    assume a: "t \<noteq> [] \<and> fits c (hd t) \<and> begins ((c, True) # is, e) (tl t)"
    then obtain us u v where u: "tl t = us @ u @ v" "\<forall>x \<in> set us. fits c x" "u \<in> lang is" "e \<longrightarrow> v = []"
      unfolding begins_star_iff by blast
    have "t = (hd t # us) @ u @ v" "\<forall>x \<in> set (hd t # us). fits c x" using a u by (cases t; simp)+
    then show ?thesis using u(3,4) unfolding begins_star_iff by blast
  qed
qed

lemma match_items: "matchhere re text = begins (items re) text"
  "matchstar c re text = begins ((c, True) # fst (items re), snd (items re)) text"
proof (induction re "text" and c re "text" rule: matchhere_matchstar.induct)
  case (1 re t)
  show ?case
  proof (cases re)
    case (Cons c re1)
    then show ?thesis
      using "1.IH" by (cases re1; subst matchhere.simps)
        (auto simp: matchhere.simps [of "[]"] begins_Nil begins_one fits_def split: prod.split)
  qed (simp add: matchhere.simps begins_Nil)
next
  case (2 c re t)
  then show ?case
    by (subst begins_star, subst matchstar.simps) (auto simp: fits_def)
qed

lemma match_from_iff: "match_from re t = (\<exists>a b. t = a @ b \<and> matchhere re b)"
proof (induction t)
  case Nil
  then show ?case by simp
next
  case (Cons x t)
  have "(\<exists>a b. x # t = a @ b \<and> matchhere re b) = (matchhere re (x # t) \<or> (\<exists>a b. t = a @ b \<and> matchhere re b))"
    by (auto simp: Cons_eq_append_conv)
  then show ?case using Cons.IH by simp
qed

section \<open>What is printed\<close>

fun split_lines :: "string \<Rightarrow> string \<Rightarrow> string list \<times> string" where
  "split_lines cur [] = ([], cur)"
| "split_lines cur (x # s) =
     (if x = NL then let (ls, r) = split_lines [] s in (cur # ls, r) else split_lines (cur @ [x]) s)"

text \<open>The complete lines of a file, and what follows the last newline.\<close>

definition lines_of :: "string \<Rightarrow> string list" where
  "lines_of s = fst (split_lines [] s)"

definition rest_of :: "string \<Rightarrow> string" where
  "rest_of s = snd (split_lines [] s)"

lemma split_lines_word: "NL \<notin> set a \<Longrightarrow> split_lines cur (a @ b) = split_lines (cur @ a) b"
  by (induction a arbitrary: cur) auto

lemma lines_word: "NL \<notin> set a \<Longrightarrow> lines_of a = [] \<and> rest_of a = a"
  using split_lines_word [of a "[]" "[]"] by (simp add: lines_of_def rest_of_def)

lemma lines_line:
  "NL \<notin> set a \<Longrightarrow> lines_of (a @ NL # b) = a # lines_of b" "NL \<notin> set a \<Longrightarrow> rest_of (a @ NL # b) = rest_of b"
  using split_lines_word [of a "[]" "NL # b"] by (simp_all add: lines_of_def rest_of_def split: prod.split)

text \<open>Induction over the lines of a string.\<close>

lemma lines_induct [case_names word line]:
  assumes "\<And>a. NL \<notin> set a \<Longrightarrow> P a" "\<And>a b. NL \<notin> set a \<Longrightarrow> P b \<Longrightarrow> P (a @ NL # b)"
  shows "P s"
proof (induction "length s" arbitrary: s rule: less_induct)
  case less
  show ?case
  proof (cases "NL \<in> set s")
    case True
    then obtain a b where "s = a @ NL # b" "NL \<notin> set a" using split_list_first by metis
    then show ?thesis using assms(2) less by simp
  qed (rule assms(1))
qed

lemma lines_append: "lines_of (s @ t) = lines_of s @ lines_of (rest_of s @ t)" "rest_of (s @ t) = rest_of (rest_of s @ t)"
  by (induction s rule: lines_induct) (simp_all add: lines_word lines_line)

lemma rest_word: "NL \<notin> set (rest_of s)"
  by (induction s rule: lines_induct) (simp_all add: lines_word lines_line)

lemma rest_subset: "set (rest_of s) \<subseteq> set s"
  by (induction s rule: lines_induct) (auto simp: lines_word lines_line)

definition short_lines :: "string \<Rightarrow> bool" where
  "short_lines s = (\<forall>l \<in> set (rest_of s # lines_of s). length l < SIZEOF_BUF - 1)"

lemma short_word: "NL \<notin> set a \<Longrightarrow> short_lines (a @ b) \<Longrightarrow> length a < SIZEOF_BUF - 1"
proof (induction b rule: lines_induct)
  case (word b)
  then show ?case using lines_word [of "a @ b"] by (simp add: short_lines_def)
next
  case (line b c)
  then show ?case using lines_line [of "a @ b" c] by (simp add: short_lines_def)
qed

definition printed :: "string \<Rightarrow> string list \<Rightarrow> string" where
  "printed re ls = concat (map (\<lambda>l. l @ [NL]) (filter (match re) ls))"

lemma strchr_word: "NL \<notin> set a \<Longrightarrow> NUL \<notin> set a \<Longrightarrow> strchr a NL = None"
  by (induction a) auto

lemma strchr_line: "NL \<notin> set a \<Longrightarrow> NUL \<notin> set a \<Longrightarrow> strchr (a @ NL # b) NL = Some (length a)"
  by (induction a) (auto simp: NL_def NUL_def)

lemma grep_lines_spec: "NUL \<notin> set p \<Longrightarrow> grep_lines re p = (printed re (lines_of p), rest_of p)"
proof (induction p rule: lines_induct)
  case (word a)
  then show ?case by (subst grep_lines.simps) (simp add: strchr_word lines_word printed_def)
next
  case (line a b)
  then have "grep_lines re (a @ NL # b) =
      (if match re a then a @ NL # printed re (lines_of b) else printed re (lines_of b), rest_of b)"
    by (subst grep_lines.simps) (simp add: strchr_line)
  then show ?case using line(1) by (simp add: lines_line printed_def)
qed

lemma grep_loop_spec:
  assumes "NL \<notin> set b" "NUL \<notin> set (b @ inp)" "short_lines (b @ inp)"
  shows "grep_loop sz k re b inp = printed re (lines_of (b @ inp))"
  using assms
proof (induction "length inp" arbitrary: b inp k rule: less_induct)
  case less
  define n where n: "n = read_size (sz k) (SIZEOF_BUF - length b - 1) (length inp)"
  show ?case
  proof (cases "inp = []")
    case True
    then show ?thesis using less.prems by (subst grep_loop.simps) (simp add: read_size_def lines_word printed_def)
  next
    case False
    have "length b < SIZEOF_BUF - 1" using short_word less.prems by blast
    then have n0: "n \<noteq> 0" using False by (auto simp: n read_size_def less_max_iff_disj)
    let ?p = "b @ take n inp" and ?z = "drop n inp"
    let ?r = "rest_of ?p"
    have all: "?p @ ?z = b @ inp" by simp
    have nul: "NUL \<notin> set ?p" "NUL \<notin> set (?r @ ?z)"
      using less.prems(2) rest_subset [of ?p] by (auto dest: in_set_takeD in_set_dropD)
    have "short_lines (?r @ ?z)"
      using less.prems(3) lines_append [of ?p ?z] unfolding all short_lines_def by auto
    then have "grep_loop sz (Suc k) re ?r ?z = printed re (lines_of (?r @ ?z))"
      using less.hyps [of ?z ?r "Suc k"] rest_word nul(2) n0 False by simp
    moreover have "grep_loop sz k re b inp = printed re (lines_of ?p) @ grep_loop sz (Suc k) re ?r ?z"
      using n0 grep_lines_spec [OF nul(1)] unfolding grep_loop.simps [of sz k] n [symmetric] by simp
    ultimately show ?thesis using lines_append(1) [of ?p ?z] unfolding all by (simp add: printed_def)
  qed
qed

section \<open>Properties\<close>

text \<open>C21. The matcher of \<^verbatim>\<open>grep\<close> implements its pattern language: a pattern, read as a sequence of
  possibly starred characters and dots with optional anchors \<^verbatim>\<open>^\<close> and \<^verbatim>\<open>$\<close>, matches a line exactly when
  some part of the line, at its beginning or end if anchored there, belongs to the language of
  the sequence.\<close>

theorem match_correct:
  "match re s =
     (let anchored = re \<noteq> [] \<and> hd re = CHR ''^'';
          (is, at_end) = items (if anchored then tl re else re)
      in \<exists>a u v. s = a @ u @ v \<and> u \<in> lang is \<and> (anchored \<longrightarrow> a = []) \<and> (at_end \<longrightarrow> v = []))"
proof -
  have "begins ie b = (\<exists>u v. b = u @ v \<and> u \<in> lang (fst ie) \<and> (snd ie \<longrightarrow> v = []))" for ie b by (simp add: begins_def)
  then show ?thesis
    by (simp add: match_def match_from_iff match_items Let_def case_prod_beta) blast
qed

theorem match_correct_witness: "match ''b.$'' ''abc'' \<and> \<not> match ''^b'' ''abc''"
proof
  have "match ''b.$'' ''abc'' = (\<exists>a u v. ''abc'' = a @ u @ v \<and> u \<in> lang [(CHR ''b'', False), (CHR ''.'', False)] \<and> v = [])"
    using match_correct [of "''b.$''" "''abc''"] by (simp del: lang.simps)
  moreover have "''abc'' = ''a'' @ ''bc'' @ []" "''bc'' \<in> lang [(CHR ''b'', False), (CHR ''.'', False)]"
    by (simp_all add: fits_def)
  ultimately show "match ''b.$'' ''abc''" by blast
  have "match ''^b'' ''abc'' = (\<exists>u v. ''abc'' = u @ v \<and> u \<in> lang [(CHR ''b'', False)])"
    using match_correct [of "''^b''" "''abc''"] by (simp del: lang.simps)
  then show "\<not> match ''^b'' ''abc''" by (auto simp: fits_def)
qed

text \<open>C22. However \<^verbatim>\<open>read\<close> cuts a file into pieces, \<^verbatim>\<open>grep\<close> prints exactly the complete lines that match, in
  order, when the file has no NUL byte and no line of 1023 bytes or more.\<close>

theorem grep_prints_matches:
  assumes "NUL \<notin> set inp" "short_lines inp"
  shows "grep sz re inp = concat (map (\<lambda>l. l @ [NL]) (filter (match re) (lines_of inp)))"
  using grep_loop_spec [of "[]" inp] assms by (simp add: grep_def printed_def)

theorem grep_prints_matches_witness:
  "grep (\<lambda>_. 3) ''^a.*c$'' (''abc'' @ NL # ''xabc'' @ NL # ''ac'' @ NL # ''a'')
     = concat (map (\<lambda>l. l @ [NL]) [''abc'', ''ac''])"
proof -
  let ?s = "''abc'' @ NL # ''xabc'' @ NL # ''ac'' @ NL # ''a''"
  have l: "lines_of ?s = [''abc'', ''xabc'', ''ac'']" "rest_of ?s = ''a''" by (simp_all add: lines_of_def rest_of_def NL_def)
  have "NUL \<notin> set ?s" by (simp add: NUL_def NL_def)
  moreover have "short_lines ?s" unfolding short_lines_def l by (simp add: SIZEOF_BUF_def)
  ultimately have "grep (\<lambda>_. 3) ''^a.*c$'' ?s = concat (map (\<lambda>l. l @ [NL]) (filter (match ''^a.*c$'') (lines_of ?s)))"
    by (rule grep_prints_matches)
  then show ?thesis unfolding l by (simp add: match_def matchhere.simps matchstar.simps)
qed

text \<open>A line of 1023 bytes fills the buffer: the next \<^verbatim>\<open>read\<close> asks for 0 bytes and \<^verbatim>\<open>grep\<close> ends as
  at the end of the file.\<close>

lemma grep_long_line:
  assumes "NL \<notin> set b" "length b = SIZEOF_BUF - 1"
  shows "grep_loop sz k re b inp = []"
  using assms by (subst grep_loop.simps) (simp add: read_size_def)

end
