(* ===== verification/Xv6_Rle.thy ===== *)
theory Xv6_Rle
  imports Xv6_Prelude
begin

text \<open>
  The run-length coder of \<^verbatim>\<open>user/compress.c\<close> and \<^verbatim>\<open>user/decompress.c\<close>.

  What \<^verbatim>\<open>read\<close> returns is a list of results, a block of bytes or an error; after the last one it
  returns 0.  Files are lists of bytes.  The two programs are inverse to each other
  exactly on files without a run of more than nine equal bytes, however \<^verbatim>\<open>read\<close> cuts the files
  into blocks.
\<close>

section \<open>compress\<close>

record rle =
  rl_prev :: u8
  rl_count :: int
  rl_out :: "u8 list"

definition write_pair :: "rle \<Rightarrow> rle" where
  "write_pair s = s\<lparr>rl_out := rl_out s @ [rl_prev s, of_int (48 + rl_count s)]\<rparr>"

definition compress_char :: "u8 \<Rightarrow> rle \<Rightarrow> rle" where
  "compress_char ch s =
     (if ch = rl_prev s
      then let s = s\<lparr>rl_count := rl_count s + 1\<rparr> in if rl_count s > 9 then s\<lparr>rl_count := 9\<rparr> else s
      else let s = (if rl_count s > 0 then write_pair s else s) in s\<lparr>rl_prev := ch, rl_count := 1\<rparr>)"

fun compress_reads :: "u8 list option list \<Rightarrow> rle \<Rightarrow> rle" where
  "compress_reads [] s = s"
| "compress_reads (None # rs) s = s"
| "compress_reads (Some buf # rs) s =
     (if buf = [] then s else compress_reads rs (fold compress_char buf s))"

definition compress_file :: "u8 list option list \<Rightarrow> u8 list" where
  "compress_file rs =
     (let s = compress_reads rs \<lparr>rl_prev = 0, rl_count = 0, rl_out = []\<rparr>;
          s = (if rl_count s > 0 then write_pair s else s)
      in rl_out s)"

section \<open>decompress\<close>

datatype rle_error = Unexpected_EOF | Invalid_count int | Write_error | Read_error

text \<open>\<open>wr n\<close> tells whether the write of the \<open>n\<close>-th byte succeeds.\<close>

fun write_run :: "(nat \<Rightarrow> bool) \<Rightarrow> u8 \<Rightarrow> nat \<Rightarrow> u8 list \<Rightarrow> rle_error + u8 list" where
  "write_run wr c 0 out = Inr out"
| "write_run wr c (Suc n) out = (if wr (length out) then write_run wr c n (out @ [c]) else Inl Write_error)"

definition decompress_pair :: "(nat \<Rightarrow> bool) \<Rightarrow> u8 \<Rightarrow> u8 \<Rightarrow> u8 list \<Rightarrow> rle_error + u8 list" where
  "decompress_pair wr c d out =
     (let count = uint d - 48
      in if count < 1 \<or> count > 9 then Inl (Invalid_count count) else write_run wr c (nat count) out)"

text \<open>\<open>decompress_from\<close> has the rest of the block in \<^verbatim>\<open>buf\<close>; \<open>decompress_reads\<close> is at the \<^verbatim>\<open>read\<close> of the
  outer loop.\<close>

function decompress_from :: "(nat \<Rightarrow> bool) \<Rightarrow> u8 list \<Rightarrow> u8 list option list \<Rightarrow> u8 list \<Rightarrow> rle_error + u8 list" where
  "decompress_from wr [] [] out = Inr out"
| "decompress_from wr [] (None # rs) out = Inl Read_error"
| "decompress_from wr [] (Some buf # rs) out = (if buf = [] then Inr out else decompress_from wr buf rs out)"
| "decompress_from wr [c] [] out = Inl Unexpected_EOF"
| "decompress_from wr [c] (None # rs) out = Inl Unexpected_EOF"
| "decompress_from wr [c] (Some buf # rs) out =
     (case buf of
        [] \<Rightarrow> Inl Unexpected_EOF
      | d # buf' \<Rightarrow> (case decompress_pair wr c d out of Inl e \<Rightarrow> Inl e | Inr out \<Rightarrow> decompress_from wr buf' rs out))"
| "decompress_from wr (c # d # buf) rs out =
     (case decompress_pair wr c d out of Inl e \<Rightarrow> Inl e | Inr out \<Rightarrow> decompress_from wr buf rs out)"
  by pat_completeness auto
termination
  by (relation "measures [\<lambda>(wr, buf, rs, out). length rs, \<lambda>(wr, buf, rs, out). length buf]") auto

definition decompress_file :: "(nat \<Rightarrow> bool) \<Rightarrow> u8 list option list \<Rightarrow> rle_error + u8 list" where
  "decompress_file wr rs = decompress_from wr [] rs []"

definition MAX_FILENAME :: nat where "MAX_FILENAME = 256"

definition create_output_filename :: "string \<Rightarrow> string" where
  "create_output_filename inp = take (MAX_FILENAME - 5) inp @ ''.dec''"

section \<open>Runs\<close>

text \<open>The runs of a file, with the longer ones cut to nine, as the coder writes them.\<close>

fun cut_runs :: "u8 \<Rightarrow> nat \<Rightarrow> u8 list \<Rightarrow> (u8 \<times> nat) list" where
  "cut_runs p n [] = (if n > 0 then [(p, n)] else [])"
| "cut_runs p n (x # xs) =
     (if x = p then cut_runs p (min 9 (Suc n)) xs
      else (if n > 0 then [(p, n)] else []) @ cut_runs x 1 xs)"

definition spell :: "(u8 \<times> nat) list \<Rightarrow> u8 list" where
  "spell rs = concat (map (\<lambda>(c, n). replicate n c) rs)"

definition pairs :: "(u8 \<times> nat) list \<Rightarrow> u8 list" where
  "pairs rs = concat (map (\<lambda>(c, n). [c, of_nat (48 + n)]) rs)"

fun long_run :: "u8 \<Rightarrow> nat \<Rightarrow> u8 list \<Rightarrow> bool" where
  "long_run p n [] = False"
| "long_run p n (x # xs) = (if x = p then n \<ge> 9 \<or> long_run p (Suc n) xs else long_run x 1 xs)"

lemma compress_fold:
  assumes "n \<le> 9"
  shows "let s = fold compress_char xs \<lparr>rl_prev = p, rl_count = int n, rl_out = out\<rparr>
    in rl_out (if rl_count s > 0 then write_pair s else s) = out @ pairs (cut_runs p n xs)"
  using assms
proof (induction xs arbitrary: p n out)
  case Nil
  then show ?case by (simp add: write_pair_def pairs_def)
next
  case (Cons x xs)
  show ?case
  proof (cases "x = p")
    case True
    have "compress_char x \<lparr>rl_prev = p, rl_count = int n, rl_out = out\<rparr>
        = \<lparr>rl_prev = p, rl_count = int (min 9 (Suc n)), rl_out = out\<rparr>"
      using True Cons.prems by (auto simp: compress_char_def Let_def)
    then show ?thesis using Cons.IH [of "min 9 (Suc n)" p out] True by simp
  next
    case False
    let ?o = "out @ pairs (if n > 0 then [(p, n)] else [])"
    have "compress_char x \<lparr>rl_prev = p, rl_count = int n, rl_out = out\<rparr> = \<lparr>rl_prev = x, rl_count = int 1, rl_out = ?o\<rparr>"
      using False by (auto simp: compress_char_def Let_def write_pair_def pairs_def)
    then show ?thesis using Cons.IH [of 1 x ?o] False by (simp add: pairs_def)
  qed
qed

lemma compress_chunks:
  assumes "\<forall>c \<in> set cs. c \<noteq> []"
  shows "compress_reads (map Some cs) s = fold compress_char (concat cs) s"
  using assms by (induction cs arbitrary: s) auto

lemma compress_file_runs:
  assumes "\<forall>c \<in> set cs. c \<noteq> []"
  shows "compress_file (map Some cs) = pairs (cut_runs 0 0 (concat cs))"
  using compress_fold [of 0 "concat cs" 0 "[]"] by (simp add: compress_file_def compress_chunks [OF assms] Let_def)

lemma write_run_ok: "write_run (\<lambda>_. True) c n out = Inr (out @ replicate n c)"
  by (induction n arbitrary: out) (simp_all add: replicate_append_same)

lemma decompress_pair_ok:
  assumes "1 \<le> n" "n \<le> 9"
  shows "decompress_pair (\<lambda>_. True) c (of_nat (48 + n)) out = Inr (out @ replicate n c)"
proof -
  have "48 + n < 2 ^ LENGTH(8)" using assms by simp
  then have "unat (of_nat (48 + n) :: u8) = 48 + n" by (rule of_nat_inverse [OF refl])
  then have "uint (of_nat (48 + n) :: u8) = 48 + int n" by (metis int_ops(2) of_nat_add of_nat_numeral uint_nat)
  then show ?thesis using assms unfolding decompress_pair_def by (simp add: write_run_ok del: of_nat_add)
qed

lemma pairs_Cons: "pairs ((c, n) # rs) = c # of_nat (48 + n) # pairs rs"
  by (simp add: pairs_def)

lemma decompress_runs:
  assumes "\<forall>c \<in> set cs. c \<noteq> []" "buf @ concat cs = pairs rs" "\<forall>(c, n) \<in> set rs. 1 \<le> n \<and> n \<le> 9"
  shows "decompress_from (\<lambda>_. True) buf (map Some cs) out = Inr (out @ spell rs)"
  using assms
proof (induction "length (buf @ concat cs) + length cs" arbitrary: buf cs rs out rule: less_induct)
  case less
  show ?case
  proof (cases rs)
    case Nil
    then have e: "buf = []" "concat cs = []" using less.prems(2) by (simp_all add: pairs_def)
    then have "cs = []" using less.prems(1) by (cases cs) auto
    then show ?thesis using e Nil by (simp add: spell_def)
  next
    case (Cons r rs')
    obtain c n where r: "r = (c, n)" by (cases r)
    have n: "1 \<le> n" "n \<le> 9" using less.prems(3) Cons r by simp_all
    have p: "buf @ concat cs = c # of_nat (48 + n) # pairs rs'" using less.prems(2) Cons r by (simp add: pairs_Cons)
    have sp: "spell rs = replicate n c @ spell rs'" using Cons r by (simp add: spell_def)
    show ?thesis
    proof (cases buf)
      case Nil
      then obtain c1 cs1 where cs: "cs = c1 # cs1" "c1 \<noteq> []" using p less.prems(1) by (cases cs) auto
      have "decompress_from (\<lambda>_. True) c1 (map Some cs1) out = Inr (out @ spell rs)"
        by (rule less.hyps) (use less.prems cs Nil in simp_all)
      then show ?thesis using cs Nil by simp
    next
      case b: (Cons c' buf1)
      then have c: "c' = c" "buf1 @ concat cs = of_nat (48 + n) # pairs rs'" using p by simp_all
      show ?thesis
      proof (cases buf1)
        case Nil
        then obtain d c1 cs1 where cs: "cs = (d # c1) # cs1" using c(2) less.prems(1) by (cases cs; cases "hd cs") auto
        have d: "d = of_nat (48 + n)" "c1 @ concat cs1 = pairs rs'" using c(2) Nil cs by simp_all
        have "decompress_from (\<lambda>_. True) c1 (map Some cs1) (out @ replicate n c) = Inr ((out @ replicate n c) @ spell rs')"
        proof (rule less.hyps)
          show "length (c1 @ concat cs1) + length cs1 < length (buf @ concat cs) + length cs" by (simp add: cs b)
        qed (use less.prems(1,3) cs d Cons in simp_all)
        then show ?thesis using cs Nil b c(1) d(1) decompress_pair_ok [OF n] by (simp add: sp del: of_nat_add)
      next
        case b2: (Cons d buf2)
        have d: "d = of_nat (48 + n)" "buf2 @ concat cs = pairs rs'" using c(2) b2 by simp_all
        have "decompress_from (\<lambda>_. True) buf2 (map Some cs) (out @ replicate n c) = Inr ((out @ replicate n c) @ spell rs')"
        proof (rule less.hyps)
          show "length (buf2 @ concat cs) + length cs < length (buf @ concat cs) + length cs" by (simp add: b b2)
        qed (use less.prems(1,3) d Cons in simp_all)
        then show ?thesis using b b2 c(1) d(1) decompress_pair_ok [OF n] by (simp add: sp del: of_nat_add)
      qed
    qed
  qed
qed

lemma cut_runs_bound: "n \<le> 9 \<Longrightarrow> \<forall>(c, m) \<in> set (cut_runs p n xs). 1 \<le> m \<and> m \<le> 9"
  by (induction p n xs rule: cut_runs.induct) auto

lemma spell_append [simp]: "spell (rs @ ss) = spell rs @ spell ss" "spell [] = []" "spell ((c, n) # rs) = replicate n c @ spell rs"
  by (simp_all add: spell_def)

lemma cut_length: "n \<le> 9 \<Longrightarrow> length (spell (cut_runs p n xs)) \<le> n + length xs"
proof (induction xs arbitrary: p n)
  case (Cons x xs)
  show ?case
  proof (cases "x = p")
    case True
    have "length (spell (cut_runs p (min 9 (Suc n)) xs)) \<le> min 9 (Suc n) + length xs" by (rule Cons.IH) simp
    then show ?thesis using True by simp
  next
    case False
    then show ?thesis using Cons.IH [of 1 x] by simp
  qed
qed simp

lemma cut_same: "n \<le> 9 \<Longrightarrow> \<not> long_run p n xs \<Longrightarrow> spell (cut_runs p n xs) = replicate n p @ xs"
proof (induction xs arbitrary: p n)
  case (Cons x xs)
  show ?case
  proof (cases "x = p")
    case True
    then have "Suc n \<le> 9" "\<not> long_run p (Suc n) xs" using Cons.prems by auto
    then have "spell (cut_runs p (Suc n) xs) = replicate (Suc n) p @ xs" "min 9 (Suc n) = Suc n" using Cons.IH by (blast, simp)
    then show ?thesis using True by (simp add: replicate_app_Cons_same)
  next
    case False
    then show ?thesis using Cons.IH [of 1 x] Cons.prems by simp
  qed
qed simp

lemma cut_shorter: "n \<le> 9 \<Longrightarrow> long_run p n xs \<Longrightarrow> length (spell (cut_runs p n xs)) < n + length xs"
proof (induction xs arbitrary: p n)
  case (Cons x xs)
  show ?case
  proof (cases "x = p")
    case True
    show ?thesis
    proof (cases "n = 9")
      case 9: True
      then show ?thesis using True cut_length [of 9 p xs] by simp
    next
      case False
      then have "length (spell (cut_runs p (Suc n) xs)) < Suc n + length xs" "min 9 (Suc n) = Suc n"
        using Cons.IH [of "Suc n" p] Cons.prems True by simp_all
      then show ?thesis using True by simp
    qed
  next
    case False
    then show ?thesis using Cons.IH [of 1 x] Cons.prems by simp
  qed
qed simp

section \<open>Properties\<close>

text \<open>C23. However the files are cut into blocks by \<^verbatim>\<open>read\<close>, \<^verbatim>\<open>decompress\<close> accepts what \<^verbatim>\<open>compress\<close> wrote and
  returns the original file exactly when no byte occurs more than nine times in a row; a
  longer run comes back as nine bytes.\<close>

theorem rle_roundtrip:
  assumes "\<forall>c \<in> set cs. c \<noteq> []" "\<forall>c \<in> set ds. c \<noteq> []" "concat ds = compress_file (map Some cs)"
  shows "\<exists>out. decompress_file (\<lambda>_. True) (map Some ds) = Inr out
    \<and> (out = concat cs \<longleftrightarrow> \<not> long_run 0 0 (concat cs)) \<and> length out \<le> length (concat cs)"
proof -
  let ?rs = "cut_runs 0 0 (concat cs)"
  have "decompress_file (\<lambda>_. True) (map Some ds) = Inr (spell ?rs)"
    using decompress_runs [OF assms(2), of "[]" ?rs "[]"] cut_runs_bound [of 0 0 "concat cs"] assms(3)
    by (simp add: decompress_file_def compress_file_runs [OF assms(1)])
  moreover have "spell ?rs = concat cs \<longleftrightarrow> \<not> long_run 0 0 (concat cs)"
    using cut_same [of 0 0 "concat cs"] cut_shorter [of 0 0 "concat cs"] by auto
  ultimately show ?thesis using cut_length [of 0 0 "concat cs"] by simp
qed

theorem rle_roundtrip_witness:
  "\<exists>out. decompress_file (\<lambda>_. True) (map Some [[7], [50, 3], [49]]) = Inr out \<and> out = [7, 7, 3]
     \<and> compress_file (map Some [[7, 7], [3]]) = [7, 50, 3, 49]"
proof -
  have "compress_file (map Some [[7, 7], [3]]) = [7, 50, 3, 49]"
    by (simp add: compress_file_def compress_char_def write_pair_def Let_def)
  moreover from this obtain out where "decompress_file (\<lambda>_. True) (map Some [[7], [50, 3], [49]]) = Inr out"
    "out = concat [[7, 7], [3]] \<longleftrightarrow> \<not> long_run 0 0 (concat [[7, 7], [3]])"
    using rle_roundtrip [of "[[7, 7], [3]]" "[[7], [50, 3], [49]]"] by auto
  ultimately show ?thesis by simp
qed

end
