(* ===== verification/Xv6_Sh.thy ===== *)
theory Xv6_Sh
  imports Xv6_Sysfile
begin

text \<open>
  The parser of the shell, \<^verbatim>\<open>user/sh.c\<close>.

  The command line is a list of characters without NUL; a pointer into it is an index, and the
  character at its end (\<^verbatim>\<open>es\<close>) is NUL.  A parsed command holds the start and end indices of its
  strings, as the C structures hold pointers, until \<open>nulterminate\<close> stores NUL at the ends.
  \<^verbatim>\<open>malloc\<close> is taken to succeed.  \<^verbatim>\<open>panic\<close> prints its message and exits: it is \<open>Panic\<close> here.

  The four mutually recursive procedures take fuel.  It is enough when it is four times
  the rest of the line (plus four), which is what \<open>parsecmd\<close> supplies: the parser never
  runs out of it.
\<close>

section \<open>Commands\<close>

definition MAXARGS :: nat where "MAXARGS = 10"

datatype cmd =
    EXEC "(nat \<times> nat) list"
  | REDIR cmd nat nat u32 nat
  | PIPE cmd cmd
  | LIST cmd cmd
  | BACK cmd

section \<open>Tokens\<close>

definition whitespace :: string where
  "whitespace = [CHR 0x20, CHR 0x09, CHR 0x0D, CHR 0x0A, CHR 0x0B]"

definition sh_symbols :: string where
  "sh_symbols = ''<|>&;()''"

definition at :: "string \<Rightarrow> nat \<Rightarrow> char" where
  "at l i = (if i < length l then l ! i else CHR 0x00)"

function skip_white :: "string \<Rightarrow> nat \<Rightarrow> nat" where
  "skip_white l i = (if i < length l \<and> at l i \<in> set whitespace then skip_white l (Suc i) else i)"
  by pat_completeness auto
termination
  by (relation "measure (\<lambda>(l, i). length l - i)") auto

function skip_word :: "string \<Rightarrow> nat \<Rightarrow> nat" where
  "skip_word l i =
     (if i < length l \<and> at l i \<notin> set whitespace \<and> at l i \<notin> set sh_symbols then skip_word l (Suc i) else i)"
  by pat_completeness auto
termination
  by (relation "measure (\<lambda>(l, i). length l - i)") auto

declare skip_white.simps [simp del] skip_word.simps [simp del]

text \<open>\<open>gettoken\<close> returns the token, the indices \<^verbatim>\<open>q\<close> and \<^verbatim>\<open>eq\<close>, and the new \<^verbatim>\<open>*ps\<close>.\<close>

definition gettoken :: "string \<Rightarrow> nat \<Rightarrow> char \<times> nat \<times> nat \<times> nat" where
  "gettoken l i =
     (let s = skip_white l i; q = s; c = at l s;
          (ret, s) =
            (if c = CHR 0x00 then (c, s)
             else if c \<in> set ''|();&<'' then (c, s + 1)
             else if c = CHR ''>''
                  then (if at l (s + 1) = CHR ''>'' then (CHR ''+'', s + 2) else (c, s + 1))
             else (CHR ''a'', skip_word l s))
      in (ret, q, s, skip_white l s))"

definition peek :: "string \<Rightarrow> nat \<Rightarrow> string \<Rightarrow> bool \<times> nat" where
  "peek l i toks = (let s = skip_white l i in (at l s \<noteq> CHR 0x00 \<and> at l s \<in> set toks, s))"

abbreviation next_pos :: "string \<Rightarrow> nat \<Rightarrow> nat" where
  "next_pos l i \<equiv> snd (snd (snd (gettoken l i)))"

lemma skip_white_bounds: "i \<le> skip_white l i" "i \<le> length l \<Longrightarrow> skip_white l i \<le> length l"
  by (induction l i rule: skip_white.induct) (subst skip_white.simps, auto dest: Suc_leD)+

lemma skip_word_bounds: "i \<le> skip_word l i" "i \<le> length l \<Longrightarrow> skip_word l i \<le> length l"
  by (induction l i rule: skip_word.induct) (subst skip_word.simps, auto dest: Suc_leD)+

lemma skip_white_stop: "skip_white l i < length l \<Longrightarrow> at l (skip_white l i) \<notin> set whitespace"
proof (induction l i rule: skip_white.induct)
  case (1 l i)
  then show ?case by (cases "i < length l \<and> at l i \<in> set whitespace") (simp_all add: skip_white.simps [of l i])
qed

lemma skip_white_idem [simp]: "skip_white l (skip_white l i) = skip_white l i"
  using skip_white_stop [of l i] by (subst skip_white.simps) auto

lemma skip_word_less:
  "i < length l \<Longrightarrow> at l i \<notin> set whitespace \<Longrightarrow> at l i \<notin> set sh_symbols \<Longrightarrow> i < skip_word l i"
  using skip_word_bounds(1) [of "Suc i" l] by (subst skip_word.simps) simp

lemma at_less: "at l i \<noteq> CHR 0x00 \<Longrightarrow> i < length l"
  by (simp add: at_def split: if_splits)

text \<open>A token other than the end of the line is not empty.\<close>

lemma gettoken_bounds:
  assumes "gettoken l i = (t, q, e, j)"
  shows "i \<le> q" "q \<le> e" "e \<le> j" "i \<le> length l \<Longrightarrow> j \<le> length l" "i \<le> length l \<Longrightarrow> e \<le> length l"
    "t \<noteq> CHR 0x00 \<Longrightarrow> q < e"
proof -
  let ?s = "skip_white l i"
  have s: "i \<le> ?s" "i \<le> length l \<Longrightarrow> ?s \<le> length l" by (rule skip_white_bounds)+
  have e: "?s \<le> e \<and> (i \<le> length l \<longrightarrow> e \<le> length l) \<and> (t \<noteq> CHR 0x00 \<longrightarrow> ?s < e)"
  proof -
    have lt: "at l k \<noteq> CHR 0x00 \<Longrightarrow> Suc k \<le> length l" for k using at_less [of l k] by simp
    have "?s < skip_word l ?s" if "at l ?s \<noteq> CHR 0x00" "at l ?s \<notin> set ''|();&<''" "at l ?s \<noteq> CHR ''>''"
      using that skip_word_less [of ?s l] skip_white_stop at_less by (auto simp: sh_symbols_def)
    then show ?thesis
      using assms s skip_word_bounds [of ?s l] lt [of ?s] lt [of "Suc ?s"]
      by (auto simp: gettoken_def Let_def split: if_splits)
  qed
  have qj: "q = ?s" "j = skip_white l e" using assms by (auto simp: gettoken_def Let_def split: if_splits)
  show "i \<le> q" "q \<le> e" "e \<le> j" "i \<le> length l \<Longrightarrow> j \<le> length l" "i \<le> length l \<Longrightarrow> e \<le> length l"
    "t \<noteq> CHR 0x00 \<Longrightarrow> q < e"
    using s e skip_white_bounds [of e l] unfolding qj by auto
qed

lemma peek_bounds:
  assumes "peek l i ts = (b, j)"
  shows "i \<le> j" "i \<le> length l \<Longrightarrow> j \<le> length l" "b \<Longrightarrow> at l j \<noteq> CHR 0x00 \<and> at l j \<in> set ts \<and> j < length l" "skip_white l j = j"
  using assms skip_white_bounds [of i l] at_less [of l j] by (auto simp: peek_def Let_def)

text \<open>After a successful \<open>peek\<close> the next token starts at the index and is not the end of the line.\<close>

lemma gettoken_peeked:
  assumes "peek l i ts = (True, j)" "gettoken l j = (t, q, e, k)"
  shows "t \<noteq> CHR 0x00" "q = j" "j < k"
proof -
  note p = peek_bounds [OF assms(1)]
  show t: "t \<noteq> CHR 0x00" "q = j" using assms(2) p(3,4) by (auto simp: gettoken_def Let_def split: if_splits)
  show "j < k" using gettoken_bounds(3,6) [OF assms(2)] t by simp
qed

lemma two_tokens:
  assumes "(True, j) = peek l i ts" "(t1, q1, e1, k) = gettoken l j" "(t, q, e, m) = gettoken l k"
  shows "length l - m < length l - i"
proof -
  have "i \<le> j" "j < length l" "j < k" "k \<le> m"
    using peek_bounds(1,3) [OF assms(1) [symmetric]] gettoken_peeked(3) [OF assms(1,2) [symmetric]]
      gettoken_bounds(1-3) [OF assms(3) [symmetric]] by simp_all
  then show ?thesis by simp
qed

lemma one_token:
  assumes "(True, j) = peek l i ts" "(t1, q1, e1, k) = gettoken l j"
  shows "length l - k < length l - i"
proof -
  have "i \<le> j" "j < length l" "j < k"
    using peek_bounds(1,3) [OF assms(1) [symmetric]] gettoken_peeked(3) [OF assms(1,2) [symmetric]] by simp_all
  then show ?thesis by simp
qed

section \<open>The parser\<close>

definition redir :: "char \<Rightarrow> cmd \<Rightarrow> nat \<Rightarrow> nat \<Rightarrow> cmd" where
  "redir tok c q e =
     (if tok = CHR ''<'' then REDIR c q e O_RDONLY 0
      else if tok = CHR ''>'' then REDIR c q e (O_WRONLY OR O_CREATE OR O_TRUNC) 1
      else if tok = CHR ''+'' then REDIR c q e (O_WRONLY OR O_CREATE) 1
      else c)"

function parseredirs :: "cmd \<Rightarrow> string \<Rightarrow> nat \<Rightarrow> (cmd \<times> nat) outcome" where
  "parseredirs c l i =
     (case peek l i ''<>'' of (b, i) \<Rightarrow>
        if \<not> b then Ok (c, i)
        else case gettoken l i of (tok, _, _, i) \<Rightarrow>
             case gettoken l i of (t, q, e, i) \<Rightarrow>
               if t \<noteq> CHR ''a'' then Panic ''missing file for redirection''
               else parseredirs (redir tok c q e) l i)"
  by pat_completeness auto
termination
  by (relation "measure (\<lambda>(c, l, i). length l - i)") (auto intro: two_tokens)

declare parseredirs.simps [simp del]
text \<open>\<^verbatim>\<open>while(peek(ps, es, "&"))\<close> of \<^verbatim>\<open>parseline\<close>.\<close>

function back_loop :: "cmd \<Rightarrow> string \<Rightarrow> nat \<Rightarrow> cmd \<times> nat" where
  "back_loop c l i =
     (case peek l i ''&'' of (b, i) \<Rightarrow>
        if \<not> b then (c, i)
        else case gettoken l i of (_, _, _, i) \<Rightarrow> back_loop (BACK c) l i)"
  by pat_completeness auto
termination
  by (relation "measure (\<lambda>(c, l, i). length l - i)") (auto intro: one_token)

declare back_loop.simps [simp del]

text \<open>The loop of \<^verbatim>\<open>parseexec\<close>.  Its variable \<^verbatim>\<open>cmd\<close> points to the \<^verbatim>\<open>execcmd\<close> below the redirections that \<^verbatim>\<open>ret\<close>
  has gathered so far; \<open>add_arg\<close> stores the next element of \<^verbatim>\<open>argv\<close> and \<^verbatim>\<open>eargv\<close> there.\<close>

fun add_arg :: "nat \<Rightarrow> nat \<Rightarrow> cmd \<Rightarrow> cmd" where
  "add_arg q e (EXEC as) = EXEC (as @ [(q, e)])"
| "add_arg q e (REDIR c f ef m fd) = REDIR (add_arg q e c) f ef m fd"
| "add_arg q e c = c"

function exec_args :: "cmd \<Rightarrow> nat \<Rightarrow> string \<Rightarrow> nat \<Rightarrow> (cmd \<times> nat) outcome" where
  "exec_args ret argc l i =
     (case peek l i ''|)&;'' of (b, i) \<Rightarrow>
        if b then Ok (ret, i)
        else case gettoken l i of (tok, q, e, i) \<Rightarrow>
             if tok = CHR 0x00 then Ok (ret, i)
             else if tok \<noteq> CHR ''a'' then Panic ''syntax''
             else let ret = add_arg q e ret; argc = argc + 1
                  in if argc \<ge> MAXARGS then Panic ''too many args''
                     else obind (parseredirs ret l i) (\<lambda>(ret, i). exec_args ret argc l i))"
  by pat_completeness auto
termination
  by (relation "measure (\<lambda>(ret, argc, l, i). MAXARGS - argc)") auto

declare exec_args.simps [simp del]

fun parseline :: "nat \<Rightarrow> string \<Rightarrow> nat \<Rightarrow> (cmd \<times> nat) outcome"
  and parsepipe :: "nat \<Rightarrow> string \<Rightarrow> nat \<Rightarrow> (cmd \<times> nat) outcome"
  and parseexec :: "nat \<Rightarrow> string \<Rightarrow> nat \<Rightarrow> (cmd \<times> nat) outcome"
  and parseblock :: "nat \<Rightarrow> string \<Rightarrow> nat \<Rightarrow> (cmd \<times> nat) outcome" where
  "parseline 0 l i = Diverge"
| "parseline (Suc n) l i =
     obind (parsepipe n l i) (\<lambda>(c, i).
       case back_loop c l i of (c, i) \<Rightarrow>
       case peek l i '';'' of (b, i) \<Rightarrow>
         if b then case gettoken l i of (_, _, _, i) \<Rightarrow>
                   obind (parseline n l i) (\<lambda>(d, i). Ok (LIST c d, i))
         else Ok (c, i))"
| "parsepipe 0 l i = Diverge"
| "parsepipe (Suc n) l i =
     obind (parseexec n l i) (\<lambda>(c, i).
       case peek l i ''|'' of (b, i) \<Rightarrow>
         if b then case gettoken l i of (_, _, _, i) \<Rightarrow>
                   obind (parsepipe n l i) (\<lambda>(d, i). Ok (PIPE c d, i))
         else Ok (c, i))"
| "parseexec 0 l i = Diverge"
| "parseexec (Suc n) l i =
     (case peek l i ''('' of (b, i) \<Rightarrow>
        if b then parseblock n l i
        else obind (parseredirs (EXEC []) l i) (\<lambda>(ret, i). exec_args ret 0 l i))"
| "parseblock 0 l i = Diverge"
| "parseblock (Suc n) l i =
     (case peek l i ''('' of (b, i) \<Rightarrow>
        if \<not> b then Panic ''parseblock''
        else case gettoken l i of (_, _, _, i) \<Rightarrow>
             obind (parseline n l i) (\<lambda>(c, i).
               case peek l i '')'' of (b, i) \<Rightarrow>
                 if \<not> b then Panic ''syntax - missing )''
                 else case gettoken l i of (_, _, _, i) \<Rightarrow> parseredirs c l i))"

text \<open>The buffer that \<open>nulterminate\<close> changes is the line with its final NUL.\<close>

fun nulterminate :: "cmd \<Rightarrow> string \<Rightarrow> string" where
  "nulterminate (EXEC as) buf = fold (\<lambda>(q, e) buf. buf[e := CHR 0x00]) as buf"
| "nulterminate (REDIR c f ef m fd) buf = (nulterminate c buf)[ef := CHR 0x00]"
| "nulterminate (PIPE c d) buf = nulterminate d (nulterminate c buf)"
| "nulterminate (LIST c d) buf = nulterminate d (nulterminate c buf)"
| "nulterminate (BACK c) buf = nulterminate c buf"

definition parsecmd :: "string \<Rightarrow> (cmd \<times> string) outcome" where
  "parsecmd l =
     obind (parseline (4 * length l + 4) l 0) (\<lambda>(c, i).
       case peek l i '''' of (_, i) \<Rightarrow>
         if i \<noteq> length l then Panic ''syntax'' else Ok (c, nulterminate c (l @ [CHR 0x00])))"

section \<open>Words\<close>

definition word_char :: "char \<Rightarrow> bool" where
  "word_char x = (x \<notin> set whitespace \<and> x \<notin> set sh_symbols \<and> x \<noteq> CHR 0x00)"

text \<open>A maximal stretch of word characters of the line.\<close>

definition is_word :: "string \<Rightarrow> nat \<times> nat \<Rightarrow> bool" where
  "is_word l = (\<lambda>(q, e). q < e \<and> e \<le> length l \<and> (\<forall>k. q \<le> k \<and> k < e \<longrightarrow> word_char (l ! k)) \<and> \<not> word_char (at l e))"

fun spans :: "cmd \<Rightarrow> (nat \<times> nat) set" where
  "spans (EXEC as) = set as"
| "spans (REDIR c f ef m fd) = insert (f, ef) (spans c)"
| "spans (PIPE c d) = spans c \<union> spans d"
| "spans (LIST c d) = spans c \<union> spans d"
| "spans (BACK c) = spans c"

definition sh_errors :: "string set" where
  "sh_errors = {''syntax'', ''syntax - missing )'', ''missing file for redirection'', ''too many args''}"

definition good :: "string \<Rightarrow> nat \<Rightarrow> (cmd \<times> nat) outcome \<Rightarrow> bool" where
  "good l i r =
     (case r of
        Ok (c, j) \<Rightarrow> i \<le> j \<and> j \<le> length l \<and> (\<forall>w \<in> spans c. is_word l w)
      | Panic m \<Rightarrow> m \<in> sh_errors
      | _ \<Rightarrow> False)"

lemma good_simps [simp]:
  "good l i (Ok (c, j)) = (i \<le> j \<and> j \<le> length l \<and> (\<forall>w \<in> spans c. is_word l w))" "good l i (Panic m) = (m \<in> sh_errors)"
  "\<not> good l i Diverge"
  by (simp_all add: good_def)

lemma sh_errors [simp]:
  "''syntax'' \<in> sh_errors" "''syntax - missing )'' \<in> sh_errors" "''missing file for redirection'' \<in> sh_errors"
  "''too many args'' \<in> sh_errors"
  by (simp_all add: sh_errors_def)

lemma good_mono: "good l k r \<Longrightarrow> i \<le> k \<Longrightarrow> good l i r"
  by (auto simp: good_def split: outcome.splits)

lemma good_obind:
  assumes "good l i r" "\<And>c j. i \<le> j \<Longrightarrow> j \<le> length l \<Longrightarrow> (\<forall>w \<in> spans c. is_word l w) \<Longrightarrow> good l i (f (c, j))"
  shows "good l i (obind r f)"
  using assms by (cases r) auto

lemma skip_word_chars:
  "(\<forall>k. i \<le> k \<and> k < skip_word l i \<longrightarrow> at l k \<notin> set whitespace \<and> at l k \<notin> set sh_symbols)
   \<and> \<not> (skip_word l i < length l \<and> at l (skip_word l i) \<notin> set whitespace \<and> at l (skip_word l i) \<notin> set sh_symbols)"
proof (induction l i rule: skip_word.induct)
  case (1 l i)
  show ?case
  proof (cases "i < length l \<and> at l i \<notin> set whitespace \<and> at l i \<notin> set sh_symbols")
    case True
    then have "skip_word l i = skip_word l (Suc i)" by (simp add: skip_word.simps [of l i])
    moreover have "k = i \<or> Suc i \<le> k" if "i \<le> k" for k using that by auto
    ultimately show ?thesis using 1 [OF True] True by metis
  next
    case False
    then have "skip_word l i = i" by (simp only: skip_word.simps [of l i] if_False)
    then show ?thesis using False by auto
  qed
qed

lemma gettoken_word:
  assumes "gettoken l i = (CHR ''a'', q, e, j)" "CHR 0x00 \<notin> set l" "i \<le> length l"
  shows "is_word l (q, e)"
proof -
  note b = gettoken_bounds [OF assms(1)]
  have q: "q = skip_white l i" "e = skip_word l q" using assms(1) by (auto simp: gettoken_def Let_def split: if_splits)
  have "at l k = l ! k" "l ! k \<noteq> CHR 0x00" if "k < e" for k
    using that b(5) [OF assms(3)] assms(2) by (auto simp: at_def in_set_conv_nth)
  then have "word_char (l ! k)" if "q \<le> k" "k < e" for k
    using skip_word_chars [of q l] that unfolding q(2) [symmetric] word_char_def by metis
  moreover have "\<not> word_char (at l e)"
    using skip_word_chars [of q l] unfolding q(2) [symmetric] by (auto simp: word_char_def at_def)
  ultimately show ?thesis using b(5) [OF assms(3)] b(6) by (simp add: is_word_def)
qed

section \<open>The parser returns\<close>

lemma redir_spans: "spans (redir tok c q e) \<subseteq> insert (q, e) (spans c)"
  by (auto simp: redir_def)

lemma add_arg_spans: "spans (add_arg q e c) \<subseteq> insert (q, e) (spans c)"
  by (induction c) auto

lemma parseredirs_good:
  assumes nul: "CHR 0x00 \<notin> set l" and "i \<le> length l" "\<forall>w \<in> spans c. is_word l w"
  shows "good l i (parseredirs c l i)"
  using assms(2,3)
proof (induction "length l - i" arbitrary: c i rule: less_induct)
  case less
  obtain b j where p: "peek l i ''<>'' = (b, j)" by (cases "peek l i ''<>''")
  obtain tok q1 e1 k where g1: "gettoken l j = (tok, q1, e1, k)" by (cases "gettoken l j")
  obtain t q e m where g2: "gettoken l k = (t, q, e, m)" by (cases "gettoken l k")
  have b: "i \<le> j" "j \<le> length l" "k \<le> length l" "i \<le> m" "m \<le> length l"
    using peek_bounds(1,2) [OF p] gettoken_bounds(1-4) [OF g1] gettoken_bounds(1-4) [OF g2] less.prems(1) by simp_all
  show ?case
  proof (cases "b \<and> t = CHR ''a''")
    case True
    then have st: "parseredirs c l i = parseredirs (redir tok c q e) l m"
      using p g1 g2 by (simp add: parseredirs.simps [of c l i])
    have "is_word l (q, e)" using gettoken_word [of l k q e m] g2 True nul b(3) by simp
    then have "\<forall>w \<in> spans (redir tok c q e). is_word l w" using redir_spans less.prems(2) by blast
    moreover have "length l - m < length l - i" using two_tokens p g1 g2 True by metis
    ultimately have "good l m (parseredirs (redir tok c q e) l m)" using less.hyps b(5) by blast
    then show ?thesis unfolding st using good_mono b(4) by blast
  qed (use p g1 g2 b less.prems in \<open>auto simp: parseredirs.simps [of c l i]\<close>)
qed

lemma back_loop_good:
  assumes "i \<le> length l" "\<forall>w \<in> spans c. is_word l w"
  shows "good l i (Ok (back_loop c l i))"
  using assms
proof (induction "length l - i" arbitrary: c i rule: less_induct)
  case less
  obtain b j where p: "peek l i ''&'' = (b, j)" by (cases "peek l i ''&''")
  obtain t q e k where g: "gettoken l j = (t, q, e, k)" by (cases "gettoken l j")
  have b: "i \<le> j" "j \<le> length l" "k \<le> length l" "i \<le> k"
    using peek_bounds(1,2) [OF p] gettoken_bounds(1-4) [OF g] less.prems(1) by simp_all
  show ?case
  proof (cases b)
    case True
    then have st: "back_loop c l i = back_loop (BACK c) l k" using p g by (simp add: back_loop.simps [of c l i])
    have "length l - k < length l - i" using one_token p g True by metis
    then have "good l k (Ok (back_loop (BACK c) l k))" using less b(3) by simp
    then show ?thesis unfolding st using good_mono b(4) by blast
  qed (use p b less.prems in \<open>simp add: back_loop.simps [of c l i]\<close>)
qed

lemma exec_args_good:
  assumes nul: "CHR 0x00 \<notin> set l" and "i \<le> length l" "\<forall>w \<in> spans c. is_word l w"
  shows "good l i (exec_args c argc l i)"
  using assms(2,3)
proof (induction "MAXARGS - argc" arbitrary: argc c i rule: less_induct)
  case less
  obtain b j where p: "peek l i ''|)&;'' = (b, j)" by (cases "peek l i ''|)&;''")
  obtain t q e k where g: "gettoken l j = (t, q, e, k)" by (cases "gettoken l j")
  have b: "i \<le> j" "j \<le> length l" "k \<le> length l" "i \<le> k"
    using peek_bounds(1,2) [OF p] gettoken_bounds(1-4) [OF g] less.prems(1) by simp_all
  show ?case
  proof (cases "\<not> b \<and> t = CHR ''a'' \<and> Suc argc < MAXARGS")
    case True
    then have st: "exec_args c argc l i = obind (parseredirs (add_arg q e c) l k) (\<lambda>(c, i). exec_args c (Suc argc) l i)"
      using p g by (simp add: exec_args.simps [of c argc l i])
    have "is_word l (q, e)" using gettoken_word [of l j q e k] g True nul b(2) by simp
    then have "\<forall>w \<in> spans (add_arg q e c). is_word l w" using add_arg_spans less.prems(2) by blast
    then have "good l k (parseredirs (add_arg q e c) l k)" by (rule parseredirs_good [OF nul b(3)])
    then have "good l k (exec_args c argc l i)"
      unfolding st
    proof (rule good_obind)
      fix d m assume "k \<le> m" "m \<le> length l" "\<forall>w \<in> spans d. is_word l w"
      then have "good l m (exec_args d (Suc argc) l m)" using less.hyps [of "Suc argc" m d] True diff_less_mono2 [of argc "Suc argc" MAXARGS] by simp
      then show "good l k (case (d, m) of (c, i) \<Rightarrow> exec_args c (Suc argc) l i)" using good_mono \<open>k \<le> m\<close> by simp
    qed
    then show ?thesis using good_mono b(4) by blast
  qed (use p g b less.prems in \<open>auto simp: exec_args.simps [of c argc l i]\<close>)
qed

text \<open>One step of each procedure; a recursive call is made with less of the line left.\<close>

lemma parseline_good:
  assumes "good l i (parsepipe n l i)"
    and IH: "\<And>u. u \<le> length l \<Longrightarrow> length l - u < length l - i \<Longrightarrow> good l u (parseline n l u)"
  shows "good l i (parseline (Suc n) l i)"
  unfolding parseline.simps
proof (rule good_obind [OF assms(1)])
  fix c j assume j: "i \<le> j" "j \<le> length l" "\<forall>w \<in> spans c. is_word l w"
  obtain d k where b: "back_loop c l j = (d, k)" by (cases "back_loop c l j")
  with back_loop_good [OF j(2,3)] have k: "j \<le> k" "k \<le> length l" "\<forall>w \<in> spans d. is_word l w" by simp_all
  obtain p m where p: "peek l k '';'' = (p, m)" by (cases "peek l k '';''")
  obtain t q e u where g: "gettoken l m = (t, q, e, u)" by (cases "gettoken l m")
  have m: "k \<le> m" "m \<le> length l" "m \<le> u" "u \<le> length l"
    using peek_bounds(1,2) [OF p] gettoken_bounds(1-4) [OF g] k(2) by simp_all
  show "good l i (case (c, j) of (c, i) \<Rightarrow> case back_loop c l i of (c, i) \<Rightarrow> case peek l i '';'' of (b, i) \<Rightarrow>
      if b then case gettoken l i of (_, _, _, i) \<Rightarrow> obind (parseline n l i) (\<lambda>(d, i). Ok (LIST c d, i)) else Ok (c, i))"
  proof (cases p)
    case True
    have "length l - u < length l - k" using one_token p g True by metis
    then have "good l u (parseline n l u)" using IH [of u] m j(1) k(1) by simp
    then have "good l u (obind (parseline n l u) (\<lambda>(d', i). Ok (LIST d d', i)))"
      by (rule good_obind) (use k(3) in auto)
    then have "good l i (obind (parseline n l u) (\<lambda>(d', i). Ok (LIST d d', i)))"
      by (rule good_mono) (use m j(1) k(1) in simp)
    then show ?thesis using True b p g by simp
  qed (use b p j(1) k m in simp)
qed

lemma parsepipe_good:
  assumes "good l i (parseexec n l i)"
    and IH: "\<And>u. u \<le> length l \<Longrightarrow> length l - u < length l - i \<Longrightarrow> good l u (parsepipe n l u)"
  shows "good l i (parsepipe (Suc n) l i)"
  unfolding parsepipe.simps
proof (rule good_obind [OF assms(1)])
  fix c k assume k: "i \<le> k" "k \<le> length l" "\<forall>w \<in> spans c. is_word l w"
  obtain p m where p: "peek l k ''|'' = (p, m)" by (cases "peek l k ''|''")
  obtain t q e u where g: "gettoken l m = (t, q, e, u)" by (cases "gettoken l m")
  have m: "k \<le> m" "m \<le> length l" "m \<le> u" "u \<le> length l"
    using peek_bounds(1,2) [OF p] gettoken_bounds(1-4) [OF g] k(2) by simp_all
  show "good l i (case (c, k) of (c, i) \<Rightarrow> case peek l i ''|'' of (b, i) \<Rightarrow>
      if b then case gettoken l i of (_, _, _, i) \<Rightarrow> obind (parsepipe n l i) (\<lambda>(d, i). Ok (PIPE c d, i)) else Ok (c, i))"
  proof (cases p)
    case True
    have "length l - u < length l - k" using one_token p g True by metis
    then have "good l u (parsepipe n l u)" using IH [of u] m k(1) by simp
    then have "good l u (obind (parsepipe n l u) (\<lambda>(d', i). Ok (PIPE c d', i)))"
      by (rule good_obind) (use k(3) in auto)
    then have "good l i (obind (parsepipe n l u) (\<lambda>(d', i). Ok (PIPE c d', i)))"
      by (rule good_mono) (use m k(1) in simp)
    then show ?thesis using True p g by simp
  qed (use p k m in simp)
qed

lemma parseexec_good:
  assumes nul: "CHR 0x00 \<notin> set l" and i: "i \<le> length l"
    and IH: "\<And>j. i \<le> j \<Longrightarrow> j \<le> length l \<Longrightarrow> fst (peek l j ''('') \<Longrightarrow> good l j (parseblock n l j)"
  shows "good l i (parseexec (Suc n) l i)"
proof -
  obtain p j where p: "peek l i ''('' = (p, j)" by (cases "peek l i ''(''")
  have j: "i \<le> j" "j \<le> length l" using peek_bounds(1,2) [OF p] i by simp_all
  have "good l j (obind (parseredirs (EXEC []) l j) (\<lambda>(ret, i). exec_args ret 0 l i))"
  proof (rule good_obind)
    show "good l j (parseredirs (EXEC []) l j)" by (rule parseredirs_good [OF nul j(2)]) simp
    fix c k assume "j \<le> k" "k \<le> length l" "\<forall>w \<in> spans c. is_word l w"
    then show "good l j (case (c, k) of (ret, i) \<Rightarrow> exec_args ret 0 l i)"
      using exec_args_good [OF nul, of k c 0] good_mono by simp
  qed
  moreover have "fst (peek l j ''('')" if p using that peek_bounds(3,4) [OF p] by (simp add: peek_def)
  ultimately show ?thesis using p good_mono [OF _ j(1)] IH [OF j] by simp
qed

lemma parseblock_good:
  assumes nul: "CHR 0x00 \<notin> set l" and i: "i \<le> length l" and pk: "fst (peek l i ''('')"
    and IH: "\<And>u. u \<le> length l \<Longrightarrow> length l - u < length l - i \<Longrightarrow> good l u (parseline n l u)"
  shows "good l i (parseblock (Suc n) l i)"
proof -
  obtain p j where p: "peek l i ''('' = (p, j)" by (cases "peek l i ''(''")
  obtain t q e k where g: "gettoken l j = (t, q, e, k)" by (cases "gettoken l j")
  have j: "i \<le> j" "j \<le> length l" "j \<le> k" "k \<le> length l"
    using peek_bounds(1,2) [OF p] gettoken_bounds(1-4) [OF g] i by simp_all
  let ?rest = "\<lambda>(c, i). case peek l i '')'' of (b, i) \<Rightarrow>
      if \<not> b then Panic ''syntax - missing )'' else case gettoken l i of (_, _, _, i) \<Rightarrow> parseredirs c l i"
  have pt: "p" using pk p by simp
  have "good l k (obind (parseline n l k) ?rest)"
  proof (rule good_obind)
    have "length l - k < length l - i" using one_token p g pt by metis
    then show "good l k (parseline n l k)" using IH [of k] j by simp
    fix c m assume m: "k \<le> m" "m \<le> length l" "\<forall>w \<in> spans c. is_word l w"
    obtain b u where b: "peek l m '')'' = (b, u)" by (cases "peek l m '')''")
    obtain t' q' e' v where h: "gettoken l u = (t', q', e', v)" by (cases "gettoken l u")
    have v: "k \<le> v" "v \<le> length l"
      using peek_bounds(1,2) [OF b] gettoken_bounds(1-4) [OF h] m by simp_all
    then have "good l k (parseredirs c l v)" using parseredirs_good [OF nul v(2) m(3)] good_mono by blast
    then show "good l k (?rest (c, m))" using b h by simp
  qed
  then have "good l i (obind (parseline n l k) ?rest)" by (rule good_mono) (use j in simp)
  then show ?thesis using p g pt by simp
qed

text \<open>Four units of fuel for every character that is left are enough.\<close>

lemma parse_good:
  assumes nul: "CHR 0x00 \<notin> set l" and "i \<le> length l"
  shows "4 * (length l - i) + 4 \<le> n \<Longrightarrow> good l i (parseline n l i)"
    "4 * (length l - i) + 3 \<le> n \<Longrightarrow> good l i (parsepipe n l i)"
    "4 * (length l - i) + 2 \<le> n \<Longrightarrow> good l i (parseexec n l i)"
    "4 * (length l - i) + 1 \<le> n \<Longrightarrow> fst (peek l i ''('') \<Longrightarrow> good l i (parseblock n l i)"
  using assms(2)
proof (induction n arbitrary: i)
  case (Suc n)
  {
    case 1
    then show ?case using Suc.IH(1,2) by (intro parseline_good) simp_all
  next
    case 2
    then show ?case using Suc.IH(2,3) by (intro parsepipe_good) simp_all
  next
    case 3
    then show ?case using Suc.IH(4) by (intro parseexec_good [OF nul]) simp_all
  next
    case 4
    then show ?case using Suc.IH(1) by (intro parseblock_good [OF nul]) simp_all
  }
qed auto

section \<open>NUL termination\<close>

lemma update_nth: "k < length xs \<Longrightarrow> xs[e := x] ! k = (if k = e then x else xs ! k)"
  by (cases "k = e") simp_all

lemma fold_nul:
  "length (fold (\<lambda>(q, e) buf. buf[e := CHR 0x00]) as buf) = length buf"
  "k < length buf \<Longrightarrow> fold (\<lambda>(q, e) buf. buf[e := CHR 0x00]) as buf ! k = (if k \<in> snd ` set as then CHR 0x00 else buf ! k)"
  by (induction as arbitrary: buf) (simp_all add: update_nth case_prod_beta)

lemma nulterminate_nth:
  "length (nulterminate c buf) = length buf"
  "k < length buf \<Longrightarrow> nulterminate c buf ! k = (if k \<in> snd ` spans c then CHR 0x00 else buf ! k)"
  by (induction c arbitrary: buf) (simp_all add: fold_nul update_nth image_Un)

definition cstr :: "string \<Rightarrow> nat \<Rightarrow> string" where
  "cstr buf q = takeWhile (\<lambda>x. x \<noteq> CHR 0x00) (drop q buf)"

lemma cstr_eqI:
  assumes "q \<le> e" "e < length buf" "buf ! e = CHR 0x00" "\<And>k. q \<le> k \<Longrightarrow> k < e \<Longrightarrow> buf ! k \<noteq> CHR 0x00"
  shows "cstr buf q = take (e - q) (drop q buf)"
proof -
  define a where a: "a = take (e - q) (drop q buf)"
  have "drop q buf = a @ CHR 0x00 # drop (Suc e) buf"
    using assms(1-3) unfolding a by (metis Cons_nth_drop_Suc append_take_drop_id drop_drop le_add_diff_inverse2)
  moreover have "x \<noteq> CHR 0x00" if "x \<in> set a" for x using that assms by (auto simp: a in_set_conv_nth)
  ultimately show ?thesis unfolding cstr_def a [symmetric] by (simp add: takeWhile_append2)
qed

lemma words_apart:
  assumes "is_word l (q, e)" "is_word l (p, f)" "CHR 0x00 \<notin> set l"
  shows "f < q \<or> e \<le> f"
proof (rule ccontr)
  assume "\<not> (f < q \<or> e \<le> f)"
  then have "word_char (l ! f)" "f < length l" using assms(1) by (auto simp: is_word_def)
  then show False using assms(2) by (simp add: is_word_def at_def)
qed

lemma nulterminate_string:
  assumes nul: "CHR 0x00 \<notin> set l" and w: "\<forall>w \<in> spans c. is_word l w" "(q, e) \<in> spans c"
  shows "cstr (nulterminate c (l @ [CHR 0x00])) q = take (e - q) (drop q l)"
proof -
  let ?b = "nulterminate c (l @ [CHR 0x00])"
  have qe: "q < e" "e \<le> length l" using w by (auto simp: is_word_def)
  have "?b ! e = CHR 0x00" using w(2) qe by (force simp: nulterminate_nth)
  moreover have k: "?b ! k = l ! k" "l ! k \<noteq> CHR 0x00" if "q \<le> k" "k < e" for k
  proof -
    have "k \<notin> snd ` spans c" using words_apart [OF _ _ nul] w that by fastforce
    then show "?b ! k = l ! k" using that qe by (simp add: nulterminate_nth nth_append)
    show "l ! k \<noteq> CHR 0x00" using nul that qe by (metis nth_mem order_less_le_trans)
  qed
  ultimately have "cstr ?b q = take (e - q) (drop q ?b)"
    using qe by (intro cstr_eqI) (simp_all add: nulterminate_nth(1))
  also have "\<dots> = take (e - q) (drop q l)"
    using qe k(1) by (intro nth_equalityI) (simp_all add: nulterminate_nth(1))
  finally show ?thesis .
qed

section \<open>Properties\<close>

text \<open>C25. The parser of the shell terminates on every line, with a command or one of its error
  messages, and the strings of the command are what they should be: after \<^verbatim>\<open>nulterminate\<close> has
  overwritten characters of the line, every argument and file name is, as a C string, exactly
  the maximal word of the line that it points to.\<close>

theorem parsecmd_strings:
  assumes "CHR 0x00 \<notin> set l"
  shows "case parsecmd l of
      Ok (c, buf) \<Rightarrow> \<forall>(q, e) \<in> spans c. is_word l (q, e) \<and> cstr buf q = take (e - q) (drop q l)
    | Panic m \<Rightarrow> m \<in> sh_errors
    | _ \<Rightarrow> False"
proof -
  have g: "good l 0 (parseline (4 * length l + 4) l 0)" using parse_good(1) [OF assms, of 0] by simp
  show ?thesis
  proof (cases "parseline (4 * length l + 4) l 0")
    case (Ok r)
    obtain c i where r: "r = (c, i)" by (cases r)
    then have w: "\<forall>w \<in> spans c. is_word l w" using g Ok by simp
    then show ?thesis using Ok r nulterminate_string [OF assms w] by (auto simp: parsecmd_def split: prod.splits)
  qed (use g in \<open>simp_all add: parsecmd_def good_def\<close>)
qed

theorem parsecmd_strings_witness:
  "case parsecmd ''ls a>b'' of
      Ok (c, buf) \<Rightarrow> \<forall>(q, e) \<in> spans c. is_word ''ls a>b'' (q, e) \<and> cstr buf q = take (e - q) (drop q ''ls a>b'')
    | Panic m \<Rightarrow> m \<in> sh_errors
    | _ \<Rightarrow> False"
  by (rule parsecmd_strings) simp

end
