(* ===== verification/Xv6_ShText.thy ===== *)
theory Xv6_ShText
  imports Xv6_Sh
begin

text \<open>
  The language of the shell: commands as trees of strings, how to write a command as a line,
  and the proof that the parser of \<open>Xv6_Sh\<close> reads every written command back.
\<close>

section \<open>Commands as text\<close>

datatype scmd =
    SExec "string list"
  | SRedir scmd string u32 nat
  | SPipe scmd scmd
  | SList scmd scmd
  | SBack scmd

fun ctext :: "string \<Rightarrow> cmd \<Rightarrow> scmd" where
  "ctext l (EXEC as) = SExec (map (\<lambda>(q, e). take (e - q) (drop q l)) as)"
| "ctext l (REDIR c q e m fd) = SRedir (ctext l c) (take (e - q) (drop q l)) m fd"
| "ctext l (PIPE c d) = SPipe (ctext l c) (ctext l d)"
| "ctext l (LIST c d) = SList (ctext l c) (ctext l d)"
| "ctext l (BACK c) = SBack (ctext l c)"

definition is_name :: "string \<Rightarrow> bool" where
  "is_name w = (w \<noteq> [] \<and> (\<forall>x \<in> set w. word_char x))"

definition modes :: "(u32 \<times> nat) set" where
  "modes = {(O_RDONLY, 0), (O_WRONLY OR O_CREATE OR O_TRUNC, 1), (O_WRONLY OR O_CREATE, 1)}"

fun wf_scmd :: "scmd \<Rightarrow> bool" where
  "wf_scmd (SExec as) = (length as < MAXARGS \<and> (\<forall>w \<in> set as. is_name w))"
| "wf_scmd (SRedir c f m fd) = (wf_scmd c \<and> is_name f \<and> (m, fd) \<in> modes)"
| "wf_scmd (SPipe c d) = (wf_scmd c \<and> wf_scmd d)"
| "wf_scmd (SList c d) = (wf_scmd c \<and> wf_scmd d)"
| "wf_scmd (SBack c) = wf_scmd c"

definition redir_text :: "u32 \<Rightarrow> string" where
  "redir_text m = (if m = O_RDONLY then ''<'' else if m = (O_WRONLY OR O_CREATE OR O_TRUNC) then ''>'' else ''>>'')"

definition spaced :: "string list \<Rightarrow> string" where
  "spaced as = concat (map (\<lambda>w. CHR '' '' # w) as)"

definition paren :: "bool \<Rightarrow> string \<Rightarrow> string" where
  "paren b s = (if b then ''('' @ s @ '')'' else s)"

text \<open>\<open>shw k c\<close> writes \<open>c\<close> where the grammar wants a line (\<open>k = 0\<close>), a part of a list (1), a pipeline (2) or
  a part of a pipeline (3), with parentheses if \<open>c\<close> is not of that form.\<close>

fun shw :: "nat \<Rightarrow> scmd \<Rightarrow> string" where
  "shw k (SExec as) = spaced as"
| "shw k (SRedir c f m fd) = shw 3 c @ redir_text m @ f"
| "shw k (SPipe c d) = paren (k > 2) (shw 3 c @ ''|'' @ shw 2 d)"
| "shw k (SBack c) = paren (k > 1) (shw 1 c @ ''&'')"
| "shw k (SList c d) = paren (k > 0) (shw 1 c @ '';'' @ shw 0 d)"

section \<open>What the parser sees\<close>

abbreviation white :: "char \<Rightarrow> bool" where
  "white x \<equiv> x \<in> set whitespace"

abbreviation strip :: "string \<Rightarrow> string" where
  "strip s \<equiv> dropWhile white s"

definition sees :: "string \<Rightarrow> nat \<Rightarrow> string \<Rightarrow> bool" where
  "sees l i s = (i \<le> length l \<and> strip (drop i l) = s)"

lemma drop_skip_white: "i \<le> length l \<Longrightarrow> drop (skip_white l i) l = strip (drop i l)"
proof (induction l i rule: skip_white.induct)
  case (1 l i)
  show ?case
  proof (cases "i < length l \<and> white (at l i)")
    case True
    then show ?thesis using 1(1) [OF True] by (simp add: skip_white.simps [of l i] Cons_nth_drop_Suc [symmetric] at_def)
  next
    case False
    then have "strip (drop i l) = drop i l"
      using 1(2) by (cases "i < length l") (auto simp: Cons_nth_drop_Suc [symmetric] at_def)
    then show ?thesis using False by (simp only: skip_white.simps [of l i] if_False)
  qed
qed

lemma strip_strip [simp]: "strip (strip s) = strip s"
  by (induction s) auto

lemma sees_strip: "sees l i s \<Longrightarrow> strip s = s"
  by (auto simp: sees_def)

lemma sees_skip:
  assumes "sees l i s"
  shows "drop (skip_white l i) l = s" "skip_white l i \<le> length l" "at l (skip_white l i) = (if s = [] then CHR 0x00 else hd s)"
    "sees l (skip_white l i) s"
proof -
  have i: "i \<le> length l" "strip (drop i l) = s" using assms by (simp_all add: sees_def)
  show d: "drop (skip_white l i) l = s" using drop_skip_white [OF i(1)] i(2) by simp
  show "skip_white l i \<le> length l" using skip_white_bounds(2) [OF i(1)] .
  show "at l (skip_white l i) = (if s = [] then CHR 0x00 else hd s)"
    using d by (auto simp: at_def hd_drop_conv_nth)
  show "sees l (skip_white l i) s" using d skip_white_bounds(2) [OF i(1)] sees_strip [OF assms] by (simp add: sees_def)
qed

lemma sees_peek:
  assumes "sees l i s" "CHR 0x00 \<notin> set l"
  shows "peek l i ts = (s \<noteq> [] \<and> hd s \<in> set ts, skip_white l i)"
proof -
  have "s \<noteq> [] \<Longrightarrow> hd s \<in> set l" using sees_skip(1) [OF assms(1)] by (metis hd_in_set in_set_dropD)
  then show ?thesis using assms(2) sees_skip(3) [OF assms(1)] by (auto simp: peek_def Let_def)
qed

lemma drop_Cons:
  assumes "drop q l = x # s"
  shows "q < length l" "at l q = x" "drop (Suc q) l = s" "sees l (skip_white l (Suc q)) (strip s)"
proof -
  show q: "q < length l" using assms by (metis drop_all list.discI not_le)
  then show "at l q = x" using assms by (metis at_def hd_drop_conv_nth list.sel(1))
  show s: "drop (Suc q) l = s" using assms by (metis drop_Suc list.sel(3) tl_drop)
  show "sees l (skip_white l (Suc q)) (strip s)"
    using drop_skip_white [of "Suc q" l] skip_white_bounds(2) [of "Suc q" l] q s by (simp add: sees_def)
qed

lemma sees_symbol:
  assumes "sees l i (x # s)" "x \<in> set ''|();&<''"
  obtains q e j where "gettoken l i = (x, q, e, j)" "sees l j (strip s)"
proof -
  note k = drop_Cons [OF sees_skip(1) [OF assms(1)]]
  have "gettoken l i = (x, skip_white l i, Suc (skip_white l i), skip_white l (Suc (skip_white l i)))"
    using assms(2) k(2) by (auto simp: gettoken_def Let_def)
  then show thesis using that k(4) by blast
qed

lemma sees_out:
  assumes "sees l i (CHR ''>'' # s)" "s \<noteq> []" "hd s \<noteq> CHR ''>''"
  obtains q e j where "gettoken l i = (CHR ''>'', q, e, j)" "sees l j (strip s)"
proof -
  note k = drop_Cons [OF sees_skip(1) [OF assms(1)]]
  have "at l (Suc (skip_white l i)) = hd s" using assms(2) drop_Cons(2) [of "Suc (skip_white l i)" l "hd s" "tl s"] k(3) by simp
  then have "gettoken l i = (CHR ''>'', skip_white l i, Suc (skip_white l i), skip_white l (Suc (skip_white l i)))"
    using assms(3) k(2) by (simp add: gettoken_def Let_def)
  then show thesis using that k(4) by blast
qed

lemma sees_append:
  assumes "sees l i (CHR ''>'' # CHR ''>'' # s)"
  obtains q e j where "gettoken l i = (CHR ''+'', q, e, j)" "sees l j (strip s)"
proof -
  note k = drop_Cons [OF sees_skip(1) [OF assms(1)]]
  note m = drop_Cons [OF k(3)]
  have "gettoken l i = (CHR ''+'', skip_white l i, Suc (Suc (skip_white l i)), skip_white l (Suc (Suc (skip_white l i))))"
    using k(2) m(2) by (simp add: gettoken_def Let_def)
  then show thesis using that m(4) by blast
qed

lemma skip_word_run:
  assumes "drop i l = w @ s" "\<forall>x \<in> set w. word_char x" "s = [] \<or> \<not> word_char (hd s)" "CHR 0x00 \<notin> set l"
  shows "skip_word l i = i + length w"
  using assms
proof (induction w arbitrary: i)
  case Nil
  have "\<not> (i < length l \<and> at l i \<notin> set whitespace \<and> at l i \<notin> set sh_symbols)"
  proof
    assume i: "i < length l \<and> at l i \<notin> set whitespace \<and> at l i \<notin> set sh_symbols"
    then have "l ! i = hd s" "s \<noteq> []" using Nil(1) by (auto simp: hd_drop_conv_nth [symmetric])
    moreover have "l ! i \<in> set l" using i by simp
    ultimately show False using i Nil(3,4) by (auto simp: word_char_def at_def)
  qed
  then show ?case by (simp only: skip_word.simps [of l i] if_False list.size add_0_right)
next
  case (Cons x w)
  have i: "i < length l" "l ! i = x" "drop (Suc i) l = w @ s"
    using Cons.prems(1) by (metis append_Cons drop_all list.discI not_le, metis append_Cons drop_all hd_drop_conv_nth list.discI list.sel(1) not_le,
      metis append_Cons drop_Suc list.sel(3) tl_drop)
  then have "skip_word l i = skip_word l (Suc i)"
    using Cons.prems(2) by (simp add: skip_word.simps [of l i] at_def word_char_def)
  then show ?case using Cons.IH [OF i(3)] Cons.prems by simp
qed

lemma sees_word:
  assumes "sees l i (w @ s)" "is_name w" "s = [] \<or> \<not> word_char (hd s)" "CHR 0x00 \<notin> set l"
  obtains q e j where "gettoken l i = (CHR ''a'', q, e, j)" "take (e - q) (drop q l) = w" "sees l j (strip s)"
proof -
  let ?q = "skip_white l i" let ?e = "?q + length w"
  note k = sees_skip [OF assms(1)]
  have w: "w \<noteq> []" "\<forall>x \<in> set w. word_char x" using assms(2) by (simp_all add: is_name_def)
  have e: "skip_word l ?q = ?e" using skip_word_run [OF k(1) w(2) assms(3,4)] .
  have hd: "word_char (at l ?q)" using k(3) w by (cases w) auto
  then have g: "gettoken l i = (CHR ''a'', ?q, ?e, skip_white l ?e)"
    using e by (auto simp: gettoken_def Let_def word_char_def sh_symbols_def)
  have "length l - ?q = length w + length s" using arg_cong [OF k(1), of length] by simp
  then have d: "?e \<le> length l" "drop ?e l = s" using k(2) arg_cong [OF k(1), of "drop (length w)"] by (simp_all add: add.commute)
  then have "sees l (skip_white l ?e) (strip s)"
    using drop_skip_white [of ?e l] skip_white_bounds(2) [of ?e l] by (simp add: sees_def)
  then show thesis using that [OF g] k(1) by simp
qed

section \<open>Redirections\<close>

abbreviation ended :: "string \<Rightarrow> bool" where
  "ended s \<equiv> s = [] \<or> \<not> word_char (hd s)"

lemma name_first:
  assumes "is_name w"
  shows "w @ s \<noteq> []" "hd (w @ s) = hd w" "word_char (hd w)" "strip (w @ s) = w @ s"
proof -
  obtain x w' where w: "w = x # w'" "word_char x" using assms by (cases w) (auto simp: is_name_def)
  then show "w @ s \<noteq> []" "hd (w @ s) = hd w" "word_char (hd w)" "strip (w @ s) = w @ s" by (auto simp: word_char_def)
qed

lemma word_char_plain: "word_char x \<Longrightarrow> x \<notin> set ''<|>&;()''"
  by (simp add: word_char_def sh_symbols_def)

lemma modes_distinct:
  "O_WRONLY OR O_CREATE OR O_TRUNC \<noteq> O_RDONLY" "O_WRONLY OR O_CREATE \<noteq> O_RDONLY"
  "O_WRONLY OR O_CREATE \<noteq> (O_WRONLY OR O_CREATE OR O_TRUNC)"
  by (simp_all add: O_RDONLY_def O_WRONLY_def O_CREATE_def O_TRUNC_def)

lemma sees_redir:
  assumes "sees l i (redir_text m @ f @ s)" "(m, fd) \<in> modes" "is_name f" "ended s" "CHR 0x00 \<notin> set l"
  obtains q e j where "parseredirs c l i = parseredirs (REDIR c q e m fd) l j"
    "take (e - q) (drop q l) = f" "sees l j (strip s)"
proof -
  let ?i = "skip_white l i"
  note f = name_first [OF assms(3)]
  have p: "peek l i ''<>'' = (True, ?i)"
    using sees_peek [OF assms(1,5)] by (simp add: redir_text_def)
  have i: "sees l ?i (redir_text m @ f @ s)" by (rule sees_skip(4) [OF assms(1)])
  have "\<exists>t q e j. gettoken l ?i = (t, q, e, j) \<and> sees l j (f @ s) \<and> (\<forall>q e. redir t c q e = REDIR c q e m fd)"
  proof -
    consider "m = O_RDONLY" "fd = 0" | "m = (O_WRONLY OR O_CREATE OR O_TRUNC)" "fd = 1" | "m = (O_WRONLY OR O_CREATE)" "fd = 1"
      using assms(2) by (auto simp: modes_def)
    then show ?thesis
    proof cases
      case 1
      then obtain q e j where "gettoken l ?i = (CHR ''<'', q, e, j)" "sees l j (strip (f @ s))"
        using sees_symbol [of l ?i "CHR ''<''" "f @ s"] i by (auto simp: redir_text_def)
      then show ?thesis using 1 f(4) by (simp add: redir_def)
    next
      case 2
      moreover have "hd f \<noteq> CHR ''>''" using word_char_plain [OF f(3)] by auto
      ultimately obtain q e j where "gettoken l ?i = (CHR ''>'', q, e, j)" "sees l j (strip (f @ s))"
        using sees_out [of l ?i "f @ s"] i f(1,2) by (auto simp: redir_text_def modes_distinct)
      then show ?thesis using 2 f(4) by (simp add: redir_def)
    next
      case 3
      then obtain q e j where "gettoken l ?i = (CHR ''+'', q, e, j)" "sees l j (strip (f @ s))"
        using sees_append [of l ?i "f @ s"] i by (auto simp: redir_text_def modes_distinct)
      then show ?thesis using 3 f(4) by (simp add: redir_def)
    qed
  qed
  then obtain t q1 e1 j1 where t: "gettoken l ?i = (t, q1, e1, j1)" "sees l j1 (f @ s)" "\<And>q e. redir t c q e = REDIR c q e m fd"
    by blast
  obtain q e j where w: "gettoken l j1 = (CHR ''a'', q, e, j)" "take (e - q) (drop q l) = f" "sees l j (strip s)"
    using sees_word [OF t(2) assms(3,4,5)] by blast
  then show thesis using that p t(1,3) by (simp add: parseredirs.simps [of c l i])
qed

definition redirs_text :: "(string \<times> u32 \<times> nat) list \<Rightarrow> string" where
  "redirs_text rs = concat (map (\<lambda>(f, m, fd). redir_text m @ f) rs)"

definition wraps :: "scmd \<Rightarrow> (string \<times> u32 \<times> nat) list \<Rightarrow> scmd" where
  "wraps c rs = foldl (\<lambda>c (f, m, fd). SRedir c f m fd) c rs"

fun good_redirs :: "(string \<times> u32 \<times> nat) list \<Rightarrow> bool" where
  "good_redirs [] = True"
| "good_redirs ((f, m, fd) # rs) = (is_name f \<and> (m, fd) \<in> modes \<and> good_redirs rs)"

text \<open>What follows a command: the end of the line or one of some symbols.\<close>

definition ends :: "string \<Rightarrow> string \<Rightarrow> bool" where
  "ends ts r = (r = [] \<or> hd r \<in> set ts)"

lemma ends_mono: "ends ts r \<Longrightarrow> set ts \<subseteq> set us \<Longrightarrow> ends us r"
  by (auto simp: ends_def)

lemma ends_stop:
  assumes "ends ''|)&;'' r"
  shows "ended r" "strip r = r"
  using assms by (cases r; auto simp: ends_def word_char_def sh_symbols_def whitespace_def)+

lemma redirs_first:
  assumes "ended r" "strip r = r"
  shows "ended (redirs_text rs @ r)" "strip (redirs_text rs @ r) = redirs_text rs @ r"
proof (atomize (full), cases rs)
  case Nil
  then show "ended (redirs_text rs @ r) \<and> strip (redirs_text rs @ r) = redirs_text rs @ r"
    using assms by (simp add: redirs_text_def)
next
  case (Cons x xs)
  then show "ended (redirs_text rs @ r) \<and> strip (redirs_text rs @ r) = redirs_text rs @ r"
    by (cases x) (simp add: redirs_text_def redir_text_def word_char_def sh_symbols_def whitespace_def)
qed

lemma parseredirs_none:
  assumes "sees l i s" "CHR 0x00 \<notin> set l" "s = [] \<or> hd s \<notin> set ''<>''"
  shows "parseredirs c l i = Ok (c, skip_white l i)"
  using sees_peek [OF assms(1,2), of "''<>''"] assms(3) by (simp add: parseredirs.simps [of c l i])

lemma parseredirs_text:
  assumes nul: "CHR 0x00 \<notin> set l" and r: "ends ''|)&;'' r" and "good_redirs rs" "sees l i (redirs_text rs @ r)"
  shows "\<exists>d j. parseredirs c l i = Ok (d, j) \<and> sees l j r \<and> ctext l d = wraps (ctext l c) rs"
  using assms(3,4)
proof (induction rs arbitrary: c i)
  case Nil
  then have "sees l i r" by (simp add: redirs_text_def)
  then show ?case
    using parseredirs_none [OF _ nul, of i r c] r sees_skip(4) [of l i r] by (auto simp: ends_def wraps_def)
next
  case (Cons x rs)
  obtain f m fd where x: "x = (f, m, fd)" by (cases x)
  note e = redirs_first [OF ends_stop [OF r], of rs]
  have "sees l i (redir_text m @ f @ redirs_text rs @ r)" "is_name f" "(m, fd) \<in> modes"
    using Cons.prems x by (simp_all add: redirs_text_def)
  then obtain q u j where j: "parseredirs c l i = parseredirs (REDIR c q u m fd) l j"
      "take (u - q) (drop q l) = f" "sees l j (redirs_text rs @ r)"
    using sees_redir [of l i m f "redirs_text rs @ r" fd c] e nul by metis
  then show ?case using Cons.IH [OF _ j(3), of "REDIR c q u m fd"] Cons.prems x by (simp add: wraps_def)
qed

section \<open>Arguments\<close>

fun sadd :: "string \<Rightarrow> scmd \<Rightarrow> scmd" where
  "sadd w (SExec as) = SExec (as @ [w])"
| "sadd w (SRedir c f m fd) = SRedir (sadd w c) f m fd"
| "sadd w c = c"

lemma ctext_add_arg: "ctext l (add_arg q e c) = sadd (take (e - q) (drop q l)) (ctext l c)"
  by (induction c) simp_all

lemma fold_sadd: "fold sadd as (SExec bs) = SExec (bs @ as)"
  by (induction as arbitrary: bs) simp_all

lemma exec_args_end:
  assumes nul: "CHR 0x00 \<notin> set l" and r: "ends ''|)&;'' r" "sees l i r"
  shows "\<exists>j. exec_args c argc l i = Ok (c, j) \<and> sees l j r"
proof (cases "r = []")
  case True
  let ?i = "skip_white l i"
  have "peek l i ''|)&;'' = (False, ?i)" using sees_peek [OF r(2) nul] True by simp
  moreover have "gettoken l ?i = (CHR 0x00, ?i, ?i, ?i)" using sees_skip(3) [OF r(2)] True by (simp add: gettoken_def Let_def)
  ultimately show ?thesis using sees_skip(4) [OF r(2)] by (simp add: exec_args.simps [of c argc l i])
next
  case False
  then have "peek l i ''|)&;'' = (True, skip_white l i)" using sees_peek [OF r(2) nul] r(1) by (simp add: ends_def)
  then show ?thesis using sees_skip(4) [OF r(2)] by (simp add: exec_args.simps [of c argc l i])
qed

lemma spaced_Cons:
  assumes "is_name w"
  shows "strip (spaced (w # ws) @ s) = w @ spaced ws @ s"
  using name_first(4) [OF assms, of "spaced ws @ s"] by (simp add: spaced_def whitespace_def)

lemma spaced_ended: "ended s \<Longrightarrow> ended (spaced ws @ s)"
  by (cases ws) (auto simp: spaced_def word_char_def whitespace_def)

lemma exec_args_text:
  assumes nul: "CHR 0x00 \<notin> set l" and r: "ends ''|)&;'' r" and "good_redirs rs"
    and "as = [] \<Longrightarrow> rs = []" "\<forall>w \<in> set as. is_name w" "argc + length as < MAXARGS"
    and "sees l i (strip (spaced as @ redirs_text rs @ r))"
  shows "\<exists>d j. exec_args c argc l i = Ok (d, j) \<and> sees l j r \<and> ctext l d = wraps (fold sadd as (ctext l c)) rs"
  using assms(4-)
proof (induction as arbitrary: c argc i)
  case Nil
  then show ?case
    using exec_args_end [OF nul r, of i c argc] ends_stop(2) [OF r] by (auto simp: spaced_def redirs_text_def wraps_def)
next
  case (Cons w ws)
  let ?s = "spaced ws @ redirs_text rs @ r"
  have w: "is_name w" using Cons.prems(2) by simp
  have i: "sees l i (w @ ?s)" using Cons.prems(4) spaced_Cons [OF w] by simp
  note f = name_first [OF w]
  have e: "ended ?s" using spaced_ended redirs_first(1) [OF ends_stop [OF r]] by blast
  have p: "peek l i ''|)&;'' = (False, skip_white l i)"
    using sees_peek [OF i nul, of "''|)&;''"] f(1,2) word_char_plain [OF f(3)] by simp
  obtain q u j where g: "gettoken l (skip_white l i) = (CHR ''a'', q, u, j)" "take (u - q) (drop q l) = w" "sees l j (strip ?s)"
    using sees_word [OF sees_skip(4) [OF i] w e nul] by blast
  let ?c = "add_arg q u c"
  have c: "ctext l ?c = sadd w (ctext l c)" by (simp add: ctext_add_arg g(2))
  have st: "exec_args c argc l i = obind (parseredirs ?c l j) (\<lambda>(d, i). exec_args d (Suc argc) l i)"
    using p g(1) Cons.prems(3) by (simp add: exec_args.simps [of c argc l i])
  show ?case
  proof (cases ws)
    case Nil
    then have "sees l j (redirs_text rs @ r)"
      using g(3) redirs_first(2) [OF ends_stop [OF r]] by (simp add: spaced_def)
    then obtain d k where d: "parseredirs ?c l j = Ok (d, k)" "sees l k r" "ctext l d = wraps (ctext l ?c) rs"
      using parseredirs_text [OF nul r assms(3)] by blast
    then show ?thesis using exec_args_end [OF nul r d(2), of d "Suc argc"] st Nil c by auto
  next
    case ws: (Cons w' ws')
    have w': "is_name w'" using Cons.prems(2) ws by simp
    have s: "strip ?s = w' @ spaced ws' @ redirs_text rs @ r" using spaced_Cons [OF w'] ws by simp
    note f' = name_first [OF w']
    have "parseredirs ?c l j = Ok (?c, skip_white l j)"
      using parseredirs_none [OF g(3) nul] f'(1,2) word_char_plain [OF f'(3)] unfolding s by simp
    moreover have "\<exists>d k. exec_args ?c (Suc argc) l (skip_white l j) = Ok (d, k) \<and> sees l k r
        \<and> ctext l d = wraps (fold sadd ws (ctext l ?c)) rs"
      using Cons.IH [of "Suc argc" "skip_white l j" ?c] Cons.prems ws sees_skip(4) [OF g(3)] by simp
    ultimately show ?thesis using st c by simp
  qed
qed

lemma parseexec_text:
  assumes nul: "CHR 0x00 \<notin> set l" and r: "ends ''|)&;'' r" and rs: "good_redirs rs"
    and as: "\<forall>w \<in> set as. is_name w" "length as < MAXARGS"
    and i: "sees l i (strip (spaced as @ redirs_text rs @ r))"
  shows "\<exists>d j. parseexec (Suc n) l i = Ok (d, j) \<and> sees l j r \<and> ctext l d = wraps (SExec as) rs"
proof (cases as)
  case Nil
  then have s: "sees l i (redirs_text rs @ r)" using i redirs_first(2) [OF ends_stop [OF r]] by (simp add: spaced_def)
  have "redirs_text rs @ r = [] \<or> hd (redirs_text rs @ r) \<noteq> CHR ''(''"
    using r by (cases rs) (auto simp: redirs_text_def redir_text_def ends_def split: if_splits)
  then have p: "peek l i ''('' = (False, skip_white l i)" using sees_peek [OF s nul] by simp
  obtain d j where d: "parseredirs (EXEC []) l (skip_white l i) = Ok (d, j)" "sees l j r" "ctext l d = wraps (SExec []) rs"
    using parseredirs_text [OF nul r rs sees_skip(4) [OF s], of "EXEC []"] by auto
  then show ?thesis using exec_args_end [OF nul r d(2), of d 0] p Nil by auto
next
  case (Cons w ws)
  have w: "is_name w" using as Cons by simp
  let ?s = "w @ spaced ws @ redirs_text rs @ r"
  have s: "sees l i ?s" using i spaced_Cons [OF w] Cons by simp
  note f = name_first [OF w]
  have p: "peek l i ''('' = (False, skip_white l i)" using sees_peek [OF s nul] f(1,2) word_char_plain [OF f(3)] by simp
  have "parseredirs (EXEC []) l (skip_white l i) = Ok (EXEC [], skip_white l i)"
    using parseredirs_none [OF sees_skip(4) [OF s] nul] f(1,2) word_char_plain [OF f(3)] by simp
  moreover have "sees l (skip_white l i) (strip (spaced as @ redirs_text rs @ r))"
    using sees_skip(4) [OF i] .
  ultimately show ?thesis
    using exec_args_text [OF nul r rs _ as(1), of 0 "skip_white l i" "EXEC []"] as(2) p Cons by (simp add: fold_sadd)
qed

section \<open>The levels of the grammar\<close>

definition reads_line :: "scmd \<Rightarrow> bool" where
  "reads_line c = (\<forall>l i r n. CHR 0x00 \<notin> set l \<longrightarrow> ends '')'' r \<longrightarrow> sees l i (strip (shw 0 c @ r)) \<longrightarrow>
     4 * length (shw 0 c @ r) + 4 \<le> n \<longrightarrow> (\<exists>d j. parseline n l i = Ok (d, j) \<and> sees l j r \<and> ctext l d = c))"

definition reads_back :: "scmd \<Rightarrow> bool" where
  "reads_back c = (\<forall>l i r n. CHR 0x00 \<notin> set l \<longrightarrow> ends '')&;'' r \<longrightarrow> sees l i (strip (shw 1 c @ r)) \<longrightarrow>
     4 * length (shw 1 c @ r) + 3 \<le> n \<longrightarrow>
     (\<exists>d j e k. parsepipe n l i = Ok (d, j) \<and> back_loop d l j = back_loop e l k \<and> sees l k r \<and> ctext l e = c))"

definition reads_pipe :: "scmd \<Rightarrow> bool" where
  "reads_pipe c = (\<forall>l i r n. CHR 0x00 \<notin> set l \<longrightarrow> ends '')&;'' r \<longrightarrow> sees l i (strip (shw 2 c @ r)) \<longrightarrow>
     4 * length (shw 2 c @ r) + 3 \<le> n \<longrightarrow> (\<exists>d j. parsepipe n l i = Ok (d, j) \<and> sees l j r \<and> ctext l d = c))"

definition reads_exec :: "scmd \<Rightarrow> bool" where
  "reads_exec c = (\<forall>l i r rs n. CHR 0x00 \<notin> set l \<longrightarrow> ends ''|)&;'' r \<longrightarrow> good_redirs rs \<longrightarrow>
     sees l i (strip (shw 3 c @ redirs_text rs @ r)) \<longrightarrow> 4 * length (shw 3 c @ redirs_text rs @ r) + 2 \<le> n \<longrightarrow>
     (\<exists>d j. parseexec n l i = Ok (d, j) \<and> sees l j r \<and> ctext l d = wraps c rs))"

lemma reads_exec_exec:
  assumes "\<forall>w \<in> set as. is_name w" "length as < MAXARGS"
  shows "reads_exec (SExec as)"
  unfolding reads_exec_def
proof (intro allI impI)
  fix l i r rs n
  assume a: "CHR 0x00 \<notin> set l" "ends ''|)&;'' r" "good_redirs rs" "sees l i (strip (shw 3 (SExec as) @ redirs_text rs @ r))"
    "4 * length (shw 3 (SExec as) @ redirs_text rs @ r) + 2 \<le> n"
  then obtain m where "n = Suc m" by (cases n) auto
  then show "\<exists>d j. parseexec n l i = Ok (d, j) \<and> sees l j r \<and> ctext l d = wraps (SExec as) rs"
    using parseexec_text [OF a(1-3) assms, of i m] a(4) by simp
qed

lemma reads_exec_redir:
  assumes "reads_exec c" "is_name f" "(m, fd) \<in> modes"
  shows "reads_exec (SRedir c f m fd)"
  unfolding reads_exec_def
proof (intro allI impI)
  fix l i r rs n
  assume a: "CHR 0x00 \<notin> set l" "ends ''|)&;'' r" "good_redirs rs"
    "sees l i (strip (shw 3 (SRedir c f m fd) @ redirs_text rs @ r))"
    "4 * length (shw 3 (SRedir c f m fd) @ redirs_text rs @ r) + 2 \<le> n"
  let ?rs = "(f, m, fd) # rs"
  have "redirs_text ?rs = redir_text m @ f @ redirs_text rs" "wraps c ?rs = wraps (SRedir c f m fd) rs"
    by (simp_all add: redirs_text_def wraps_def)
  moreover have "good_redirs ?rs" using a(3) assms(2,3) by simp
  ultimately show "\<exists>d j. parseexec n l i = Ok (d, j) \<and> sees l j r \<and> ctext l d = wraps (SRedir c f m fd) rs"
    using assms(1) [unfolded reads_exec_def, rule_format, of l r ?rs i n] a by simp
qed

lemma reads_exec_block:
  assumes "reads_line c" "shw 3 c = ''('' @ shw 0 c @ '')''"
  shows "reads_exec c"
  unfolding reads_exec_def
proof (intro allI impI)
  fix l i r rs n
  assume nul: "CHR 0x00 \<notin> set l" and r: "ends ''|)&;'' r" and rs: "good_redirs rs"
    and i: "sees l i (strip (shw 3 c @ redirs_text rs @ r))" and n: "4 * length (shw 3 c @ redirs_text rs @ r) + 2 \<le> n"
  let ?r = "'')'' @ redirs_text rs @ r" and ?i = "skip_white l i"
  obtain m where m: "n = Suc (Suc m)" "4 * length (shw 0 c @ ?r) + 4 \<le> m" using n assms(2) by (cases n; cases "n - 1") auto
  have s: "sees l i (CHR ''('' # shw 0 c @ ?r)" using i assms(2) by (simp add: whitespace_def)
  have p: "peek l i ''('' = (True, ?i)" "peek l ?i ''('' = (True, ?i)"
    using sees_peek [OF s nul] sees_peek [OF sees_skip(4) [OF s] nul] by simp_all
  obtain q e j where g: "gettoken l ?i = (CHR ''('', q, e, j)" "sees l j (strip (shw 0 c @ ?r))"
    using sees_symbol [OF sees_skip(4) [OF s]] by auto
  have "ends '')'' ?r" by (simp add: ends_def)
  then obtain d k where d: "parseline m l j = Ok (d, k)" "sees l k ?r" "ctext l d = c"
    using assms(1) [unfolded reads_line_def, rule_format, OF nul _ g(2) m(2)] by blast
  let ?k = "skip_white l k"
  have pk: "peek l k '')'' = (True, ?k)" using sees_peek [OF d(2) nul] by simp
  obtain q' e' u where u: "gettoken l ?k = (CHR '')'', q', e', u)" "sees l u (strip (redirs_text rs @ r))"
    using sees_symbol [of l ?k "CHR '')''" "redirs_text rs @ r"] sees_skip(4) [OF d(2)] by auto
  have "sees l u (redirs_text rs @ r)" using u(2) redirs_first(2) [OF ends_stop [OF r]] by simp
  then obtain f v where "parseredirs d l u = Ok (f, v)" "sees l v r" "ctext l f = wraps c rs"
    using parseredirs_text [OF nul r rs, of u d] d(3) by auto
  then show "\<exists>d j. parseexec n l i = Ok (d, j) \<and> sees l j r \<and> ctext l d = wraps c rs"
    using m(1) p g(1) d(1) pk u(1) by simp
qed

lemma reads_pipe_exec:
  assumes "reads_exec c" "shw 2 c = shw 3 c"
  shows "reads_pipe c"
  unfolding reads_pipe_def
proof (intro allI impI)
  fix l i r n
  assume nul: "CHR 0x00 \<notin> set l" and r: "ends '')&;'' r" and i: "sees l i (strip (shw 2 c @ r))"
    and n: "4 * length (shw 2 c @ r) + 3 \<le> n"
  obtain m where m: "n = Suc m" "4 * length (shw 3 c @ redirs_text [] @ r) + 2 \<le> m"
    using n assms(2) by (cases n) (auto simp: redirs_text_def)
  have "ends ''|)&;'' r" using r by (rule ends_mono) auto
  then obtain d j where d: "parseexec m l i = Ok (d, j)" "sees l j r" "ctext l d = c"
    using assms(1) [unfolded reads_exec_def, rule_format, of l r "[]" i m] nul m(2) i assms(2) by (auto simp: redirs_text_def wraps_def)
  have "peek l j ''|'' = (False, skip_white l j)" using sees_peek [OF d(2) nul] r by (auto simp: ends_def)
  then show "\<exists>d j. parsepipe n l i = Ok (d, j) \<and> sees l j r \<and> ctext l d = c"
    using m(1) d sees_skip(4) [OF d(2)] by simp
qed

lemma reads_pipe_pipe:
  assumes "reads_exec a" "reads_pipe b"
  shows "reads_pipe (SPipe a b)"
  unfolding reads_pipe_def
proof (intro allI impI)
  fix l i r n
  assume nul: "CHR 0x00 \<notin> set l" and r: "ends '')&;'' r" and i: "sees l i (strip (shw 2 (SPipe a b) @ r))"
    and n: "4 * length (shw 2 (SPipe a b) @ r) + 3 \<le> n"
  let ?r = "''|'' @ shw 2 b @ r"
  obtain m where m: "n = Suc m" "4 * length (shw 3 a @ redirs_text [] @ ?r) + 2 \<le> m" "4 * length (shw 2 b @ r) + 3 \<le> m"
    using n by (cases n) (auto simp: redirs_text_def paren_def)
  have "ends ''|)&;'' ?r" by (simp add: ends_def)
  then obtain d j where d: "parseexec m l i = Ok (d, j)" "sees l j ?r" "ctext l d = a"
    using assms(1) [unfolded reads_exec_def, rule_format, of l ?r "[]" i m] nul m(2) i by (auto simp: redirs_text_def wraps_def paren_def)
  let ?j = "skip_white l j"
  have p: "peek l j ''|'' = (True, ?j)" using sees_peek [OF d(2) nul] by simp
  obtain q e k where k: "gettoken l ?j = (CHR ''|'', q, e, k)" "sees l k (strip (shw 2 b @ r))"
    using sees_symbol [of l ?j "CHR ''|''" "shw 2 b @ r"] sees_skip(4) [OF d(2)] by auto
  obtain f u where "parsepipe m l k = Ok (f, u)" "sees l u r" "ctext l f = b"
    using assms(2) [unfolded reads_pipe_def, rule_format, OF nul r k(2) m(3)] by blast
  then show "\<exists>d j. parsepipe n l i = Ok (d, j) \<and> sees l j r \<and> ctext l d = SPipe a b"
    using m(1) d(1,3) p k(1) by simp
qed

lemma reads_back_pipe:
  assumes "reads_pipe c" "shw 1 c = shw 2 c"
  shows "reads_back c"
  using assms unfolding reads_back_def reads_pipe_def by metis

lemma reads_back_back:
  assumes "reads_back c"
  shows "reads_back (SBack c)"
  unfolding reads_back_def
proof (intro allI impI)
  fix l i r n
  assume nul: "CHR 0x00 \<notin> set l" and r: "ends '')&;'' r" and i: "sees l i (strip (shw 1 (SBack c) @ r))"
    and n: "4 * length (shw 1 (SBack c) @ r) + 3 \<le> n"
  obtain d j e k where d: "parsepipe n l i = Ok (d, j)" "back_loop d l j = back_loop e l k" "sees l k (''&'' @ r)" "ctext l e = c"
    using assms [unfolded reads_back_def, rule_format, of l "''&'' @ r" i n] nul i n by (auto simp: ends_def paren_def)
  let ?k = "skip_white l k"
  have p: "peek l k ''&'' = (True, ?k)" using sees_peek [OF d(3) nul] by simp
  obtain q u v where u: "gettoken l ?k = (CHR ''&'', q, u, v)" "sees l v (strip r)"
    using sees_symbol [of l ?k "CHR ''&''" r] sees_skip(4) [OF d(3)] by auto
  have "ends ''|)&;'' r" using r by (rule ends_mono) auto
  then have "sees l v r" using u(2) ends_stop(2) by simp
  moreover have "back_loop e l k = back_loop (BACK e) l v" using p u(1) by (simp add: back_loop.simps [of e l k])
  ultimately show "\<exists>d j e k. parsepipe n l i = Ok (d, j) \<and> back_loop d l j = back_loop e l k \<and> sees l k r \<and> ctext l e = SBack c"
    using d(1,2,4) ctext.simps(5) by metis
qed

lemma back_loop_end:
  assumes "sees l k r" "CHR 0x00 \<notin> set l" "ends '');'' r"
  shows "back_loop e l k = (e, skip_white l k)"
  using sees_peek [OF assms(1,2), of "''&''"] assms(3) by (auto simp: back_loop.simps [of e l k] ends_def)

lemma reads_line_back:
  assumes "reads_back c" "shw 0 c = shw 1 c"
  shows "reads_line c"
  unfolding reads_line_def
proof (intro allI impI)
  fix l i r n
  assume nul: "CHR 0x00 \<notin> set l" and r: "ends '')'' r" and i: "sees l i (strip (shw 0 c @ r))"
    and n: "4 * length (shw 0 c @ r) + 4 \<le> n"
  obtain m where m: "n = Suc m" "4 * length (shw 1 c @ r) + 3 \<le> m" using n assms(2) by (cases n) auto
  obtain d j e k where d: "parsepipe m l i = Ok (d, j)" "back_loop d l j = back_loop e l k" "sees l k r" "ctext l e = c"
    using assms(1) [unfolded reads_back_def, rule_format, of l r i m] nul r i m(2) assms(2) by (auto simp: ends_def)
  have b: "back_loop e l k = (e, skip_white l k)"
    by (rule back_loop_end [OF d(3) nul ends_mono [OF r]]) simp
  have "peek l (skip_white l k) '';'' = (False, skip_white l k)"
    using sees_peek [OF sees_skip(4) [OF d(3)] nul, of "'';''"] r by (auto simp: ends_def)
  then show "\<exists>d j. parseline n l i = Ok (d, j) \<and> sees l j r \<and> ctext l d = c"
    using m(1) d(1,2,4) b sees_skip(4) [OF d(3)] by simp
qed

lemma reads_line_list:
  assumes "reads_back a" "reads_line b"
  shows "reads_line (SList a b)"
  unfolding reads_line_def
proof (intro allI impI)
  fix l i r n
  assume nul: "CHR 0x00 \<notin> set l" and r: "ends '')'' r" and i: "sees l i (strip (shw 0 (SList a b) @ r))"
    and n: "4 * length (shw 0 (SList a b) @ r) + 4 \<le> n"
  let ?r = "'';'' @ shw 0 b @ r"
  obtain m where m: "n = Suc m" "4 * length (shw 1 a @ ?r) + 3 \<le> m" "4 * length (shw 0 b @ r) + 4 \<le> m"
    using n by (cases n) (auto simp: paren_def)
  obtain d j e k where d: "parsepipe m l i = Ok (d, j)" "back_loop d l j = back_loop e l k" "sees l k ?r" "ctext l e = a"
    using assms(1) [unfolded reads_back_def, rule_format, of l ?r i m] nul i m(2) by (auto simp: ends_def paren_def)
  let ?k = "skip_white l k"
  have b: "back_loop e l k = (e, ?k)" by (rule back_loop_end [OF d(3) nul]) (simp add: ends_def)
  have p: "peek l ?k '';'' = (True, ?k)" using sees_peek [OF sees_skip(4) [OF d(3)] nul, of "'';''"] by simp
  obtain q u v where u: "gettoken l ?k = (CHR '';'', q, u, v)" "sees l v (strip (shw 0 b @ r))"
    using sees_symbol [of l ?k "CHR '';''" "shw 0 b @ r"] sees_skip(4) [OF d(3)] by auto
  obtain f w where "parseline m l v = Ok (f, w)" "sees l w r" "ctext l f = b"
    using assms(2) [unfolded reads_line_def, rule_format, OF nul r u(2) m(3)] by blast
  then show "\<exists>d j. parseline n l i = Ok (d, j) \<and> sees l j r \<and> ctext l d = SList a b"
    using m(1) d(1,2,4) b p u(1) by simp
qed

lemma reads_all: "wf_scmd c \<Longrightarrow> reads_exec c \<and> reads_pipe c \<and> reads_back c \<and> reads_line c"
proof (induction c)
  case (SExec as)
  then have "reads_exec (SExec as)" by (intro reads_exec_exec) simp_all
  then show ?case using reads_pipe_exec reads_back_pipe reads_line_back by simp
next
  case (SRedir c f m fd)
  then have "reads_exec (SRedir c f m fd)" by (intro reads_exec_redir) simp_all
  then show ?case using reads_pipe_exec reads_back_pipe reads_line_back by simp
next
  case (SPipe a b)
  then have "reads_pipe (SPipe a b)" by (intro reads_pipe_pipe) simp_all
  then show ?case using reads_back_pipe reads_line_back reads_exec_block by (simp add: paren_def)
next
  case (SList a b)
  then have "reads_line (SList a b)" by (intro reads_line_list) simp_all
  then show ?case using reads_exec_block reads_pipe_exec reads_back_pipe by (simp add: paren_def)
next
  case (SBack c)
  then have "reads_back (SBack c)" by (intro reads_back_back) simp_all
  then show ?case using reads_line_back reads_exec_block reads_pipe_exec by (simp add: paren_def)
qed

section \<open>Properties\<close>

text \<open>The command as its user sees it, with the C strings that its pointers point to.\<close>

fun cstrings :: "string \<Rightarrow> cmd \<Rightarrow> scmd" where
  "cstrings buf (EXEC as) = SExec (map (\<lambda>(q, e). cstr buf q) as)"
| "cstrings buf (REDIR c q e m fd) = SRedir (cstrings buf c) (cstr buf q) m fd"
| "cstrings buf (PIPE c d) = SPipe (cstrings buf c) (cstrings buf d)"
| "cstrings buf (LIST c d) = SList (cstrings buf c) (cstrings buf d)"
| "cstrings buf (BACK c) = SBack (cstrings buf c)"

lemma cstrings_ctext: "\<forall>(q, e) \<in> spans c. cstr buf q = take (e - q) (drop q l) \<Longrightarrow> cstrings buf c = ctext l c"
  by (induction c) auto

lemma shw_nul: "wf_scmd c \<Longrightarrow> CHR 0x00 \<notin> set (shw k c)"
  by (induction c arbitrary: k) (auto simp: spaced_def paren_def redir_text_def is_name_def word_char_def)

text \<open>C24. The parser of the shell reads back every command: a command tree of any depth, with its
  redirections, pipelines, lists and background parts, written out with parentheses only where the
  grammar needs them, is parsed to the same tree, and the C strings in it are the original words.\<close>

theorem parsecmd_roundtrip:
  assumes "wf_scmd c"
  shows "\<exists>d buf. parsecmd (shw 0 c) = Ok (d, buf) \<and> cstrings buf d = c"
proof -
  let ?l = "shw 0 c"
  have nul: "CHR 0x00 \<notin> set ?l" by (rule shw_nul [OF assms])
  have "sees ?l 0 (strip (shw 0 c @ []))" by (simp add: sees_def)
  then obtain d j where d: "parseline (4 * length ?l + 4) ?l 0 = Ok (d, j)" "sees ?l j []" "ctext ?l d = c"
    using reads_all [OF assms, THEN conjunct2, THEN conjunct2, THEN conjunct2, unfolded reads_line_def, rule_format,
        of ?l "[]" 0 "4 * length ?l + 4"] nul by (auto simp: ends_def)
  have "\<forall>w \<in> spans d. is_word ?l w" using parse_good(1) [OF nul, of 0 "4 * length ?l + 4"] d(1) by simp
  then have "\<forall>(q, e) \<in> spans d. cstr (nulterminate d (?l @ [CHR 0x00])) q = take (e - q) (drop q ?l)"
    using nulterminate_string [OF nul] by blast
  then have "cstrings (nulterminate d (?l @ [CHR 0x00])) d = c" using cstrings_ctext d(3) by simp
  moreover have "skip_white ?l j = length ?l" using sees_skip(1,2) [OF d(2)] by simp
  ultimately show ?thesis using d(1) by (simp add: parsecmd_def peek_def Let_def)
qed

theorem parsecmd_roundtrip_witness:
  "\<exists>d buf. parsecmd '' a|( b>c; d)&'' = Ok (d, buf) \<and> cstrings buf d =
     SBack (SPipe (SExec [''a'']) (SList (SRedir (SExec [''b'']) ''c'' (O_WRONLY OR O_CREATE OR O_TRUNC) 1) (SExec [''d''])))"
proof -
  let ?c = "SBack (SPipe (SExec [''a'']) (SList (SRedir (SExec [''b'']) ''c'' (O_WRONLY OR O_CREATE OR O_TRUNC) 1) (SExec [''d''])))"
  have "wf_scmd ?c" by (simp add: MAXARGS_def is_name_def word_char_def whitespace_def sh_symbols_def modes_def)
  moreover have "shw 0 ?c = '' a|( b>c; d)&''" by (simp add: paren_def spaced_def redir_text_def modes_distinct)
  ultimately show ?thesis using parsecmd_roundtrip [of ?c] by simp
qed

end
