(* ===== verification/Spec2Isabelle.thy ===== *)
theory Spec2Isabelle
  imports Xv6_String Xv6_Lock Xv6_Kalloc Xv6_Bio Xv6_Log Xv6_Vm Xv6_Huffman Xv6_Proc Xv6_Pipe Xv6_Printf Xv6_Console Xv6_Trap Xv6_Mount Xv6_VirtioInv Xv6_Grep Xv6_Rle Xv6_ShText
begin

text \<open>
  A verification development for the xv6 kernel of this repository (a RISC-V teaching
  operating system, extended here with process-information system calls and with file
  compression).
\<close>

section \<open>Properties that span components\<close>



end
